(* ===== verification/Prelude.thy ===== *)
theory Prelude
  imports Main
begin

text \<open>
  Vocabulary shared by every component: the outcome of a C call, bounded
  search loops, and the generic list lemmas the components use.

  A C function returns, or ends the program through the \<open>ABORT\<close> macro of
  \<open>src/errwarn.h\<close>, or fails an \<open>assert\<close>, or accesses memory outside
  an array, or touches a buffer a pending MPI operation owns.  Each of these is a constructor of \<open>res\<close>, so that every one of
  them is visible in the model.  Diagnostics (\<open>ERROR\<close>, \<open>WARNING\<close>,
  \<open>INFO\<close>, \<open>DEBUG\<close>) only write to stderr and are left out of the
  state of the components.
\<close>

named_theorems res_simps \<open>evaluation of outcomes\<close>
named_theorems take_simps \<open>prefixes of arrays with a fill count\<close>

subsection \<open>Error codes and outcomes\<close>

datatype error_code =
    E_OK | E_HELP | E_EOF | E_MEM | E_MPI | E_LNF | E_INTERNAL | E_ARG | E_PATH | E_BFINDEX

datatype 'a res = Ret 'a | Abort error_code | Assert_Fail | Out_Of_Bounds | Data_Race

fun res_bind :: "'a res \<Rightarrow> ('a \<Rightarrow> 'b res) \<Rightarrow> 'b res" where
  "res_bind (Ret x) f = f x"
| "res_bind (Abort e) f = Abort e"
| "res_bind Assert_Fail f = Assert_Fail"
| "res_bind Out_Of_Bounds f = Out_Of_Bounds"
| "res_bind Data_Race f = Data_Race"

definition assert_then :: "bool \<Rightarrow> 'a res \<Rightarrow> 'a res" where
  "assert_then b k = (if b then k else Assert_Fail)"

definition abort_if :: "bool \<Rightarrow> error_code \<Rightarrow> 'a res \<Rightarrow> 'a res" where
  "abort_if b e k = (if b then Abort e else k)"

lemma map_res_Ret: "map_res f m = Ret y \<longleftrightarrow> (\<exists>x. m = Ret x \<and> f x = y)"
  by (cases m) auto

lemma res_bind_Ret [res_simps]:
  "res_bind m f = Ret y \<longleftrightarrow> (\<exists>x. m = Ret x \<and> f x = Ret y)"
  by (cases m) auto

lemma assert_then_Ret [res_simps]: "assert_then b k = Ret y \<longleftrightarrow> b \<and> k = Ret y"
  by (simp add: assert_then_def)

lemma assert_then_True [simp]: "b \<Longrightarrow> assert_then b k = k"
  by (simp add: assert_then_def)

lemma abort_if_Ret [res_simps]: "abort_if b e k = Ret y \<longleftrightarrow> \<not> b \<and> k = Ret y"
  by (simp add: abort_if_def)

lemma abort_if_False [simp]: "\<not> b \<Longrightarrow> abort_if b e k = k"
  by (simp add: abort_if_def)

lemma res_bind_assoc: "res_bind (res_bind m f) g = res_bind m (\<lambda>x. res_bind (f x) g)"
  by (cases m) auto

text \<open>\<open>for (i = lo; i < hi; i++)\<close> with an early return at the first hit.\<close>

function find_from :: "(nat \<Rightarrow> bool) \<Rightarrow> nat \<Rightarrow> nat \<Rightarrow> nat option" where
  "find_from p lo hi =
     (if lo < hi then (if p lo then Some lo else find_from p (Suc lo) hi) else None)"
  by pat_completeness auto
termination
  by (relation "measure (\<lambda>(p, lo, hi). hi - lo)") auto

declare find_from.simps [simp del]

lemma find_from_cong [fundef_cong]:
  assumes "lo = lo'" and "hi = hi'" and "\<And>i. lo' \<le> i \<Longrightarrow> i < hi' \<Longrightarrow> p i = q i"
  shows "find_from p lo hi = find_from q lo' hi'"
proof -
  have "\<lbrakk>\<And>i. lo \<le> i \<Longrightarrow> i < hi \<Longrightarrow> p i = q i\<rbrakk> \<Longrightarrow> find_from p lo hi = find_from q lo hi"
  proof (induction p lo hi rule: find_from.induct)
    case (1 p lo hi)
    have "lo < hi \<Longrightarrow> \<not> p lo \<Longrightarrow> find_from p (Suc lo) hi = find_from q (Suc lo) hi"
      using "1.IH" "1.prems" by simp
    then show ?case
      using "1.prems"[of lo] by (simp add: find_from.simps[of p lo hi] find_from.simps[of q lo hi])
  qed
  then show ?thesis using assms by simp
qed

lemma find_from_None: "find_from p lo hi = None \<longleftrightarrow> (\<forall>i. lo \<le> i \<and> i < hi \<longrightarrow> \<not> p i)"
proof (induction p lo hi rule: find_from.induct)
  case (1 p lo hi)
  show ?case
  proof (cases "lo < hi \<and> \<not> p lo")
    case True
    then have "(\<forall>i. lo \<le> i \<and> i < hi \<longrightarrow> \<not> p i) \<longleftrightarrow> (\<forall>i. Suc lo \<le> i \<and> i < hi \<longrightarrow> \<not> p i)"
      by (metis Suc_leD Suc_leI le_neq_implies_less)
    with True "1.IH" show ?thesis by (simp add: find_from.simps[of p lo hi])
  next
    case False
    then show ?thesis by (auto simp: find_from.simps[of p lo hi])
  qed
qed

lemma find_from_Some: "find_from p lo hi = Some i \<Longrightarrow> lo \<le> i \<and> i < hi \<and> p i"
proof (induction p lo hi rule: find_from.induct)
  case (1 p lo hi)
  show ?case
  proof (cases "lo < hi \<and> \<not> p lo")
    case True
    with "1.prems" have "find_from p (Suc lo) hi = Some i"
      by (simp add: find_from.simps[of p lo hi])
    with "1.IH" True show ?thesis by force
  next
    case False
    with "1.prems" show ?thesis
      by (auto simp: find_from.simps[of p lo hi] split: if_splits)
  qed
qed

text \<open>A checking loop that returns \<open>false\<close> at the first entry that fails.\<close>

function all_from :: "(nat \<Rightarrow> bool res) \<Rightarrow> nat \<Rightarrow> nat \<Rightarrow> bool res" where
  "all_from p lo hi =
     (if lo < hi
      then res_bind (p lo) (\<lambda>b. if b then all_from p (Suc lo) hi else Ret False)
      else Ret True)"
  by pat_completeness auto
termination
  by (relation "measure (\<lambda>(p, lo, hi). hi - lo)") auto

declare all_from.simps [simp del]

lemma all_from_Ret:
  assumes "\<And>i. lo \<le> i \<Longrightarrow> i < hi \<Longrightarrow> p i = Ret (q i)"
  shows "all_from p lo hi = Ret (\<forall>i. lo \<le> i \<and> i < hi \<longrightarrow> q i)"
  using assms
proof (induction p lo hi rule: all_from.induct)
  case (1 p lo hi)
  show ?case
  proof (cases "lo < hi")
    case True
    with "1.prems" have p: "p lo = Ret (q lo)" by simp
    have split: "(\<forall>i. lo \<le> i \<and> i < hi \<longrightarrow> q i) \<longleftrightarrow> q lo \<and> (\<forall>i. Suc lo \<le> i \<and> i < hi \<longrightarrow> q i)"
      using True by (metis Suc_leD Suc_leI le_neq_implies_less order_refl)
    show ?thesis
    proof (cases "q lo")
      case True
      with \<open>lo < hi\<close> p "1.IH"[of True] "1.prems" split show ?thesis
        by (simp add: all_from.simps[of p lo hi])
    next
      case False
      with \<open>lo < hi\<close> p split show ?thesis by (simp add: all_from.simps[of p lo hi])
    qed
  next
    case False
    then show ?thesis by (auto simp: all_from.simps[of p lo hi])
  qed
qed

subsection \<open>Arrays with a fill count\<close>

text \<open>
  A fixed-size array of which the first \<open>n\<close> entries are in use is a list of
  the array's length and the number \<open>n\<close>; its contents are \<open>take n\<close>.
\<close>

lemma take_Suc_update [take_simps]:
  "n < length xs \<Longrightarrow> take (Suc n) (xs[n := x]) = take n xs @ [x]"
  by (simp add: take_Suc_conv_app_nth)

lemma nth_append_one [take_simps]:
  "i < Suc (length xs) \<Longrightarrow> (xs @ [x]) ! i = (if i < length xs then xs ! i else x)"
  by (simp add: nth_append)

lemma set_take_nth: "n \<le> length xs \<Longrightarrow> set (take n xs) = (!) xs ` {..<n}"
  by (auto simp: set_conv_nth image_def) (metis nth_take)

lemma all_set_take:
  "n \<le> length xs \<Longrightarrow> (\<forall>x\<in>set (take n xs). P x) \<longleftrightarrow> (\<forall>i<n. P (xs ! i))"
  by (auto simp: set_take_nth)

lemma sum_list_take_update [take_simps]:
  fixes f :: "'a \<Rightarrow> nat"
  shows "n < length xs \<Longrightarrow>
    sum_list (map f (take (Suc n) (xs[n := x]))) = sum_list (map f (take n xs)) + f x"
  by (simp add: take_Suc_update)

text \<open>A loop that walks a list and stops at the first element the body refuses.\<close>

fun each_res :: "('a \<Rightarrow> 's \<Rightarrow> 's res) \<Rightarrow> 'a list \<Rightarrow> 's \<Rightarrow> 's res" where
  "each_res f [] s = Ret s"
| "each_res f (x # xs) s = res_bind (f x s) (each_res f xs)"

lemma each_res_append: "each_res f (xs @ ys) s = res_bind (each_res f xs s) (each_res f ys)"
  proof (induction xs arbitrary: s)
  case Nil
  show ?case by simp
next
  case (Cons x xs)
  show ?case by (cases "f x s") (simp_all add: Cons.IH)
qed

lemma each_res_invariant:
  assumes step: "\<And>x s. x \<in> set xs \<Longrightarrow> P s \<Longrightarrow> \<exists>s'. f x s = Ret s' \<and> P s'"
    and init: "P s"
  shows "\<exists>s'. each_res f xs s = Ret s' \<and> P s'"
  using assms
proof (induction xs arbitrary: s)
  case Nil
  then show ?case by simp
next
  case (Cons x xs)
  then obtain s1 where "f x s = Ret s1" "P s1" by force
  with Cons show ?case by simp
qed

text \<open>
  A loop over a list whose body reports failure by \<open>false\<close>; the first
  failure ends the loop, with the state the body left.
\<close>

fun until_false :: "('a \<Rightarrow> 's \<Rightarrow> (bool \<times> 's) res) \<Rightarrow> 'a list \<Rightarrow> 's \<Rightarrow> (bool \<times> 's) res" where
  "until_false f [] s = Ret (True, s)"
| "until_false f (x # xs) s =
     res_bind (f x s) (\<lambda>(ok, s'). if ok then until_false f xs s' else Ret (False, s'))"

lemma until_false_invariant:
  assumes step: "\<And>x s. x \<in> set xs \<Longrightarrow> P s \<Longrightarrow> \<exists>b s'. f x s = Ret (b, s') \<and> P s'"
    and init: "P s"
  shows "\<exists>b s'. until_false f xs s = Ret (b, s') \<and> P s'"
  using assms
proof (induction xs arbitrary: s)
  case Nil
  then show ?case by auto
next
  case (Cons x xs)
  obtain b s1 where s1: "f x s = Ret (b, s1)" "P s1"
    using Cons.prems(1)[of x s] Cons.prems(2) by auto
  have "\<exists>b s'. until_false f xs s1 = Ret (b, s') \<and> P s'"
    using Cons.IH[OF _ s1(2)] Cons.prems(1) by simp
  with s1 show ?case by auto
qed

subsection \<open>Strings\<close>

text \<open>\<open>strchr\<close>: the text before the first occurrence, and the text after it.\<close>

fun split_at_char :: "char \<Rightarrow> string \<Rightarrow> (string \<times> string) option" where
  "split_at_char c [] = None"
| "split_at_char c (x # xs) =
     (if x = c then Some ([], xs)
      else map_option (\<lambda>(a, b). (x # a, b)) (split_at_char c xs))"

lemma split_at_char_Some:
  "split_at_char c s = Some (a, b) \<longleftrightarrow> s = a @ c # b \<and> c \<notin> set a"
proof (induction s arbitrary: a)
  case Nil
  show ?case by simp
next
  case (Cons x xs)
  show ?case by (cases a) (auto simp: Cons.IH)
qed

lemma split_at_char_None: "split_at_char c s = None \<longleftrightarrow> c \<notin> set s"
  by (induction s) auto

lemma split_at_char_append:
  "c \<notin> set a \<Longrightarrow> split_at_char c (a @ c # b) = Some (a, b)"
  by (simp add: split_at_char_Some)

lemma split_at_char_length: "split_at_char c s = Some (a, b) \<Longrightarrow> length b < length s"
  by (auto simp: split_at_char_Some)

text \<open>\<open>strtok_r\<close> with a string of delimiters: the maximal runs without a delimiter.\<close>

fun strtok_acc :: "string \<Rightarrow> string \<Rightarrow> string \<Rightarrow> string list" where
  "strtok_acc ds tok [] = (if tok = [] then [] else [rev tok])"
| "strtok_acc ds tok (c # cs) =
     (if c \<in> set ds
      then (if tok = [] then strtok_acc ds [] cs else rev tok # strtok_acc ds [] cs)
      else strtok_acc ds (c # tok) cs)"

definition strtok :: "string \<Rightarrow> string \<Rightarrow> string list" where
  "strtok ds s = strtok_acc ds [] s"

lemma strtok_acc_tokens:
  "t \<in> set (strtok_acc ds tok s) \<Longrightarrow> set tok \<inter> set ds = {} \<Longrightarrow> t \<noteq> [] \<and> set t \<inter> set ds = {}"
  by (induction ds tok s rule: strtok_acc.induct) (auto split: if_splits)

lemma strtok_tokens: "t \<in> set (strtok ds s) \<Longrightarrow> t \<noteq> [] \<and> set t \<inter> set ds = {}"
  unfolding strtok_def by (drule strtok_acc_tokens) simp_all

end
