(* ===== verification/Libnf.thy ===== *)
theory Libnf
  imports Prelude
begin

text \<open>
  The interface of libnf, the library that reads flow files.  It is not part
  of the repository, so its constants and query functions are a parameter
  \<open>L\<close> of every definition that uses them.  The predicate
  \<open>libnf_ok\<close> collects what the code relies on (the sources of the
  assumptions are the assertions of \<open>src/fields.c\<close> and the libnf manual);
  \<open>sample_libnf\<close> is a small concrete instance for the witnesses.
\<close>

datatype lnf_const =
    LNF_FLD_ZERO | LNF_FLD_TERM
  | LNF_FLD_FIRST | LNF_FLD_LAST | LNF_FLD_RECEIVED
  | LNF_FLD_DOCTETS | LNF_FLD_DPKTS | LNF_FLD_OUT_BYTES | LNF_FLD_OUT_PKTS | LNF_FLD_AGGR_FLOWS
  | LNF_FLD_TCP_FLAGS | LNF_FLD_PROT
  | LNF_FLD_SRCADDR | LNF_FLD_DSTADDR | LNF_FLD_SRCPORT | LNF_FLD_DSTPORT
  | LNF_FLD_BREC1 | LNF_FLD_CALC_DURATION | LNF_FLD_CALC_BPS | LNF_FLD_CALC_PPS | LNF_FLD_CALC_BPP
  | LNF_FLD_DPKTS_ALIAS | LNF_FLD_DSTADDR_ALIAS | LNF_FLD_PAIR_ADDR_ALIAS
  | LNF_AGGR_AUTO | LNF_AGGR_MIN | LNF_AGGR_MAX | LNF_AGGR_SUM | LNF_AGGR_OR | LNF_AGGR_KEY
  | LNF_SORT_NONE | LNF_SORT_ASC | LNF_SORT_DESC
  | LNF_TYPE_ADDR | LNF_TYPE_UINT8 | LNF_TYPE_UINT16 | LNF_TYPE_UINT32 | LNF_TYPE_UINT64
  | LNF_TYPE_DOUBLE | LNF_TYPE_MAC | LNF_TYPE_BASIC_RECORD1 | LNF_TYPE_STRING
  | LNF_ERR_OTHER

text \<open>
  \<open>lnf_fld_info\<close> fills a buffer and returns \<open>LNF_OK\<close> or an error; each query
  kind is a function of its own, \<open>None\<close> standing for an error return.
\<close>

record libnf =
  lnf :: "lnf_const \<Rightarrow> int"
  fld_info_type :: "int \<Rightarrow> int option"
  fld_info_size :: "int \<Rightarrow> int option"
  fld_info_aggr :: "int \<Rightarrow> int option"
  fld_info_sort :: "int \<Rightarrow> int option"
  fld_info_name :: "int \<Rightarrow> string option"
  lnf_fld_parse :: "string \<Rightarrow> int \<times> int \<times> int"

definition valid_id :: "libnf \<Rightarrow> int \<Rightarrow> bool" where
  "valid_id L fid \<longleftrightarrow> lnf L LNF_FLD_ZERO < fid \<and> fid < lnf L LNF_FLD_TERM"

definition is_alias :: "libnf \<Rightarrow> int \<Rightarrow> bool" where
  "is_alias L fid \<longleftrightarrow>
     (lnf L LNF_FLD_DPKTS_ALIAS \<le> fid \<and> fid \<le> lnf L LNF_FLD_DSTADDR_ALIAS)
     \<or> fid = lnf L LNF_FLD_PAIR_ADDR_ALIAS"

definition sort_dir_known :: "libnf \<Rightarrow> int \<Rightarrow> bool" where
  "sort_dir_known L d \<longleftrightarrow>
     d = lnf L LNF_SORT_NONE \<or> d = lnf L LNF_SORT_ASC \<or> d = lnf L LNF_SORT_DESC"

definition libnf_ok :: "libnf \<Rightarrow> bool" where
  "libnf_ok L \<longleftrightarrow>
     lnf L LNF_FLD_ZERO = 0 \<and> lnf L LNF_FLD_ZERO < lnf L LNF_FLD_TERM
   \<and> lnf L LNF_AGGR_MIN < lnf L LNF_AGGR_KEY
   \<and> lnf L LNF_FLD_DPKTS_ALIAS < lnf L LNF_FLD_DSTADDR_ALIAS
   \<and> lnf L LNF_FLD_CALC_BPS < lnf L LNF_FLD_CALC_BPP
   \<and> lnf L LNF_FLD_DOCTETS < lnf L LNF_FLD_AGGR_FLOWS
   \<and> distinct [lnf L LNF_SORT_NONE, lnf L LNF_SORT_ASC, lnf L LNF_SORT_DESC]
   \<and> (\<forall>fid. valid_id L fid \<longrightarrow>
        fld_info_type L fid \<noteq> None
      \<and> (\<exists>n. fld_info_size L fid = Some n \<and> 0 < n)
      \<and> (\<exists>a. fld_info_aggr L fid = Some a \<and> lnf L LNF_AGGR_MIN \<le> a \<and> a \<le> lnf L LNF_AGGR_KEY)
      \<and> (\<exists>d. fld_info_sort L fid = Some d \<and> sort_dir_known L d)
      \<and> (\<exists>s. fld_info_name L fid = Some s \<and> s \<noteq> []))"

lemma libnf_ok_consts:
  assumes "libnf_ok L"
  shows "lnf L LNF_FLD_ZERO = 0" "0 < lnf L LNF_FLD_TERM"
    "lnf L LNF_AGGR_MIN < lnf L LNF_AGGR_KEY" "lnf L LNF_FLD_CALC_BPS < lnf L LNF_FLD_CALC_BPP"
    "lnf L LNF_FLD_DPKTS_ALIAS < lnf L LNF_FLD_DSTADDR_ALIAS"
    "lnf L LNF_FLD_DOCTETS < lnf L LNF_FLD_AGGR_FLOWS"
    "lnf L LNF_SORT_NONE \<noteq> lnf L LNF_SORT_ASC" "lnf L LNF_SORT_NONE \<noteq> lnf L LNF_SORT_DESC"
    "lnf L LNF_SORT_ASC \<noteq> lnf L LNF_SORT_DESC"
  using assms by (auto simp: libnf_ok_def)

lemma libnf_ok_type: "libnf_ok L \<Longrightarrow> valid_id L fid \<Longrightarrow> \<exists>t. fld_info_type L fid = Some t"
  by (auto simp: libnf_ok_def)

lemma libnf_ok_size: "libnf_ok L \<Longrightarrow> valid_id L fid \<Longrightarrow> \<exists>n. fld_info_size L fid = Some n \<and> 0 < n"
  by (auto simp: libnf_ok_def)

lemma libnf_ok_aggr:
  "libnf_ok L \<Longrightarrow> valid_id L fid \<Longrightarrow>
   \<exists>a. fld_info_aggr L fid = Some a \<and> lnf L LNF_AGGR_MIN \<le> a \<and> a \<le> lnf L LNF_AGGR_KEY"
  by (auto simp: libnf_ok_def)

lemma libnf_ok_sort:
  "libnf_ok L \<Longrightarrow> valid_id L fid \<Longrightarrow> \<exists>d. fld_info_sort L fid = Some d \<and> sort_dir_known L d"
  by (auto simp: libnf_ok_def)

lemma libnf_ok_name:
  "libnf_ok L \<Longrightarrow> valid_id L fid \<Longrightarrow> \<exists>s. fld_info_name L fid = Some s \<and> s \<noteq> []"
  by (auto simp: libnf_ok_def)

text \<open>A concrete instance: field 1 is \<open>first\<close>, \<dots>, 8 is \<open>flows\<close>, 16 a source address.\<close>

fun sample_const :: "lnf_const \<Rightarrow> int" where
  "sample_const LNF_FLD_ZERO = 0"
| "sample_const LNF_FLD_TERM = 200"
| "sample_const LNF_FLD_FIRST = 1"
| "sample_const LNF_FLD_LAST = 2"
| "sample_const LNF_FLD_RECEIVED = 3"
| "sample_const LNF_FLD_DOCTETS = 4"
| "sample_const LNF_FLD_DPKTS = 5"
| "sample_const LNF_FLD_OUT_BYTES = 6"
| "sample_const LNF_FLD_OUT_PKTS = 7"
| "sample_const LNF_FLD_AGGR_FLOWS = 8"
| "sample_const LNF_FLD_TCP_FLAGS = 13"
| "sample_const LNF_FLD_PROT = 14"
| "sample_const LNF_FLD_SRCADDR = 16"
| "sample_const LNF_FLD_DSTADDR = 17"
| "sample_const LNF_FLD_SRCPORT = 18"
| "sample_const LNF_FLD_DSTPORT = 19"
| "sample_const LNF_FLD_BREC1 = 150"
| "sample_const LNF_FLD_CALC_DURATION = 160"
| "sample_const LNF_FLD_CALC_BPS = 161"
| "sample_const LNF_FLD_CALC_PPS = 162"
| "sample_const LNF_FLD_CALC_BPP = 163"
| "sample_const LNF_FLD_DPKTS_ALIAS = 170"
| "sample_const LNF_FLD_DSTADDR_ALIAS = 180"
| "sample_const LNF_FLD_PAIR_ADDR_ALIAS = 190"
| "sample_const LNF_AGGR_AUTO = 0"
| "sample_const LNF_AGGR_MIN = 1"
| "sample_const LNF_AGGR_MAX = 2"
| "sample_const LNF_AGGR_SUM = 3"
| "sample_const LNF_AGGR_OR = 4"
| "sample_const LNF_AGGR_KEY = 8"
| "sample_const LNF_SORT_NONE = 0"
| "sample_const LNF_SORT_ASC = 16"
| "sample_const LNF_SORT_DESC = 32"
| "sample_const LNF_TYPE_ADDR = 1"
| "sample_const LNF_TYPE_UINT8 = 2"
| "sample_const LNF_TYPE_UINT16 = 3"
| "sample_const LNF_TYPE_UINT32 = 4"
| "sample_const LNF_TYPE_UINT64 = 5"
| "sample_const LNF_TYPE_DOUBLE = 6"
| "sample_const LNF_TYPE_MAC = 7"
| "sample_const LNF_TYPE_BASIC_RECORD1 = 8"
| "sample_const LNF_TYPE_STRING = 9"
| "sample_const LNF_ERR_OTHER = -1"

definition sample_libnf :: libnf where
  "sample_libnf =
     \<lparr>lnf = sample_const,
      fld_info_type = (\<lambda>fid. Some (if fid = 16 then 1 else if fid \<in> {13, 14} then 2 else if fid \<in> {161, 162, 163} then 6 else 5)),
      fld_info_size = (\<lambda>fid. Some (if fid = 16 then 16 else if fid \<in> {13, 14} then 1 else 8)),
      fld_info_aggr = (\<lambda>fid. Some (if fid = 1 then 1 else if fid = 2 then 2
                               else if fid = 16 then 8 else 3)),
      fld_info_sort = (\<lambda>fid. Some (if fid = 16 then 0 else if fid = 1 then 16 else 32)),
      fld_info_name = (\<lambda>fid. Some (if fid = 16 then ''srcip'' else ''field'')),
      lnf_fld_parse = (\<lambda>s. case map_of
          [(''first'', 1), (''bytes'', 4), (''packets'', 5), (''flows'', 8), (''srcip'', 16),
           (''dstip'', 17), (''srcport'', 18), (''dstport'', 19), (''proto'', 14), (''flags'', 13),
           (''duration'', 160), (''bps'', 161), (''pps'', 162), (''bpp'', 163)] s of
         None \<Rightarrow> (0, 0, 0)
       | Some f \<Rightarrow> if f = 16 then (16, 32, 128) else (f, 0, 0))\<rparr>"

lemma sample_libnf_ok: "libnf_ok sample_libnf"
  by (simp add: libnf_ok_def sample_libnf_def valid_id_def sort_dir_known_def)

end
