(* ===== verification/Query_Fields.thy ===== *)
theory Query_Fields
  imports Libnf
begin

text \<open>
  \<open>src/fields.c\<close> and \<open>src/fields.h\<close>: the structure that collects the
  aggregation keys, the sort key and the output fields of a query, the
  operations that fill it, the check of its validity and the test for libnf's
  fast aggregation.  A pointer into the array \<open>all\<close> is an index
  (\<open>None\<close> is \<open>NULL\<close>); arrays have the fixed lengths of the header.
\<close>

subsection \<open>Data\<close>

record field =
  fld_id :: int
  fld_size :: nat

record aggr_key =
  ak_field :: "nat option"
  ak_alignment :: int
  ak_ipv6_alignment :: int

record sort_key_t =
  sk_field :: "nat option"
  sk_direction :: int
  sk_aggr_func :: int

record output_field =
  of_field :: "nat option"
  of_aggr_func :: int

record fields =
  all_flds :: "field list"
  all_cnt :: nat
  all_sizes_sum :: nat
  aggr_keys :: "aggr_key list"
  aggr_keys_cnt :: nat
  sort_key :: sort_key_t
  output_fields :: "output_field list"
  output_fields_cnt :: nat

definition AGGR_KEYS_MAX :: nat where "AGGR_KEYS_MAX = 10"
definition OUTPUT_FIELDS_MAX :: nat where "OUTPUT_FIELDS_MAX = 30"
definition ALL_FIELDS_MAX :: nat where "ALL_FIELDS_MAX = AGGR_KEYS_MAX + OUTPUT_FIELDS_MAX + 1"

definition IPV4_NETMASK_LEN_MAX :: int where "IPV4_NETMASK_LEN_MAX = 32"
definition IPV6_NETMASK_LEN_MAX :: int where "IPV6_NETMASK_LEN_MAX = 128"

text \<open>The zero-initialised structure (\<open>struct cmdline_args args = { .working_mode = \<dots> }\<close>).\<close>

definition empty_fields :: fields where
  "empty_fields =
     \<lparr>all_flds = replicate ALL_FIELDS_MAX \<lparr>fld_id = 0, fld_size = 0\<rparr>,
      all_cnt = 0, all_sizes_sum = 0,
      aggr_keys = replicate AGGR_KEYS_MAX
        \<lparr>ak_field = None, ak_alignment = 0, ak_ipv6_alignment = 0\<rparr>,
      aggr_keys_cnt = 0,
      sort_key = \<lparr>sk_field = None, sk_direction = 0, sk_aggr_func = 0\<rparr>,
      output_fields = replicate OUTPUT_FIELDS_MAX \<lparr>of_field = None, of_aggr_func = 0\<rparr>,
      output_fields_cnt = 0\<rparr>"

subsection \<open>Queries of libnf\<close>

text \<open>\<open>assert(IN_RANGE_EXCL(id, LNF_FLD_ZERO_, LNF_FLD_TERM_))\<close>, the first line of most functions.\<close>

definition assert_id :: "libnf \<Rightarrow> int \<Rightarrow> 'a res \<Rightarrow> 'a res" where
  "assert_id L fid k =
     assert_then (lnf L LNF_FLD_ZERO < lnf L LNF_FLD_TERM) (assert_then (valid_id L fid) k)"

definition in_range_incl :: "int \<Rightarrow> int \<Rightarrow> int \<Rightarrow> bool res" where
  "in_range_incl n lo hi = assert_then (lo < hi) (Ret (lo \<le> n \<and> n \<le> hi))"

definition lnf_info_ok :: "'a option \<Rightarrow> 'a res" where
  "lnf_info_ok r = (case r of None \<Rightarrow> Assert_Fail | Some x \<Rightarrow> Ret x)"

definition field_get_type :: "libnf \<Rightarrow> int \<Rightarrow> int res" where
  "field_get_type L fid = assert_id L fid (lnf_info_ok (fld_info_type L fid))"

definition field_get_size :: "libnf \<Rightarrow> int \<Rightarrow> nat res" where
  "field_get_size L fid =
     assert_id L fid
       (res_bind (lnf_info_ok (fld_info_size L fid)) (\<lambda>size.
        assert_then (size > 0) (Ret (nat size))))"

definition field_get_name :: "libnf \<Rightarrow> int \<Rightarrow> string res" where
  "field_get_name L fid =
     assert_id L fid
       (res_bind (lnf_info_ok (fld_info_name L fid)) (\<lambda>name_buff.
        assert_then (length name_buff > 0) (Ret name_buff)))"

definition field_get_aggr_func :: "libnf \<Rightarrow> int \<Rightarrow> int res" where
  "field_get_aggr_func L fid =
     assert_id L fid
       (res_bind (lnf_info_ok (fld_info_aggr L fid)) (\<lambda>aggr_func.
        res_bind (in_range_incl aggr_func (lnf L LNF_AGGR_MIN) (lnf L LNF_AGGR_KEY)) (\<lambda>ok.
        assert_then ok
          (Ret (if aggr_func = lnf L LNF_AGGR_KEY then lnf L LNF_AGGR_MIN else aggr_func)))))"

definition field_get_sort_dir :: "libnf \<Rightarrow> int \<Rightarrow> int res" where
  "field_get_sort_dir L fid =
     assert_id L fid
       (res_bind (lnf_info_ok (fld_info_sort L fid)) (\<lambda>direction.
        assert_then (direction = lnf L LNF_SORT_NONE \<or> direction = lnf L LNF_SORT_ASC
                     \<or> direction = lnf L LNF_SORT_DESC)
          (Ret direction)))"

text \<open>
  \<open>field_parse\<close>: \<open>None\<close> is the return value \<open>false\<close>, \<open>Some\<close> carries the
  three output variables.  The error message of the alias case asks for the
  name of the field.
\<close>

definition field_parse :: "libnf \<Rightarrow> string \<Rightarrow> (int \<times> int \<times> int) option res" where
  "field_parse L str =
     (case lnf_fld_parse L str of (id_in, alignment, ipv6_alignment) \<Rightarrow>
      if id_in = lnf L LNF_FLD_ZERO \<or> id_in = lnf L LNF_ERR_OTHER then Ret None
      else
        res_bind (in_range_incl id_in (lnf L LNF_FLD_DPKTS_ALIAS) (lnf L LNF_FLD_DSTADDR_ALIAS)) (\<lambda>al.
        if al \<or> id_in = lnf L LNF_FLD_PAIR_ADDR_ALIAS then Ret None
        else
          assert_then (alignment \<ge> 0 \<and> ipv6_alignment \<ge> 0)
            (res_bind (field_get_type L id_in) (\<lambda>type.
             if type = lnf L LNF_TYPE_ADDR then
               (if \<not> (0 \<le> alignment \<and> alignment \<le> IPV4_NETMASK_LEN_MAX) then Ret None
                else if \<not> (0 \<le> ipv6_alignment \<and> ipv6_alignment \<le> IPV6_NETMASK_LEN_MAX) then Ret None
                else Ret (Some (id_in, alignment, ipv6_alignment)))
             else Ret (Some (id_in, alignment, ipv6_alignment))))))"

subsection \<open>Lookup and insertion\<close>

definition get_from_all :: "libnf \<Rightarrow> fields \<Rightarrow> int \<Rightarrow> nat option res" where
  "get_from_all L fs fid =
     assert_id L fid (Ret (find_from (\<lambda>i. fld_id (all_flds fs ! i) = fid) 0 (all_cnt fs)))"

text \<open>The identifier a pointer into \<open>all\<close> leads to; the code dereferences it unchecked.\<close>

definition deref_id :: "fields \<Rightarrow> nat option \<Rightarrow> int" where
  "deref_id fs p = fld_id (all_flds fs ! the p)"

definition get_from_output :: "libnf \<Rightarrow> fields \<Rightarrow> int \<Rightarrow> nat option res" where
  "get_from_output L fs fid =
     assert_id L fid
       (Ret (find_from (\<lambda>i. deref_id fs (of_field (output_fields fs ! i)) = fid)
               0 (output_fields_cnt fs)))"

definition add_to_all :: "libnf \<Rightarrow> fields \<Rightarrow> int \<Rightarrow> (nat option \<times> fields) res" where
  "add_to_all L fs fid =
     assert_id L fid
      (res_bind (get_from_all L fs fid) (\<lambda>ret.
       assert_then (ret = None)
        (if all_cnt fs = ALL_FIELDS_MAX then Ret (None, fs)
         else
           assert_then (fld_id (all_flds fs ! all_cnt fs) = lnf L LNF_FLD_ZERO)
            (res_bind (field_get_size L fid) (\<lambda>size.
             Ret (Some (all_cnt fs),
                  fs\<lparr>all_flds := (all_flds fs)[all_cnt fs := \<lparr>fld_id = fid, fld_size = size\<rparr>],
                     all_sizes_sum := all_sizes_sum fs + size,
                     all_cnt := Suc (all_cnt fs)\<rparr>))))))"

definition fields_add_output_field :: "libnf \<Rightarrow> fields \<Rightarrow> int \<Rightarrow> (bool \<times> fields) res" where
  "fields_add_output_field L fs fid =
     assert_id L fid
      (if output_fields_cnt fs = OUTPUT_FIELDS_MAX then Ret (False, fs)
       else
         res_bind (get_from_all L fs fid) (\<lambda>present.
         if present \<noteq> None then Ret (True, fs)
         else
           res_bind (add_to_all L fs fid) (\<lambda>(new_field, fs1).
           if new_field = None then Ret (False, fs1)
           else
             assert_then (of_field (output_fields fs1 ! output_fields_cnt fs1) = None)
              (res_bind (field_get_aggr_func L fid) (\<lambda>af.
               Ret (True,
                    fs1\<lparr>output_fields := (output_fields fs1)[output_fields_cnt fs1 :=
                            \<lparr>of_field = new_field, of_aggr_func = af\<rparr>],
                        output_fields_cnt := Suc (output_fields_cnt fs1)\<rparr>))))))"

definition fields_add_aggr_key ::
  "libnf \<Rightarrow> fields \<Rightarrow> int \<Rightarrow> int \<Rightarrow> int \<Rightarrow> (bool \<times> fields) res" where
  "fields_add_aggr_key L fs fid alignment ipv6_alignment =
     assert_id L fid
      (if aggr_keys_cnt fs = AGGR_KEYS_MAX then Ret (False, fs)
       else
         res_bind (get_from_all L fs fid) (\<lambda>present.
         if present \<noteq> None then Ret (True, fs)
         else
           res_bind (in_range_incl fid (lnf L LNF_FLD_CALC_BPS) (lnf L LNF_FLD_CALC_BPP)) (\<lambda>calc.
           if calc \<or> fid = lnf L LNF_FLD_BREC1 then Ret (False, fs)
           else
             res_bind (add_to_all L fs fid) (\<lambda>(new_field, fs1).
             if new_field = None then Ret (False, fs1)
             else
               assert_then (ak_field (aggr_keys fs1 ! aggr_keys_cnt fs1) = None)
                (Ret (True,
                      fs1\<lparr>aggr_keys := (aggr_keys fs1)[aggr_keys_cnt fs1 :=
                              \<lparr>ak_field = new_field, ak_alignment = alignment,
                               ak_ipv6_alignment = ipv6_alignment\<rparr>],
                          aggr_keys_cnt := Suc (aggr_keys_cnt fs1)\<rparr>))))))"

definition fields_set_sort_key :: "libnf \<Rightarrow> fields \<Rightarrow> int \<Rightarrow> int \<Rightarrow> (bool \<times> fields) res" where
  "fields_set_sort_key L fs fid direction =
     assert_id L fid
      (assert_then (direction = lnf L LNF_SORT_NONE \<or> direction = lnf L LNF_SORT_ASC
                    \<or> direction = lnf L LNF_SORT_DESC)
       (res_bind (field_get_sort_dir L fid) (\<lambda>default_direction.
        if default_direction = lnf L LNF_SORT_NONE then Ret (False, fs)
        else
          res_bind (get_from_all L fs fid) (\<lambda>present.
          res_bind (if present = None then add_to_all L fs fid else Ret (present, fs)) (\<lambda>(new_field, fs1).
          if new_field = None then Ret (False, fs1)
          else
            assert_then (sk_field (sort_key fs1) = None)
             (res_bind (field_get_aggr_func L fid) (\<lambda>af.
              Ret (True,
                   fs1\<lparr>sort_key :=
                     \<lparr>sk_field = new_field,
                      sk_direction = (if direction = lnf L LNF_SORT_NONE
                                      then default_direction else direction),
                      sk_aggr_func = af\<rparr>\<rparr>))))))))"

subsection \<open>Fast aggregation and the validity check\<close>

definition fast_aggr_params :: "libnf \<Rightarrow> (int \<times> int) list" where
  "fast_aggr_params L =
     [(lnf L LNF_FLD_FIRST, lnf L LNF_AGGR_MIN), (lnf L LNF_FLD_LAST, lnf L LNF_AGGR_MAX),
      (lnf L LNF_FLD_DOCTETS, lnf L LNF_AGGR_SUM), (lnf L LNF_FLD_DPKTS, lnf L LNF_AGGR_SUM),
      (lnf L LNF_FLD_AGGR_FLOWS, lnf L LNF_AGGR_SUM)]"

definition fields_can_use_fast_aggr :: "libnf \<Rightarrow> fields \<Rightarrow> bool res" where
  "fields_can_use_fast_aggr L fs =
     (if output_fields_cnt fs \<noteq> length (fast_aggr_params L) then Ret False
      else
        all_from (\<lambda>i. case fast_aggr_params L ! i of (fid, af) \<Rightarrow>
            res_bind (get_from_output L fs fid) (\<lambda>outf.
            Ret (case outf of None \<Rightarrow> False
                 | Some k \<Rightarrow> of_aggr_func (output_fields fs ! k) = af)))
          0 (length (fast_aggr_params L)))"

definition check_aggr_keys :: "libnf \<Rightarrow> fields \<Rightarrow> bool res" where
  "check_aggr_keys L fs =
     (if aggr_keys_cnt fs > AGGR_KEYS_MAX then Ret False
      else all_from (\<lambda>i.
        let ak = aggr_keys fs ! i in
        if ak_field ak = None then Ret False
        else assert_then (lnf L LNF_FLD_ZERO < lnf L LNF_FLD_TERM)
          (Ret (valid_id L (deref_id fs (ak_field ak))
                \<and> \<not> ak_alignment ak < 0 \<and> \<not> ak_ipv6_alignment ak < 0)))
        0 (aggr_keys_cnt fs))"

definition check_sort_key :: "libnf \<Rightarrow> fields \<Rightarrow> bool res" where
  "check_sort_key L fs =
     (let sk = sort_key fs in
      if sk_field sk = None then Ret True
      else assert_then (lnf L LNF_FLD_ZERO < lnf L LNF_FLD_TERM)
        (if \<not> valid_id L (deref_id fs (sk_field sk))
            \<or> (sk_direction sk \<noteq> lnf L LNF_SORT_ASC \<and> sk_direction sk \<noteq> lnf L LNF_SORT_DESC)
         then Ret False
         else in_range_incl (sk_aggr_func sk) (lnf L LNF_AGGR_MIN) (lnf L LNF_AGGR_KEY)))"

definition check_output_fields :: "libnf \<Rightarrow> fields \<Rightarrow> bool res" where
  "check_output_fields L fs =
     (if output_fields_cnt fs > OUTPUT_FIELDS_MAX then Ret False
      else all_from (\<lambda>i.
        let outf = output_fields fs ! i in
        if of_field outf = None then Ret False
        else assert_then (lnf L LNF_FLD_ZERO < lnf L LNF_FLD_TERM)
          (if \<not> valid_id L (deref_id fs (of_field outf)) then Ret False
           else in_range_incl (of_aggr_func outf) (lnf L LNF_AGGR_MIN) (lnf L LNF_AGGR_KEY)))
        0 (output_fields_cnt fs))"

definition check_all_sizes :: "fields \<Rightarrow> bool res" where
  "check_all_sizes fs =
     (if all_cnt fs > ALL_FIELDS_MAX then Ret False
      else
        res_bind (all_from (\<lambda>i. Ret (fld_id (all_flds fs ! i) \<noteq> 0 \<and> fld_size (all_flds fs ! i) \<noteq> 0))
                    0 (all_cnt fs)) (\<lambda>ok.
        if \<not> ok then Ret False
        else Ret (sum_list (map fld_size (take (all_cnt fs) (all_flds fs))) = all_sizes_sum fs)))"

definition in_aggr_keys :: "fields \<Rightarrow> nat \<Rightarrow> bool" where
  "in_aggr_keys fs i \<longleftrightarrow>
     find_from (\<lambda>j. ak_field (aggr_keys fs ! j) = Some i) 0 (aggr_keys_cnt fs) \<noteq> None"

definition is_sort_key :: "fields \<Rightarrow> nat \<Rightarrow> bool" where
  "is_sort_key fs i \<longleftrightarrow> sk_field (sort_key fs) = Some i"

definition in_output_fields :: "fields \<Rightarrow> nat \<Rightarrow> bool" where
  "in_output_fields fs i \<longleftrightarrow>
     find_from (\<lambda>j. of_field (output_fields fs ! j) = Some i) 0 (output_fields_cnt fs) \<noteq> None"

definition check_roles :: "fields \<Rightarrow> bool res" where
  "check_roles fs =
     res_bind (all_from (\<lambda>i.
        assert_then (fld_id (all_flds fs ! i) \<noteq> 0)
         (if \<not> in_aggr_keys fs i \<and> \<not> is_sort_key fs i \<and> \<not> in_output_fields fs i then Ret False
          else if in_aggr_keys fs i \<and> in_output_fields fs i then Ret False
          else if is_sort_key fs i \<and> in_output_fields fs i then Ret False
          else Ret True))
        0 (all_cnt fs)) (\<lambda>ok.
     if \<not> ok then Ret False
     else all_from (\<lambda>i. Ret (fld_id (all_flds fs ! i) = 0)) (all_cnt fs) ALL_FIELDS_MAX)"

definition fields_check :: "libnf \<Rightarrow> fields \<Rightarrow> bool res" where
  "fields_check L fs =
     res_bind (check_aggr_keys L fs) (\<lambda>a. if \<not> a then Ret False else
     res_bind (check_sort_key L fs) (\<lambda>s. if \<not> s then Ret False else
     res_bind (check_output_fields L fs) (\<lambda>out. if \<not> out then Ret False else
     res_bind (check_all_sizes fs) (\<lambda>sz. if \<not> sz then Ret False else
     check_roles fs))))"

subsection \<open>The invariant\<close>

text \<open>
  \<open>all_inv\<close> speaks of the array \<open>all\<close>, \<open>role_inv\<close> of the three kinds of
  pointers into it: every entry of \<open>all\<close> is an aggregation key, the sort key
  or an output field, and an output field is nothing else.
\<close>

definition aggr_ptrs :: "fields \<Rightarrow> nat option list" where
  "aggr_ptrs fs = map ak_field (take (aggr_keys_cnt fs) (aggr_keys fs))"

definition out_ptrs :: "fields \<Rightarrow> nat option list" where
  "out_ptrs fs = map of_field (take (output_fields_cnt fs) (output_fields fs))"

definition sort_ptrs :: "fields \<Rightarrow> nat option set" where
  "sort_ptrs fs = {sk_field (sort_key fs)} - {None}"

definition all_inv :: "libnf \<Rightarrow> fields \<Rightarrow> bool" where
  "all_inv L fs \<longleftrightarrow>
     length (all_flds fs) = ALL_FIELDS_MAX \<and> all_cnt fs \<le> ALL_FIELDS_MAX
   \<and> (\<forall>i<all_cnt fs. valid_id L (fld_id (all_flds fs ! i)) \<and> 0 < fld_size (all_flds fs ! i)
        \<and> field_get_size L (fld_id (all_flds fs ! i)) = Ret (fld_size (all_flds fs ! i)))
   \<and> (\<forall>i. all_cnt fs \<le> i \<longrightarrow> i < ALL_FIELDS_MAX \<longrightarrow> fld_id (all_flds fs ! i) = 0)
   \<and> distinct (map fld_id (take (all_cnt fs) (all_flds fs)))
   \<and> all_sizes_sum fs = sum_list (map fld_size (take (all_cnt fs) (all_flds fs)))"

definition aggr_func_ok :: "libnf \<Rightarrow> int \<Rightarrow> bool" where
  "aggr_func_ok L a \<longleftrightarrow> lnf L LNF_AGGR_MIN \<le> a \<and> a \<le> lnf L LNF_AGGR_KEY"

definition role_inv :: "libnf \<Rightarrow> fields \<Rightarrow> bool" where
  "role_inv L fs \<longleftrightarrow>
     length (aggr_keys fs) = AGGR_KEYS_MAX \<and> aggr_keys_cnt fs \<le> AGGR_KEYS_MAX
   \<and> length (output_fields fs) = OUTPUT_FIELDS_MAX \<and> output_fields_cnt fs \<le> OUTPUT_FIELDS_MAX
   \<and> (\<forall>i. aggr_keys_cnt fs \<le> i \<longrightarrow> i < AGGR_KEYS_MAX \<longrightarrow> ak_field (aggr_keys fs ! i) = None)
   \<and> (\<forall>i. output_fields_cnt fs \<le> i \<longrightarrow> i < OUTPUT_FIELDS_MAX \<longrightarrow>
        of_field (output_fields fs ! i) = None)
   \<and> (\<forall>i<aggr_keys_cnt fs. 0 \<le> ak_alignment (aggr_keys fs ! i)
        \<and> 0 \<le> ak_ipv6_alignment (aggr_keys fs ! i))
   \<and> (\<forall>i<output_fields_cnt fs. aggr_func_ok L (of_aggr_func (output_fields fs ! i)))
   \<and> (sk_field (sort_key fs) \<noteq> None \<longrightarrow>
        sk_direction (sort_key fs) \<in> {lnf L LNF_SORT_ASC, lnf L LNF_SORT_DESC}
        \<and> aggr_func_ok L (sk_aggr_func (sort_key fs)))"

definition ptr_inv :: "fields \<Rightarrow> bool" where
  "ptr_inv fs \<longleftrightarrow>
     set (aggr_ptrs fs) \<union> sort_ptrs fs \<union> set (out_ptrs fs) = Some ` {..<all_cnt fs}
   \<and> distinct (aggr_ptrs fs) \<and> distinct (out_ptrs fs)
   \<and> (set (aggr_ptrs fs) \<union> sort_ptrs fs) \<inter> set (out_ptrs fs) = {}"

text \<open>
  The columns of the output: the aggregation keys, the sort key unless it is one of them, the output
  fields.  They are in the order of \<open>all\<close> when the fields were added role by role.
\<close>

definition column_ptrs :: "fields \<Rightarrow> nat option list" where
  "column_ptrs fs =
     aggr_ptrs fs
     @ (let p = sk_field (sort_key fs) in if p = None \<or> p \<in> set (aggr_ptrs fs) then [] else [p])
     @ out_ptrs fs"

definition columns_ordered :: "fields \<Rightarrow> bool" where
  "columns_ordered fs \<longleftrightarrow> column_ptrs fs = map Some [0..<all_cnt fs]"

definition fields_inv :: "libnf \<Rightarrow> fields \<Rightarrow> bool" where
  "fields_inv L fs \<longleftrightarrow> all_inv L fs \<and> role_inv L fs \<and> ptr_inv fs"

lemmas max_defs = ALL_FIELDS_MAX_def AGGR_KEYS_MAX_def OUTPUT_FIELDS_MAX_def

lemma empty_fields_inv: "fields_inv L empty_fields"
  by (simp add: fields_inv_def all_inv_def role_inv_def ptr_inv_def empty_fields_def
      aggr_ptrs_def out_ptrs_def sort_ptrs_def)

text \<open>How many entries are in use: the array \<open>all\<close> can never be the one that overflows.\<close>

lemma ptr_inv_count:
  assumes "ptr_inv fs" and "role_inv L fs"
  shows "all_cnt fs \<le> aggr_keys_cnt fs + output_fields_cnt fs
           + (if sk_field (sort_key fs) = None then 0 else 1)"
proof -
  have "all_cnt fs = card (Some ` {..<all_cnt fs})"
    by (simp add: card_image)
  also have "\<dots> = card (set (aggr_ptrs fs) \<union> sort_ptrs fs \<union> set (out_ptrs fs))"
    using assms by (simp add: ptr_inv_def)
  also have "\<dots> \<le> card (set (aggr_ptrs fs)) + card (sort_ptrs fs) + card (set (out_ptrs fs))"
    by (meson add_le_mono card_Un_le le_trans order_refl)
  also have "\<dots> \<le> aggr_keys_cnt fs + (if sk_field (sort_key fs) = None then 0 else 1) + output_fields_cnt fs"
  proof -
    have "card (set (aggr_ptrs fs)) \<le> aggr_keys_cnt fs"
      using card_length[of "aggr_ptrs fs"] by (simp add: aggr_ptrs_def)
    moreover have "card (set (out_ptrs fs)) \<le> output_fields_cnt fs"
      using card_length[of "out_ptrs fs"] by (simp add: out_ptrs_def)
    moreover have "card (sort_ptrs fs) \<le> (if sk_field (sort_key fs) = None then 0 else 1)"
      by (cases "sk_field (sort_key fs)") (auto simp: sort_ptrs_def card_insert_if)
    ultimately show ?thesis by linarith
  qed
  finally show ?thesis by simp
qed

subsection \<open>The queries never fail on a valid field\<close>

lemma assert_id_valid [simp]: "libnf_ok L \<Longrightarrow> valid_id L fid \<Longrightarrow> assert_id L fid k = k"
  using libnf_ok_consts[of L] by (simp add: assert_id_def)

lemma field_get_size_Ret:
  "libnf_ok L \<Longrightarrow> valid_id L fid \<Longrightarrow> \<exists>n. field_get_size L fid = Ret n \<and> 0 < n"
  using libnf_ok_size[of L fid] by (auto simp: field_get_size_def lnf_info_ok_def)

lemma field_get_type_Ret: "libnf_ok L \<Longrightarrow> valid_id L fid \<Longrightarrow> \<exists>t. field_get_type L fid = Ret t"
  using libnf_ok_type[of L fid] by (auto simp: field_get_type_def lnf_info_ok_def)

lemma field_get_aggr_func_Ret:
  "libnf_ok L \<Longrightarrow> valid_id L fid \<Longrightarrow> \<exists>a. field_get_aggr_func L fid = Ret a \<and> aggr_func_ok L a
     \<and> a \<noteq> lnf L LNF_AGGR_KEY"
  using libnf_ok_aggr[of L fid] libnf_ok_consts[of L]
  by (auto simp: field_get_aggr_func_def lnf_info_ok_def in_range_incl_def aggr_func_ok_def)

lemma field_get_sort_dir_Ret:
  "libnf_ok L \<Longrightarrow> valid_id L fid \<Longrightarrow> \<exists>d. field_get_sort_dir L fid = Ret d \<and> sort_dir_known L d"
  using libnf_ok_sort[of L fid]
  by (auto simp: field_get_sort_dir_def lnf_info_ok_def sort_dir_known_def)

definition has_field :: "fields \<Rightarrow> int \<Rightarrow> bool" where
  "has_field fs fid \<longleftrightarrow> fid \<in> fld_id ` set (take (all_cnt fs) (all_flds fs))"

lemma get_from_all_None:
  assumes "libnf_ok L" "valid_id L fid" "all_inv L fs"
  shows "get_from_all L fs fid = Ret None \<longleftrightarrow> \<not> has_field fs fid"
  using assms by (auto simp: get_from_all_def find_from_None has_field_def set_take_nth all_inv_def)

lemma get_from_all_cases:
  assumes "libnf_ok L" "valid_id L fid" "all_inv L fs"
  obtains (absent) "get_from_all L fs fid = Ret None" "\<not> has_field fs fid"
  | (present) p where "get_from_all L fs fid = Ret (Some p)" "p < all_cnt fs"
      "fld_id (all_flds fs ! p) = fid" "has_field fs fid"
proof (cases "has_field fs fid")
  case False
  with assms absent show ?thesis by (simp add: get_from_all_None)
next
  case True
  with assms obtain p where p: "get_from_all L fs fid = Ret (Some p)"
    by (metis get_from_all_None get_from_all_def assert_id_valid option.exhaust)
  with assms(1,2) have "p < all_cnt fs" "fld_id (all_flds fs ! p) = fid"
    by (auto simp: get_from_all_def dest: find_from_Some)
  with p True present show ?thesis by blast
qed

definition push_all :: "fields \<Rightarrow> int \<Rightarrow> nat \<Rightarrow> fields" where
  "push_all fs fid sz =
     fs\<lparr>all_flds := (all_flds fs)[all_cnt fs := \<lparr>fld_id = fid, fld_size = sz\<rparr>],
        all_sizes_sum := all_sizes_sum fs + sz,
        all_cnt := Suc (all_cnt fs)\<rparr>"

lemma push_all_inv:
  assumes "all_inv L fs" "valid_id L fid" "0 < sz \<and> field_get_size L fid = Ret sz" "\<not> has_field fs fid" "all_cnt fs < ALL_FIELDS_MAX"
  shows "all_inv L (push_all fs fid sz)"
  using assms
  by (auto simp: all_inv_def push_all_def take_simps has_field_def nth_list_update)

lemma push_all_others [simp]:
  "aggr_keys (push_all fs fid sz) = aggr_keys fs"
  "aggr_keys_cnt (push_all fs fid sz) = aggr_keys_cnt fs"
  "output_fields (push_all fs fid sz) = output_fields fs"
  "output_fields_cnt (push_all fs fid sz) = output_fields_cnt fs"
  "sort_key (push_all fs fid sz) = sort_key fs"
  "all_cnt (push_all fs fid sz) = Suc (all_cnt fs)"
  by (simp_all add: push_all_def)

lemma add_to_all_Ret:
  assumes "libnf_ok L" "valid_id L fid" "all_inv L fs" "\<not> has_field fs fid"
    and room: "all_cnt fs < ALL_FIELDS_MAX"
  shows "\<exists>sz. (0 < sz \<and> field_get_size L fid = Ret sz) \<and> add_to_all L fs fid = Ret (Some (all_cnt fs), push_all fs fid sz)"
proof -
  obtain n where n: "field_get_size L fid = Ret n" "0 < n"
    using field_get_size_Ret assms by blast
  have "fld_id (all_flds fs ! all_cnt fs) = lnf L LNF_FLD_ZERO"
    using assms room libnf_ok_consts(1)[of L] by (simp add: all_inv_def)
  moreover have "get_from_all L fs fid = Ret None"
    using assms by (simp add: get_from_all_None)
  ultimately show ?thesis
    using assms n room by (auto simp: add_to_all_def push_all_def)
qed

subsection \<open>Every operation keeps the invariant\<close>

lemma fields_inv_parts:
  "fields_inv L fs \<Longrightarrow> all_inv L fs" "fields_inv L fs \<Longrightarrow> role_inv L fs" "fields_inv L fs \<Longrightarrow> ptr_inv fs"
  by (simp_all add: fields_inv_def)

lemma has_field_push [simp]:
  "all_inv L fs \<Longrightarrow> all_cnt fs < ALL_FIELDS_MAX \<Longrightarrow>
   has_field (push_all fs fid sz) g \<longleftrightarrow> g = fid \<or> has_field fs g"
  by (auto simp: has_field_def push_all_def all_inv_def take_simps)

lemma ptr_inv_fresh:
  assumes "ptr_inv fs"
  shows "Some (all_cnt fs) \<notin> set (aggr_ptrs fs)" "Some (all_cnt fs) \<notin> set (out_ptrs fs)"
    "Some (all_cnt fs) \<notin> sort_ptrs fs"
  proof -
  have eq: "set (aggr_ptrs fs) \<union> sort_ptrs fs \<union> set (out_ptrs fs) = Some ` {..<all_cnt fs}"
    using assms by (simp add: ptr_inv_def)
  have "Some (all_cnt fs) \<notin> set (aggr_ptrs fs) \<union> sort_ptrs fs \<union> set (out_ptrs fs)"
    unfolding eq by auto
  then show "Some (all_cnt fs) \<notin> set (aggr_ptrs fs)" "Some (all_cnt fs) \<notin> set (out_ptrs fs)"
    "Some (all_cnt fs) \<notin> sort_ptrs fs"
    by auto
qed

lemma lessThan_Suc_Some: "Some ` {..<Suc n} = insert (Some n) (Some ` {..<n})"
  by (auto simp: lessThan_Suc)

lemma fields_add_aggr_key_spec:
  assumes ok: "libnf_ok L" "valid_id L fid" and inv: "fields_inv L fs" and al: "0 \<le> al" "0 \<le> al6"
  shows "\<exists>b fs'. fields_add_aggr_key L fs fid al al6 = Ret (b, fs') \<and> fields_inv L fs'
    \<and> (b \<longrightarrow> has_field fs' fid) \<and> (\<not> b \<longrightarrow> fs' = fs)
    \<and> sort_key fs' = sort_key fs \<and> out_ptrs fs' = out_ptrs fs
    \<and> (columns_ordered fs \<and> sk_field (sort_key fs) = None \<and> out_ptrs fs = [] \<longrightarrow> columns_ordered fs')"
proof -
  note parts = fields_inv_parts[OF inv]
  note C = libnf_ok_consts[OF ok(1)]
  show ?thesis
  proof (cases "aggr_keys_cnt fs = AGGR_KEYS_MAX")
    case True
    with ok inv show ?thesis by (auto simp: fields_add_aggr_key_def)
  next
    case notfull: False
    show ?thesis
    proof (cases rule: get_from_all_cases[OF ok parts(1), case_names absent present])
      case (present p)
      with ok inv notfull show ?thesis by (auto simp: fields_add_aggr_key_def)
    next
      case absent
      have cnt: "aggr_keys_cnt fs < AGGR_KEYS_MAX"
        using notfull parts(2) by (simp add: role_inv_def)
      have room: "all_cnt fs < ALL_FIELDS_MAX"
        using ptr_inv_count[OF parts(3,2)] cnt parts(2)
        by (simp add: role_inv_def max_defs split: if_splits)
      obtain sz where sz: "0 < sz \<and> field_get_size L fid = Ret sz" "add_to_all L fs fid = Ret (Some (all_cnt fs), push_all fs fid sz)"
        using add_to_all_Ret[OF ok parts(1) absent(2) room] by blast
      let ?fs1 = "push_all fs fid sz"
      let ?key = "\<lparr>ak_field = Some (all_cnt fs), ak_alignment = al, ak_ipv6_alignment = al6\<rparr>"
      let ?fs2 = "?fs1\<lparr>aggr_keys := (aggr_keys fs)[aggr_keys_cnt fs := ?key],
                       aggr_keys_cnt := Suc (aggr_keys_cnt fs)\<rparr>"
      have "all_inv L ?fs1" by (rule push_all_inv[OF parts(1) ok(2) sz(1) absent(2) room])
      then have a: "all_inv L ?fs2" by (simp add: all_inv_def)
      have r: "role_inv L ?fs2"
        using parts(2) cnt al by (auto simp: role_inv_def nth_list_update less_Suc_eq)
      have ap: "aggr_ptrs ?fs2 = aggr_ptrs fs @ [Some (all_cnt fs)]"
        using parts(2) cnt by (simp add: aggr_ptrs_def role_inv_def take_simps)
      have op: "out_ptrs ?fs2 = out_ptrs fs" "sort_ptrs ?fs2 = sort_ptrs fs"
        by (simp_all add: out_ptrs_def sort_ptrs_def)
      have p: "ptr_inv ?fs2"
        using parts(3) ptr_inv_fresh[OF parts(3)] by (auto simp: ptr_inv_def ap op lessThan_Suc_Some)
      have h: "has_field ?fs2 fid"
        using has_field_push[OF parts(1) room, of fid sz fid] by (simp add: has_field_def)
      have none: "ak_field (aggr_keys fs ! aggr_keys_cnt fs) = None"
        using parts(2) cnt by (simp add: role_inv_def)
      have o: "columns_ordered fs \<and> sk_field (sort_key fs) = None \<and> out_ptrs fs = [] \<longrightarrow> columns_ordered ?fs2"
        by (auto simp: columns_ordered_def column_ptrs_def ap op)
      show ?thesis
        using ok inv notfull absent(1) sz(2) none C a r p h op(1) o
        by (auto simp: fields_add_aggr_key_def in_range_incl_def fields_inv_def)
    qed
  qed
qed

lemma fields_add_output_field_spec:
  assumes ok: "libnf_ok L" "valid_id L fid" and inv: "fields_inv L fs"
  shows "\<exists>b fs'. fields_add_output_field L fs fid = Ret (b, fs') \<and> fields_inv L fs'
    \<and> (b \<longrightarrow> has_field fs' fid) \<and> (\<not> b \<longrightarrow> fs' = fs)
    \<and> sort_key fs' = sort_key fs \<and> aggr_ptrs fs' = aggr_ptrs fs
    \<and> (output_fields_cnt fs < OUTPUT_FIELDS_MAX \<longrightarrow> b)
    \<and> output_fields_cnt fs' \<le> Suc (output_fields_cnt fs) \<and> (columns_ordered fs \<longrightarrow> columns_ordered fs')"
proof -
  note parts = fields_inv_parts[OF inv]
  show ?thesis
  proof (cases "output_fields_cnt fs = OUTPUT_FIELDS_MAX")
    case True
    with ok inv show ?thesis by (auto simp: fields_add_output_field_def)
  next
    case notfull: False
    show ?thesis
    proof (cases rule: get_from_all_cases[OF ok parts(1), case_names absent present])
      case (present p)
      with ok inv notfull show ?thesis by (auto simp: fields_add_output_field_def)
    next
      case absent
      have cnt: "output_fields_cnt fs < OUTPUT_FIELDS_MAX"
        using notfull parts(2) by (simp add: role_inv_def)
      have room: "all_cnt fs < ALL_FIELDS_MAX"
        using ptr_inv_count[OF parts(3,2)] cnt parts(2)
        by (simp add: role_inv_def max_defs split: if_splits)
      obtain sz where sz: "0 < sz \<and> field_get_size L fid = Ret sz" "add_to_all L fs fid = Ret (Some (all_cnt fs), push_all fs fid sz)"
        using add_to_all_Ret[OF ok parts(1) absent(2) room] by blast
      obtain af where af: "field_get_aggr_func L fid = Ret af" "aggr_func_ok L af"
        using field_get_aggr_func_Ret[OF ok] by blast
      let ?fs1 = "push_all fs fid sz"
      let ?of = "\<lparr>of_field = Some (all_cnt fs), of_aggr_func = af\<rparr>"
      let ?fs2 = "?fs1\<lparr>output_fields := (output_fields fs)[output_fields_cnt fs := ?of],
                       output_fields_cnt := Suc (output_fields_cnt fs)\<rparr>"
      have "all_inv L ?fs1" by (rule push_all_inv[OF parts(1) ok(2) sz(1) absent(2) room])
      then have a: "all_inv L ?fs2" by (simp add: all_inv_def)
      have r: "role_inv L ?fs2"
        using parts(2) cnt af by (auto simp: role_inv_def nth_list_update less_Suc_eq)
      have op: "out_ptrs ?fs2 = out_ptrs fs @ [Some (all_cnt fs)]"
        using parts(2) cnt by (simp add: out_ptrs_def role_inv_def take_simps)
      have ap: "aggr_ptrs ?fs2 = aggr_ptrs fs" "sort_ptrs ?fs2 = sort_ptrs fs"
        by (simp_all add: aggr_ptrs_def sort_ptrs_def)
      have p: "ptr_inv ?fs2"
        using parts(3) ptr_inv_fresh[OF parts(3)] by (auto simp: ptr_inv_def ap op lessThan_Suc_Some)
      have h: "has_field ?fs2 fid"
        using has_field_push[OF parts(1) room, of fid sz fid] by (simp add: has_field_def)
      have none: "of_field (output_fields fs ! output_fields_cnt fs) = None"
        using parts(2) cnt by (simp add: role_inv_def)
      have o: "columns_ordered fs \<longrightarrow> columns_ordered ?fs2"
        by (simp add: columns_ordered_def column_ptrs_def ap op Let_def)
      show ?thesis
        using ok inv notfull absent(1) sz(2) none af(1) a r p h ap(1) o
        by (auto simp: fields_add_output_field_def fields_inv_def)
    qed
  qed
qed

definition is_output_id :: "fields \<Rightarrow> int \<Rightarrow> bool" where
  "is_output_id fs fid \<longleftrightarrow> fid \<in> deref_id fs ` set (out_ptrs fs)"

definition set_sort :: "fields \<Rightarrow> nat \<Rightarrow> int \<Rightarrow> int \<Rightarrow> fields" where
  "set_sort fs p d a = fs\<lparr>sort_key := \<lparr>sk_field = Some p, sk_direction = d, sk_aggr_func = a\<rparr>\<rparr>"

lemma set_sort_inv:
  assumes "all_inv L fs" "role_inv L fs" and d: "d \<in> {lnf L LNF_SORT_ASC, lnf L LNF_SORT_DESC}"
    and a: "aggr_func_ok L a" and none: "sk_field (sort_key fs) = None"
    and p: "Some ` {..<all_cnt fs} = insert (Some p) (set (aggr_ptrs fs)) \<union> set (out_ptrs fs)"
      "distinct (aggr_ptrs fs)" "distinct (out_ptrs fs)" "set (aggr_ptrs fs) \<inter> set (out_ptrs fs) = {}"
      "Some p \<notin> set (out_ptrs fs)"
  shows "fields_inv L (set_sort fs p d a)"
  using assms
  by (auto simp: fields_inv_def all_inv_def role_inv_def ptr_inv_def set_sort_def
      aggr_ptrs_def out_ptrs_def sort_ptrs_def)

lemma fields_set_sort_key_spec:
  fixes fid dir :: int
  assumes ok: "libnf_ok L" "valid_id L fid" and inv: "fields_inv L fs"
    and dir: "sort_dir_known L dir"
    and none: "sk_field (sort_key fs) = None" and noout: "\<not> is_output_id fs fid"
  shows "\<exists>b fs'. fields_set_sort_key L fs fid dir = Ret (b, fs') \<and> fields_inv L fs'
    \<and> (b \<longrightarrow> has_field fs' fid \<and> sk_field (sort_key fs') \<noteq> None
           \<and> deref_id fs' (sk_field (sort_key fs')) = fid)
    \<and> (\<not> b \<longrightarrow> fs' = fs) \<and> out_ptrs fs' = out_ptrs fs \<and> aggr_ptrs fs' = aggr_ptrs fs
    \<and> (columns_ordered fs \<and> out_ptrs fs = [] \<longrightarrow> columns_ordered fs')"
proof -
  note parts = fields_inv_parts[OF inv]
  note C = libnf_ok_consts[OF ok(1)]
  obtain dd where dd: "field_get_sort_dir L fid = Ret dd" "sort_dir_known L dd"
    using field_get_sort_dir_Ret[OF ok] by blast
  obtain af where af: "field_get_aggr_func L fid = Ret af" "aggr_func_ok L af"
    using field_get_aggr_func_Ret[OF ok] by blast
  have sp: "sort_ptrs fs = {}" using none by (simp add: sort_ptrs_def)
  show ?thesis
  proof (cases "dd = lnf L LNF_SORT_NONE")
    case True
    with ok inv dd dir show ?thesis
      by (auto simp: fields_set_sort_key_def sort_dir_known_def)
  next
    case nn: False
    let ?d = "if dir = lnf L LNF_SORT_NONE then dd else dir"
    have d: "?d \<in> {lnf L LNF_SORT_ASC, lnf L LNF_SORT_DESC}"
      using dd dir nn by (auto simp: sort_dir_known_def)
    show ?thesis
    proof (cases rule: get_from_all_cases[OF ok parts(1), case_names absent present])
      case (present p)
      have np: "Some p \<notin> set (out_ptrs fs)"
        using noout present(3) by (force simp: is_output_id_def deref_id_def)
      have fi: "fields_inv L (set_sort fs p ?d af)"
        using parts(3) np present(2) sp
        by (intro set_sort_inv[OF parts(1,2) d af(2) none]) (auto simp: ptr_inv_def)
      have op: "out_ptrs (set_sort fs p ?d af) = out_ptrs fs"
        "aggr_ptrs (set_sort fs p ?d af) = aggr_ptrs fs"
        by (simp_all add: set_sort_def out_ptrs_def aggr_ptrs_def)
      have h: "has_field (set_sort fs p ?d af) fid"
        using present(4) by (simp add: has_field_def set_sort_def)
      have o: "columns_ordered fs \<and> out_ptrs fs = [] \<longrightarrow> columns_ordered (set_sort fs p ?d af)"
      proof
        assume o: "columns_ordered fs \<and> out_ptrs fs = []"
        then have "aggr_ptrs fs = map Some [0..<all_cnt fs]" using none by (auto simp: columns_ordered_def column_ptrs_def)
        moreover from this have "Some p \<in> set (aggr_ptrs fs)" using present(2) by simp
        ultimately show "columns_ordered (set_sort fs p ?d af)"
          using o by (simp add: columns_ordered_def column_ptrs_def op) (simp add: set_sort_def)
      qed
      show ?thesis
        using ok dd(1) nn dir present af(1) none fi op h o
        by (auto simp: fields_set_sort_key_def sort_dir_known_def set_sort_def deref_id_def)
    next
      case absent
      have room: "all_cnt fs < ALL_FIELDS_MAX"
        using ptr_inv_count[OF parts(3,2)] none parts(2)
        by (simp add: role_inv_def max_defs split: if_splits)
      obtain sz where sz: "0 < sz \<and> field_get_size L fid = Ret sz" "add_to_all L fs fid = Ret (Some (all_cnt fs), push_all fs fid sz)"
        using add_to_all_Ret[OF ok parts(1) absent(2) room] by blast
      let ?fs1 = "push_all fs fid sz"
      have a: "all_inv L ?fs1" by (rule push_all_inv[OF parts(1) ok(2) sz(1) absent(2) room])
      have r: "role_inv L ?fs1" using parts(2) by (simp add: role_inv_def)
      have ptr: "aggr_ptrs ?fs1 = aggr_ptrs fs" "out_ptrs ?fs1 = out_ptrs fs"
        by (simp_all add: aggr_ptrs_def out_ptrs_def)
      have fi: "fields_inv L (set_sort ?fs1 (all_cnt fs) ?d af)"
        using parts(3) ptr_inv_fresh[OF parts(3)] sp none
        by (intro set_sort_inv[OF a r d af(2)]) (auto simp: ptr_inv_def ptr lessThan_Suc_Some)
      have op: "out_ptrs (set_sort ?fs1 (all_cnt fs) ?d af) = out_ptrs fs"
        "aggr_ptrs (set_sort ?fs1 (all_cnt fs) ?d af) = aggr_ptrs fs"
        by (simp_all add: set_sort_def out_ptrs_def aggr_ptrs_def)
      have h: "has_field (set_sort ?fs1 (all_cnt fs) ?d af) fid"
        using has_field_push[OF parts(1) room, of fid sz fid] by (simp add: has_field_def set_sort_def)
      have der: "fld_id (all_flds ?fs1 ! all_cnt fs) = fid"
        using room parts(1) by (simp add: push_all_def all_inv_def)
      have o: "columns_ordered fs \<and> out_ptrs fs = [] \<longrightarrow> columns_ordered (set_sort ?fs1 (all_cnt fs) ?d af)"
        using none ptr_inv_fresh(1)[OF parts(3)]
        by (simp add: columns_ordered_def column_ptrs_def op) (auto simp: set_sort_def)
      show ?thesis
        using ok dd(1) nn dir absent(1) sz(2) af(1) none fi op h der o
        by (auto simp: fields_set_sort_key_def sort_dir_known_def set_sort_def deref_id_def)
    qed
  qed
qed

subsection \<open>The check accepts exactly what the invariant promises\<close>

lemma aggr_ptrs_nth: "role_inv L fs \<Longrightarrow> i < aggr_keys_cnt fs \<Longrightarrow> ak_field (aggr_keys fs ! i) \<in> set (aggr_ptrs fs)"
  by (auto simp: role_inv_def aggr_ptrs_def set_take_nth)

lemma out_ptrs_nth: "role_inv L fs \<Longrightarrow> i < output_fields_cnt fs \<Longrightarrow> of_field (output_fields fs ! i) \<in> set (out_ptrs fs)"
  by (auto simp: role_inv_def out_ptrs_def set_take_nth)

lemma ptr_in_range:
  assumes "ptr_inv fs" and "p \<in> set (aggr_ptrs fs) \<union> sort_ptrs fs \<union> set (out_ptrs fs)"
  shows "\<exists>k<all_cnt fs. p = Some k"
  using assms unfolding ptr_inv_def by blast

lemma deref_valid:
  assumes "all_inv L fs" "ptr_inv fs" "p \<in> set (aggr_ptrs fs) \<union> sort_ptrs fs \<union> set (out_ptrs fs)"
  shows "p \<noteq> None" "valid_id L (deref_id fs p)"
  using ptr_in_range[OF assms(2,3)] assms(1) by (auto simp: all_inv_def deref_id_def)

lemma in_aggr_keys_iff:
  assumes "role_inv L fs"
  shows "in_aggr_keys fs i \<longleftrightarrow> Some i \<in> set (aggr_ptrs fs)"
proof -
  have "set (aggr_ptrs fs) = (\<lambda>j. ak_field (aggr_keys fs ! j)) ` {..<aggr_keys_cnt fs}"
    using assms by (simp add: role_inv_def aggr_ptrs_def set_take_nth image_image)
  then show ?thesis by (auto simp: in_aggr_keys_def find_from_None image_iff Bex_def eq_commute[of "Some i"])
qed

lemma in_output_fields_iff:
  assumes "role_inv L fs"
  shows "in_output_fields fs i \<longleftrightarrow> Some i \<in> set (out_ptrs fs)"
proof -
  have "set (out_ptrs fs) = (\<lambda>j. of_field (output_fields fs ! j)) ` {..<output_fields_cnt fs}"
    using assms by (simp add: role_inv_def out_ptrs_def set_take_nth image_image)
  then show ?thesis by (auto simp: in_output_fields_def find_from_None image_iff Bex_def eq_commute[of "Some i"])
qed

lemma is_sort_key_iff: "is_sort_key fs i \<longleftrightarrow> Some i \<in> sort_ptrs fs"
  by (auto simp: is_sort_key_def sort_ptrs_def)

lemma check_aggr_keys_inv:
  assumes "libnf_ok L" "fields_inv L fs"
  shows "check_aggr_keys L fs = Ret True"
proof -
  note parts = fields_inv_parts[OF assms(2)]
  note C = libnf_ok_consts[OF assms(1)]
  have "all_from (\<lambda>i. let ak = aggr_keys fs ! i in
        if ak_field ak = None then Ret False
        else assert_then (lnf L LNF_FLD_ZERO < lnf L LNF_FLD_TERM)
          (Ret (valid_id L (deref_id fs (ak_field ak))
                \<and> \<not> ak_alignment ak < 0 \<and> \<not> ak_ipv6_alignment ak < 0)))
        0 (aggr_keys_cnt fs) = Ret (\<forall>i. 0 \<le> i \<and> i < aggr_keys_cnt fs \<longrightarrow> True)"
  proof (rule all_from_Ret)
    fix i assume i: "i < aggr_keys_cnt fs"
    have "ak_field (aggr_keys fs ! i) \<in> set (aggr_ptrs fs) \<union> sort_ptrs fs \<union> set (out_ptrs fs)"
      using aggr_ptrs_nth[OF parts(2) i] by simp
    note v = deref_valid[OF parts(1,3) this]
    have "0 \<le> ak_alignment (aggr_keys fs ! i)" "0 \<le> ak_ipv6_alignment (aggr_keys fs ! i)"
      using parts(2) i by (simp_all add: role_inv_def)
    with v C show "(let ak = aggr_keys fs ! i in
        if ak_field ak = None then Ret False
        else assert_then (lnf L LNF_FLD_ZERO < lnf L LNF_FLD_TERM)
          (Ret (valid_id L (deref_id fs (ak_field ak))
                \<and> \<not> ak_alignment ak < 0 \<and> \<not> ak_ipv6_alignment ak < 0))) = Ret True"
      by (simp add: Let_def)
  qed
  then show ?thesis using parts(2) by (simp add: check_aggr_keys_def role_inv_def)
qed

lemma check_sort_key_inv:
  assumes "libnf_ok L" "fields_inv L fs"
  shows "check_sort_key L fs = Ret True"
proof (cases "sk_field (sort_key fs)")
  case None
  then show ?thesis by (simp add: check_sort_key_def)
next
  case (Some p)
  note parts = fields_inv_parts[OF assms(2)]
  have "sk_field (sort_key fs) \<in> set (aggr_ptrs fs) \<union> sort_ptrs fs \<union> set (out_ptrs fs)"
    using Some by (simp add: sort_ptrs_def)
  note v = deref_valid[OF parts(1,3) this]
  with Some parts(2) libnf_ok_consts[OF assms(1)] show ?thesis
    by (auto simp: check_sort_key_def Let_def role_inv_def in_range_incl_def aggr_func_ok_def)
qed

lemma check_output_fields_inv:
  assumes "libnf_ok L" "fields_inv L fs"
  shows "check_output_fields L fs = Ret True"
proof -
  note parts = fields_inv_parts[OF assms(2)]
  note C = libnf_ok_consts[OF assms(1)]
  let ?p = "\<lambda>i. let outf = output_fields fs ! i in
        if of_field outf = None then Ret False
        else assert_then (lnf L LNF_FLD_ZERO < lnf L LNF_FLD_TERM)
          (if \<not> valid_id L (deref_id fs (of_field outf)) then Ret False
           else in_range_incl (of_aggr_func outf) (lnf L LNF_AGGR_MIN) (lnf L LNF_AGGR_KEY))"
  have "all_from ?p 0 (output_fields_cnt fs) = Ret (\<forall>i. 0 \<le> i \<and> i < output_fields_cnt fs \<longrightarrow> True)"
  proof (rule all_from_Ret)
    fix i assume i: "i < output_fields_cnt fs"
    have "of_field (output_fields fs ! i) \<in> set (aggr_ptrs fs) \<union> sort_ptrs fs \<union> set (out_ptrs fs)"
      using out_ptrs_nth[OF parts(2) i] by simp
    note v = deref_valid[OF parts(1,3) this]
    have "aggr_func_ok L (of_aggr_func (output_fields fs ! i))"
      using parts(2) i by (simp add: role_inv_def)
    with v C show "?p i = Ret True"
      by (simp add: Let_def in_range_incl_def aggr_func_ok_def)
  qed
  then show ?thesis using parts(2) by (simp add: check_output_fields_def role_inv_def)
qed

lemma valid_id_nonzero: "libnf_ok L \<Longrightarrow> valid_id L fid \<Longrightarrow> fid \<noteq> 0"
  using libnf_ok_consts(1)[of L] by (auto simp: valid_id_def)

lemma check_all_sizes_inv:
  assumes "libnf_ok L" "fields_inv L fs"
  shows "check_all_sizes fs = Ret True"
proof -
  note parts = fields_inv_parts[OF assms(2)]
  have "all_from (\<lambda>i. Ret (fld_id (all_flds fs ! i) \<noteq> 0 \<and> fld_size (all_flds fs ! i) \<noteq> 0))
          0 (all_cnt fs) = Ret (\<forall>i. 0 \<le> i \<and> i < all_cnt fs \<longrightarrow> True)"
    using parts(1) valid_id_nonzero[OF assms(1)] by (intro all_from_Ret) (auto simp: all_inv_def)
  then show ?thesis using parts(1) by (simp add: check_all_sizes_def all_inv_def)
qed

lemma check_roles_inv:
  assumes "libnf_ok L" "fields_inv L fs"
  shows "check_roles fs = Ret True"
proof -
  note parts = fields_inv_parts[OF assms(2)]
  note iffs = in_aggr_keys_iff[OF parts(2)] in_output_fields_iff[OF parts(2)] is_sort_key_iff
  let ?p = "\<lambda>i. assert_then (fld_id (all_flds fs ! i) \<noteq> 0)
         (if \<not> in_aggr_keys fs i \<and> \<not> is_sort_key fs i \<and> \<not> in_output_fields fs i then Ret False
          else if in_aggr_keys fs i \<and> in_output_fields fs i then Ret False
          else if is_sort_key fs i \<and> in_output_fields fs i then Ret False
          else Ret True)"
  have "all_from ?p 0 (all_cnt fs) = Ret (\<forall>i. 0 \<le> i \<and> i < all_cnt fs \<longrightarrow> True)"
  proof (rule all_from_Ret)
    fix i assume i: "i < all_cnt fs"
    have "fld_id (all_flds fs ! i) \<noteq> 0"
      using parts(1) i valid_id_nonzero[OF assms(1)] by (auto simp: all_inv_def)
    moreover have "Some i \<in> set (aggr_ptrs fs) \<union> sort_ptrs fs \<union> set (out_ptrs fs)"
      using parts(3) i by (simp add: ptr_inv_def)
    ultimately show "?p i = Ret True"
      using parts(3) by (auto simp: iffs ptr_inv_def)
  qed
  moreover have "all_from (\<lambda>i. Ret (fld_id (all_flds fs ! i) = 0)) (all_cnt fs) ALL_FIELDS_MAX
      = Ret (\<forall>i. all_cnt fs \<le> i \<and> i < ALL_FIELDS_MAX \<longrightarrow> True)"
    using parts(1) by (intro all_from_Ret) (auto simp: all_inv_def)
  ultimately show ?thesis by (simp add: check_roles_def)
qed

lemma fields_check_inv: "libnf_ok L \<Longrightarrow> fields_inv L fs \<Longrightarrow> fields_check L fs = Ret True"
  by (simp add: fields_check_def check_aggr_keys_inv check_sort_key_inv check_output_fields_inv
      check_all_sizes_inv check_roles_inv)

subsection \<open>Fast aggregation\<close>

definition out_pairs :: "fields \<Rightarrow> (int \<times> int) set" where
  "out_pairs fs =
     (\<lambda>j. (deref_id fs (of_field (output_fields fs ! j)), of_aggr_func (output_fields fs ! j)))
       ` {..<output_fields_cnt fs}"

lemma out_ids_inj:
  assumes "fields_inv L fs" "i < output_fields_cnt fs" "j < output_fields_cnt fs"
    and eq: "deref_id fs (of_field (output_fields fs ! i)) = deref_id fs (of_field (output_fields fs ! j))"
  shows "i = j"
proof -
  note parts = fields_inv_parts[OF assms(1)]
  have mem: "of_field (output_fields fs ! k) \<in> set (aggr_ptrs fs) \<union> sort_ptrs fs \<union> set (out_ptrs fs)"
    if "k < output_fields_cnt fs" for k
    using out_ptrs_nth[OF parts(2) that] by simp
  obtain p q where pq: "of_field (output_fields fs ! i) = Some p" "p < all_cnt fs"
      "of_field (output_fields fs ! j) = Some q" "q < all_cnt fs"
    using ptr_in_range[OF parts(3) mem[OF assms(2)]] ptr_in_range[OF parts(3) mem[OF assms(3)]]
    by blast
  have "p = q"
    using eq pq parts(1) nth_eq_iff_index_eq[of "map fld_id (take (all_cnt fs) (all_flds fs))" p q]
    by (simp add: all_inv_def deref_id_def)
  then have "out_ptrs fs ! i = out_ptrs fs ! j"
    using pq parts(2) assms(2,3) by (simp add: out_ptrs_def role_inv_def)
  then show ?thesis
    using parts(2,3) assms(2,3) nth_eq_iff_index_eq[of "out_ptrs fs" i j]
    by (simp add: ptr_inv_def out_ptrs_def role_inv_def)
qed

lemma card_out_pairs:
  assumes "fields_inv L fs"
  shows "card (out_pairs fs) = output_fields_cnt fs"
  unfolding out_pairs_def
  by (subst card_image) (auto intro!: inj_onI dest: out_ids_inj[OF assms])

definition fast_params_ok :: "libnf \<Rightarrow> bool" where
  "fast_params_ok L \<longleftrightarrow>
     distinct (map fst (fast_aggr_params L)) \<and> (\<forall>(f, a) \<in> set (fast_aggr_params L). valid_id L f)"

lemma get_from_output_func:
  assumes ok: "libnf_ok L" "valid_id L f" and inv: "fields_inv L fs"
  shows "res_bind (get_from_output L fs f) (\<lambda>outf.
            Ret (case outf of None \<Rightarrow> False | Some k \<Rightarrow> of_aggr_func (output_fields fs ! k) = a))
         = Ret ((f, a) \<in> out_pairs fs)"
proof (cases "find_from (\<lambda>i. deref_id fs (of_field (output_fields fs ! i)) = f) 0 (output_fields_cnt fs)")
  case None
  then have "(f, a) \<notin> out_pairs fs" by (auto simp: find_from_None out_pairs_def)
  with ok None show ?thesis by (simp add: get_from_output_def)
next
  case (Some k)
  note k = find_from_Some[OF Some]
  have "(f, a) \<in> out_pairs fs \<longleftrightarrow> of_aggr_func (output_fields fs ! k) = a"
    using k out_ids_inj[OF inv, of k] by (auto simp: out_pairs_def)
  with ok Some show ?thesis by (simp add: get_from_output_def)
qed

lemma can_use_fast_aggr_eq:
  assumes "libnf_ok L" and "fast_params_ok L" and "fields_inv L fs"
  shows "fields_can_use_fast_aggr L fs = Ret (out_pairs fs = set (fast_aggr_params L))"
proof -
  let ?ps = "fast_aggr_params L"
  have dist: "distinct ?ps" "card (set ?ps) = length ?ps"
    using assms(2) by (auto simp: fast_params_ok_def distinct_map intro: distinct_card)
  have loop: "all_from (\<lambda>i. case ?ps ! i of (fid, af) \<Rightarrow>
            res_bind (get_from_output L fs fid) (\<lambda>outf.
            Ret (case outf of None \<Rightarrow> False | Some k \<Rightarrow> of_aggr_func (output_fields fs ! k) = af)))
          0 (length ?ps) = Ret (\<forall>i. 0 \<le> i \<and> i < length ?ps \<longrightarrow> ?ps ! i \<in> out_pairs fs)"
  proof (rule all_from_Ret)
    fix i assume "i < length ?ps"
    then have "?ps ! i \<in> set ?ps" by simp
    then have "valid_id L (fst (?ps ! i))" using assms(2) by (auto simp: fast_params_ok_def)
    then show "(case ?ps ! i of (fid, af) \<Rightarrow>
            res_bind (get_from_output L fs fid) (\<lambda>outf.
            Ret (case outf of None \<Rightarrow> False | Some k \<Rightarrow> of_aggr_func (output_fields fs ! k) = af)))
        = Ret (?ps ! i \<in> out_pairs fs)"
      using get_from_output_func[OF assms(1) _ assms(3)] by (simp add: case_prod_beta)
  qed
  have sub: "(\<forall>i. 0 \<le> i \<and> i < length ?ps \<longrightarrow> ?ps ! i \<in> out_pairs fs) \<longleftrightarrow> set ?ps \<subseteq> out_pairs fs"
    by (auto simp: set_conv_nth)
  have fin: "finite (out_pairs fs)" by (simp add: out_pairs_def)
  note card = card_out_pairs[OF assms(3)]
  show ?thesis
  proof (cases "output_fields_cnt fs = length ?ps")
    case False
    with card dist(2) show ?thesis by (auto simp: fields_can_use_fast_aggr_def)
  next
    case True
    with card dist(2) fin have "set ?ps \<subseteq> out_pairs fs \<longleftrightarrow> out_pairs fs = set ?ps"
      by (metis card_subset_eq subset_refl)
    with True loop sub show ?thesis by (simp add: fields_can_use_fast_aggr_def)
  qed
qed

text \<open>C21: The fast aggregation test returns \<open>true\<close> exactly when the output fields, taken with
  their aggregation functions, are the five that \<open>lnf_mem_fastaggr\<close> provides.\<close>

theorem fast_aggr_exact:
  assumes "libnf_ok L" and "fast_params_ok L" and "fields_inv L fs"
  shows "fields_can_use_fast_aggr L fs = Ret (out_pairs fs = set (fast_aggr_params L))"
  by (rule can_use_fast_aggr_eq[OF assms])


text \<open>Concrete structures: a source address as key with the five fast-aggregation output fields,
  and the same with the sort key \<open>flows\<close> and one output field less.\<close>

definition sample_out :: "nat \<Rightarrow> int \<Rightarrow> output_field" where
  "sample_out p a = \<lparr>of_field = Some p, of_aggr_func = a\<rparr>"

definition sample_all :: "int list \<Rightarrow> field list" where
  "sample_all ids = map (\<lambda>i. \<lparr>fld_id = i, fld_size = (if i = 16 then 16 else 8)\<rparr>) ids"

definition sample_fields :: fields where
  "sample_fields = empty_fields
     \<lparr>all_flds := sample_all [16, 1, 2, 4, 5, 8] @ replicate 35 \<lparr>fld_id = 0, fld_size = 0\<rparr>,
      all_cnt := 6, all_sizes_sum := 56,
      aggr_keys := \<lparr>ak_field = Some 0, ak_alignment = 24, ak_ipv6_alignment = 64\<rparr>
        # replicate 9 \<lparr>ak_field = None, ak_alignment = 0, ak_ipv6_alignment = 0\<rparr>,
      aggr_keys_cnt := 1,
      output_fields := [sample_out 1 1, sample_out 2 2, sample_out 3 3, sample_out 4 3, sample_out 5 3]
        @ replicate 25 \<lparr>of_field = None, of_aggr_func = 0\<rparr>,
      output_fields_cnt := 5\<rparr>"

definition sample_sort_fields :: fields where
  "sample_sort_fields = sample_fields
     \<lparr>sort_key := \<lparr>sk_field = Some 5, sk_direction = 32, sk_aggr_func = 3\<rparr>,
      output_fields := [sample_out 1 1, sample_out 2 2, sample_out 3 3, sample_out 4 3]
        @ replicate 26 \<lparr>of_field = None, of_aggr_func = 0\<rparr>,
      output_fields_cnt := 4\<rparr>"

lemma all_less_upt: "(\<forall>i<n. P i) \<longleftrightarrow> (\<forall>i\<in>set [0..<n]. P i)" by auto

lemmas sample_fields_defs = sample_fields_def sample_sort_fields_def empty_fields_def sample_all_def
  sample_out_def sample_libnf_def max_defs

lemma sample_fields_inv:
  "fields_inv sample_libnf sample_fields" "fields_inv sample_libnf sample_sort_fields"
proof -
  have a: "all_inv sample_libnf sample_fields"
    by (auto simp: all_inv_def sample_fields_defs valid_id_def all_less_upt nth_append upt_rec field_get_size_def
        assert_id_def lnf_info_ok_def)
  have r: "role_inv sample_libnf sample_fields"
    by (auto simp: role_inv_def sample_fields_defs aggr_func_ok_def all_less_upt nth_append nth_Cons upt_rec
        split: nat.splits)
  have p: "ptr_inv sample_fields"
    by (auto simp: ptr_inv_def sample_fields_defs aggr_ptrs_def out_ptrs_def sort_ptrs_def
        lessThan_nat_numeral lessThan_Suc)
  show "fields_inv sample_libnf sample_fields" using a r p by (simp add: fields_inv_def)
  have "all_inv sample_libnf sample_sort_fields" using a by (simp add: sample_sort_fields_def all_inv_def)
  moreover have "role_inv sample_libnf sample_sort_fields"
    by (auto simp: role_inv_def sample_fields_defs aggr_func_ok_def all_less_upt nth_append nth_Cons upt_rec
        split: nat.splits)
  moreover have "ptr_inv sample_sort_fields"
    by (auto simp: ptr_inv_def sample_fields_defs aggr_ptrs_def out_ptrs_def sort_ptrs_def
        lessThan_nat_numeral lessThan_Suc)
  ultimately show "fields_inv sample_libnf sample_sort_fields" by (simp add: fields_inv_def)
qed

text \<open>The key is also the sort key: the columns are in the order of the fields.\<close>

definition sample_key_fields :: fields where
  "sample_key_fields = sample_fields\<lparr>sort_key := \<lparr>sk_field = Some 0, sk_direction = 32, sk_aggr_func = 3\<rparr>\<rparr>"

lemma sample_key_fields_inv: "fields_inv sample_libnf sample_key_fields"
proof -
  have p: "all_inv sample_libnf sample_fields" "role_inv sample_libnf sample_fields" "ptr_inv sample_fields"
    using sample_fields_inv(1) by (simp_all add: fields_inv_def)
  have "all_inv sample_libnf sample_key_fields" using p(1) by (simp add: sample_key_fields_def all_inv_def)
  moreover have "role_inv sample_libnf sample_key_fields"
    using p(2) by (simp add: sample_key_fields_def role_inv_def) (simp add: aggr_func_ok_def sample_libnf_def)
  moreover have "ptr_inv sample_key_fields"
    by (auto simp: ptr_inv_def sample_key_fields_def sample_fields_defs aggr_ptrs_def out_ptrs_def sort_ptrs_def
        lessThan_nat_numeral lessThan_Suc)
  ultimately show ?thesis by (simp add: fields_inv_def)
qed

lemma sample_key_columns: "columns_ordered sample_key_fields"
  by (simp add: columns_ordered_def column_ptrs_def aggr_ptrs_def out_ptrs_def sample_key_fields_def sample_fields_defs upt_rec Let_def)

lemma sample_fast: "fast_params_ok sample_libnf"
  by (simp add: fast_params_ok_def fast_aggr_params_def sample_libnf_def valid_id_def)

theorem fast_aggr_exact_witness:
  "fields_can_use_fast_aggr sample_libnf sample_fields
     = Ret (out_pairs sample_fields = set (fast_aggr_params sample_libnf))
   \<and> out_pairs sample_fields = {(1, 1), (2, 2), (4, 3), (5, 3), (8, 3)}"
proof
  show "out_pairs sample_fields = {(1, 1), (2, 2), (4, 3), (5, 3), (8, 3)}"
    by (simp add: out_pairs_def sample_fields_defs deref_id_def lessThan_nat_numeral lessThan_Suc insert_commute)
qed (rule fast_aggr_exact[OF sample_libnf_ok sample_fast sample_fields_inv(1)])

end
