(* ===== verification/Time_Utc.thy ===== *)
theory Time_Utc
  imports Prelude "HOL-Library.Word" "HOL-Library.Signed_Division"
begin

text \<open>
  Time: \<open>tm_diff\<close> and \<open>mktime_utc\<close> of \<open>src/common.c\<close>, on a model of
  \<open>struct tm\<close> and of what the C library's \<open>mktime\<close> does in the UTC zone
  (normalisation in the proleptic Gregorian calendar).  The fields of \<open>struct tm\<close> are
  integers here; \<open>tm_diff\<close> computes in C's \<open>int\<close>, which is too narrow for times more than
  68 years apart: the overflow, which C leaves undefined, is the wrap-around of the machine.
\<close>

unbundle bit_operations_syntax

record tm =
  tm_sec :: int
  tm_min :: int
  tm_hour :: int
  tm_mday :: int
  tm_mon :: int
  tm_year :: int
  tm_wday :: int
  tm_yday :: int
  tm_isdst :: int

definition TM_YEAR_BASE :: int where "TM_YEAR_BASE = 1900"

definition FLOW_FILE_ROTATION_INTERVAL :: int where "FLOW_FILE_ROTATION_INTERVAL = 300"

subsection \<open>The calendar\<close>

definition leap :: "int \<Rightarrow> bool" where
  "leap y \<longleftrightarrow> 4 dvd y \<and> (\<not> 100 dvd y \<or> 400 dvd y)"

text \<open>Days from 1 January of year 1 to 1 January of year \<open>y\<close>.\<close>

definition days_before_year :: "int \<Rightarrow> int" where
  "days_before_year y = 365 * (y - 1) + (y - 1) div 4 - (y - 1) div 100 + (y - 1) div 400"

lemma div_pred:
  fixes y k :: int
  assumes "0 < k"
  shows "y div k = (y - 1) div k + of_bool (k dvd y)"
proof (cases "k dvd y")
  case True
  then obtain q where q: "y = k * q" by blast
  have "(y - 1) div k = q - 1"
    using assms by (intro int_div_pos_eq[of _ _ _ "k - 1"]) (simp_all add: q algebra_simps)
  with True q assms show ?thesis by simp
next
  case False
  have r: "0 \<le> y mod k" "y mod k < k" "y mod k \<noteq> 0" "y = k * (y div k) + y mod k"
    using assms False by (simp_all add: dvd_eq_mod_eq_0)
  have "(y - 1) div k = y div k"
  proof (rule int_div_pos_eq)
    show "y - 1 = k * (y div k) + (y mod k - 1)" using r(4) by linarith
    show "0 \<le> y mod k - 1" "y mod k - 1 < k" using r by linarith+
  qed
  with False show ?thesis by simp
qed

lemma days_before_year_Suc: "days_before_year (y + 1) = days_before_year y + (if leap y then 366 else 365)"
proof -
  have "days_before_year (y + 1) = 365 * y + y div 4 - y div 100 + y div 400"
    by (simp add: days_before_year_def)
  also have "\<dots> = days_before_year y + 365 + of_bool (4 dvd y) - of_bool (100 dvd y) + of_bool (400 dvd y)"
  proof -
    have "365 * y + (A + a) - (B + b) + (C + c) = 365 * (y - 1) + A - B + C + 365 + a - b + c"
      for A B C a b c :: int by (simp add: algebra_simps)
    then show ?thesis
      unfolding days_before_year_def div_pred[of 4 y, OF zero_less_numeral]
        div_pred[of 100 y, OF zero_less_numeral] div_pred[of 400 y, OF zero_less_numeral] .
  qed
  also have "\<dots> = days_before_year y + (if leap y then 366 else 365)"
  proof -
    have d: "(100::int) dvd 400" "(4::int) dvd 100" by simp_all
    have "400 dvd y \<Longrightarrow> 100 dvd y" by (rule dvd_trans[OF d(1)])
    moreover have "100 dvd y \<Longrightarrow> 4 dvd y" by (rule dvd_trans[OF d(2)])
    ultimately have "(of_bool (4 dvd y) :: int) - of_bool (100 dvd y) + of_bool (400 dvd y) = of_bool (leap y)"
      by (cases "4 dvd y"; cases "100 dvd y"; cases "400 dvd y") (simp_all add: leap_def)
    moreover have "a - b + c = e \<Longrightarrow> D + 365 + a - b + c = D + (365 + e)" for a b c e D :: int
      by simp
    ultimately have "days_before_year y + 365 + of_bool (4 dvd y) - of_bool (100 dvd y) + of_bool (400 dvd y)
        = days_before_year y + (365 + of_bool (leap y))" by metis
    then show ?thesis by (cases "leap y") simp_all
  qed
  finally show ?thesis .
qed

text \<open>The seconds since 1 January of year 1 that a broken-down time denotes by its year day.\<close>

definition tm_abs :: "tm \<Rightarrow> int" where
  "tm_abs t = 60 * (60 * (24 * (days_before_year (tm_year t + TM_YEAR_BASE) + tm_yday t) + tm_hour t)
               + tm_min t) + tm_sec t"

subsection \<open>\<open>tm_diff\<close>\<close>

definition leap_days4 :: "int \<Rightarrow> int" where
  "leap_days4 year = drop_bit 2 year + drop_bit 2 TM_YEAR_BASE - of_bool (year AND 3 = 0)"

text \<open>The value of an \<open>int\<close> of 32 bits in two's complement.\<close>

definition c_int :: "int \<Rightarrow> int" where
  "c_int k = signed_take_bit 31 k"

text \<open>
  The divisions are on numbers of years, which do not overflow.  The sums and products may;
  wrapping the result is the same as wrapping each of them.
\<close>

definition tm_diff :: "tm \<Rightarrow> tm \<Rightarrow> int" where
  "tm_diff a b =
     (let a4 = leap_days4 (tm_year a);
          b4 = leap_days4 (tm_year b);
          a100 = a4 sdiv 25 - of_bool (a4 smod 25 < 0);
          b100 = b4 sdiv 25 - of_bool (b4 smod 25 < 0);
          a400 = drop_bit 2 a100;
          b400 = drop_bit 2 b100;
          intervening_leap_days = (a4 - b4) - (a100 - b100) + (a400 - b400);
          years = tm_year a - tm_year b;
          days = 365 * years + intervening_leap_days + (tm_yday a - tm_yday b)
      in c_int (60 * (60 * (24 * days + (tm_hour a - tm_hour b)) + (tm_min a - tm_min b))
                + (tm_sec a - tm_sec b)))"

lemma c_int_id: "- (2 ^ 31) \<le> k \<Longrightarrow> k < 2 ^ 31 \<Longrightarrow> c_int k = k"
  unfolding c_int_def by (rule signed_take_bit_int_eq_self)

lemma c_int_over: "2 ^ 31 \<le> k \<Longrightarrow> k < 2 ^ 32 \<Longrightarrow> c_int k = k - 2 ^ 32"
proof -
  assume k: "2 ^ 31 \<le> k" "k < 2 ^ 32"
  have "(k + 2 ^ 31) mod 2 ^ 32 = k + 2 ^ 31 - 2 ^ 32"
    using k by (intro int_mod_pos_eq[of _ _ 1]) simp_all
  then show ?thesis by (simp add: c_int_def signed_take_bit_eq_take_bit_shift take_bit_eq_mod)
qed

lemma floor_by_truncation: "x sdiv 25 - of_bool (x smod 25 < 0) = (x :: int) div 25"
proof (cases "0 \<le> x")
  case True
  then show ?thesis
    by (cases "x = 0") (simp_all add: signed_divide_int_def signed_modulo_int_def sgn_if)
next
  case False
  then have "x sdiv 25 = - ((- x) div 25)" "x smod 25 = - ((- x) mod 25)"
    by (simp_all add: signed_divide_int_def signed_modulo_int_def sgn_if)
  moreover have "- ((- x) div 25) - of_bool (- ((- x) mod 25) < 0) = x div 25"
    using zdiv_zminus1_eq_if[of 25 "- x"] pos_mod_sign[of 25 "- x"] by (auto simp: of_bool_def less_le)
  ultimately show ?thesis by simp
qed

lemma leap_days4_eq: "leap_days4 y = (y + 1899) div 4"
proof -
  have "y AND 3 = y mod 4"
    using take_bit_eq_mask[of 2 y] by (simp add: take_bit_eq_mod mask_eq_exp_minus_1)
  then show ?thesis
    by (simp add: leap_days4_def TM_YEAR_BASE_def drop_bit_eq_div of_bool_def; presburger)
qed

lemma tm_diff_wraps: "tm_diff a b = c_int (tm_abs a - tm_abs b)"
proof -
  have *: "(y + 1899) div 4 - (y + 1899) div 4 div 25 + (y + 1899) div 4 div 25 div 4 + 365 * y
      = days_before_year (y + 1900) - 365 * 1899" for y
    by (simp add: days_before_year_def algebra_simps zdiv_zmult2_eq[symmetric])
  show ?thesis
    unfolding tm_diff_def Let_def
    using *[of "tm_year a"] *[of "tm_year b"]
    by (intro arg_cong[of _ _ c_int])
      (simp add: floor_by_truncation leap_days4_eq drop_bit_eq_div tm_abs_def TM_YEAR_BASE_def algebra_simps)
qed

lemma tm_diff_eq:
  "- (2 ^ 31) \<le> tm_abs a - tm_abs b \<Longrightarrow> tm_abs a - tm_abs b < 2 ^ 31 \<Longrightarrow> tm_diff a b = tm_abs a - tm_abs b"
  by (simp add: tm_diff_wraps c_int_id)

text \<open>C26: \<open>tm_diff\<close> is the exact difference in seconds of two broken-down times, leap years of the
  Gregorian calendar included, when the difference is in the range of an \<open>int\<close>: for times less than
  68 years apart.\<close>

theorem tm_diff_exact:
  assumes "- (2 ^ 31) \<le> tm_abs a - tm_abs b" and "tm_abs a - tm_abs b < 2 ^ 31"
  shows "tm_diff a b = tm_abs a - tm_abs b"
  using assms by (rule tm_diff_eq)

subsection \<open>\<open>mktime\<close> in the UTC zone\<close>

text \<open>The first day of a month (0 to 11) within its year.\<close>

definition month_start :: "bool \<Rightarrow> int \<Rightarrow> int" where
  "month_start lp m =
     [0, 31, 59, 90, 120, 151, 181, 212, 243, 273, 304, 334] ! nat m + (if lp \<and> 2 \<le> m then 1 else 0)"

text \<open>The month a year day lies in: the number of later months that have already begun.\<close>

definition month_of_yday :: "bool \<Rightarrow> int \<Rightarrow> int" where
  "month_of_yday lp yd = int (length (filter (\<lambda>m. month_start lp m \<le> yd) [1..11]))"

text \<open>The year of a day counted from 1 January of year 1: an estimate, corrected by one.\<close>

definition year_of_day :: "int \<Rightarrow> int" where
  "year_of_day d =
     (let y = (400 * d) div 146097 + 1 in
      if days_before_year (y + 1) \<le> d then y + 1
      else if d < days_before_year y then y - 1
      else y)"

definition EPOCH_DAYS :: int where "EPOCH_DAYS = 719162"

text \<open>The seconds since the Epoch that the given, possibly unnormalised, fields denote.\<close>

definition tm_time :: "tm \<Rightarrow> int" where
  "tm_time t =
     (let y = tm_year t + TM_YEAR_BASE + tm_mon t div 12;
          d = days_before_year y + month_start (leap y) (tm_mon t mod 12) + tm_mday t - 1 - EPOCH_DAYS
      in d * 86400 + tm_hour t * 3600 + tm_min t * 60 + tm_sec t)"

definition gmtime :: "int \<Rightarrow> tm" where
  "gmtime s =
     (let d = s div 86400 + EPOCH_DAYS; r = s mod 86400;
          y = year_of_day d; yd = d - days_before_year y; m = month_of_yday (leap y) yd
      in \<lparr>tm_sec = r mod 60, tm_min = r div 60 mod 60, tm_hour = r div 3600,
          tm_mday = yd - month_start (leap y) m + 1, tm_mon = m, tm_year = y - TM_YEAR_BASE,
          tm_wday = (d + 1) mod 7, tm_yday = yd, tm_isdst = 0\<rparr>)"

text \<open>
  \<open>mktime_utc\<close> swaps the environment variable \<open>TZ\<close> for the time of the call.
  The state is the value of \<open>TZ\<close>; \<open>setenv\<close>/\<open>unsetenv\<close> may fail.
\<close>

record tz_env =
  env_tz :: "string option"
  setenv_ok :: bool

definition mktime_utc :: "tz_env \<Rightarrow> tm \<Rightarrow> ((int \<times> tm) \<times> tz_env) res" where
  "mktime_utc e t =
     assert_then (case env_tz e of None \<Rightarrow> True | Some tz \<Rightarrow> length tz < 256)
      (abort_if (\<not> setenv_ok e) E_INTERNAL
        (let e1 = e\<lparr>env_tz := Some []\<rparr>;
             calendar_time = tm_time t;
             t' = gmtime calendar_time;
             e2 = e1\<lparr>env_tz := env_tz e\<rparr>
         in abort_if (\<not> setenv_ok e1) E_INTERNAL (Ret ((calendar_time, t'), e2))))"

definition env_ok :: "tz_env \<Rightarrow> bool" where
  "env_ok e \<longleftrightarrow> setenv_ok e \<and> (case env_tz e of None \<Rightarrow> True | Some tz \<Rightarrow> length tz < 256)"

lemma mktime_utc_Ret: "env_ok e \<Longrightarrow> mktime_utc e t = Ret ((tm_time t, gmtime (tm_time t)), e)"
  by (simp add: mktime_utc_def env_ok_def Let_def)

lemma div_bounds:
  fixes n k :: int
  assumes "0 < k"
  shows "k * (n div k) \<le> n" "n \<le> k * (n div k) + k - 1"
  using pos_mod_bound[OF assms, of n] pos_mod_sign[OF assms, of n] mult_div_mod_eq[of k n]
  by linarith+

lemma days_before_year_bounds:
  "146097 * (y - 1) - 700 \<le> 400 * days_before_year y"
  "400 * days_before_year y \<le> 146097 * (y - 1) + 396"
proof -
  define n where "n = y - 1"
  define a where "a = n div 4"
  define b where "b = n div 100"
  define c where "c = n div 400"
  have a: "4 * a \<le> n" "n \<le> 4 * a + 3"
    using div_bounds[of 4 n, OF zero_less_numeral] by (simp_all add: a_def)
  have b: "100 * b \<le> n" "n \<le> 100 * b + 99"
    using div_bounds[of 100 n, OF zero_less_numeral] by (simp_all add: b_def)
  have c: "400 * c \<le> n" "n \<le> 400 * c + 399"
    using div_bounds[of 400 n, OF zero_less_numeral] by (simp_all add: c_def)
  have d: "days_before_year y = 365 * n + a - b + c"
    by (simp add: days_before_year_def n_def a_def b_def c_def)
  show "146097 * (y - 1) - 700 \<le> 400 * days_before_year y"
    unfolding d n_def[symmetric] using a b c by (simp add: algebra_simps)
  show "400 * days_before_year y \<le> 146097 * (y - 1) + 396"
    unfolding d n_def[symmetric] using a b c by (simp add: algebra_simps)
qed

lemma year_of_day_correct:
  "days_before_year (year_of_day d) \<le> d" "d < days_before_year (year_of_day d + 1)"
proof -
  define y where "y = (400 * d) div 146097 + 1"
  have y: "146097 * (y - 1) \<le> 400 * d" "400 * d \<le> 146097 * (y - 1) + 146096"
    using div_bounds[of 146097 "400 * d", OF zero_less_numeral] by (simp_all add: y_def)
  have up: "d < days_before_year (y + 1 + 1)"
    using y days_before_year_bounds(1)[of "y + 1 + 1"] by (simp add: algebra_simps)
  have down: "days_before_year (y - 1) \<le> d"
    using y days_before_year_bounds(2)[of "y - 1"] by (simp add: algebra_simps)
  show "days_before_year (year_of_day d) \<le> d" "d < days_before_year (year_of_day d + 1)"
    using up down by (auto simp: year_of_day_def y_def[symmetric] Let_def)
qed

lemma month_of_yday_range: "0 \<le> month_of_yday lp yd" "month_of_yday lp yd \<le> 11"
  using length_filter_le[of "\<lambda>m. month_start lp m \<le> yd" "[1..11]"]
  by (simp_all add: month_of_yday_def)

lemma split_seconds: "60 * (60 * (r div 3600) + r div 60 mod 60) + r mod 60 = (r :: int)"
proof -
  have "r div 3600 = r div (60 * 60)" by simp
  also have "\<dots> = r div 60 div 60" by (rule zdiv_zmult2_eq) simp
  finally have "60 * (r div 3600) + r div 60 mod 60 = r div 60"
    using mult_div_mod_eq[of 60 "r div 60"] by simp
  then show ?thesis using mult_div_mod_eq[of 60 r] by simp
qed

text \<open>Normalisation keeps the instant.\<close>

lemma tm_time_gmtime: "tm_time (gmtime s) = s"
proof -
  define d where "d = s div 86400 + EPOCH_DAYS"
  define r where "r = s mod 86400"
  define y where "y = year_of_day d"
  define m where "m = month_of_yday (leap y) (d - days_before_year y)"
  have m: "m div 12 = 0" "m mod 12 = m"
    using month_of_yday_range[of "leap y" "d - days_before_year y"]
    by (simp_all add: m_def div_pos_pos_trivial mod_pos_pos_trivial)
  have s: "s = (d - EPOCH_DAYS) * 86400 + r"
    by (simp add: d_def r_def mult.commute)
  have r: "60 * (60 * (r div 3600) + r div 60 mod 60) + r mod 60 = r" by (rule split_seconds)
  have "tm_time (gmtime s) = (d - EPOCH_DAYS) * 86400 + (r div 3600 * 3600 + (r div 60 mod 60) * 60 + r mod 60)"
    by (simp add: tm_time_def gmtime_def Let_def d_def[symmetric] r_def[symmetric] y_def[symmetric]
        m_def[symmetric] m TM_YEAR_BASE_def)
  with r s show ?thesis by (simp add: algebra_simps)
qed

lemma tm_abs_gmtime: "tm_abs (gmtime s) = s + 86400 * EPOCH_DAYS"
proof -
  define d where "d = s div 86400 + EPOCH_DAYS"
  define r where "r = s mod 86400"
  have s: "s = (d - EPOCH_DAYS) * 86400 + r"
    by (simp add: d_def r_def mult.commute)
  have r: "60 * (60 * (r div 3600) + r div 60 mod 60) + r mod 60 = r" by (rule split_seconds)
  have "tm_abs (gmtime s) = 60 * (60 * (24 * d + r div 3600) + r div 60 mod 60) + r mod 60"
    by (simp add: tm_abs_def gmtime_def Let_def d_def[symmetric] r_def[symmetric] TM_YEAR_BASE_def)
  with r s show ?thesis by (simp add: algebra_simps)
qed

lemma tm_diff_gmtime: "\<bar>f - b\<bar> < 2 ^ 31 \<Longrightarrow> tm_diff (gmtime f) (gmtime b) = f - b"
  by (simp add: tm_diff_wraps tm_abs_gmtime c_int_id)

text \<open>Beyond that the difference is wrong: 76 years are negative.\<close>

lemma tm_diff_overflows: "tm_diff (gmtime (b + 2398377600)) (gmtime b) = 2398377600 - 2 ^ 32"
  using c_int_over[of 2398377600] by (simp add: tm_diff_wraps tm_abs_gmtime)

theorem tm_diff_exact_witness:
  "tm_diff (gmtime 951782400) (gmtime 951696000) = 86400"
proof -
  have "tm_diff (gmtime 951782400) (gmtime 951696000) = tm_abs (gmtime 951782400) - tm_abs (gmtime 951696000)"
    by (rule tm_diff_exact) (simp_all add: tm_abs_gmtime)
  then show ?thesis by (simp add: tm_abs_gmtime)
qed

end
