(* ===== verification/Cmdline_Args.thy ===== *)
theory Cmdline_Args
  imports Query_Fields Time_Utc
begin

text \<open>
  The settings of a run: \<open>struct cmdline_args\<close> of \<open>src/arg_parse.h\<close>,
  \<open>struct output_params\<close> of \<open>src/output.h\<close> and the enumerations of
  \<open>src/common.h\<close> they use.  A null \<open>char *\<close> is \<open>None\<close>.
\<close>

datatype working_mode = MODE_UNSET | MODE_LIST | MODE_SORT | MODE_AGGR | MODE_META

datatype progress_bar_type =
    PROGRESS_BAR_UNSET | PROGRESS_BAR_NONE | PROGRESS_BAR_TOTAL | PROGRESS_BAR_PERSLAVE
  | PROGRESS_BAR_JSON

datatype output_item = OUTPUT_ITEM_UNSET | OUTPUT_ITEM_YES | OUTPUT_ITEM_NO

datatype output_format = OUTPUT_FORMAT_UNSET | OUTPUT_FORMAT_PRETTY | OUTPUT_FORMAT_CSV

datatype output_ts_conv = OUTPUT_TS_CONV_UNSET | OUTPUT_TS_CONV_NONE | OUTPUT_TS_CONV_PRETTY

datatype output_volume_conv =
    OUTPUT_VOLUME_CONV_UNSET | OUTPUT_VOLUME_CONV_NONE | OUTPUT_VOLUME_CONV_METRIC_PREFIX
  | OUTPUT_VOLUME_CONV_BINARY_PREFIX

datatype output_tcp_flags_conv =
    OUTPUT_TCP_FLAGS_CONV_UNSET | OUTPUT_TCP_FLAGS_CONV_NONE | OUTPUT_TCP_FLAGS_CONV_STR

datatype output_ip_addr_conv =
    OUTPUT_IP_ADDR_CONV_UNSET | OUTPUT_IP_ADDR_CONV_NONE | OUTPUT_IP_ADDR_CONV_STR

datatype output_ip_proto_conv =
    OUTPUT_IP_PROTO_CONV_UNSET | OUTPUT_IP_PROTO_CONV_NONE | OUTPUT_IP_PROTO_CONV_STR

datatype output_duration_conv =
    OUTPUT_DURATION_CONV_UNSET | OUTPUT_DURATION_CONV_NONE | OUTPUT_DURATION_CONV_STR

record output_params =
  print_records :: output_item
  print_processed_summ :: output_item
  print_metadata_summ :: output_item
  op_format :: output_format
  ellipsize :: bool
  rich_header :: bool
  ts_conv :: output_ts_conv
  volume_conv :: output_volume_conv
  tcp_flags_conv :: output_tcp_flags_conv
  ip_addr_conv :: output_ip_addr_conv
  ip_proto_conv :: output_ip_proto_conv
  duration_conv :: output_duration_conv

record cmdline_args =
  working_mode :: working_mode
  ca_paths :: "string list"
  time_begin :: tm
  time_end :: tm
  filter_str :: "string option"
  rec_limit :: "64 word"
  use_tput :: bool
  use_bfindex :: bool
  progress_bar_type :: progress_bar_type
  progress_bar_dest :: "string option"
  output_params :: output_params
  ca_fields :: fields

text \<open>\<open>main\<close> starts from a zero-initialised structure.\<close>

definition zero_tm :: tm where
  "zero_tm = \<lparr>tm_sec = 0, tm_min = 0, tm_hour = 0, tm_mday = 0, tm_mon = 0, tm_year = 0,
     tm_wday = 0, tm_yday = 0, tm_isdst = 0\<rparr>"

definition zero_output_params :: output_params where
  "zero_output_params =
     \<lparr>print_records = OUTPUT_ITEM_UNSET, print_processed_summ = OUTPUT_ITEM_UNSET,
      print_metadata_summ = OUTPUT_ITEM_UNSET, op_format = OUTPUT_FORMAT_UNSET,
      ellipsize = False, rich_header = False, ts_conv = OUTPUT_TS_CONV_UNSET,
      volume_conv = OUTPUT_VOLUME_CONV_UNSET, tcp_flags_conv = OUTPUT_TCP_FLAGS_CONV_UNSET,
      ip_addr_conv = OUTPUT_IP_ADDR_CONV_UNSET, ip_proto_conv = OUTPUT_IP_PROTO_CONV_UNSET,
      duration_conv = OUTPUT_DURATION_CONV_UNSET\<rparr>"

definition zero_args :: cmdline_args where
  "zero_args =
     \<lparr>working_mode = MODE_UNSET, ca_paths = [], time_begin = zero_tm, time_end = zero_tm,
      filter_str = None, rec_limit = 0, use_tput = False, use_bfindex = False,
      progress_bar_type = PROGRESS_BAR_UNSET, progress_bar_dest = None,
      output_params = zero_output_params, ca_fields = empty_fields\<rparr>"

text \<open>The output parameters of an instance: CSV with all conversions.\<close>

definition csv_params :: output_params where
  "csv_params = \<lparr>print_records = OUTPUT_ITEM_YES, print_processed_summ = OUTPUT_ITEM_NO,
     print_metadata_summ = OUTPUT_ITEM_NO, op_format = OUTPUT_FORMAT_CSV, ellipsize = False, rich_header = False,
     ts_conv = OUTPUT_TS_CONV_PRETTY, volume_conv = OUTPUT_VOLUME_CONV_METRIC_PREFIX,
     tcp_flags_conv = OUTPUT_TCP_FLAGS_CONV_STR, ip_addr_conv = OUTPUT_IP_ADDR_CONV_STR,
     ip_proto_conv = OUTPUT_IP_PROTO_CONV_STR, duration_conv = OUTPUT_DURATION_CONV_STR\<rparr>"

definition pretty_params :: output_params where
  "pretty_params = csv_params\<lparr>op_format := OUTPUT_FORMAT_PRETTY, rich_header := True\<rparr>"

end
