(* ===== verification/Time_Range.thy ===== *)
theory Time_Range
  imports Cmdline_Args
begin

text \<open>
  The time options of \<open>src/arg_parse.c\<close>: \<open>str_to_tm\<close>, \<open>tm_local_to_utc\<close>,
  \<open>set_time_point\<close> and \<open>set_time_range\<close>, with the two alignment loops.

  The operating system is a record of functions: the locale-dependent
  \<open>strptime\<close>, the current time, \<open>localtime_r\<close> and \<open>mktime\<close> in the
  user's time zone.  \<open>gmtime_r\<close> is \<open>gmtime\<close> of \<open>Time_Utc\<close>, and \<open>time_t\<close> is
  wide enough that it does not fail.
\<close>

record os_time =
  os_strptime :: "string \<Rightarrow> string \<Rightarrow> tm \<Rightarrow> (string \<times> tm) option"
  os_attempt :: tm
  os_now :: int
  os_localtime :: "int \<Rightarrow> tm option"
  os_mktime :: "tm \<Rightarrow> int"

definition INT_MIN :: int where "INT_MIN = - (2 ^ 31)"

definition date_formats :: "string list" where
  "date_formats = [''%Y-%m-%d'', ''%d.%m.%Y'', ''%m/%d/%Y'', ''%H:%M'', ''%a'', ''%b'', ''%s'']"

definition TIME_DELIM :: string where
  "TIME_DELIM = [CHR 0x20, CHR 0x09, CHR 0x0A, CHR 0x0B, CHR 0x0C, CHR 0x0D]"

definition TIME_RANGE_DELIM :: char where "TIME_RANGE_DELIM = CHR ''#''"

subsection \<open>Parsing a date\<close>

definition unset_tm :: tm where
  "unset_tm = \<lparr>tm_sec = INT_MIN, tm_min = INT_MIN, tm_hour = INT_MIN, tm_mday = INT_MIN,
     tm_mon = INT_MIN, tm_year = INT_MIN, tm_wday = INT_MIN, tm_yday = INT_MIN, tm_isdst = -1\<rparr>"

text \<open>One token: the first format that converts all of it, applied a second time to the output.\<close>

fun try_formats :: "os_time \<Rightarrow> string \<Rightarrow> string list \<Rightarrow> tm \<Rightarrow> tm option res" where
  "try_formats os tok [] t = Ret None"
| "try_formats os tok (f # fs) t =
     (case os_strptime os tok f (os_attempt os) of
        Some ([], _) \<Rightarrow>
          (case os_strptime os tok f t of
             Some ([], t') \<Rightarrow> Ret (Some t')
           | _ \<Rightarrow> Assert_Fail)
      | _ \<Rightarrow> try_formats os tok fs t)"

fun parse_tokens :: "os_time \<Rightarrow> string list \<Rightarrow> tm \<Rightarrow> tm option res" where
  "parse_tokens os [] t = Ret (Some t)"
| "parse_tokens os (tok # toks) t =
     res_bind (try_formats os tok date_formats t)
       (\<lambda>r. case r of None \<Rightarrow> Ret None | Some t' \<Rightarrow> parse_tokens os toks t')"

text \<open>The rules for the parts the string leaves out, one per step of the code.\<close>

definition only_weekday :: "tm \<Rightarrow> tm \<Rightarrow> tm" where
  "only_weekday now_tm t =
     (if tm_wday t \<ge> 0 \<and> tm_wday t \<le> 6 \<and> tm_year t = INT_MIN
         \<and> tm_mon t = INT_MIN \<and> tm_mday t = INT_MIN
      then t\<lparr>tm_year := tm_year now_tm, tm_mon := tm_mon now_tm,
             tm_mday := tm_mday now_tm - (tm_wday now_tm - tm_wday t + 7) smod 7\<rparr>
      else t)"

definition only_month :: "tm \<Rightarrow> tm \<Rightarrow> tm" where
  "only_month now_tm t =
     (if tm_mon t \<ge> 0 \<and> tm_mon t \<le> 11 \<and> tm_mday t = INT_MIN
      then (if tm_year t = INT_MIN
            then t\<lparr>tm_year := (if tm_mon t - tm_mon now_tm > 0 then tm_year now_tm - 1
                               else tm_year now_tm)\<rparr>
            else t)\<lparr>tm_mday := 1\<rparr>
      else t)"

definition no_time :: "tm \<Rightarrow> tm" where
  "no_time t =
     t\<lparr>tm_hour := (if tm_hour t = INT_MIN then 0 else tm_hour t),
       tm_min := (if tm_min t = INT_MIN then 0 else tm_min t),
       tm_sec := (if tm_sec t = INT_MIN then 0 else tm_sec t)\<rparr>"

definition no_date :: "tm \<Rightarrow> tm \<Rightarrow> tm" where
  "no_date now_tm t =
     (if tm_hour t \<ge> 0 \<and> tm_hour t \<le> 23 \<and> tm_mon t = INT_MIN
         \<and> tm_mday t = INT_MIN \<and> tm_wday t = INT_MIN
      then t\<lparr>tm_mon := tm_mon now_tm,
             tm_mday := (if tm_hour t - tm_hour now_tm > 0 then tm_mday now_tm - 1
                         else tm_mday now_tm)\<rparr>
      else t)"

definition fill_gaps :: "tm \<Rightarrow> tm \<Rightarrow> tm" where
  "fill_gaps now_tm t =
     t\<lparr>tm_year := (if tm_year t = INT_MIN then tm_year now_tm else tm_year t),
       tm_mon := (if tm_mon t = INT_MIN then tm_mon now_tm else tm_mon t)\<rparr>"

definition complete_tm :: "tm \<Rightarrow> tm \<Rightarrow> tm" where
  "complete_tm now_tm t =
     fill_gaps now_tm (no_date now_tm (no_time (only_month now_tm (only_weekday now_tm t))))"

definition str_to_tm :: "os_time \<Rightarrow> tz_env \<Rightarrow> string \<Rightarrow> (tm option \<times> tz_env) res" where
  "str_to_tm os e time_str =
     assert_then (time_str = [] \<or> hd time_str \<noteq> CHR 0x0A)
      (res_bind (parse_tokens os (strtok TIME_DELIM time_str) unset_tm)
        (\<lambda>r. case r of
           None \<Rightarrow> Ret (None, e)
         | Some t \<Rightarrow>
             abort_if (os_now os = -1) E_INTERNAL
              (case os_localtime os (os_now os) of
                 None \<Rightarrow> Abort E_INTERNAL
               | Some now_tm \<Rightarrow>
                   res_bind (mktime_utc e (complete_tm now_tm t))
                     (\<lambda>((_, t'), e'). Ret (Some t', e')))))"

definition tm_local_to_utc :: "os_time \<Rightarrow> tm \<Rightarrow> tm res" where
  "tm_local_to_utc os lcl =
     (let calendar_local = os_mktime os (lcl\<lparr>tm_isdst := -1\<rparr>) in
      abort_if (calendar_local = -1) E_INTERNAL (Ret (gmtime calendar_local)))"

subsection \<open>Alignment to the rotation interval\<close>

lemma mktime_utc_cases:
  "mktime_utc e t = Ret ((c, t'), e') \<Longrightarrow> c = tm_time t \<and> t' = gmtime (tm_time t) \<and> e' = e"
  by (auto simp: mktime_utc_def Let_def res_simps)

lemma tm_time_add_sec [simp]: "tm_time (t\<lparr>tm_sec := tm_sec t + k\<rparr>) = tm_time t + k"
  by (simp add: tm_time_def Let_def)

lemma tm_time_sub_sec [simp]: "tm_time (t\<lparr>tm_sec := tm_sec t - k\<rparr>) = tm_time t - k"
  by (simp add: tm_time_def Let_def)

lemma smod_zero_iff: "(c smod k = 0) = (c mod k = (0 :: int))" if "0 < k"
  using that by (auto simp: signed_modulo_int_def sgn_if)

lemma mod_pred:
  fixes x k :: int
  assumes "0 < k" "x mod k \<noteq> 0"
  shows "(x - 1) mod k = x mod k - 1"
proof (rule int_mod_pos_eq)
  show "x - 1 = k * (x div k) + (x mod k - 1)" using mult_div_mod_eq[of k x] by linarith
  show "0 \<le> x mod k - 1" "x mod k - 1 < k"
    using assms pos_mod_sign[of k x] pos_mod_bound[of k x] by linarith+
qed

lemma mod_uminus_pred:
  fixes x k :: int
  assumes "0 < k" "x mod k \<noteq> 0"
  shows "(- (x + 1)) mod k = (- x) mod k - 1"
proof -
  have "(- x) mod k \<noteq> 0" using assms zmod_zminus1_not_zero[of "- x" k] by auto
  then show ?thesis using mod_pred[OF assms(1), of "- x"] by simp
qed

function align_back :: "tz_env \<Rightarrow> tm \<Rightarrow> (tm \<times> tz_env) res" where
  "align_back e t =
     (case mktime_utc e t of
        Ret ((c, t'), e') \<Rightarrow>
          if c smod FLOW_FILE_ROTATION_INTERVAL \<noteq> 0
          then align_back e' (t'\<lparr>tm_sec := tm_sec t' - 1\<rparr>)
          else Ret (t', e')
      | Abort x \<Rightarrow> Abort x
      | Assert_Fail \<Rightarrow> Assert_Fail
      | Out_Of_Bounds \<Rightarrow> Out_Of_Bounds
      | Data_Race \<Rightarrow> Data_Race)"
  by pat_completeness auto
termination
proof (relation "measure (\<lambda>(e, t). nat (tm_time t mod 300))", goal_cases)
  case (2 e t p ct e' c t')
  then have "c = tm_time t" "tm_time t' = tm_time t" "tm_time t mod 300 \<noteq> 0"
    by (auto dest!: mktime_utc_cases simp: tm_time_gmtime FLOW_FILE_ROTATION_INTERVAL_def smod_zero_iff)
  moreover from this have "(tm_time t - 1) mod 300 = tm_time t mod 300 - 1" by (intro mod_pred) simp_all
  moreover have "0 \<le> tm_time t mod 300" by simp
  ultimately show ?case by simp
qed simp

function align_forth :: "tz_env \<Rightarrow> tm \<Rightarrow> (tm \<times> tz_env) res" where
  "align_forth e t =
     (case mktime_utc e t of
        Ret ((c, t'), e') \<Rightarrow>
          if c smod FLOW_FILE_ROTATION_INTERVAL \<noteq> 0
          then align_forth e' (t'\<lparr>tm_sec := tm_sec t' + 1\<rparr>)
          else Ret (t', e')
      | Abort x \<Rightarrow> Abort x
      | Assert_Fail \<Rightarrow> Assert_Fail
      | Out_Of_Bounds \<Rightarrow> Out_Of_Bounds
      | Data_Race \<Rightarrow> Data_Race)"
  by pat_completeness auto
termination
proof (relation "measure (\<lambda>(e, t). nat ((- tm_time t) mod 300))", goal_cases)
  case (2 e t p ct e' c t')
  then have "c = tm_time t" "tm_time t' = tm_time t" "tm_time t mod 300 \<noteq> 0"
    by (auto dest!: mktime_utc_cases simp: tm_time_gmtime FLOW_FILE_ROTATION_INTERVAL_def smod_zero_iff)
  moreover from this have "(- (tm_time t + 1)) mod 300 = (- tm_time t) mod 300 - 1"
    by (intro mod_uminus_pred) simp_all
  moreover have "0 \<le> (- tm_time t) mod 300" "0 \<le> (- (tm_time t + 1)) mod 300" by simp_all
  ultimately show ?case by simp
qed simp

declare align_back.simps [simp del] align_forth.simps [simp del]

definition set_time_point :: "os_time \<Rightarrow> tz_env \<Rightarrow> cmdline_args \<Rightarrow> string \<Rightarrow> ((error_code \<times> cmdline_args) \<times> tz_env) res" where
  "set_time_point os e args time_str =
     assert_then (time_str \<noteq> [])
      (res_bind (str_to_tm os e time_str)
        (\<lambda>(r, e1). case r of
           None \<Rightarrow> Ret ((E_ARG, args), e1)
         | Some broken_down_local \<Rightarrow>
             res_bind (tm_local_to_utc os broken_down_local)
              (\<lambda>utc. res_bind (align_back e1 utc)
                (\<lambda>(b, e2). res_bind (align_forth e2 (b\<lparr>tm_sec := tm_sec b + 1\<rparr>))
                  (\<lambda>(f, e3). assert_then (tm_diff f b = FLOW_FILE_ROTATION_INTERVAL)
                     (Ret ((E_OK, args\<lparr>time_begin := b, time_end := f\<rparr>), e3)))))))"

definition set_time_range :: "os_time \<Rightarrow> tz_env \<Rightarrow> cmdline_args \<Rightarrow> string \<Rightarrow> ((error_code \<times> cmdline_args) \<times> tz_env) res" where
  "set_time_range os e args range_str =
     assert_then (range_str \<noteq> [])
      (let (begin_str, end_str) =
             (case split_at_char TIME_RANGE_DELIM range_str of
                Some (a, b) \<Rightarrow> (a, Some b)
              | None \<Rightarrow> (range_str, None))
       in res_bind (str_to_tm os e begin_str)
        (\<lambda>(r, e1). case r of
           None \<Rightarrow> Ret ((E_ARG, args), e1)
         | Some begin_local \<Rightarrow>
             res_bind
              (case end_str of
                 Some s \<Rightarrow> str_to_tm os e1 s
               | None \<Rightarrow>
                   abort_if (os_now os = -1) E_INTERNAL
                    (case os_localtime os (os_now os) of
                       None \<Rightarrow> Abort E_INTERNAL
                     | Some now_tm \<Rightarrow> Ret (Some now_tm, e1)))
              (\<lambda>(r, e2). case r of
                 None \<Rightarrow> Ret ((E_ARG, args), e2)
               | Some end_local \<Rightarrow>
                   res_bind (tm_local_to_utc os begin_local)
                    (\<lambda>bu. res_bind (tm_local_to_utc os end_local)
                      (\<lambda>eu. res_bind (align_back e2 bu)
                        (\<lambda>(b, e3). res_bind (align_forth e3 eu)
                          (\<lambda>(f, e4).
                             if tm_diff f b \<le> 0
                             then Ret ((E_ARG, args\<lparr>time_begin := b, time_end := f\<rparr>), e4)
                             else Ret ((E_OK, args\<lparr>time_begin := b, time_end := f\<rparr>), e4))))))))"

subsection \<open>The clock the alignment and the file walk rely on\<close>

locale rotation_clock =
  fixes secs :: "'t \<Rightarrow> int"
    and norm :: "'t \<Rightarrow> 't"
    and shift :: "int \<Rightarrow> 't \<Rightarrow> 't"
  assumes secs_norm: "secs (norm t) = secs t"
    and secs_shift: "secs (shift k t) = secs t + k"
    and norm_canonical: "secs t = secs u \<Longrightarrow> norm t = norm u"
begin

lemma secs_step: "secs (norm (shift k t)) = secs t + k"
  by (simp add: secs_norm secs_shift)

lemma secs_walk: "secs (((\<lambda>t. norm (shift k t)) ^^ n) t) = secs t + int n * k"
  by (induction n) (simp_all add: secs_step algebra_simps)

lemma norm_norm_shift: "norm (shift k (norm t)) = norm (shift k t)"
  by (rule norm_canonical) (simp add: secs_norm secs_shift)

lemma norm_shift_shift: "norm (shift k (shift j t)) = norm (shift (j + k) t)"
  by (rule norm_canonical) (simp add: secs_shift)

end

text \<open>What \<open>mktime_utc\<close> leaves in its argument.\<close>

definition norm_tm :: "tm \<Rightarrow> tm" where "norm_tm t = gmtime (tm_time t)"

interpretation utc: rotation_clock tm_time norm_tm "\<lambda>k t. t\<lparr>tm_sec := tm_sec t + k\<rparr>"
  by unfold_locales (simp_all add: norm_tm_def tm_time_gmtime)

lemma align_back_Ret:
  "env_ok e \<Longrightarrow> align_back e t = Ret (gmtime (tm_time t - tm_time t mod 300), e)"
proof (induction e t rule: align_back.induct)
  case (1 e t)
  show ?case
  proof (cases "tm_time t mod 300 = 0")
    case True
    with 1 show ?thesis
      by (simp add: align_back.simps[of e t] mktime_utc_Ret FLOW_FILE_ROTATION_INTERVAL_def smod_zero_iff)
  next
    case False
    have "align_back e (norm_tm t\<lparr>tm_sec := tm_sec (norm_tm t) - 1\<rparr>)
        = Ret (gmtime (tm_time t - 1 - (tm_time t - 1) mod 300), e)"
      using "1.IH"[OF mktime_utc_Ret[OF "1.prems"] refl refl _ "1.prems"] False
      by (simp add: FLOW_FILE_ROTATION_INTERVAL_def smod_zero_iff norm_tm_def tm_time_gmtime)
    with False 1 show ?thesis
      by (simp add: align_back.simps[of e t] mktime_utc_Ret FLOW_FILE_ROTATION_INTERVAL_def
          smod_zero_iff norm_tm_def mod_pred)
  qed
qed

lemma align_forth_Ret:
  "env_ok e \<Longrightarrow> align_forth e t = Ret (gmtime (tm_time t + (- tm_time t) mod 300), e)"
proof (induction e t rule: align_forth.induct)
  case (1 e t)
  show ?case
  proof (cases "tm_time t mod 300 = 0")
    case True
    then have "(- tm_time t) mod 300 = 0" by (simp add: zmod_zminus1_eq_if)
    with True 1 show ?thesis
      by (simp add: align_forth.simps[of e t] mktime_utc_Ret FLOW_FILE_ROTATION_INTERVAL_def smod_zero_iff)
  next
    case False
    have *: "(- (tm_time t + 1)) mod 300 = (- tm_time t) mod 300 - 1"
      using False by (intro mod_uminus_pred) simp_all
    have "align_forth e (norm_tm t\<lparr>tm_sec := tm_sec (norm_tm t) + 1\<rparr>)
        = Ret (gmtime (tm_time t + 1 + (- (tm_time t + 1)) mod 300), e)"
      using "1.IH"[OF mktime_utc_Ret[OF "1.prems"] refl refl _ "1.prems"] False
      by (simp add: FLOW_FILE_ROTATION_INTERVAL_def smod_zero_iff norm_tm_def tm_time_gmtime)
    with False 1 show ?thesis
      unfolding *
      by (simp add: align_forth.simps[of e t] mktime_utc_Ret FLOW_FILE_ROTATION_INTERVAL_def
          smod_zero_iff norm_tm_def)
  qed
qed

lemma forth_of_aligned: "(x :: int) mod 300 = 0 \<Longrightarrow> x + 1 + (- (x + 1)) mod 300 = x + 300"
proof -
  assume "x mod 300 = 0"
  then obtain q where q: "x = 300 * q" by (metis mod_0_imp_dvd dvdE)
  have "(- (x + 1)) mod 300 = 299"
    by (rule int_mod_pos_eq[of _ _ "- q - 1"]) (simp_all add: q)
  then show ?thesis by simp
qed

lemma str_to_tm_env:
  assumes "str_to_tm os e s = Ret (r, e')"
  shows "e' = e"
  using assms
  by (auto simp: str_to_tm_def res_simps split: option.splits prod.splits dest!: mktime_utc_cases)

text \<open>The instant the user's local time denotes.\<close>

definition local_instant :: "os_time \<Rightarrow> tm \<Rightarrow> int" where
  "local_instant os t = os_mktime os (t\<lparr>tm_isdst := -1\<rparr>)"

lemma floor_slot:
  fixes c :: int
  shows "(c - c mod 300) mod 300 = 0" "c - c mod 300 \<le> c" "c < c - c mod 300 + 300"
  using pos_mod_bound[of 300 c] pos_mod_sign[of 300 c] by simp_all

lemma ceil_slot:
  fixes d :: int
  shows "(d + (- d) mod 300) mod 300 = 0" "d \<le> d + (- d) mod 300" "d + (- d) mod 300 < d + 300"
  using pos_mod_bound[of 300 "- d"] pos_mod_sign[of 300 "- d"] by simp_all (simp add: mod_add_right_eq)

lemma set_time_point_eq:
  assumes "env_ok e" and "s \<noteq> []"
    and "str_to_tm os e s = Ret (Some lcl, e)" and "local_instant os lcl \<noteq> -1"
    and b: "b = local_instant os lcl - local_instant os lcl mod 300"
  shows "set_time_point os e args s
      = Ret ((E_OK, args\<lparr>time_begin := gmtime b, time_end := gmtime (b + 300)\<rparr>), e)"
  using assms(1-4) forth_of_aligned[OF floor_slot(1)[of "local_instant os lcl"]]
  by (simp add: set_time_point_def tm_local_to_utc_def Let_def local_instant_def[symmetric]
      align_back_Ret align_forth_Ret tm_time_gmtime b[symmetric]
      tm_diff_gmtime FLOW_FILE_ROTATION_INTERVAL_def add.commute[of b 300])

lemma set_time_range_eq:
  assumes "env_ok e"
    and "split_at_char TIME_RANGE_DELIM s = Some (x, y)"
    and "str_to_tm os e x = Ret (Some bl, e)" and "local_instant os bl \<noteq> -1"
    and "str_to_tm os e y = Ret (Some el, e)" and "local_instant os el \<noteq> -1"
    and b: "b = local_instant os bl - local_instant os bl mod 300"
    and f: "f = local_instant os el + (- local_instant os el) mod 300"
    and d: "\<bar>f - b\<bar> < 2 ^ 31"
  shows "set_time_range os e args s
      = Ret ((if b < f then E_OK else E_ARG, args\<lparr>time_begin := gmtime b, time_end := gmtime f\<rparr>), e)"
proof -
  have "s \<noteq> []" using assms(2) by auto
  then show ?thesis
    using assms(1-6)
    by (simp add: set_time_range_def tm_local_to_utc_def Let_def local_instant_def[symmetric]
        align_back_Ret align_forth_Ret tm_time_gmtime b[symmetric] f[symmetric] tm_diff_gmtime[OF d])
qed

text \<open>C25: a time point selects exactly one rotation slot: the loops of \<open>set_time_point\<close> end, no
  assertion fails, both bounds are multiples of the rotation interval, the slot contains the
  instant given by the user and is one interval long.\<close>

theorem set_time_point_slot:
  assumes "env_ok e" and "s \<noteq> []"
    and "str_to_tm os e s = Ret (Some lcl, e)" and "local_instant os lcl \<noteq> -1"
  shows "\<exists>b f. set_time_point os e args s
              = Ret ((E_OK, args\<lparr>time_begin := gmtime b, time_end := gmtime f\<rparr>), e)
           \<and> b mod 300 = 0 \<and> f mod 300 = 0
           \<and> b \<le> local_instant os lcl \<and> local_instant os lcl < f
           \<and> f - b = FLOW_FILE_ROTATION_INTERVAL"
proof -
  define c where "c = local_instant os lcl"
  define b where "b = c - c mod 300"
  have b: "b mod 300 = 0" "b \<le> c" "c < b + 300" using floor_slot[of c] by (simp_all add: b_def)
  moreover have "(b + 300) mod 300 = 0" using b(1) by simp
  ultimately show ?thesis
    using set_time_point_eq[OF assms, of b] unfolding c_def b_def FLOW_FILE_ROTATION_INTERVAL_def
    by (intro exI[of _ b] exI[of _ "b + 300"]) (simp add: c_def b_def)
qed

text \<open>C24: a time range is widened to whole rotation slots: the begin is moved back and the end
  forward by less than one interval, and the option is accepted exactly when the widened range is
  not empty; for a range of less than 68 years, whose length in seconds is an \<open>int\<close>.\<close>

theorem set_time_range_slots:
  assumes "env_ok e"
    and "split_at_char TIME_RANGE_DELIM s = Some (x, y)"
    and "str_to_tm os e x = Ret (Some bl, e)" and "local_instant os bl \<noteq> -1"
    and "str_to_tm os e y = Ret (Some el, e)" and "local_instant os el \<noteq> -1"
    and "\<bar>local_instant os el - local_instant os bl\<bar> < 2 ^ 31 - 600"
  shows "\<exists>b f. set_time_range os e args s
              = Ret ((if b < f then E_OK else E_ARG,
                      args\<lparr>time_begin := gmtime b, time_end := gmtime f\<rparr>), e)
           \<and> b mod 300 = 0 \<and> b \<le> local_instant os bl \<and> local_instant os bl < b + 300
           \<and> f mod 300 = 0 \<and> local_instant os el \<le> f \<and> f < local_instant os el + 300"
proof -
  define c where "c = local_instant os bl"
  define d where "d = local_instant os el"
  define b where "b = c - c mod 300"
  define f where "f = d + (- d) mod 300"
  have b: "b mod 300 = 0" "b \<le> c" "c < b + 300" using floor_slot[of c] by (simp_all add: b_def)
  have f: "f mod 300 = 0" "d \<le> f" "f < d + 300" using ceil_slot[of d] by (simp_all add: f_def)
  have "\<bar>f - b\<bar> < 2 ^ 31" using b f assms(7) by (simp add: c_def d_def)
  then have "set_time_range os e args s
      = Ret ((if b < f then E_OK else E_ARG, args\<lparr>time_begin := gmtime b, time_end := gmtime f\<rparr>), e)"
    by (intro set_time_range_eq[OF assms(1-6)]) (simp_all add: b_def f_def c_def d_def)
  with b f show ?thesis unfolding c_def d_def by (intro exI[of _ b] exI[of _ f]) simp
qed

subsection \<open>Relative dates\<close>


lemma tm_time_back_days:
  "tm_time (t\<lparr>tm_mday := tm_mday t - k, tm_hour := 0, tm_min := 0, tm_sec := 0\<rparr>)
   = tm_time t - 86400 * k - (3600 * tm_hour t + 60 * tm_min t + tm_sec t)"
  by (simp add: tm_time_def Let_def algebra_simps)

lemma gmtime_day_seconds: "3600 * tm_hour (gmtime n) + 60 * tm_min (gmtime n) + tm_sec (gmtime n) = n mod 86400"
proof -
  define r where "r = n mod 86400"
  have hms: "tm_hour (gmtime n) = r div 3600" "tm_min (gmtime n) = r div 60 mod 60" "tm_sec (gmtime n) = r mod 60"
    by (simp_all only: gmtime_def Let_def tm.simps r_def)
  have "3600 * h + 60 * m + s = 60 * (60 * h + m) + s" for h m s :: int by simp
  then show ?thesis unfolding hms r_def[symmetric] by (simp only: split_seconds)
qed

lemma gmtime_wday: "tm_wday (gmtime n) = (n div 86400 + EPOCH_DAYS + 1) mod 7"
  by (simp add: gmtime_def Let_def)

lemma tm_time_cong:
  assumes "tm_sec t = tm_sec u" "tm_min t = tm_min u" "tm_hour t = tm_hour u"
    "tm_mday t = tm_mday u" "tm_mon t = tm_mon u" "tm_year t = tm_year u"
  shows "tm_time t = tm_time u"
  using assms by (simp add: tm_time_def)

text \<open>The token is a weekday name: formats before \<open>%a\<close> do not match all of it.\<close>

definition weekday_token :: "os_time \<Rightarrow> string \<Rightarrow> int \<Rightarrow> bool" where
  "weekday_token os tok w \<longleftrightarrow>
     (\<forall>f\<in>set (take 4 date_formats). \<forall>t'. os_strptime os tok f (os_attempt os) \<noteq> Some ([], t'))
     \<and> (\<forall>t. os_strptime os tok ''%a'' t = Some ([], t\<lparr>tm_wday := w\<rparr>))"

lemma try_formats_skip:
  "(\<And>t'. os_strptime os tok f (os_attempt os) \<noteq> Some ([], t'))
   \<Longrightarrow> try_formats os tok (f # fs) t = try_formats os tok fs t"
  by (simp split: option.split list.split)

lemma try_formats_weekday:
  assumes "weekday_token os tok w"
  shows "try_formats os tok date_formats t = Ret (Some (t\<lparr>tm_wday := w\<rparr>))"
proof -
  have "try_formats os tok date_formats t = try_formats os tok [''%a'', ''%b'', ''%s''] t"
    using assms unfolding weekday_token_def date_formats_def
    by (simp add: try_formats_skip del: try_formats.simps)
  then show ?thesis using assms by (simp add: weekday_token_def)
qed

lemma complete_weekday:
  assumes "0 \<le> w" "w \<le> 6" "tm_mon now_tm \<noteq> INT_MIN" "tm_year now_tm \<noteq> INT_MIN"
    "0 \<le> tm_mon now_tm" "- 1000 \<le> tm_mday now_tm" "0 \<le> tm_wday now_tm"
  shows "complete_tm now_tm (unset_tm\<lparr>tm_wday := w\<rparr>) =
    unset_tm\<lparr>tm_wday := w, tm_year := tm_year now_tm, tm_mon := tm_mon now_tm,
      tm_mday := tm_mday now_tm - (tm_wday now_tm - w + 7) smod 7, tm_hour := 0, tm_min := 0, tm_sec := 0\<rparr>"
proof -
  have "(tm_wday now_tm - w + 7) smod 7 \<le> 6"
    using assms by (simp add: signed_modulo_int_def sgn_if)
  then have "tm_mday now_tm - (tm_wday now_tm - w + 7) smod 7 \<noteq> INT_MIN"
    using assms by (simp add: INT_MIN_def)
  then show ?thesis using assms
    by (simp add: complete_tm_def only_weekday_def only_month_def no_time_def no_date_def
        fill_gaps_def unset_tm_def INT_MIN_def)
qed

lemma gmtime_sane:
  "0 \<le> tm_mon (gmtime n)" "0 \<le> tm_wday (gmtime n)" "- 1000 \<le> tm_mday (gmtime n)"
  "0 \<le> n \<Longrightarrow> 0 \<le> tm_year (gmtime n)"
proof -
  define d where "d = n div 86400 + EPOCH_DAYS"
  define y where "y = year_of_day d"
  have y: "days_before_year y \<le> d" "d < days_before_year (y + 1)"
    unfolding y_def by (rule year_of_day_correct)+
  define m where "m = month_of_yday (leap y) (d - days_before_year y)"
  have m: "0 \<le> m" "m \<le> 11" unfolding m_def by (rule month_of_yday_range)+
  have "month_start lp m \<le> 335" for lp
  proof -
    have "m = 0 \<or> m = 1 \<or> m = 2 \<or> m = 3 \<or> m = 4 \<or> m = 5 \<or> m = 6 \<or> m = 7 \<or> m = 8 \<or> m = 9
        \<or> m = 10 \<or> m = 11" using m by presburger
    then show ?thesis by (elim disjE) (simp_all add: month_start_def)
  qed
  then have ms: "month_start (leap y) m \<le> 335" .
  have parts: "tm_mon (gmtime n) = m" "tm_year (gmtime n) = y - 1900"
    "tm_mday (gmtime n) = d - days_before_year y - month_start (leap y) m + 1"
    by (simp_all add: gmtime_def Let_def d_def[symmetric] y_def[symmetric] m_def[symmetric] TM_YEAR_BASE_def)
  show "0 \<le> tm_mon (gmtime n)" "0 \<le> tm_wday (gmtime n)" using m parts by (simp_all add: gmtime_wday)
  show "- 1000 \<le> tm_mday (gmtime n)" using ms y by (simp add: parts)
  show "0 \<le> tm_year (gmtime n)" if "0 \<le> n"
  proof -
    have "719162 \<le> d" using that by (simp add: d_def EPOCH_DAYS_def)
    then have "146097 * 1900 \<le> 146097 * y"
      using y(2) days_before_year_bounds(2)[of "y + 1"] by simp
    then show ?thesis by (simp add: parts)
  qed
qed

text \<open>A weekday alone means its last occurrence: midnight of the day with that weekday among
  today and the six days before it.\<close>

theorem str_to_tm_weekday:
  assumes "env_ok e" and "strtok TIME_DELIM s = [tok]" and "s \<noteq> []" and "hd s \<noteq> CHR 0x0A"
    and "weekday_token os tok w" and "0 \<le> w" and "w \<le> 6"
    and "os_now os \<noteq> -1" and "os_localtime os (os_now os) = Some (gmtime n)"
    and "0 \<le> n"
  shows "\<exists>t. str_to_tm os e s = Ret (Some t, e) \<and> tm_wday t = w
           \<and> tm_time t mod 86400 = 0 \<and> tm_time t \<le> n \<and> n < tm_time t + 7 * 86400"
proof -
  define k where "k = (tm_wday (gmtime n) - w + 7) smod 7"
  define r where "r = n mod 86400"
  define q where "q = n div 86400"
  have n: "n = 86400 * q + r" "0 \<le> r" "r < 86400" by (simp_all add: q_def r_def)
  have wd: "tm_wday (gmtime n) = (q + EPOCH_DAYS + 1) mod 7" by (simp add: gmtime_wday q_def)
  have "0 < tm_wday (gmtime n) - w + 7" using gmtime_sane(2)[of n] assms(7) by simp
  then have k: "k = (tm_wday (gmtime n) - w + 7) mod 7"
    by (simp add: k_def signed_modulo_int_def sgn_if)
  have k_range: "0 \<le> k" "k < 7" by (simp_all add: k)
  define u where "u = unset_tm\<lparr>tm_wday := w, tm_year := tm_year (gmtime n), tm_mon := tm_mon (gmtime n),
      tm_mday := tm_mday (gmtime n) - k, tm_hour := 0, tm_min := 0, tm_sec := 0\<rparr>"
  have u: "complete_tm (gmtime n) (unset_tm\<lparr>tm_wday := w\<rparr>) = u"
    unfolding u_def k_def
    using gmtime_sane[of n] assms by (intro complete_weekday) (simp_all add: INT_MIN_def)
  have "tm_time u = tm_time (gmtime n\<lparr>tm_mday := tm_mday (gmtime n) - k, tm_hour := 0, tm_min := 0, tm_sec := 0\<rparr>)"
    unfolding u_def by (rule tm_time_cong) simp_all
  also have "\<dots> = n - 86400 * k - r"
    by (simp add: tm_time_back_days tm_time_gmtime gmtime_day_seconds r_def)
  finally have tu: "tm_time u = 86400 * (q - k)" using n(1) by simp
  have "str_to_tm os e s = Ret (Some (gmtime (tm_time u)), e)"
    using assms u by (simp add: str_to_tm_def try_formats_weekday mktime_utc_Ret)
  moreover have "tm_wday (gmtime (tm_time u)) = w"
  proof -
    have "tm_wday (gmtime (tm_time u)) = (q - k + EPOCH_DAYS + 1) mod 7"
      by (simp add: gmtime_wday tu)
    also have "\<dots> = ((q + EPOCH_DAYS + 1) - k) mod 7" by (simp add: algebra_simps)
    also have "\<dots> = ((q + EPOCH_DAYS + 1) mod 7 - k mod 7) mod 7" by (simp add: mod_diff_eq)
    also have "\<dots> = (tm_wday (gmtime n) - (tm_wday (gmtime n) - w + 7)) mod 7"
      unfolding k wd by (simp only: mod_mod_trivial mod_diff_right_eq)
    also have "\<dots> = w" using assms(6,7) by simp
    finally show ?thesis .
  qed
  moreover have "tm_time (gmtime (tm_time u)) = 86400 * (q - k)" by (simp add: tm_time_gmtime tu)
  ultimately show ?thesis
    using n k_range by (intro exI[of _ "gmtime (tm_time u)"]) simp
qed

subsection \<open>Instances\<close>

definition sample_strptime :: "string \<Rightarrow> string \<Rightarrow> tm \<Rightarrow> (string \<times> tm) option" where
  "sample_strptime tok f t =
     (if f = ''%a'' \<and> tok = ''Mon'' then Some ([], t\<lparr>tm_wday := 1\<rparr>)
      else if f = ''%a'' \<and> tok = ''Tue'' then Some ([], t\<lparr>tm_wday := 2\<rparr>)
      else None)"

definition sample_os :: os_time where
  "sample_os = \<lparr>os_strptime = sample_strptime, os_attempt = zero_tm, os_now = 1600000000,
     os_localtime = (\<lambda>c. Some (gmtime c)), os_mktime = tm_time\<rparr>"

definition sample_env :: tz_env where
  "sample_env = \<lparr>env_tz = Some [], setenv_ok = True\<rparr>"

definition sample_monday :: tm where
  "sample_monday = \<lparr>tm_sec = 0, tm_min = 0, tm_hour = 0, tm_mday = 7, tm_mon = 8, tm_year = 120,
     tm_wday = 1, tm_yday = 250, tm_isdst = 0\<rparr>"

definition sample_tuesday :: tm where
  "sample_tuesday = sample_monday\<lparr>tm_mday := 8, tm_wday := 2, tm_yday := 251\<rparr>"

lemma sample_env_ok: "env_ok sample_env"
  by (simp add: env_ok_def sample_env_def)

definition sample_now :: tm where
  "sample_now = \<lparr>tm_sec = 40, tm_min = 26, tm_hour = 12, tm_mday = 13, tm_mon = 8, tm_year = 120,
     tm_wday = 0, tm_yday = 256, tm_isdst = 0\<rparr>"

lemma sample_now: "gmtime 1600000000 = sample_now"
  by code_simp

lemma sample_weekdays: "weekday_token sample_os ''Mon'' 1" "weekday_token sample_os ''Tue'' 2"
  by (simp_all add: weekday_token_def sample_os_def sample_strptime_def date_formats_def)

lemma sample_complete:
  "norm_tm (complete_tm sample_now (unset_tm\<lparr>tm_wday := 1\<rparr>)) = sample_monday"
  "norm_tm (complete_tm sample_now (unset_tm\<lparr>tm_wday := 2\<rparr>)) = sample_tuesday"
  by code_simp+

lemma sample_str_to_tm:
  "str_to_tm sample_os sample_env ''Mon'' = Ret (Some sample_monday, sample_env)"
  "str_to_tm sample_os sample_env ''Tue'' = Ret (Some sample_tuesday, sample_env)"
proof -
  have "strtok TIME_DELIM ''Mon'' = [''Mon'']" "strtok TIME_DELIM ''Tue'' = [''Tue'']"
    by (simp_all add: strtok_def TIME_DELIM_def)
  moreover have "os_now sample_os = 1600000000" "os_localtime sample_os 1600000000 = Some sample_now"
    by (simp_all add: sample_os_def sample_now)
  ultimately show
    "str_to_tm sample_os sample_env ''Mon'' = Ret (Some sample_monday, sample_env)"
    "str_to_tm sample_os sample_env ''Tue'' = Ret (Some sample_tuesday, sample_env)"
    using sample_complete
    by (simp_all add: str_to_tm_def try_formats_weekday[OF sample_weekdays(1)]
        try_formats_weekday[OF sample_weekdays(2)] mktime_utc_Ret[OF sample_env_ok] norm_tm_def)
qed

lemma sample_local: "local_instant sample_os sample_monday = 1599436800" "local_instant sample_os sample_tuesday = 1599523200"
  by code_simp+

theorem set_time_point_slot_witness:
  "\<exists>b f. set_time_point sample_os sample_env zero_args ''Mon''
        = Ret ((E_OK, zero_args\<lparr>time_begin := gmtime b, time_end := gmtime f\<rparr>), sample_env)
      \<and> b mod 300 = 0 \<and> f mod 300 = 0
      \<and> b \<le> local_instant sample_os sample_monday \<and> local_instant sample_os sample_monday < f
      \<and> f - b = FLOW_FILE_ROTATION_INTERVAL"
  by (rule set_time_point_slot[OF sample_env_ok _ sample_str_to_tm(1)]) (simp_all add: sample_local)

theorem set_time_range_slots_witness:
  "\<exists>b f. set_time_range sample_os sample_env zero_args ''Mon#Tue''
        = Ret ((if b < f then E_OK else E_ARG,
                zero_args\<lparr>time_begin := gmtime b, time_end := gmtime f\<rparr>), sample_env)
      \<and> b mod 300 = 0 \<and> b \<le> local_instant sample_os sample_monday
      \<and> local_instant sample_os sample_monday < b + 300
      \<and> f mod 300 = 0 \<and> local_instant sample_os sample_tuesday \<le> f
      \<and> f < local_instant sample_os sample_tuesday + 300"
  by (rule set_time_range_slots[OF sample_env_ok _ sample_str_to_tm(1) _ sample_str_to_tm(2)])
    (simp_all add: sample_local TIME_RANGE_DELIM_def)

theorem str_to_tm_weekday_witness:
  "\<exists>t. str_to_tm sample_os sample_env ''Mon'' = Ret (Some t, sample_env) \<and> tm_wday t = 1
      \<and> tm_time t mod 86400 = 0 \<and> tm_time t \<le> 1600000000 \<and> 1600000000 < tm_time t + 7 * 86400"
proof (rule str_to_tm_weekday[OF sample_env_ok])
  show "weekday_token sample_os ''Mon'' 1" by (rule sample_weekdays)
qed (simp_all add: strtok_def TIME_DELIM_def sample_os_def)

end
