(* ===== verification/Numbers.thy ===== *)
theory Numbers
  imports Time_Range Decimal
begin

text \<open>
  The integer options of \<open>src/arg_parse.c\<close> (\<open>str_to_llint\<close> to \<open>str_to_uint\<close>):
  wrappers of \<open>strtoll\<close> and \<open>strtoull\<close> that reject trailing characters, a
  minus sign before an unsigned number, and values out of range.  \<open>long\<close> has
  64 bits and \<open>int\<close> 32 (LP64, the platform the program is built for), so the
  conditionally compiled checks of the \<open>long\<close> versions are absent.
\<close>

datatype conv_error = Invalid_Characters | Negative_Value | Range_Error

definition INT_MAX :: int where "INT_MAX = 2 ^ 31 - 1"
definition UINT_MAX :: nat where "UINT_MAX = 2 ^ 32 - 1"
definition LLONG_MIN :: int where "LLONG_MIN = - (2 ^ 63)"
definition LLONG_MAX :: int where "LLONG_MAX = 2 ^ 63 - 1"
definition ULLONG_MAX :: nat where "ULLONG_MAX = 2 ^ 64 - 1"

definition is_space :: "char \<Rightarrow> bool" where
  "is_space c \<longleftrightarrow> c \<in> set TIME_DELIM"

subsection \<open>The conversions of the C library, base ten\<close>

definition scan_sign :: "string \<Rightarrow> bool \<times> string" where
  "scan_sign s =
     (case s of
        [] \<Rightarrow> (False, [])
      | c # cs \<Rightarrow> if c = CHR ''-'' then (True, cs) else if c = CHR ''+'' then (False, cs) else (False, s))"

text \<open>Sign, digits, and the text \<open>endptr\<close> points to: the whole string when there is no digit.\<close>

definition scan_number :: "string \<Rightarrow> bool \<times> string \<times> string" where
  "scan_number s =
     (case scan_sign (dropWhile is_space s) of (neg, t) \<Rightarrow>
      let ds = takeWhile is_digit t
      in (neg, ds, if ds = [] then s else dropWhile is_digit t))"

definition signed_val :: "bool \<Rightarrow> string \<Rightarrow> int" where
  "signed_val neg ds = (if neg then - int (digits_val ds) else int (digits_val ds))"

text \<open>The value, the rest of the string, and whether \<open>errno\<close> is set to \<open>ERANGE\<close>.\<close>

definition strtoll :: "string \<Rightarrow> int \<times> string \<times> bool" where
  "strtoll s =
     (case scan_number s of (neg, ds, endptr) \<Rightarrow>
      let v = signed_val neg ds in
      if v < LLONG_MIN then (LLONG_MIN, endptr, True)
      else if v > LLONG_MAX then (LLONG_MAX, endptr, True)
      else (v, endptr, False))"

definition strtoull :: "string \<Rightarrow> 64 word \<times> string \<times> bool" where
  "strtoull s =
     (case scan_number s of (neg, ds, endptr) \<Rightarrow>
      if digits_val ds > ULLONG_MAX then (of_nat ULLONG_MAX, endptr, True)
      else (of_int (signed_val neg ds), endptr, False))"

subsection \<open>The wrappers\<close>

definition str_to_llint :: "string \<Rightarrow> (conv_error + int) res" where
  "str_to_llint s =
     assert_then (s \<noteq> [])
      (case strtoll s of (v, endptr, erange) \<Rightarrow>
       Ret (if endptr \<noteq> [] then Inl Invalid_Characters
            else if erange then Inl Range_Error else Inr v))"

definition str_to_lint :: "string \<Rightarrow> (conv_error + int) res" where
  "str_to_lint s = assert_then (s \<noteq> []) (str_to_llint s)"

definition str_to_int :: "string \<Rightarrow> (conv_error + int) res" where
  "str_to_int s =
     assert_then (s \<noteq> [])
      (res_bind (str_to_llint s) (\<lambda>r. case r of
         Inl e \<Rightarrow> Ret (Inl e)
       | Inr v \<Rightarrow> assert_then (INT_MIN < INT_MAX)
           (Ret (if \<not> (INT_MIN \<le> v \<and> v \<le> INT_MAX) then Inl Range_Error else Inr v))))"

definition str_to_lluint :: "string \<Rightarrow> (conv_error + 64 word) res" where
  "str_to_lluint s =
     assert_then (s \<noteq> [])
      (let neg_check = dropWhile is_space s in
       if neg_check \<noteq> [] \<and> hd neg_check = CHR ''-'' then Ret (Inl Negative_Value)
       else
         (case strtoull s of (v, endptr, erange) \<Rightarrow>
          Ret (if endptr \<noteq> [] then Inl Invalid_Characters
               else if erange then Inl Range_Error else Inr v)))"

definition str_to_luint :: "string \<Rightarrow> (conv_error + 64 word) res" where
  "str_to_luint s = assert_then (s \<noteq> []) (str_to_lluint s)"

definition str_to_uint :: "string \<Rightarrow> (conv_error + 32 word) res" where
  "str_to_uint s =
     assert_then (s \<noteq> [])
      (res_bind (str_to_lluint s) (\<lambda>r. case r of
         Inl e \<Rightarrow> Ret (Inl e)
       | Inr v \<Rightarrow> Ret (if unat v > UINT_MAX then Inl Range_Error else Inr (ucast v))))"

subsection \<open>The strings the wrappers accept\<close>

definition numeral_of :: "bool \<Rightarrow> string \<Rightarrow> string \<Rightarrow> bool" where
  "numeral_of neg ds s \<longleftrightarrow>
     (\<exists>sp sg. s = sp @ sg @ ds \<and> list_all is_space sp \<and> ds \<noteq> [] \<and> list_all is_digit ds
        \<and> (if neg then sg = ''-'' else sg \<in> {'''', ''+''}))"

lemma space_not: "is_space c \<Longrightarrow> c \<noteq> CHR ''-'' \<and> c \<noteq> CHR ''+'' \<and> \<not> is_digit c"
  by (auto simp: is_space_def TIME_DELIM_def is_digit_def)

lemma digit_not: "is_digit c \<Longrightarrow> c \<noteq> CHR ''-'' \<and> c \<noteq> CHR ''+'' \<and> \<not> is_space c"
  using space_not by (auto simp: is_digit_def)

lemma list_all_takeWhile: "list_all P (takeWhile P xs)"
  by (induction xs) auto

lemma dropWhile_spaces: "list_all is_space sp \<Longrightarrow> dropWhile is_space (sp @ t) = dropWhile is_space t"
  by (simp add: dropWhile_append list_all_iff)

lemma takeWhile_all: "list_all P xs \<Longrightarrow> takeWhile P xs = xs" "list_all P xs \<Longrightarrow> dropWhile P xs = []"
  by (induction xs) auto

lemma scan_numeral: "numeral_of neg ds s \<Longrightarrow> scan_number s = (neg, ds, [])"
proof -
  assume "numeral_of neg ds s"
  then obtain sp sg where s: "s = sp @ sg @ ds" "list_all is_space sp" "ds \<noteq> []" "list_all is_digit ds"
    and sg: "if neg then sg = ''-'' else sg \<in> {'''', ''+''}"
    by (auto simp: numeral_of_def)
  obtain d ds' where ds: "ds = d # ds'" "is_digit d" using s(3,4) by (cases ds) auto
  note d = digit_not[OF ds(2)]
  have "dropWhile is_space s = sg @ ds"
    using sg s(1) d ds(1) space_not[of "CHR ''-''"] space_not[of "CHR ''+''"]
    by (auto simp: dropWhile_spaces[OF s(2)] split: if_splits)
  moreover have "scan_sign (sg @ ds) = (neg, ds)"
    using sg d ds(1) by (auto simp: scan_sign_def split: if_splits)
  ultimately show ?thesis using s(3,4) by (simp add: scan_number_def takeWhile_all)
qed

lemma numeral_scan: "s \<noteq> [] \<Longrightarrow> scan_number s = (neg, ds, []) \<Longrightarrow> numeral_of neg ds s"
proof -
  assume s: "s \<noteq> []" "scan_number s = (neg, ds, [])"
  define u where "u = dropWhile is_space s"
  obtain t where t: "scan_sign u = (neg, t)" "ds = takeWhile is_digit t" "ds \<noteq> []" "dropWhile is_digit t = []"
    using s by (auto simp: scan_number_def u_def Let_def split: prod.splits if_splits)
  have "t = ds" using t(2,4) takeWhile_dropWhile_id[of is_digit t] by (metis append_Nil2)
  moreover have "list_all is_digit ds" using t(2) list_all_takeWhile by simp
  moreover have "\<exists>sg. u = sg @ t \<and> (if neg then sg = ''-'' else sg \<in> {'''', ''+''})"
    using t(1) by (auto simp: scan_sign_def split: list.splits if_splits)
  moreover have "s = takeWhile is_space s @ u" by (simp add: u_def)
  ultimately show ?thesis
    using t(3) list_all_takeWhile[of is_space s] unfolding numeral_of_def by metis
qed

lemma numeral_not_Nil: "numeral_of neg ds s \<Longrightarrow> s \<noteq> []"
  by (auto simp: numeral_of_def)

lemma strtoll_end: "strtoll s = (v, [], False) \<and> s \<noteq> [] \<longleftrightarrow>
   (\<exists>neg ds. numeral_of neg ds s \<and> v = signed_val neg ds \<and> LLONG_MIN \<le> v \<and> v \<le> LLONG_MAX)"
proof
  assume a: "strtoll s = (v, [], False) \<and> s \<noteq> []"
  obtain neg ds endptr where sc: "scan_number s = (neg, ds, endptr)" by (cases "scan_number s") auto
  with a have "endptr = []" "v = signed_val neg ds" "LLONG_MIN \<le> v" "v \<le> LLONG_MAX"
    by (auto simp: strtoll_def Let_def split: if_splits)
  with a sc show "\<exists>neg ds. numeral_of neg ds s \<and> v = signed_val neg ds \<and> LLONG_MIN \<le> v \<and> v \<le> LLONG_MAX"
    using numeral_scan by blast
next
  assume "\<exists>neg ds. numeral_of neg ds s \<and> v = signed_val neg ds \<and> LLONG_MIN \<le> v \<and> v \<le> LLONG_MAX"
  then show "strtoll s = (v, [], False) \<and> s \<noteq> []"
    using numeral_not_Nil by (auto simp: strtoll_def scan_numeral)
qed

lemma str_to_llint_iff: "str_to_llint s = Ret (Inr v) \<longleftrightarrow>
   (\<exists>neg ds. numeral_of neg ds s \<and> v = signed_val neg ds \<and> LLONG_MIN \<le> v \<and> v \<le> LLONG_MAX)"
  unfolding strtoll_end[symmetric]
  by (auto simp: str_to_llint_def res_simps split: prod.splits if_splits)

text \<open>A signed option value is accepted exactly when it is white space, an optional sign and
  decimal digits up to the end of the string, and its value fits an \<open>int\<close>; the value returned is
  the number written.\<close>

theorem str_to_int_accepts:
  "str_to_int s = Ret (Inr i) \<longleftrightarrow>
     (\<exists>neg ds. numeral_of neg ds s \<and> i = signed_val neg ds \<and> INT_MIN \<le> i \<and> i \<le> INT_MAX)"
proof -
  have "str_to_int s = Ret (Inr i) \<longleftrightarrow> str_to_llint s = Ret (Inr i) \<and> INT_MIN \<le> i \<and> i \<le> INT_MAX"
  proof (cases "s = []")
    case False
    obtain v endptr er where v: "strtoll s = (v, endptr, er)" by (cases "strtoll s") auto
    show ?thesis using False by (auto simp: str_to_int_def str_to_llint_def v INT_MIN_def INT_MAX_def)
  qed (simp add: str_to_int_def str_to_llint_def assert_then_def)
  moreover have "INT_MIN \<le> i \<Longrightarrow> i \<le> INT_MAX \<Longrightarrow> LLONG_MIN \<le> i \<and> i \<le> LLONG_MAX"
    by (simp add: INT_MIN_def INT_MAX_def LLONG_MIN_def LLONG_MAX_def)
  ultimately show ?thesis unfolding str_to_llint_iff by blast
qed

lemma neg_check_numeral:
  "numeral_of neg ds s \<Longrightarrow>
   (dropWhile is_space s \<noteq> [] \<and> hd (dropWhile is_space s) = CHR ''-'') = neg"
proof -
  assume a: "numeral_of neg ds s"
  obtain t where t: "scan_sign (dropWhile is_space s) = (neg, t)"
    using scan_numeral[OF a] by (auto simp: scan_number_def Let_def split: prod.splits)
  then show ?thesis
    by (cases "dropWhile is_space s") (simp_all add: scan_sign_def split: if_splits)
qed

text \<open>An unsigned option value (the record limit) is accepted exactly when it is white space, an
  optional plus sign and decimal digits up to the end of the string, and its value fits 64 bits.\<close>

theorem str_to_luint_accepts:
  "str_to_luint s = Ret (Inr w) \<longleftrightarrow>
     (\<exists>ds. numeral_of False ds s \<and> digits_val ds < 2 ^ 64 \<and> w = of_nat (digits_val ds))"
proof
  assume a: "str_to_luint s = Ret (Inr w)"
  obtain neg ds endptr where sc: "scan_number s = (neg, ds, endptr)" by (cases "scan_number s") auto
  have r: "endptr = []" "s \<noteq> []" "digits_val ds \<le> ULLONG_MAX" "w = of_int (signed_val neg ds)"
      "\<not> (dropWhile is_space s \<noteq> [] \<and> hd (dropWhile is_space s) = CHR ''-'')"
    using a sc by (auto simp: str_to_luint_def str_to_lluint_def strtoull_def res_simps Let_def split: if_splits)
  have n: "numeral_of neg ds s" using numeral_scan[OF r(2)] sc r(1) by simp
  then have "\<not> neg" using neg_check_numeral[OF n] r(5) by blast
  with n r show "\<exists>ds. numeral_of False ds s \<and> digits_val ds < 2 ^ 64 \<and> w = of_nat (digits_val ds)"
    by (intro exI[of _ ds]) (simp add: signed_val_def ULLONG_MAX_def)
next
  assume "\<exists>ds. numeral_of False ds s \<and> digits_val ds < 2 ^ 64 \<and> w = of_nat (digits_val ds)"
  then obtain ds where n: "numeral_of False ds s" "digits_val ds < 2 ^ 64" "w = of_nat (digits_val ds)" by blast
  have "\<not> (dropWhile is_space s \<noteq> [] \<and> hd (dropWhile is_space s) = CHR ''-'')"
    using neg_check_numeral[OF n(1)] by simp
  then show "str_to_luint s = Ret (Inr w)"
    using n numeral_not_Nil[OF n(1)]
    by (auto simp: str_to_luint_def str_to_lluint_def strtoull_def scan_numeral signed_val_def ULLONG_MAX_def
        assert_then_def Let_def)
qed

lemma numeral_of_dec: "numeral_of False (dec n) (dec n)"
  using dec_digits[of n] by (auto simp: numeral_of_def intro!: exI[of _ "[]"])

lemma str_to_luint_dec: "n < 2 ^ 64 \<Longrightarrow> str_to_luint (dec n) = Ret (Inr (of_nat n))"
  using scan_numeral[OF numeral_of_dec[of n]] neg_check_numeral[OF numeral_of_dec[of n]]
  by (auto simp: str_to_luint_def str_to_lluint_def strtoull_def signed_val_def ULLONG_MAX_def assert_then_def Let_def)

lemma str_to_luint_result: "s \<noteq> [] \<Longrightarrow> \<exists>r. str_to_luint s = Ret r"
  by (simp add: str_to_luint_def str_to_lluint_def Let_def split: prod.splits)

lemma str_to_int_result: "s \<noteq> [] \<Longrightarrow> \<exists>r. str_to_int s = Ret r"
  by (auto simp: str_to_int_def str_to_llint_def INT_MIN_def INT_MAX_def split: prod.splits sum.splits)

end
