(* ===== verification/Libnf_Mem.thy ===== *)
theory Libnf_Mem
  imports Query_Fields "HOL-Library.Word"
begin

text \<open>
  The libnf memory wrappers of \<open>src/common.c\<close>: how an aggregation memory or a
  list memory is configured from the query's fields, and the walks over a
  memory's records.

  Configuring a memory is the sequence of library calls it makes, in order; the
  parameter \<open>ok\<close> says which calls return \<open>LNF_OK\<close>.  A configured memory
  is seen through its cursor as the list of the records it visits.
\<close>

unbundle bit_operations_syntax

datatype mem_call =
    Mem_Init
  | Mem_Setopt_List
  | Mem_Fadd int int int int
  | Mem_Fastaggr

definition emit :: "(mem_call \<Rightarrow> bool) \<Rightarrow> mem_call \<Rightarrow> mem_call list \<Rightarrow> mem_call list res" where
  "emit ok c log = abort_if (\<not> ok c) E_LNF (Ret (log @ [c]))"

text \<open>Full netmasks for addresses, no alignment for everything else.\<close>

definition plain_alignment :: "libnf \<Rightarrow> int \<Rightarrow> (int \<times> int) res" where
  "plain_alignment L fid =
     res_bind (field_get_type L fid) (\<lambda>type.
     Ret (if type = lnf L LNF_TYPE_ADDR then (IPV4_NETMASK_LEN_MAX, IPV6_NETMASK_LEN_MAX) else (0, 0)))"

definition add_plain ::
  "libnf \<Rightarrow> (mem_call \<Rightarrow> bool) \<Rightarrow> int \<Rightarrow> int \<Rightarrow> mem_call list \<Rightarrow> mem_call list res" where
  "add_plain L ok fid flags log =
     res_bind (plain_alignment L fid) (\<lambda>(al, al6). emit ok (Mem_Fadd fid flags al al6) log)"

definition add_aggr_key_i ::
  "libnf \<Rightarrow> (mem_call \<Rightarrow> bool) \<Rightarrow> fields \<Rightarrow> nat \<Rightarrow> mem_call list \<times> bool \<Rightarrow> (mem_call list \<times> bool) res" where
  "add_aggr_key_i L ok fs i st =
     (case st of (log, sort_key_is_one_of_aggregation_keys) \<Rightarrow>
      let ak = aggr_keys fs ! i;
          same = sk_field (sort_key fs) \<noteq> None \<and> sk_field (sort_key fs) = ak_field ak;
          flags = (if same then lnf L LNF_AGGR_KEY OR sk_direction (sort_key fs)
                   else lnf L LNF_AGGR_KEY)
      in res_bind
           (emit ok (Mem_Fadd (deref_id fs (ak_field ak)) flags (ak_alignment ak) (ak_ipv6_alignment ak)) log)
           (\<lambda>log'. Ret (log', sort_key_is_one_of_aggregation_keys \<or> same)))"

definition libnf_mem_init_ht ::
  "libnf \<Rightarrow> (mem_call \<Rightarrow> bool) \<Rightarrow> fields \<Rightarrow> mem_call list res" where
  "libnf_mem_init_ht L ok fs =
     assert_then (aggr_keys_cnt fs > 0)
      (res_bind (emit ok Mem_Init []) (\<lambda>log.
       res_bind (each_res (add_aggr_key_i L ok fs) [0..<aggr_keys_cnt fs] (log, False))
        (\<lambda>(log, sort_key_is_one_of_aggregation_keys).
       res_bind
        (if sk_field (sort_key fs) \<noteq> None \<and> \<not> sort_key_is_one_of_aggregation_keys
         then add_plain L ok (deref_id fs (sk_field (sort_key fs)))
                (sk_direction (sort_key fs) OR sk_aggr_func (sort_key fs)) log
         else Ret log) (\<lambda>log.
       res_bind (fields_can_use_fast_aggr L fs) (\<lambda>fast.
       if fast then emit ok Mem_Fastaggr log
       else each_res (\<lambda>i. add_plain L ok (deref_id fs (of_field (output_fields fs ! i)))
                            (of_aggr_func (output_fields fs ! i)))
              [0..<output_fields_cnt fs] log)))))"

definition libnf_mem_init_list ::
  "libnf \<Rightarrow> (mem_call \<Rightarrow> bool) \<Rightarrow> fields \<Rightarrow> mem_call list res" where
  "libnf_mem_init_list L ok fs =
     assert_then (sk_field (sort_key fs) \<noteq> None)
      (res_bind (emit ok Mem_Init []) (\<lambda>log.
       res_bind (emit ok Mem_Setopt_List log) (\<lambda>log.
       each_res (\<lambda>i.
         let fid = fld_id (all_flds fs ! i);
             flags = (if deref_id fs (sk_field (sort_key fs)) = fid
                      then lnf L LNF_AGGR_AUTO OR sk_direction (sort_key fs)
                      else lnf L LNF_AGGR_AUTO)
         in add_plain L ok fid flags) [0..<all_cnt fs] log)))"

subsection \<open>Walking a memory\<close>

text \<open>\<open>lnf_mem_first_c\<close> and \<open>lnf_mem_next_c\<close>: a cursor is a position, \<open>None\<close> is the end.\<close>

definition mem_first :: "'r list \<Rightarrow> nat option" where
  "mem_first recs = (if recs = [] then None else Some 0)"

definition mem_next :: "'r list \<Rightarrow> nat \<Rightarrow> nat option" where
  "mem_next recs c = (if Suc c < length recs then Some (Suc c) else None)"

definition cursor_left :: "'r list \<Rightarrow> nat option \<Rightarrow> nat" where
  "cursor_left recs cur = (case cur of None \<Rightarrow> 0 | Some c \<Rightarrow> length recs - c)"

definition cursor_ok :: "'r list \<Rightarrow> nat option \<Rightarrow> bool" where
  "cursor_ok recs cur = (case cur of None \<Rightarrow> True | Some c \<Rightarrow> c < length recs)"

lemma mem_next_left: "cursor_left recs (mem_next recs c) \<le> length recs - Suc c"
  by (simp add: cursor_left_def mem_next_def)

function rec_cnt_loop :: "'r list \<Rightarrow> nat option \<Rightarrow> 64 word \<Rightarrow> 64 word" where
  "rec_cnt_loop recs None rec_cntr = rec_cntr"
| "rec_cnt_loop recs (Some c) rec_cntr = rec_cnt_loop recs (mem_next recs c) (rec_cntr + 1)"
  by pat_completeness auto
termination
  by (relation "measure (\<lambda>(recs, cur, _). case cur of None \<Rightarrow> 0 | Some c \<Rightarrow> Suc (length recs - c))")
    (auto simp: mem_next_def)

definition libnf_mem_rec_cnt :: "'r list \<Rightarrow> 64 word" where
  "libnf_mem_rec_cnt recs = rec_cnt_loop recs (mem_first recs) 0"

text \<open>A raw record is its bytes; \<open>lnf_mem_read_raw_c\<close> reports their number.\<close>

definition libnf_mem_rec_len :: "8 word list list \<Rightarrow> 64 word res" where
  "libnf_mem_rec_len recs =
     (case mem_first recs of
        None \<Rightarrow> Ret 0
      | Some c \<Rightarrow> (let rec_len = length (recs ! c)
                   in assert_then (rec_len > 0) (Ret (of_nat rec_len))))"

lemma rec_cnt_loop_eq:
  "cursor_ok recs cur \<Longrightarrow> rec_cnt_loop recs cur n = n + of_nat (cursor_left recs cur)"
proof (induction recs cur n rule: rec_cnt_loop.induct)
  case (1 recs n)
  show ?case by (simp add: cursor_left_def)
next
  case (2 recs c n)
  have c: "c < length recs" using "2.prems" by (simp add: cursor_ok_def)
  show ?case
  proof (cases "Suc c < length recs")
    case True
    then have "length recs - c = Suc (length recs - Suc c)" by simp
    with True 2 show ?thesis
      by (simp add: mem_next_def cursor_ok_def cursor_left_def algebra_simps)
  next
    case False
    with c have "length recs = Suc c" by simp
    then show ?thesis by (simp add: mem_next_def cursor_left_def)
  qed
qed

lemma libnf_mem_rec_cnt_eq: "libnf_mem_rec_cnt recs = of_nat (length recs)"
  by (simp add: libnf_mem_rec_cnt_def rec_cnt_loop_eq mem_first_def cursor_ok_def cursor_left_def)

subsection \<open>Which fields a memory is configured with\<close>

fun fadd_id :: "mem_call \<Rightarrow> int option" where
  "fadd_id (Mem_Fadd fid fl al al6) = Some fid"
| "fadd_id _ = None"

definition fadd_ids :: "mem_call list \<Rightarrow> int list" where
  "fadd_ids log = List.map_filter fadd_id log"

lemma fadd_ids_simps [simp]:
  "fadd_ids [] = []" "fadd_ids (xs @ ys) = fadd_ids xs @ fadd_ids ys"
  "fadd_ids (Mem_Fadd fid fl al al6 # xs) = fid # fadd_ids xs"
  "fadd_ids (Mem_Init # xs) = fadd_ids xs" "fadd_ids (Mem_Setopt_List # xs) = fadd_ids xs"
  "fadd_ids (Mem_Fastaggr # xs) = fadd_ids xs"
  by (simp_all add: fadd_ids_def map_filter_simps)
    (simp add: List.map_filter_def)

lemma emit_always [simp]: "emit (\<lambda>_. True) c log = Ret (log @ [c])"
  by (simp add: emit_def)

definition key_is_sort :: "fields \<Rightarrow> nat \<Rightarrow> bool" where
  "key_is_sort fs i \<longleftrightarrow>
     sk_field (sort_key fs) \<noteq> None \<and> sk_field (sort_key fs) = ak_field (aggr_keys fs ! i)"

definition key_call :: "libnf \<Rightarrow> fields \<Rightarrow> nat \<Rightarrow> mem_call" where
  "key_call L fs i =
     Mem_Fadd (deref_id fs (ak_field (aggr_keys fs ! i)))
       (if key_is_sort fs i then lnf L LNF_AGGR_KEY OR sk_direction (sort_key fs)
        else lnf L LNF_AGGR_KEY)
       (ak_alignment (aggr_keys fs ! i)) (ak_ipv6_alignment (aggr_keys fs ! i))"

lemma aggr_key_loop:
  "each_res (add_aggr_key_i L (\<lambda>_. True) fs) [0..<k] (log, b)
   = Ret (log @ map (key_call L fs) [0..<k], b \<or> (\<exists>i<k. key_is_sort fs i))"
proof (induction k)
  case 0
  show ?case by simp
next
  case (Suc k)
  then show ?case
    by (auto simp: each_res_append add_aggr_key_i_def key_call_def key_is_sort_def Let_def less_Suc_eq)
qed

lemma add_plain_Ret:
  assumes "libnf_ok L" "valid_id L fid"
  shows "\<exists>al al6. \<forall>lg. add_plain L (\<lambda>_. True) fid fl lg = Ret (lg @ [Mem_Fadd fid fl al al6])"
  using field_get_type_Ret[OF assms] by (auto simp: add_plain_def plain_alignment_def)

lemma plain_loop:
  assumes "libnf_ok L" and "\<And>i. i < k \<Longrightarrow> valid_id L (f i)"
  shows "\<exists>calls. each_res (\<lambda>i. add_plain L (\<lambda>_. True) (f i) (g i)) [0..<k] log = Ret (log @ calls)
           \<and> fadd_ids calls = map f [0..<k] \<and> Mem_Fastaggr \<notin> set calls"
  using assms(2)
proof (induction k)
  case 0
  show ?case by simp
next
  case (Suc k)
  then obtain calls where calls:
      "each_res (\<lambda>i. add_plain L (\<lambda>_. True) (f i) (g i)) [0..<k] log = Ret (log @ calls)"
      "fadd_ids calls = map f [0..<k]" "Mem_Fastaggr \<notin> set calls"
    by auto
  obtain al al6 where "\<And>lg. add_plain L (\<lambda>_. True) (f k) (g k) lg = Ret (lg @ [Mem_Fadd (f k) (g k) al al6])"
    using add_plain_Ret[OF assms(1)] Suc.prems by blast
  then show ?case
    using calls by (auto simp: each_res_append)
qed

lemma deref_inj:
  assumes "all_inv L fs" "p \<in> Some ` {..<all_cnt fs}" "q \<in> Some ` {..<all_cnt fs}"
    and "deref_id fs p = deref_id fs q"
  shows "p = q"
  using assms nth_eq_iff_index_eq[of "map fld_id (take (all_cnt fs) (all_flds fs))"]
  by (auto simp: all_inv_def deref_id_def)

definition all_ids :: "fields \<Rightarrow> int list" where
  "all_ids fs = map fld_id (take (all_cnt fs) (all_flds fs))"

lemma deref_all: "all_inv L fs \<Longrightarrow> deref_id fs ` (Some ` {..<all_cnt fs}) = set (all_ids fs)"
  by (auto simp: all_ids_def all_inv_def set_take_nth deref_id_def image_image)

lemma deref_valid_range: "all_inv L fs \<Longrightarrow> p \<in> Some ` {..<all_cnt fs} \<Longrightarrow> valid_id L (deref_id fs p)"
  by (auto simp: all_inv_def deref_id_def)

lemma deref_inj_on: "all_inv L fs \<Longrightarrow> inj_on (deref_id fs) (Some ` {..<all_cnt fs})"
  by (rule inj_onI) (rule deref_inj)

lemma key_ptrs: "role_inv L fs \<Longrightarrow> map (\<lambda>i. ak_field (aggr_keys fs ! i)) [0..<aggr_keys_cnt fs] = aggr_ptrs fs"
  by (auto simp: aggr_ptrs_def role_inv_def intro!: nth_equalityI)

lemma output_ptrs:
  "role_inv L fs \<Longrightarrow> map (\<lambda>i. of_field (output_fields fs ! i)) [0..<output_fields_cnt fs] = out_ptrs fs"
  by (auto simp: out_ptrs_def role_inv_def intro!: nth_equalityI)

lemma key_calls_ids:
  assumes "role_inv L fs"
  shows "fadd_ids (map (key_call L fs) [0..<aggr_keys_cnt fs]) = map (deref_id fs) (aggr_ptrs fs)"
proof -
  have "fadd_ids (map (key_call L fs) is) = map (deref_id fs) (map (\<lambda>i. ak_field (aggr_keys fs ! i)) is)" for "is"
    by (induction "is") (simp_all add: key_call_def)
  then show ?thesis unfolding key_ptrs[OF assms, symmetric] .
qed

lemma some_key_is_sort:
  assumes "role_inv L fs"
  shows "(\<exists>i<aggr_keys_cnt fs. key_is_sort fs i)
    \<longleftrightarrow> sk_field (sort_key fs) \<noteq> None \<and> sk_field (sort_key fs) \<in> set (aggr_ptrs fs)"
  unfolding key_ptrs[OF assms, symmetric] by (auto simp: key_is_sort_def)

definition ht_sort_step :: "libnf \<Rightarrow> fields \<Rightarrow> mem_call list \<Rightarrow> mem_call list res" where
  "ht_sort_step L fs log =
     (if sk_field (sort_key fs) \<noteq> None \<and> \<not> (\<exists>i<aggr_keys_cnt fs. key_is_sort fs i)
      then add_plain L (\<lambda>_. True) (deref_id fs (sk_field (sort_key fs)))
             (sk_direction (sort_key fs) OR sk_aggr_func (sort_key fs)) log
      else Ret log)"

text \<open>The aggregation keys and the sort key: each once, in whatever role.\<close>

lemma ht_keys_and_sort:
  assumes "libnf_ok L" and "fields_inv L fs"
  shows "\<exists>log ptrs. ht_sort_step L fs (Mem_Init # map (key_call L fs) [0..<aggr_keys_cnt fs]) = Ret log
    \<and> fadd_ids log = map (deref_id fs) ptrs \<and> distinct ptrs
    \<and> set ptrs = set (aggr_ptrs fs) \<union> sort_ptrs fs \<and> Mem_Fastaggr \<notin> set log
    \<and> key_call L fs ` {..<aggr_keys_cnt fs} \<subseteq> set log"
proof -
  note parts = fields_inv_parts[OF assms(2)]
  let ?log1 = "Mem_Init # map (key_call L fs) [0..<aggr_keys_cnt fs]"
  let ?sk = "sk_field (sort_key fs)"
  have dist: "distinct (aggr_ptrs fs)" using parts(3) by (simp add: ptr_inv_def)
  have ids: "fadd_ids ?log1 = map (deref_id fs) (aggr_ptrs fs)"
    using key_calls_ids[OF parts(2)] by simp
  have nofast: "Mem_Fastaggr \<notin> set ?log1" "key_call L fs ` {..<aggr_keys_cnt fs} \<subseteq> set ?log1"
    by (auto simp: key_call_def)
  show ?thesis
  proof (cases "?sk \<noteq> None \<and> ?sk \<notin> set (aggr_ptrs fs)")
    case True
    then have "?sk \<in> Some ` {..<all_cnt fs}"
      using parts(3) by (auto simp: ptr_inv_def sort_ptrs_def)
    then have
      "\<And>fl lg. \<exists>al al6. add_plain L (\<lambda>_. True) (deref_id fs ?sk) fl lg = Ret (lg @ [Mem_Fadd (deref_id fs ?sk) fl al al6])"
      using add_plain_Ret[OF assms(1)] deref_valid_range[OF parts(1)] by blast
    then obtain al al6 where ap: "add_plain L (\<lambda>_. True) (deref_id fs ?sk)
        (sk_direction (sort_key fs) OR sk_aggr_func (sort_key fs)) ?log1
        = Ret (?log1 @ [Mem_Fadd (deref_id fs ?sk)
            (sk_direction (sort_key fs) OR sk_aggr_func (sort_key fs)) al al6])"
      by blast
    let ?c = "Mem_Fadd (deref_id fs ?sk) (sk_direction (sort_key fs) OR sk_aggr_func (sort_key fs)) al al6"
    have "ht_sort_step L fs ?log1 = Ret (?log1 @ [?c])"
      using True ap unfolding ht_sort_step_def some_key_is_sort[OF parts(2)] by simp
    with True ids nofast dist show ?thesis
      by (intro exI[of _ "?log1 @ [?c]"] exI[of _ "aggr_ptrs fs @ [?sk]"])
        (auto simp: sort_ptrs_def)
  next
    case False
    then have "ht_sort_step L fs ?log1 = Ret ?log1" "set (aggr_ptrs fs) = set (aggr_ptrs fs) \<union> sort_ptrs fs"
      using some_key_is_sort[OF parts(2)] by (auto simp: ht_sort_step_def sort_ptrs_def)
    with ids nofast dist show ?thesis by blast
  qed
qed

lemma init_ht_split:
  assumes "0 < aggr_keys_cnt fs"
  shows "libnf_mem_init_ht L (\<lambda>_. True) fs =
    res_bind (ht_sort_step L fs (Mem_Init # map (key_call L fs) [0..<aggr_keys_cnt fs])) (\<lambda>log.
    res_bind (fields_can_use_fast_aggr L fs) (\<lambda>fast.
    if fast then Ret (log @ [Mem_Fastaggr])
    else each_res (\<lambda>i. add_plain L (\<lambda>_. True) (deref_id fs (of_field (output_fields fs ! i)))
                            (of_aggr_func (output_fields fs ! i)))
              [0..<output_fields_cnt fs] log))"
  using assms by (simp add: libnf_mem_init_ht_def ht_sort_step_def aggr_key_loop cong: if_cong)

lemma init_ht_exact:
  assumes "libnf_ok L" and "fields_inv L fs" and "0 < aggr_keys_cnt fs"
    and fast: "fields_can_use_fast_aggr L fs = Ret fast"
  shows "\<exists>log. libnf_mem_init_ht L (\<lambda>_. True) fs = Ret log \<and> distinct (fadd_ids log)
    \<and> (Mem_Fastaggr \<in> set log \<longleftrightarrow> fast)
    \<and> set (fadd_ids log) = (if fast then set (all_ids fs) - deref_id fs ` set (out_ptrs fs)
                            else set (all_ids fs))
    \<and> key_call L fs ` {..<aggr_keys_cnt fs} \<subseteq> set log"
proof -
  note parts = fields_inv_parts[OF assms(2)]
  let ?U = "Some ` {..<all_cnt fs}"
  have ptrs: "set (aggr_ptrs fs) \<union> sort_ptrs fs \<union> set (out_ptrs fs) = ?U"
    and disj: "(set (aggr_ptrs fs) \<union> sort_ptrs fs) \<inter> set (out_ptrs fs) = {}"
    and dist: "distinct (out_ptrs fs)"
    using parts(3) by (simp_all add: ptr_inv_def)
  note inj = deref_inj_on[OF parts(1)]
  obtain log ks where log: "ht_sort_step L fs (Mem_Init # map (key_call L fs) [0..<aggr_keys_cnt fs]) = Ret log"
      "fadd_ids log = map (deref_id fs) ks" "distinct ks"
      "set ks = set (aggr_ptrs fs) \<union> sort_ptrs fs" "Mem_Fastaggr \<notin> set log"
      "key_call L fs ` {..<aggr_keys_cnt fs} \<subseteq> set log"
    using ht_keys_and_sort[OF assms(1,2)] by blast
  have ksU: "set ks \<subseteq> ?U" using log(4) ptrs by blast
  show ?thesis
  proof (cases fast)
    case True
    have "set ks = ?U - set (out_ptrs fs)" using log(4) ptrs disj by blast
    then have "deref_id fs ` set ks = set (all_ids fs) - deref_id fs ` set (out_ptrs fs)"
      using ptrs by (simp add: deref_all[OF parts(1), symmetric])
        (rule inj_on_image_set_diff[OF inj], auto)
    moreover have "distinct (fadd_ids log)"
      using log(2,3) inj_on_subset[OF inj ksU] by (simp add: distinct_map)
    ultimately show ?thesis
      using log True fast by (auto simp: init_ht_split[OF assms(3)])
  next
    case False
    have "\<exists>calls. each_res (\<lambda>i. add_plain L (\<lambda>_. True) (deref_id fs (of_field (output_fields fs ! i)))
              (of_aggr_func (output_fields fs ! i))) [0..<output_fields_cnt fs] log = Ret (log @ calls)
           \<and> fadd_ids calls = map (\<lambda>i. deref_id fs (of_field (output_fields fs ! i))) [0..<output_fields_cnt fs]
           \<and> Mem_Fastaggr \<notin> set calls"
      using out_ptrs_nth[OF parts(2)] ptrs deref_valid_range[OF parts(1)]
      by (intro plain_loop[OF assms(1)]) blast
    then obtain calls where calls:
      "libnf_mem_init_ht L (\<lambda>_. True) fs = Ret (log @ calls)"
      "fadd_ids calls = map (deref_id fs) (out_ptrs fs)" "Mem_Fastaggr \<notin> set calls"
      using log(1) fast False output_ptrs[OF parts(2), symmetric]
      by (auto simp: init_ht_split[OF assms(3)])
    have all: "set (ks @ out_ptrs fs) = ?U" "distinct (ks @ out_ptrs fs)"
      using log(3,4) ptrs dist disj by auto
    have ids: "fadd_ids (log @ calls) = map (deref_id fs) (ks @ out_ptrs fs)"
      using log(2) calls(2) by simp
    have "distinct (fadd_ids (log @ calls))" "set (fadd_ids (log @ calls)) = set (all_ids fs)"
      unfolding ids distinct_map set_map all deref_all[OF parts(1), symmetric] using inj all by simp_all
    then show ?thesis using calls log False by auto
  qed
qed

text \<open>C22: An aggregation memory is configured with every field of the query exactly once: each
  aggregation key with its own alignment (and the sort direction merged into its flags when it
  is also the sort key), the sort key if it is not one of the keys, and the output fields either
  one by one or, when fast aggregation applies, by the single fast-aggregation call.\<close>

theorem mem_init_ht_exact:
  assumes "libnf_ok L" and "fields_inv L fs" and "0 < aggr_keys_cnt fs"
    and fast: "fields_can_use_fast_aggr L fs = Ret fast"
  shows "\<exists>log. libnf_mem_init_ht L (\<lambda>_. True) fs = Ret log \<and> distinct (fadd_ids log)
    \<and> (Mem_Fastaggr \<in> set log \<longleftrightarrow> fast)
    \<and> set (fadd_ids log) = (if fast then set (all_ids fs) - deref_id fs ` set (out_ptrs fs)
                            else set (all_ids fs))
    \<and> key_call L fs ` {..<aggr_keys_cnt fs} \<subseteq> set log"
  by (rule init_ht_exact[OF assms])

theorem mem_init_ht_exact_witness:
  "\<exists>log. libnf_mem_init_ht sample_libnf (\<lambda>_. True) sample_fields = Ret log \<and> distinct (fadd_ids log)
    \<and> Mem_Fastaggr \<in> set log
    \<and> set (fadd_ids log) = set (all_ids sample_fields) - deref_id sample_fields ` set (out_ptrs sample_fields)"
proof -
  have cnt: "0 < aggr_keys_cnt sample_fields" by (simp add: sample_fields_def)
  have "fields_can_use_fast_aggr sample_libnf sample_fields = Ret True"
    by (simp add: fields_can_use_fast_aggr_def fast_aggr_params_def sample_fields_defs get_from_output_def
        assert_id_def assert_then_def valid_id_def deref_id_def all_from.simps find_from.simps)
  from mem_init_ht_exact[OF sample_libnf_ok sample_fields_inv(1) cnt this] show ?thesis by auto
qed

lemma init_list_exact:
  assumes "libnf_ok L" and "fields_inv L fs" and "sk_field (sort_key fs) \<noteq> None"
  shows "\<exists>calls. libnf_mem_init_list L (\<lambda>_. True) fs = Ret (Mem_Init # Mem_Setopt_List # calls)
    \<and> fadd_ids calls = all_ids fs \<and> distinct (fadd_ids calls)"
proof -
  note parts = fields_inv_parts[OF assms(2)]
  let ?flags = "\<lambda>i. if deref_id fs (sk_field (sort_key fs)) = fld_id (all_flds fs ! i)
      then lnf L LNF_AGGR_AUTO OR sk_direction (sort_key fs) else lnf L LNF_AGGR_AUTO"
  have "\<exists>calls. each_res (\<lambda>i. add_plain L (\<lambda>_. True) (fld_id (all_flds fs ! i)) (?flags i))
          [0..<all_cnt fs] [Mem_Init, Mem_Setopt_List] = Ret ([Mem_Init, Mem_Setopt_List] @ calls)
        \<and> fadd_ids calls = map (\<lambda>i. fld_id (all_flds fs ! i)) [0..<all_cnt fs]
        \<and> Mem_Fastaggr \<notin> set calls"
    using parts(1) by (intro plain_loop[OF assms(1)]) (simp add: all_inv_def)
  moreover have "map (\<lambda>i. fld_id (all_flds fs ! i)) [0..<all_cnt fs] = all_ids fs"
    using parts(1) by (auto simp: all_ids_def all_inv_def intro!: nth_equalityI)
  moreover have "distinct (all_ids fs)" using parts(1) by (simp add: all_inv_def all_ids_def)
  ultimately show ?thesis
    using assms(3) by (auto simp: libnf_mem_init_list_def Let_def cong: if_cong)
qed

text \<open>C23: A list memory is created, switched to list mode and then configured with all fields of the
  query in their order, each exactly once.\<close>

theorem mem_init_list_exact:
  assumes "libnf_ok L" and "fields_inv L fs" and "sk_field (sort_key fs) \<noteq> None"
  shows "\<exists>calls. libnf_mem_init_list L (\<lambda>_. True) fs = Ret (Mem_Init # Mem_Setopt_List # calls)
    \<and> fadd_ids calls = all_ids fs \<and> distinct (fadd_ids calls)"
  by (rule init_list_exact[OF assms])

theorem mem_init_list_exact_witness:
  "\<exists>calls. libnf_mem_init_list sample_libnf (\<lambda>_. True) sample_sort_fields = Ret (Mem_Init # Mem_Setopt_List # calls)
    \<and> fadd_ids calls = all_ids sample_sort_fields \<and> distinct (fadd_ids calls)"
  by (rule mem_init_list_exact[OF sample_libnf_ok sample_fields_inv(2)]) (simp add: sample_sort_fields_def)

end
