(* ===== verification/Arg_Options.thy ===== *)
theory Arg_Options
  imports Numbers Libnf_Mem
begin

text \<open>
  The option parsers of \<open>src/arg_parse.c\<close>: field lists, sort and statistic
  specifications, the filter, the output parameters, verbosity, threads and
  the time zone.  A function that changes a structure returns the changed
  structure; \<open>strdup\<close>/\<open>strndup\<close> and \<open>lnf_filter_init_v2\<close> are parameters.
\<close>

definition STAT_DELIM :: char where "STAT_DELIM = CHR ''#''"
definition SORT_DELIM :: char where "SORT_DELIM = CHR ''#''"
definition FIELDS_DELIM :: string where "FIELDS_DELIM = '',''"

definition DEFAULT_LIST_FIELDS :: string where
  "DEFAULT_LIST_FIELDS = ''first,packets,bytes,srcip,dstip,srcport,dstport,proto,flags''"
definition DEFAULT_SORT_FIELDS :: string where "DEFAULT_SORT_FIELDS = DEFAULT_LIST_FIELDS"
definition DEFAULT_AGGR_FIELDS :: string where
  "DEFAULT_AGGR_FIELDS = ''duration,flows,packets,bytes,flags,bps,pps,bpp''"
definition DEFAULT_STAT_SORT_KEY :: string where "DEFAULT_STAT_SORT_KEY = ''flows''"
definition DEFAULT_STAT_REC_LIMIT :: string where "DEFAULT_STAT_REC_LIMIT = ''10''"

definition VERBOSITY_QUIET :: int where "VERBOSITY_QUIET = 0"
definition VERBOSITY_DEBUG :: int where "VERBOSITY_DEBUG = 4"

record arg_os = os_time +
  os_filter_ok :: "string \<Rightarrow> bool"
  os_strdup_ok :: "string \<Rightarrow> bool"

record arg_env =
  ae_tz :: tz_env
  ae_verbosity :: int
  ae_threads :: "int option"

subsection \<open>Fields\<close>

definition parse_one_field :: "libnf \<Rightarrow> bool \<Rightarrow> string \<Rightarrow> fields \<Rightarrow> (bool \<times> fields) res" where
  "parse_one_field L are_aggr_keys token fs =
     res_bind (field_parse L token) (\<lambda>r. case r of
       None \<Rightarrow> Ret (False, fs)
     | Some (field_id, field_alignment, ipv6_alignment) \<Rightarrow>
         if are_aggr_keys then fields_add_aggr_key L fs field_id field_alignment ipv6_alignment
         else fields_add_output_field L fs field_id)"

definition parse_fields ::
  "libnf \<Rightarrow> arg_os \<Rightarrow> string \<Rightarrow> fields \<Rightarrow> bool \<Rightarrow> (bool \<times> fields) res" where
  "parse_fields L os fields_spec fs are_aggr_keys =
     abort_if (\<not> os_strdup_ok os fields_spec) E_MEM
      (let tokens = strtok FIELDS_DELIM fields_spec in
       res_bind (until_false (parse_one_field L are_aggr_keys) tokens fs) (\<lambda>(success, fs').
       if \<not> success then Ret (False, fs')
       else if are_aggr_keys \<and> length tokens = 0 then Ret (False, fs')
       else Ret (True, fs')))"

text \<open>The value an error code has as a C \<open>bool\<close>: everything but \<open>E_OK\<close> is true.\<close>

definition code_as_bool :: "error_code \<Rightarrow> bool" where
  "code_as_bool c \<longleftrightarrow> c \<noteq> E_OK"

definition parse_sort_spec :: "libnf \<Rightarrow> arg_os \<Rightarrow> string \<Rightarrow> fields \<Rightarrow> (bool \<times> fields) res" where
  "parse_sort_spec L os sort_spec fs =
     (case split_at_char SORT_DELIM sort_spec of
        Some (field_str, direction_str) \<Rightarrow>
          abort_if (\<not> os_strdup_ok os field_str) E_MEM
           (if direction_str \<noteq> ''asc'' \<and> direction_str \<noteq> ''desc'' then Ret (code_as_bool E_ARG, fs)
            else
              res_bind (field_parse L field_str) (\<lambda>r. case r of
                None \<Rightarrow> Ret (False, fs)
              | Some (field_id, _, _) \<Rightarrow>
                  fields_set_sort_key L fs field_id
                    (if direction_str = ''asc'' then lnf L LNF_SORT_ASC else lnf L LNF_SORT_DESC)))
      | None \<Rightarrow>
          res_bind (field_parse L sort_spec) (\<lambda>r. case r of
            None \<Rightarrow> Ret (False, fs)
          | Some (field_id, _, _) \<Rightarrow> fields_set_sort_key L fs field_id (lnf L LNF_SORT_NONE)))"

text \<open>The three option arguments a statistic stands for: aggregation, sort and limit.\<close>

definition parse_stat_spec :: "string \<Rightarrow> string \<times> string \<times> string" where
  "parse_stat_spec stat_optarg =
     (case split_at_char STAT_DELIM stat_optarg of
        Some (aggr, order) \<Rightarrow> (aggr, order, DEFAULT_STAT_REC_LIMIT)
      | None \<Rightarrow> (stat_optarg, DEFAULT_STAT_SORT_KEY, DEFAULT_STAT_REC_LIMIT))"

definition set_filter :: "arg_os \<Rightarrow> cmdline_args \<Rightarrow> string \<Rightarrow> error_code \<times> cmdline_args" where
  "set_filter os args flt =
     (if \<not> os_filter_ok os flt then (E_ARG, args) else (E_OK, args\<lparr>filter_str := Some flt\<rparr>))"

subsection \<open>Output parameters\<close>

fun output_item_tokens :: "string list \<Rightarrow> output_params \<Rightarrow> error_code \<times> output_params" where
  "output_item_tokens [] op = (E_OK, op)"
| "output_item_tokens (token # tokens) op =
     (if token = ''records'' \<or> token = ''r''
      then output_item_tokens tokens (op\<lparr>print_records := OUTPUT_ITEM_YES\<rparr>)
      else if token = ''processed-records-summary'' \<or> token = ''p''
      then output_item_tokens tokens (op\<lparr>print_processed_summ := OUTPUT_ITEM_YES\<rparr>)
      else if token = ''metadata-summary'' \<or> token = ''m''
      then output_item_tokens tokens (op\<lparr>print_metadata_summ := OUTPUT_ITEM_YES\<rparr>)
      else (E_ARG, op))"

definition set_output_items :: "output_params \<Rightarrow> string \<Rightarrow> error_code \<times> output_params" where
  "set_output_items op items_str =
     output_item_tokens (strtok FIELDS_DELIM items_str)
       (op\<lparr>print_records := OUTPUT_ITEM_NO, print_processed_summ := OUTPUT_ITEM_NO,
           print_metadata_summ := OUTPUT_ITEM_NO\<rparr>)"

definition set_output_format :: "output_params \<Rightarrow> string \<Rightarrow> error_code \<times> output_params" where
  "set_output_format op s =
     (if s = ''csv'' then (E_OK, op\<lparr>op_format := OUTPUT_FORMAT_CSV\<rparr>)
      else if s = ''pretty'' then (E_OK, op\<lparr>op_format := OUTPUT_FORMAT_PRETTY\<rparr>)
      else (E_ARG, op))"

definition set_output_ts_conv :: "output_params \<Rightarrow> string \<Rightarrow> error_code \<times> output_params" where
  "set_output_ts_conv op s =
     (E_OK, if s = ''none'' then op\<lparr>ts_conv := OUTPUT_TS_CONV_NONE\<rparr>
            else if s = ''pretty'' then op\<lparr>ts_conv := OUTPUT_TS_CONV_PRETTY\<rparr>
            else op)"

definition set_output_volume_conv :: "output_params \<Rightarrow> string \<Rightarrow> error_code \<times> output_params" where
  "set_output_volume_conv op s =
     (if s = ''none'' then (E_OK, op\<lparr>volume_conv := OUTPUT_VOLUME_CONV_NONE\<rparr>)
      else if s = ''metric-prefix'' then (E_OK, op\<lparr>volume_conv := OUTPUT_VOLUME_CONV_METRIC_PREFIX\<rparr>)
      else if s = ''binary-prefix'' then (E_OK, op\<lparr>volume_conv := OUTPUT_VOLUME_CONV_BINARY_PREFIX\<rparr>)
      else (E_ARG, op))"

definition set_output_tcp_flags_conv :: "output_params \<Rightarrow> string \<Rightarrow> error_code \<times> output_params" where
  "set_output_tcp_flags_conv op s =
     (if s = ''none'' then (E_OK, op\<lparr>tcp_flags_conv := OUTPUT_TCP_FLAGS_CONV_NONE\<rparr>)
      else if s = ''str'' then (E_OK, op\<lparr>tcp_flags_conv := OUTPUT_TCP_FLAGS_CONV_STR\<rparr>)
      else (E_ARG, op))"

definition set_output_ip_addr_conv :: "output_params \<Rightarrow> string \<Rightarrow> error_code \<times> output_params" where
  "set_output_ip_addr_conv op s =
     (if s = ''none'' then (E_OK, op\<lparr>ip_addr_conv := OUTPUT_IP_ADDR_CONV_NONE\<rparr>)
      else if s = ''str'' then (E_OK, op\<lparr>ip_addr_conv := OUTPUT_IP_ADDR_CONV_STR\<rparr>)
      else (E_ARG, op))"

definition set_output_ip_proto_conv :: "output_params \<Rightarrow> string \<Rightarrow> error_code \<times> output_params" where
  "set_output_ip_proto_conv op s =
     (if s = ''none'' then (E_OK, op\<lparr>ip_proto_conv := OUTPUT_IP_PROTO_CONV_NONE\<rparr>)
      else if s = ''str'' then (E_OK, op\<lparr>ip_proto_conv := OUTPUT_IP_PROTO_CONV_STR\<rparr>)
      else (E_ARG, op))"

definition set_output_duration_conv :: "output_params \<Rightarrow> string \<Rightarrow> error_code \<times> output_params" where
  "set_output_duration_conv op s =
     (if s = ''none'' then (E_OK, op\<lparr>duration_conv := OUTPUT_DURATION_CONV_NONE\<rparr>)
      else if s = ''str'' then (E_OK, op\<lparr>duration_conv := OUTPUT_DURATION_CONV_STR\<rparr>)
      else (E_ARG, op))"

definition set_progress_bar_type :: "progress_bar_type \<Rightarrow> string \<Rightarrow> error_code \<times> progress_bar_type" where
  "set_progress_bar_type t s =
     (if s = ''none'' then (E_OK, PROGRESS_BAR_NONE)
      else if s = ''total'' then (E_OK, PROGRESS_BAR_TOTAL)
      else if s = ''perslave'' then (E_OK, PROGRESS_BAR_PERSLAVE)
      else if s = ''json'' then (E_OK, PROGRESS_BAR_JSON)
      else (E_ARG, t))"

subsection \<open>Process-wide settings\<close>

text \<open>The level is stored before its range is checked.\<close>

definition set_verbosity_level :: "arg_env \<Rightarrow> string \<Rightarrow> (error_code \<times> arg_env) res" where
  "set_verbosity_level e s =
     res_bind (str_to_int s) (\<lambda>r. case r of
       Inl _ \<Rightarrow> Ret (E_ARG, e)
     | Inr v \<Rightarrow>
         let e' = e\<lparr>ae_verbosity := v\<rparr> in
         assert_then (VERBOSITY_QUIET < VERBOSITY_DEBUG)
          (if \<not> (VERBOSITY_QUIET \<le> v \<and> v \<le> VERBOSITY_DEBUG) then Ret (E_ARG, e')
           else Ret (E_OK, e')))"

definition set_num_threads :: "arg_env \<Rightarrow> string \<Rightarrow> (error_code \<times> arg_env) res" where
  "set_num_threads e s =
     res_bind (str_to_int s) (\<lambda>r. case r of
       Inl _ \<Rightarrow> Ret (E_ARG, e)
     | Inr n \<Rightarrow> Ret (if n < 1 then (E_ARG, e) else (E_OK, e\<lparr>ae_threads := Some n\<rparr>)))"

definition set_time_zone :: "arg_env \<Rightarrow> string option \<Rightarrow> arg_env res" where
  "set_time_zone e time_zone_optarg =
     (let tz = (case time_zone_optarg of
                  None \<Rightarrow> Some []
                | Some z \<Rightarrow> if z = ''system'' then None else Some z)
      in abort_if (\<not> setenv_ok (ae_tz e)) E_INTERNAL
           (Ret (e\<lparr>ae_tz := (ae_tz e)\<lparr>env_tz := tz\<rparr>\<rparr>)))"

subsection \<open>The field specifications keep the invariant\<close>

text \<open>\<open>lnf_fld_parse\<close> returns a field identifier or one of its two error values.\<close>

definition parse_ok :: "libnf \<Rightarrow> bool" where
  "parse_ok L \<longleftrightarrow> (\<forall>s. case lnf_fld_parse L s of (fid, al, al6) \<Rightarrow>
     fid = lnf L LNF_FLD_ZERO \<or> fid = lnf L LNF_ERR_OTHER
     \<or> (valid_id L fid \<and> 0 \<le> al \<and> 0 \<le> al6))"

lemma field_parse_cases:
  assumes "libnf_ok L" "parse_ok L"
  obtains (rejected) "field_parse L s = Ret None"
  | (accepted) fid al al6 where "field_parse L s = Ret (Some (fid, al, al6))"
      "valid_id L fid" "0 \<le> al" "0 \<le> al6"
proof -
  obtain fid al al6 where p: "lnf_fld_parse L s = (fid, al, al6)" by (cases "lnf_fld_parse L s") auto
  have c: "fid = lnf L LNF_FLD_ZERO \<or> fid = lnf L LNF_ERR_OTHER
      \<or> (valid_id L fid \<and> 0 \<le> al \<and> 0 \<le> al6)"
    using assms(2) p unfolding parse_ok_def by (auto dest: spec[of _ s])
  note C = libnf_ok_consts[OF assms(1)]
  show ?thesis
  proof (cases "fid = lnf L LNF_FLD_ZERO \<or> fid = lnf L LNF_ERR_OTHER")
    case True
    then show ?thesis using p rejected by (simp add: field_parse_def)
  next
    case False
    with c have v: "valid_id L fid" "0 \<le> al" "0 \<le> al6" by simp_all
    obtain t where "field_get_type L fid = Ret t" using field_get_type_Ret[OF assms(1) v(1)] by blast
    then have "field_parse L s = Ret None \<or> field_parse L s = Ret (Some (fid, al, al6))"
      using p False v C(5) by (simp add: field_parse_def in_range_incl_def)
    then show ?thesis using v rejected accepted by blast
  qed
qed

lemma parse_one_field_spec:
  assumes "libnf_ok L" "parse_ok L" "fields_inv L fs"
  shows "\<exists>b fs'. parse_one_field L k tok fs = Ret (b, fs') \<and> fields_inv L fs' \<and> sort_key fs' = sort_key fs
    \<and> (k \<longrightarrow> out_ptrs fs' = out_ptrs fs) \<and> (\<not> k \<longrightarrow> aggr_ptrs fs' = aggr_ptrs fs)
    \<and> (columns_ordered fs \<and> (k \<longrightarrow> sk_field (sort_key fs) = None \<and> out_ptrs fs = []) \<longrightarrow> columns_ordered fs')"
proof (cases rule: field_parse_cases[OF assms(1,2), of tok, case_names rejected accepted])
  case rejected
  then show ?thesis using assms(3) by (auto simp: parse_one_field_def)
next
  case (accepted fid al al6)
  show ?thesis
  proof (cases k)
    case True
    then show ?thesis
      using fields_add_aggr_key_spec[OF assms(1) accepted(2) assms(3) accepted(3,4)] accepted(1)
      by (auto simp: parse_one_field_def)
  next
    case False
    then show ?thesis
      using fields_add_output_field_spec[OF assms(1) accepted(2) assms(3)] accepted(1)
      by (auto simp: parse_one_field_def)
  qed
qed

lemma parse_fields_spec:
  assumes "libnf_ok L" "parse_ok L" "fields_inv L fs" "os_strdup_ok os s"
  shows "\<exists>b fs'. parse_fields L os s fs k = Ret (b, fs') \<and> fields_inv L fs' \<and> sort_key fs' = sort_key fs
    \<and> (k \<longrightarrow> out_ptrs fs' = out_ptrs fs) \<and> (\<not> k \<longrightarrow> aggr_ptrs fs' = aggr_ptrs fs)
    \<and> (columns_ordered fs \<and> (k \<longrightarrow> sk_field (sort_key fs) = None \<and> out_ptrs fs = []) \<longrightarrow> columns_ordered fs')"
proof -
  let ?P = "\<lambda>fs'. fields_inv L fs' \<and> sort_key fs' = sort_key fs \<and> (k \<longrightarrow> out_ptrs fs' = out_ptrs fs)
    \<and> (\<not> k \<longrightarrow> aggr_ptrs fs' = aggr_ptrs fs)
    \<and> (columns_ordered fs \<and> (k \<longrightarrow> sk_field (sort_key fs) = None \<and> out_ptrs fs = []) \<longrightarrow> columns_ordered fs')"
  have "\<exists>b fs'. until_false (parse_one_field L k) (strtok FIELDS_DELIM s) fs = Ret (b, fs') \<and> ?P fs'"
  proof (rule until_false_invariant)
    fix tok fs1 assume "?P fs1"
    then show "\<exists>b fs'. parse_one_field L k tok fs1 = Ret (b, fs') \<and> ?P fs'"
      using parse_one_field_spec[OF assms(1,2), of fs1 k tok] by auto
  qed (use assms(3) in simp)
  then obtain b fs' where u: "until_false (parse_one_field L k) (strtok FIELDS_DELIM s) fs = Ret (b, fs')" "?P fs'"
    by blast
  then have "parse_fields L os s fs k
      = Ret (b \<and> \<not> (k \<and> length (strtok FIELDS_DELIM s) = 0), fs')"
    using assms(4) by (simp add: parse_fields_def)
  with u(2) show ?thesis by blast
qed

lemma parse_sort_spec_spec:
  assumes "libnf_ok L" "parse_ok L" "fields_inv L fs" "\<And>s. os_strdup_ok os s"
    and "sk_field (sort_key fs) = None" "out_ptrs fs = []"
  shows "\<exists>b fs'. parse_sort_spec L os s fs = Ret (b, fs') \<and> fields_inv L fs' \<and> out_ptrs fs' = []
    \<and> aggr_ptrs fs' = aggr_ptrs fs \<and> (columns_ordered fs \<longrightarrow> columns_ordered fs')"
proof -
  have set: "\<exists>b fs'. fields_set_sort_key L fs fid d = Ret (b, fs') \<and> fields_inv L fs' \<and> out_ptrs fs' = []
    \<and> aggr_ptrs fs' = aggr_ptrs fs \<and> (columns_ordered fs \<longrightarrow> columns_ordered fs')"
    if "valid_id L fid" "sort_dir_known L d" for fid d
    using fields_set_sort_key_spec[OF assms(1) that(1) assms(3) that(2) assms(5)] assms(6)
    by (auto simp: is_output_id_def)
  have known: "sort_dir_known L (lnf L LNF_SORT_ASC)" "sort_dir_known L (lnf L LNF_SORT_DESC)"
    "sort_dir_known L (lnf L LNF_SORT_NONE)" by (simp_all add: sort_dir_known_def)
  have parse: "\<exists>b fs'. res_bind (field_parse L f) (\<lambda>r. case r of None \<Rightarrow> Ret (False, fs)
      | Some (field_id, _, _) \<Rightarrow> fields_set_sort_key L fs field_id d) = Ret (b, fs')
      \<and> fields_inv L fs' \<and> out_ptrs fs' = []
    \<and> aggr_ptrs fs' = aggr_ptrs fs \<and> (columns_ordered fs \<longrightarrow> columns_ordered fs')" if d: "sort_dir_known L d" for f d
  proof (cases rule: field_parse_cases[OF assms(1,2), of f, case_names rejected accepted])
    case rejected
    then show ?thesis using assms(3,6) by (auto intro: exI[of _ False])
  next
    case (accepted fid al al6)
    then show ?thesis using set[OF accepted(2) d] by simp
  qed
  show ?thesis
  proof (cases "split_at_char SORT_DELIM s")
    case None
    then show ?thesis using parse[OF known(3), of s] by (simp add: parse_sort_spec_def)
  next
    case (Some p)
    obtain f d where "p = (f, d)" by (cases p)
    with Some parse[OF known(1), of f] parse[OF known(2), of f] assms(3,4,6) show ?thesis
      by (auto simp: parse_sort_spec_def)
  qed
qed

text \<open>C33: a sort direction other than \<open>asc\<close> and \<open>desc\<close> is reported as an error but accepted: the
  function returns the error code \<open>E_ARG\<close> as a \<open>bool\<close>, which is \<open>true\<close>, and no sort key is set;
  the list memory of sort mode then fails its assertion.\<close>

theorem bad_sort_direction_accepted:
  assumes "CHR ''#'' \<notin> set fld" and "dir \<noteq> ''asc''" and "dir \<noteq> ''desc''"
    and "os_strdup_ok os fld"
  shows "parse_sort_spec L os (fld @ ''#'' @ dir) fs = Ret (True, fs)
    \<and> (sk_field (sort_key fs) = None \<longrightarrow> libnf_mem_init_list L ok fs = Assert_Fail)"
  using assms split_at_char_append[of "CHR ''#''" fld dir]
  by (simp add: parse_sort_spec_def SORT_DELIM_def code_as_bool_def libnf_mem_init_list_def assert_then_def)

theorem bad_sort_direction_accepted_witness:
  "parse_sort_spec sample_libnf \<lparr>os_strptime = \<lambda>_ _ _. None, os_attempt = zero_tm, os_now = 0,
       os_localtime = \<lambda>_. None, os_mktime = \<lambda>_. 0, os_filter_ok = \<lambda>_. True, os_strdup_ok = \<lambda>_. True\<rparr>
     ''bytes#down'' empty_fields = Ret (True, empty_fields)
   \<and> libnf_mem_init_list sample_libnf (\<lambda>_. True) empty_fields = Assert_Fail"
  using bad_sort_direction_accepted[of "''bytes''" "''down''" "\<lparr>os_strptime = \<lambda>_ _ _. None,
      os_attempt = zero_tm, os_now = 0, os_localtime = \<lambda>_. None, os_mktime = \<lambda>_. 0,
      os_filter_ok = \<lambda>_. True, os_strdup_ok = \<lambda>_. True\<rparr>" sample_libnf empty_fields "\<lambda>_. True"]
  by (simp add: empty_fields_def)

end
