(* ===== verification/Arg_Parse.thy ===== *)
theory Arg_Parse
  imports Arg_Options
begin

text \<open>
  \<open>arg_parse\<close> of \<open>src/arg_parse.c\<close>.  \<open>getopt_long\<close> is not part of the
  repository: its results are the parameter, a list of options with their
  arguments and the remaining arguments (the paths).  The table of the long
  options is modelled, because it says which options have an argument.
\<close>

datatype opt =
    OPT_AGGREGATION | OPT_FILTER | OPT_LIMIT | OPT_ORDER | OPT_STATISTIC
  | OPT_TIME_POINT | OPT_TIME_RANGE | OPT_VERBOSITY
  | OPT_OUTPUT_FIELDS | OPT_OUTPUT_ITEMS | OPT_OUTPUT_FORMAT
  | OPT_OUTPUT_RICH_HEADER | OPT_OUTPUT_NO_ELLIPSIZE
  | OPT_OUTPUT_TS_CONV | OPT_OUTPUT_VOLUME_CONV | OPT_OUTPUT_TCP_FLAGS_CONV
  | OPT_OUTPUT_IP_ADDR_CONV | OPT_OUTPUT_IP_PROTO_CONV | OPT_OUTPUT_DURATION_CONV
  | OPT_PROGRESS_BAR_TYPE | OPT_PROGRESS_BAR_DEST
  | OPT_NUM_THREADS | OPT_TIME_ZONE | OPT_NO_TPUT | OPT_NO_BFINDEX
  | OPT_HELP | OPT_VERSION
  | OPT_INVALID

text \<open>Name, whether an argument is required, and value; the first eight are the short options.\<close>

definition long_opts :: "(string \<times> bool \<times> opt) list" where
  "long_opts =
     [(''aggregation'', True, OPT_AGGREGATION),
      (''filter'', True, OPT_FILTER),
      (''limit'', True, OPT_LIMIT),
      (''order'', True, OPT_ORDER),
      (''statistic'', True, OPT_STATISTIC),
      (''time-point'', True, OPT_TIME_POINT),
      (''time-range'', True, OPT_TIME_RANGE),
      (''verbosity'', True, OPT_VERBOSITY),
      (''output-fields'', True, OPT_OUTPUT_FIELDS),
      (''output-items'', True, OPT_OUTPUT_ITEMS),
      (''output-format'', True, OPT_OUTPUT_FORMAT),
      (''output-rich-header'', False, OPT_OUTPUT_RICH_HEADER),
      (''output-no-ellipsize'', False, OPT_OUTPUT_NO_ELLIPSIZE),
      (''output-ts-conv'', True, OPT_OUTPUT_TS_CONV),
      (''output-volume-conv'', True, OPT_OUTPUT_VOLUME_CONV),
      (''output-tcpflags-conv'', True, OPT_OUTPUT_TCP_FLAGS_CONV),
      (''output-addr-conv'', True, OPT_OUTPUT_IP_ADDR_CONV),
      (''output-proto-conv'', True, OPT_OUTPUT_IP_PROTO_CONV),
      (''output-duration-conv'', True, OPT_OUTPUT_DURATION_CONV),
      (''progress-bar-type'', True, OPT_PROGRESS_BAR_TYPE),
      (''progress-bar-dest'', True, OPT_PROGRESS_BAR_DEST),
      (''num-threads'', True, OPT_NUM_THREADS),
      (''time-zone'', True, OPT_TIME_ZONE),
      (''no-tput'', False, OPT_NO_TPUT),
      (''no-bfindex'', False, OPT_NO_BFINDEX),
      (''help'', False, OPT_HELP),
      (''version'', False, OPT_VERSION)]"

subsection \<open>The option loop\<close>

record opt_state =
  os_args :: cmdline_args
  os_env :: arg_env
  aggr_optarg :: "string option"
  limit_optarg :: "string option"
  sort_optarg :: "string option"
  filter_optarg :: "string option"
  time_point_optarg :: "string option"
  time_range_optarg :: "string option"
  output_fields_optarg :: "string option"
  time_zone_optarg :: "string option"

text \<open>A handler that reads \<open>optarg\<close>: a null pointer would be dereferenced.\<close>

definition with_optarg :: "string option \<Rightarrow> (string \<Rightarrow> 'a res) \<Rightarrow> 'a res" where
  "with_optarg optarg f = (case optarg of None \<Rightarrow> Out_Of_Bounds | Some s \<Rightarrow> f s)"

definition set_output_param ::
  "(output_params \<Rightarrow> string \<Rightarrow> error_code \<times> output_params) \<Rightarrow> string option \<Rightarrow> opt_state
    \<Rightarrow> (error_code \<times> opt_state) res" where
  "set_output_param f optarg st =
     with_optarg optarg (\<lambda>s. case f (output_params (os_args st)) s of
       (ecode, op) \<Rightarrow> Ret (ecode, st\<lparr>os_args := (os_args st)\<lparr>output_params := op\<rparr>\<rparr>))"

text \<open>One option; the code returned is \<open>E_OK\<close> to go on and anything else to return at once.\<close>

fun opt_step :: "opt \<Rightarrow> string option \<Rightarrow> opt_state \<Rightarrow> (error_code \<times> opt_state) res" where
  "opt_step OPT_AGGREGATION optarg st = Ret (E_OK, st\<lparr>aggr_optarg := optarg\<rparr>)"
| "opt_step OPT_FILTER optarg st = Ret (E_OK, st\<lparr>filter_optarg := optarg\<rparr>)"
| "opt_step OPT_LIMIT optarg st = Ret (E_OK, st\<lparr>limit_optarg := optarg\<rparr>)"
| "opt_step OPT_ORDER optarg st = Ret (E_OK, st\<lparr>sort_optarg := optarg\<rparr>)"
| "opt_step OPT_STATISTIC optarg st =
     (case optarg of
        None \<Rightarrow> Assert_Fail
      | Some s \<Rightarrow>
          (case parse_stat_spec s of (aggr, srt, limit) \<Rightarrow>
           Ret (E_OK, st\<lparr>aggr_optarg := Some aggr, sort_optarg := Some srt, limit_optarg := Some limit\<rparr>)))"
| "opt_step OPT_TIME_POINT optarg st = Ret (E_OK, st\<lparr>time_point_optarg := optarg\<rparr>)"
| "opt_step OPT_TIME_RANGE optarg st = Ret (E_OK, st\<lparr>time_range_optarg := optarg\<rparr>)"
| "opt_step OPT_VERBOSITY optarg st =
     with_optarg optarg (\<lambda>s. res_bind (set_verbosity_level (os_env st) s) (\<lambda>(ecode, e).
       Ret (ecode, st\<lparr>os_env := e\<rparr>)))"
| "opt_step OPT_OUTPUT_FIELDS optarg st = Ret (E_OK, st\<lparr>output_fields_optarg := optarg\<rparr>)"
| "opt_step OPT_OUTPUT_ITEMS optarg st = set_output_param set_output_items optarg st"
| "opt_step OPT_OUTPUT_FORMAT optarg st = set_output_param set_output_format optarg st"
| "opt_step OPT_OUTPUT_RICH_HEADER optarg st =
     Ret (E_OK, st\<lparr>os_args := (os_args st)\<lparr>output_params := (output_params (os_args st))\<lparr>rich_header := True\<rparr>\<rparr>\<rparr>)"
| "opt_step OPT_OUTPUT_NO_ELLIPSIZE optarg st =
     Ret (E_OK, st\<lparr>os_args := (os_args st)\<lparr>output_params := (output_params (os_args st))\<lparr>ellipsize := False\<rparr>\<rparr>\<rparr>)"
| "opt_step OPT_OUTPUT_TS_CONV optarg st = set_output_param set_output_ts_conv optarg st"
| "opt_step OPT_OUTPUT_VOLUME_CONV optarg st = set_output_param set_output_volume_conv optarg st"
| "opt_step OPT_OUTPUT_TCP_FLAGS_CONV optarg st = set_output_param set_output_tcp_flags_conv optarg st"
| "opt_step OPT_OUTPUT_IP_ADDR_CONV optarg st = set_output_param set_output_ip_addr_conv optarg st"
| "opt_step OPT_OUTPUT_IP_PROTO_CONV optarg st = set_output_param set_output_ip_proto_conv optarg st"
| "opt_step OPT_OUTPUT_DURATION_CONV optarg st = set_output_param set_output_duration_conv optarg st"
| "opt_step OPT_PROGRESS_BAR_TYPE optarg st =
     with_optarg optarg (\<lambda>s. case set_progress_bar_type (progress_bar_type (os_args st)) s of
       (ecode, t) \<Rightarrow> Ret (ecode, st\<lparr>os_args := (os_args st)\<lparr>progress_bar_type := t\<rparr>\<rparr>))"
| "opt_step OPT_PROGRESS_BAR_DEST optarg st =
     Ret (E_OK, st\<lparr>os_args := (os_args st)\<lparr>progress_bar_dest := optarg\<rparr>\<rparr>)"
| "opt_step OPT_NUM_THREADS optarg st =
     with_optarg optarg (\<lambda>s. res_bind (set_num_threads (os_env st) s) (\<lambda>(ecode, e).
       Ret (ecode, st\<lparr>os_env := e\<rparr>)))"
| "opt_step OPT_TIME_ZONE optarg st = Ret (E_OK, st\<lparr>time_zone_optarg := optarg\<rparr>)"
| "opt_step OPT_NO_TPUT optarg st = Ret (E_OK, st\<lparr>os_args := (os_args st)\<lparr>use_tput := False\<rparr>\<rparr>)"
| "opt_step OPT_NO_BFINDEX optarg st = Ret (E_OK, st\<lparr>os_args := (os_args st)\<lparr>use_bfindex := False\<rparr>\<rparr>)"
| "opt_step OPT_HELP optarg st = Ret (E_HELP, st)"
| "opt_step OPT_VERSION optarg st = Ret (E_HELP, st)"
| "opt_step OPT_INVALID optarg st = Ret (E_ARG, st)"

fun opt_loop :: "(opt \<times> string option) list \<Rightarrow> opt_state \<Rightarrow> (error_code \<times> opt_state) res" where
  "opt_loop [] st = Ret (E_OK, st)"
| "opt_loop ((opt, optarg) # opts) st =
     res_bind (opt_step opt optarg st) (\<lambda>(ecode, st').
     if ecode \<noteq> E_OK then Ret (ecode, st') else opt_loop opts st')"

subsection \<open>After the options\<close>

text \<open>The steps of the function body that may return an error code early.\<close>

definition and_then :: "(error_code \<times> 's) res \<Rightarrow> ('s \<Rightarrow> (error_code \<times> 's) res) \<Rightarrow> (error_code \<times> 's) res" where
  "and_then m f = res_bind m (\<lambda>(ecode, s). if ecode \<noteq> E_OK then Ret (ecode, s) else f s)"

definition with_fields ::
  "(fields \<Rightarrow> (bool \<times> fields) res) \<Rightarrow> cmdline_args \<Rightarrow> (error_code \<times> cmdline_args) res" where
  "with_fields f args =
     res_bind (f (ca_fields args)) (\<lambda>(ok, fs).
     Ret (if \<not> ok then E_ARG else E_OK, args\<lparr>ca_fields := fs\<rparr>))"

definition select_mode ::
  "libnf \<Rightarrow> arg_os \<Rightarrow> string option \<Rightarrow> string option \<Rightarrow> cmdline_args \<Rightarrow> (error_code \<times> cmdline_args) res" where
  "select_mode L os aggr sort_spec args =
     (case aggr of
        Some a \<Rightarrow>
          and_then (with_fields (\<lambda>fs. parse_fields L os a fs True) (args\<lparr>working_mode := MODE_AGGR\<rparr>))
            (\<lambda>args. case sort_spec of
               Some s \<Rightarrow> with_fields (parse_sort_spec L os s) args
             | None \<Rightarrow> Ret (E_OK, args))
      | None \<Rightarrow>
          (case sort_spec of
             Some s \<Rightarrow> with_fields (parse_sort_spec L os s) (args\<lparr>working_mode := MODE_SORT\<rparr>)
           | None \<Rightarrow> Ret (E_OK, args\<lparr>working_mode := MODE_LIST\<rparr>)))"

definition set_limit :: "string option \<Rightarrow> cmdline_args \<Rightarrow> (error_code \<times> cmdline_args) res" where
  "set_limit limit args =
     (case limit of
        None \<Rightarrow> Ret (E_OK, args\<lparr>rec_limit := 0\<rparr>)
      | Some s \<Rightarrow> res_bind (str_to_luint s) (\<lambda>r. case r of
            Inl _ \<Rightarrow> Ret (E_ARG, args)
          | Inr n \<Rightarrow> Ret (E_OK, args\<lparr>rec_limit := n\<rparr>)))"

definition check_filter :: "arg_os \<Rightarrow> string option \<Rightarrow> cmdline_args \<Rightarrow> (error_code \<times> cmdline_args) res" where
  "check_filter os flt args =
     (case flt of None \<Rightarrow> Ret (E_OK, args) | Some s \<Rightarrow> Ret (set_filter os args s))"

definition set_times ::
  "arg_os \<Rightarrow> tz_env \<Rightarrow> string option \<Rightarrow> string option \<Rightarrow> cmdline_args \<Rightarrow> (error_code \<times> cmdline_args) res" where
  "set_times os e point rng args =
     (case (point, rng) of
        (Some _, Some _) \<Rightarrow> Ret (E_ARG, args)
      | (Some s, None) \<Rightarrow> map_res fst (set_time_point (os_time.truncate os) e args s)
      | (None, Some s) \<Rightarrow> map_res fst (set_time_range (os_time.truncate os) e args s)
      | (None, None) \<Rightarrow> Ret (E_OK, args))"

definition set_paths :: "string list \<Rightarrow> cmdline_args \<Rightarrow> (error_code \<times> cmdline_args) res" where
  "set_paths rest args =
     (if rest = [] then Ret (E_ARG, args) else Ret (E_OK, args\<lparr>ca_paths := rest\<rparr>))"

definition metadata_only :: "cmdline_args \<Rightarrow> cmdline_args" where
  "metadata_only args =
     (if print_processed_summ (output_params args) = OUTPUT_ITEM_NO
         \<and> print_records (output_params args) = OUTPUT_ITEM_NO
      then args\<lparr>working_mode := MODE_META\<rparr> else args)"

definition default_progress_bar :: "cmdline_args \<Rightarrow> cmdline_args" where
  "default_progress_bar args =
     (if progress_bar_type args = PROGRESS_BAR_UNSET
      then args\<lparr>progress_bar_type := PROGRESS_BAR_TOTAL\<rparr> else args)"

definition set_output_fields ::
  "libnf \<Rightarrow> arg_os \<Rightarrow> string option \<Rightarrow> cmdline_args \<Rightarrow> (error_code \<times> cmdline_args) res" where
  "set_output_fields L os spec args =
     (let default = (\<lambda>s. res_bind (parse_fields L os s (ca_fields args) False) (\<lambda>(ok, fs).
            assert_then ok (Ret (E_OK, args\<lparr>ca_fields := fs\<rparr>))))
      in case spec of
           Some s \<Rightarrow> with_fields (\<lambda>fs. parse_fields L os s fs False) args
         | None \<Rightarrow>
             (case working_mode args of
                MODE_LIST \<Rightarrow> default DEFAULT_LIST_FIELDS
              | MODE_SORT \<Rightarrow> default DEFAULT_SORT_FIELDS
              | MODE_AGGR \<Rightarrow> default DEFAULT_AGGR_FIELDS
              | MODE_META \<Rightarrow> Ret (E_OK, args)
              | MODE_UNSET \<Rightarrow> Abort E_INTERNAL))"

text \<open>A conversion parameter the user did not set gets the default of the output format.\<close>

definition if_unset :: "'a \<Rightarrow> 'a \<Rightarrow> 'a \<Rightarrow> 'a" where
  "if_unset unset d x = (if x = unset then d else x)"

definition pretty_defaults :: "output_params \<Rightarrow> output_params" where
  "pretty_defaults op =
     op\<lparr>print_records := if_unset OUTPUT_ITEM_UNSET OUTPUT_ITEM_YES (print_records op),
        print_processed_summ := if_unset OUTPUT_ITEM_UNSET OUTPUT_ITEM_YES (print_processed_summ op),
        print_metadata_summ := if_unset OUTPUT_ITEM_UNSET OUTPUT_ITEM_NO (print_metadata_summ op),
        ts_conv := if_unset OUTPUT_TS_CONV_UNSET OUTPUT_TS_CONV_PRETTY (ts_conv op),
        volume_conv := if_unset OUTPUT_VOLUME_CONV_UNSET OUTPUT_VOLUME_CONV_METRIC_PREFIX (volume_conv op),
        tcp_flags_conv := if_unset OUTPUT_TCP_FLAGS_CONV_UNSET OUTPUT_TCP_FLAGS_CONV_STR (tcp_flags_conv op),
        ip_addr_conv := if_unset OUTPUT_IP_ADDR_CONV_UNSET OUTPUT_IP_ADDR_CONV_STR (ip_addr_conv op),
        ip_proto_conv := if_unset OUTPUT_IP_PROTO_CONV_UNSET OUTPUT_IP_PROTO_CONV_STR (ip_proto_conv op),
        duration_conv := if_unset OUTPUT_DURATION_CONV_UNSET OUTPUT_DURATION_CONV_STR (duration_conv op)\<rparr>"

definition csv_defaults :: "output_params \<Rightarrow> output_params" where
  "csv_defaults op =
     op\<lparr>print_records := if_unset OUTPUT_ITEM_UNSET OUTPUT_ITEM_YES (print_records op),
        print_processed_summ := if_unset OUTPUT_ITEM_UNSET OUTPUT_ITEM_NO (print_processed_summ op),
        print_metadata_summ := if_unset OUTPUT_ITEM_UNSET OUTPUT_ITEM_NO (print_metadata_summ op),
        ts_conv := if_unset OUTPUT_TS_CONV_UNSET OUTPUT_TS_CONV_NONE (ts_conv op),
        volume_conv := if_unset OUTPUT_VOLUME_CONV_UNSET OUTPUT_VOLUME_CONV_NONE (volume_conv op),
        tcp_flags_conv := if_unset OUTPUT_TCP_FLAGS_CONV_UNSET OUTPUT_TCP_FLAGS_CONV_NONE (tcp_flags_conv op),
        ip_addr_conv := if_unset OUTPUT_IP_ADDR_CONV_UNSET OUTPUT_IP_ADDR_CONV_NONE (ip_addr_conv op),
        ip_proto_conv := if_unset OUTPUT_IP_PROTO_CONV_UNSET OUTPUT_IP_PROTO_CONV_NONE (ip_proto_conv op),
        duration_conv := if_unset OUTPUT_DURATION_CONV_UNSET OUTPUT_DURATION_CONV_NONE (duration_conv op)\<rparr>"

definition default_output_params :: "cmdline_args \<Rightarrow> cmdline_args res" where
  "default_output_params args =
     (let op = output_params args;
          op = op\<lparr>op_format := if_unset OUTPUT_FORMAT_UNSET OUTPUT_FORMAT_PRETTY (op_format op)\<rparr>
      in case op_format op of
           OUTPUT_FORMAT_PRETTY \<Rightarrow> Ret (args\<lparr>output_params := pretty_defaults op\<rparr>)
         | OUTPUT_FORMAT_CSV \<Rightarrow> Ret (args\<lparr>output_params := csv_defaults op\<rparr>)
         | OUTPUT_FORMAT_UNSET \<Rightarrow> Abort E_INTERNAL)"

definition decide_tput :: "libnf \<Rightarrow> cmdline_args \<Rightarrow> cmdline_args res" where
  "decide_tput L args =
     (let fs = ca_fields args; off = Ret (args\<lparr>use_tput := False\<rparr>) in
      if \<not> use_tput args then Ret args
      else if working_mode args \<noteq> MODE_AGGR then off
      else if rec_limit args = 0 then off
      else if sk_field (sort_key fs) = None then off
      else res_bind (in_range_incl (deref_id fs (sk_field (sort_key fs)))
                       (lnf L LNF_FLD_DOCTETS) (lnf L LNF_FLD_AGGR_FLOWS)) (\<lambda>ok.
           if \<not> ok then off else Ret args))"

text \<open>The arguments as \<open>arg_parse\<close> finds them, with its defaults; \<open>SIZE_MAX\<close> is the unset limit.\<close>

definition init_opt_state :: "cmdline_args \<Rightarrow> arg_env \<Rightarrow> opt_state" where
  "init_opt_state args e =
     \<lparr>os_args = args\<lparr>use_tput := True, use_bfindex := True, rec_limit := - 1,
        output_params := (output_params args)\<lparr>ellipsize := True, rich_header := False\<rparr>\<rparr>,
      os_env = e, aggr_optarg = None, limit_optarg = None, sort_optarg = None, filter_optarg = None,
      time_point_optarg = None, time_range_optarg = None, output_fields_optarg = None,
      time_zone_optarg = None\<rparr>"

definition finish_args :: "libnf \<Rightarrow> arg_os \<Rightarrow> tz_env \<Rightarrow> string list \<Rightarrow> opt_state \<Rightarrow> (error_code \<times> cmdline_args) res" where
  "finish_args L os e rest st =
     and_then (select_mode L os (aggr_optarg st) (sort_optarg st) (os_args st)) (\<lambda>args.
     and_then (set_limit (limit_optarg st) args) (\<lambda>args.
     and_then (check_filter os (filter_optarg st) args) (\<lambda>args.
     and_then (set_times os e (time_point_optarg st) (time_range_optarg st) args) (\<lambda>args.
     and_then (set_paths rest args) (\<lambda>args.
     and_then (set_output_fields L os (output_fields_optarg st) (default_progress_bar (metadata_only args)))
       (\<lambda>args.
     res_bind (default_output_params args) (\<lambda>args.
     res_bind (decide_tput L args) (\<lambda>args.
     res_bind (fields_check L (ca_fields args)) (\<lambda>ret.
     assert_then ret (Ret (E_OK, args)))))))))))"

definition arg_parse ::
  "libnf \<Rightarrow> arg_os \<Rightarrow> arg_env \<Rightarrow> cmdline_args \<Rightarrow> (opt \<times> string option) list \<Rightarrow> string list
    \<Rightarrow> ((error_code \<times> cmdline_args) \<times> arg_env) res" where
  "arg_parse L os e args opts rest =
     res_bind (opt_loop opts (init_opt_state args e)) (\<lambda>(ecode, st).
     if ecode \<noteq> E_OK then Ret ((ecode, os_args st), os_env st)
     else
       res_bind (set_time_zone (os_env st) (time_zone_optarg st)) (\<lambda>e1.
       res_bind (finish_args L os (ae_tz e1) rest st) (\<lambda>r. Ret (r, e1))))"

subsection \<open>What a successful run leaves behind\<close>

lemma and_then_Ret:
  "and_then m f = Ret (c, s) \<longleftrightarrow> (\<exists>c1 s1. m = Ret (c1, s1) \<and> (if c1 \<noteq> E_OK then c = c1 \<and> s = s1 else f s1 = Ret (c, s)))"
  by (auto simp: and_then_def res_simps split: prod.splits)

lemma and_then_OK: "and_then m f = Ret (E_OK, s) \<longleftrightarrow> (\<exists>s1. m = Ret (E_OK, s1) \<and> f s1 = Ret (E_OK, s))"
  by (auto simp: and_then_Ret split: if_splits)

lemma with_fields_OK:
  "with_fields f args = Ret (E_OK, args') \<longleftrightarrow>
     (\<exists>fs. f (ca_fields args) = Ret (True, fs) \<and> args' = args\<lparr>ca_fields := fs\<rparr>)"
  by (auto simp: with_fields_def res_simps split: prod.splits if_splits)

text \<open>The options only touch the fields structure through the specifications parsed later.\<close>

lemma set_output_param_Ret:
  "set_output_param f a st = Ret (c, st') \<Longrightarrow> \<exists>op. st' = st\<lparr>os_args := (os_args st)\<lparr>output_params := op\<rparr>\<rparr>"
  by (auto simp: set_output_param_def with_optarg_def split: option.splits prod.splits)

lemma opt_step_fields: "opt_step opt a st = Ret (c, st') \<Longrightarrow> ca_fields (os_args st') = ca_fields (os_args st)"
  by (cases opt)
    (auto dest!: set_output_param_Ret simp: with_optarg_def res_simps split: option.splits prod.splits)

lemma opt_loop_fields: "opt_loop opts st = Ret (c, st') \<Longrightarrow> ca_fields (os_args st') = ca_fields (os_args st)"
proof (induction opts st rule: opt_loop.induct)
  case (2 opt optarg opts st)
  then obtain c1 st1 where s: "opt_step opt optarg st = Ret (c1, st1)"
    "(if c1 \<noteq> E_OK then Ret (c1, st1) else opt_loop opts st1) = Ret (c, st')"
    by (auto simp: res_simps split: prod.splits)
  show ?case using "2.IH"[of c1 st1] s(2) opt_step_fields[OF s(1)] by (cases "c1 = E_OK") auto
qed simp

lemma parse_fields_strict:
  assumes "parse_fields L os s fs k = Ret (b, fs')"
  shows "os_strdup_ok os s"
  using assms by (simp add: parse_fields_def res_simps)

text \<open>After the aggregation and the sort specification: no output field yet.\<close>

definition keys_only :: "libnf \<Rightarrow> cmdline_args \<Rightarrow> bool" where
  "keys_only L args \<longleftrightarrow> fields_inv L (ca_fields args) \<and> out_ptrs (ca_fields args) = []
     \<and> columns_ordered (ca_fields args)"

lemma keys_only_simps [simp]:
  "keys_only L (args\<lparr>working_mode := m\<rparr>) = keys_only L args"
  "keys_only L (args\<lparr>rec_limit := n\<rparr>) = keys_only L args"
  "keys_only L (args\<lparr>filter_str := f\<rparr>) = keys_only L args"
  "keys_only L (args\<lparr>time_begin := b, time_end := e\<rparr>) = keys_only L args"
  "keys_only L (args\<lparr>ca_paths := p\<rparr>) = keys_only L args"
  "keys_only L (args\<lparr>progress_bar_type := t\<rparr>) = keys_only L args"
  by (simp_all add: keys_only_def)

lemma empty_fields_keys: "fields_inv L empty_fields" "out_ptrs empty_fields = []"
    "sk_field (sort_key empty_fields) = None" "aggr_ptrs empty_fields = []" "columns_ordered empty_fields"
  using empty_fields_inv by (simp_all add: out_ptrs_def aggr_ptrs_def empty_fields_def columns_ordered_def column_ptrs_def)

lemma aggr_keys_found:
  assumes ok: "libnf_ok L" "parse_ok L" "\<And>s. os_strdup_ok os s"
    and ret: "parse_fields L os s empty_fields True = Ret (True, fs)"
  shows "0 < aggr_keys_cnt fs"
proof -
  obtain tok toks where toks: "strtok FIELDS_DELIM s = tok # toks"
    using ret by (cases "strtok FIELDS_DELIM s") (auto simp: parse_fields_def res_simps)
  have ret': "until_false (parse_one_field L True) (tok # toks) empty_fields = Ret (True, fs)"
    using ret toks by (auto simp: parse_fields_def res_simps split: if_splits)
  let ?P = "\<lambda>fs. fields_inv L fs \<and> sk_field (sort_key fs) = None \<and> out_ptrs fs = [] \<and> 0 < all_cnt fs"
  have one: "\<exists>b fs1. parse_one_field L True t fs0 = Ret (b, fs1) \<and> (fields_inv L fs1 \<and> sk_field (sort_key fs1) = None
      \<and> out_ptrs fs1 = [] \<and> (b \<longrightarrow> 0 < all_cnt fs1) \<and> (all_cnt fs0 \<le> all_cnt fs1 \<or> b))"
    if prem: "fields_inv L fs0" "sk_field (sort_key fs0) = None" "out_ptrs fs0 = []" for t fs0
  proof (cases rule: field_parse_cases[OF ok(1,2), of t, case_names rejected accepted])
    case rejected
    then show ?thesis using prem by (auto simp: parse_one_field_def intro!: exI[of _ False])
  next
    case (accepted fid al al6)
    obtain b fs1 where r: "fields_add_aggr_key L fs0 fid al al6 = Ret (b, fs1)" "fields_inv L fs1"
      "b \<longrightarrow> has_field fs1 fid" "\<not> b \<longrightarrow> fs1 = fs0" "sort_key fs1 = sort_key fs0" "out_ptrs fs1 = out_ptrs fs0"
      using fields_add_aggr_key_spec[OF ok(1) accepted(2) prem(1) accepted(3,4)] by blast
    have "b \<longrightarrow> 0 < all_cnt fs1" using r(3) by (cases "all_cnt fs1 = 0") (auto simp: has_field_def)
    then show ?thesis using r prem accepted(1) by (auto simp: parse_one_field_def)
  qed
  obtain b fs1 where f1: "parse_one_field L True tok empty_fields = Ret (b, fs1)"
    "fields_inv L fs1" "sk_field (sort_key fs1) = None" "out_ptrs fs1 = []" "b \<longrightarrow> 0 < all_cnt fs1"
    using one[OF empty_fields_keys(1,3,2), of tok] by blast
  have b: "b" using ret' f1(1) by (auto split: if_splits)
  have "\<exists>b fs'. until_false (parse_one_field L True) toks fs1 = Ret (b, fs') \<and> ?P fs'"
  proof (rule until_false_invariant)
    fix t fs0 assume P: "?P fs0"
    show "\<exists>b fs'. parse_one_field L True t fs0 = Ret (b, fs') \<and> ?P fs'"
      using one[of fs0 t] P by force
  qed (use f1 b in simp)
  then have P: "?P fs" using ret' f1(1) b by auto
  then have "set (aggr_ptrs fs) \<noteq> {}"
    by (auto simp: fields_inv_def ptr_inv_def sort_ptrs_def)
  then show ?thesis by (auto simp: aggr_ptrs_def)
qed

lemma aggr_cnt: "fields_inv L fs \<Longrightarrow> aggr_keys_cnt fs = length (aggr_ptrs fs)"
  by (simp add: fields_inv_def role_inv_def aggr_ptrs_def)

lemma out_cnt: "fields_inv L fs \<Longrightarrow> output_fields_cnt fs = length (out_ptrs fs)"
  by (simp add: fields_inv_def role_inv_def out_ptrs_def)

definition mode_set :: "cmdline_args \<Rightarrow> bool" where
  "mode_set args \<longleftrightarrow> working_mode args \<noteq> MODE_UNSET
     \<and> (working_mode args = MODE_AGGR \<longrightarrow> aggr_ptrs (ca_fields args) \<noteq> [])"

lemma mode_set_simps [simp]:
  "mode_set (args\<lparr>rec_limit := n\<rparr>) = mode_set args"
  "mode_set (args\<lparr>filter_str := f\<rparr>) = mode_set args"
  "mode_set (args\<lparr>time_begin := b, time_end := e\<rparr>) = mode_set args"
  "mode_set (args\<lparr>ca_paths := p\<rparr>) = mode_set args"
  "mode_set (args\<lparr>progress_bar_type := t\<rparr>) = mode_set args"
  by (simp_all add: mode_set_def)

lemma select_mode_OK:
  assumes ok: "libnf_ok L" "parse_ok L" "\<And>s. os_strdup_ok os s" and e: "ca_fields args = empty_fields"
    and run: "select_mode L os a srt args = Ret (E_OK, args')"
  shows "keys_only L args' \<and> mode_set args'"
proof (cases a)
  case None
  show ?thesis
  proof (cases srt)
    case None
    with \<open>a = None\<close> run e show ?thesis
      by (auto simp: select_mode_def mode_set_def keys_only_def empty_fields_keys)
  next
    case (Some s)
    obtain b fs' where "parse_sort_spec L os s empty_fields = Ret (b, fs')" "fields_inv L fs'" "out_ptrs fs' = []"
      "columns_ordered fs'"
      using parse_sort_spec_spec[OF ok(1,2) empty_fields_keys(1) ok(3) empty_fields_keys(3,2), of s] empty_fields_keys(5) by blast
    with Some \<open>a = None\<close> run e show ?thesis
      by (auto simp: select_mode_def with_fields_OK mode_set_def keys_only_def)
  qed
next
  case (Some as)
  obtain fs where p: "parse_fields L os as empty_fields True = Ret (True, fs)"
    and rest: "(case srt of Some s \<Rightarrow> with_fields (parse_sort_spec L os s) (args\<lparr>working_mode := MODE_AGGR, ca_fields := fs\<rparr>)
         | None \<Rightarrow> Ret (E_OK, args\<lparr>working_mode := MODE_AGGR, ca_fields := fs\<rparr>)) = Ret (E_OK, args')"
    using run Some e by (auto simp: select_mode_def and_then_OK with_fields_OK split: option.splits)
  obtain b fs1 where "parse_fields L os as empty_fields True = Ret (b, fs1)" "fields_inv L fs1"
    "sort_key fs1 = sort_key empty_fields" "out_ptrs fs1 = out_ptrs empty_fields" "columns_ordered fs1"
    using parse_fields_spec[OF ok(1,2) empty_fields_keys(1) ok(3), of as True] empty_fields_keys(2,3,5) by auto
  with p have fs: "fields_inv L fs" "sk_field (sort_key fs) = None" "out_ptrs fs = []" "columns_ordered fs"
    by (simp_all add: empty_fields_keys)
  have keys: "aggr_ptrs fs \<noteq> []"
    using aggr_keys_found[OF ok p] aggr_cnt[OF fs(1)] by auto
  show ?thesis
  proof (cases srt)
    case None
    with rest fs keys show ?thesis by (auto simp: keys_only_def mode_set_def)
  next
    case (Some s)
    obtain b fs' where "parse_sort_spec L os s fs = Ret (b, fs')" "fields_inv L fs'" "out_ptrs fs' = []"
        "aggr_ptrs fs' = aggr_ptrs fs" "columns_ordered fs'"
      using parse_sort_spec_spec[OF ok(1,2) fs(1) ok(3) fs(2,3), of s] fs(4) by blast
    with Some rest keys show ?thesis
      by (auto simp: with_fields_OK mode_set_def keys_only_def)
  qed
qed

lemma set_limit_OK: "set_limit limit args = Ret (E_OK, args') \<Longrightarrow> \<exists>n. args' = args\<lparr>rec_limit := n\<rparr>"
  by (cases limit; cases "str_to_luint (the limit)") (auto simp: set_limit_def split: sum.splits)

lemma check_filter_OK: "check_filter os flt args = Ret (E_OK, args') \<Longrightarrow> args' = args \<or> (\<exists>f. args' = args\<lparr>filter_str := f\<rparr>)"
  by (auto simp: check_filter_def set_filter_def split: option.splits if_splits)

lemma set_time_point_OK:
  "set_time_point os e args s = Ret ((E_OK, args'), e') \<Longrightarrow> \<exists>b f. args' = args\<lparr>time_begin := b, time_end := f\<rparr>"
  by (auto simp: set_time_point_def res_simps split: option.splits prod.splits) blast

lemma set_time_range_OK:
  "set_time_range os e args s = Ret ((E_OK, args'), e') \<Longrightarrow> \<exists>b f. args' = args\<lparr>time_begin := b, time_end := f\<rparr>"
  by (auto simp: set_time_range_def res_simps Let_def split: option.splits prod.splits if_splits)

lemma set_times_OK:
  "set_times os e p r args = Ret (E_OK, args') \<Longrightarrow> args' = args \<or> (\<exists>b f. args' = args\<lparr>time_begin := b, time_end := f\<rparr>)"
  by (auto simp: set_times_def map_res_Ret split: option.splits
      dest!: set_time_point_OK set_time_range_OK)

lemma set_output_fields_OK:
  assumes ok: "libnf_ok L" "parse_ok L" "\<And>s. os_strdup_ok os s"
    and st: "keys_only L args" "mode_set args"
    and run: "set_output_fields L os spec args = Ret (E_OK, args')"
  shows "\<exists>fs. args' = args\<lparr>ca_fields := fs\<rparr> \<and> fields_inv L fs \<and> columns_ordered fs \<and> mode_set args'"
proof -
  have inv: "fields_inv L (ca_fields args)" "columns_ordered (ca_fields args)" using st(1) by (simp_all add: keys_only_def)
  have pf: "fields_inv L fs \<and> columns_ordered fs \<and> aggr_ptrs fs = aggr_ptrs (ca_fields args)"
    if "parse_fields L os s (ca_fields args) False = Ret (b, fs)" for s b fs
    using parse_fields_spec[OF ok(1,2) inv(1) ok(3), of s False] inv(2) that by auto
  have "\<exists>fs. args' = args\<lparr>ca_fields := fs\<rparr> \<and> fields_inv L fs \<and> columns_ordered fs \<and> aggr_ptrs fs = aggr_ptrs (ca_fields args)"
  proof (cases "spec = None \<and> working_mode args = MODE_META")
    case True
    then have "args' = args\<lparr>ca_fields := ca_fields args\<rparr>" using run by (simp add: set_output_fields_def)
    then show ?thesis using inv by blast
  next
    case False
    let ?dflt = "\<lambda>s. res_bind (parse_fields L os s (ca_fields args) False) (\<lambda>(ok, fs).
        assert_then ok (Ret (E_OK, args\<lparr>ca_fields := fs\<rparr>)))"
    have "\<exists>b fs. parse_fields L os s (ca_fields args) False = Ret (b, fs) \<and> args' = args\<lparr>ca_fields := fs\<rparr>"
      if "?dflt s = Ret (E_OK, args')" for s
      using that by (auto simp: res_simps)
    moreover have "(\<exists>s. ?dflt s = Ret (E_OK, args'))
        \<or> (\<exists>s. with_fields (\<lambda>fs. parse_fields L os s fs False) args = Ret (E_OK, args'))"
      using run False by (cases spec; cases "working_mode args") (auto simp: set_output_fields_def Let_def)
    ultimately have "\<exists>s b fs. parse_fields L os s (ca_fields args) False = Ret (b, fs) \<and> args' = args\<lparr>ca_fields := fs\<rparr>"
      unfolding with_fields_OK by blast
    then show ?thesis using pf by blast
  qed
  then show ?thesis using st(2) by (auto simp: mode_set_def)
qed

text \<open>Every parameter of the output has been given a value.\<close>

definition output_set :: "output_params \<Rightarrow> bool" where
  "output_set op \<longleftrightarrow> print_records op \<noteq> OUTPUT_ITEM_UNSET \<and> print_processed_summ op \<noteq> OUTPUT_ITEM_UNSET
     \<and> print_metadata_summ op \<noteq> OUTPUT_ITEM_UNSET \<and> op_format op \<noteq> OUTPUT_FORMAT_UNSET
     \<and> ts_conv op \<noteq> OUTPUT_TS_CONV_UNSET \<and> volume_conv op \<noteq> OUTPUT_VOLUME_CONV_UNSET
     \<and> tcp_flags_conv op \<noteq> OUTPUT_TCP_FLAGS_CONV_UNSET \<and> ip_addr_conv op \<noteq> OUTPUT_IP_ADDR_CONV_UNSET
     \<and> ip_proto_conv op \<noteq> OUTPUT_IP_PROTO_CONV_UNSET \<and> duration_conv op \<noteq> OUTPUT_DURATION_CONV_UNSET"

lemma default_output_params_Ret:
  "\<exists>op. default_output_params args = Ret (args\<lparr>output_params := op\<rparr>) \<and> output_set op"
proof -
  define op where "op = (output_params args)\<lparr>op_format :=
      if_unset OUTPUT_FORMAT_UNSET OUTPUT_FORMAT_PRETTY (op_format (output_params args))\<rparr>"
  have set: "op_format op \<noteq> OUTPUT_FORMAT_UNSET" by (simp add: op_def if_unset_def)
  then have "output_set (pretty_defaults op)" "output_set (csv_defaults op)"
    by (simp_all add: output_set_def pretty_defaults_def csv_defaults_def if_unset_def)
  moreover have "default_output_params args = Ret (args\<lparr>output_params := pretty_defaults op\<rparr>)
      \<or> default_output_params args = Ret (args\<lparr>output_params := csv_defaults op\<rparr>)"
    using set unfolding default_output_params_def Let_def op_def[symmetric] by (cases "op_format op") simp_all
  ultimately show ?thesis by blast
qed

text \<open>What TPUT needs, and the state in which the program starts its work.\<close>

definition tput_allowed :: "libnf \<Rightarrow> cmdline_args \<Rightarrow> bool" where
  "tput_allowed L args \<longleftrightarrow>
     (let fs = ca_fields args; fid = deref_id fs (sk_field (sort_key fs)) in
      working_mode args = MODE_AGGR \<and> rec_limit args \<noteq> 0 \<and> sk_field (sort_key fs) \<noteq> None
      \<and> lnf L LNF_FLD_DOCTETS \<le> fid \<and> fid \<le> lnf L LNF_FLD_AGGR_FLOWS)"

definition args_ready :: "libnf \<Rightarrow> cmdline_args \<Rightarrow> bool" where
  "args_ready L args \<longleftrightarrow>
     fields_inv L (ca_fields args) \<and> fields_check L (ca_fields args) = Ret True
   \<and> columns_ordered (ca_fields args) \<and> working_mode args \<noteq> MODE_UNSET
   \<and> (working_mode args = MODE_AGGR \<longrightarrow> 0 < aggr_keys_cnt (ca_fields args))
   \<and> (use_tput args \<longrightarrow> tput_allowed L args)
   \<and> ca_paths args \<noteq> [] \<and> progress_bar_type args \<noteq> PROGRESS_BAR_UNSET \<and> output_set (output_params args)"

lemma decide_tput_Ret:
  assumes "libnf_ok L"
  shows "decide_tput L args = Ret (args\<lparr>use_tput := use_tput args \<and> tput_allowed L args\<rparr>)"
  using libnf_ok_consts(6)[OF assms]
  by (auto simp: decide_tput_def tput_allowed_def in_range_incl_def Let_def)

lemma default_progress_bar_set: "progress_bar_type (default_progress_bar args) \<noteq> PROGRESS_BAR_UNSET"
  by (simp add: default_progress_bar_def)

lemma before_fields_keep:
  "keys_only L (default_progress_bar (metadata_only args)) = keys_only L args"
  "mode_set args \<Longrightarrow> mode_set (default_progress_bar (metadata_only args))"
  "ca_paths (default_progress_bar (metadata_only args)) = ca_paths args"
  by (auto simp: default_progress_bar_def metadata_only_def mode_set_def)

lemma finish_args_ready:
  assumes ok: "libnf_ok L" "parse_ok L" "\<And>s. os_strdup_ok os s" and e: "ca_fields (os_args st) = empty_fields"
    and run: "finish_args L os tz rest st = Ret (E_OK, args')"
  shows "args_ready L args'"
proof -
  obtain a1 a2 a3 a4 a5 a6 where
      s1: "select_mode L os (aggr_optarg st) (sort_optarg st) (os_args st) = Ret (E_OK, a1)"
    and s2: "set_limit (limit_optarg st) a1 = Ret (E_OK, a2)"
    and s3: "check_filter os (filter_optarg st) a2 = Ret (E_OK, a3)"
    and s4: "set_times os tz (time_point_optarg st) (time_range_optarg st) a3 = Ret (E_OK, a4)"
    and s5: "set_paths rest a4 = Ret (E_OK, a5)"
    and s6: "set_output_fields L os (output_fields_optarg st) (default_progress_bar (metadata_only a5)) = Ret (E_OK, a6)"
    and s7: "res_bind (default_output_params a6) (\<lambda>args. res_bind (decide_tput L args) (\<lambda>args.
      res_bind (fields_check L (ca_fields args)) (\<lambda>ret. assert_then ret (Ret (E_OK, args))))) = Ret (E_OK, args')"
    using run unfolding finish_args_def and_then_OK by blast
  have k1: "keys_only L a1" "mode_set a1" using select_mode_OK[OF ok e s1] by simp_all
  have k4: "keys_only L a4" "mode_set a4"
    using k1 set_limit_OK[OF s2] check_filter_OK[OF s3] set_times_OK[OF s4] by auto
  have a5: "a5 = a4\<lparr>ca_paths := rest\<rparr>" "rest \<noteq> []" using s5 by (auto simp: set_paths_def split: if_splits)
  obtain fs where a6: "a6 = (default_progress_bar (metadata_only a5))\<lparr>ca_fields := fs\<rparr>" "fields_inv L fs" "mode_set a6" "columns_ordered fs"
    using set_output_fields_OK[OF ok _ _ s6] k4 by (auto simp: before_fields_keep a5(1))
  obtain op where op: "default_output_params a6 = Ret (a6\<lparr>output_params := op\<rparr>)" "output_set op"
    using default_output_params_Ret by blast
  define a7 where "a7 = a6\<lparr>output_params := op\<rparr>"
  have fields7: "ca_fields a7 = fs" using a6(1) by (simp add: a7_def)
  have run7: "args' = a7\<lparr>use_tput := use_tput a7 \<and> tput_allowed L a7\<rparr>"
    using s7 op fields_check_inv[OF ok(1) a6(2)] fields7
    by (simp add: decide_tput_Ret[OF ok(1)] a7_def[symmetric])
  have "working_mode a7 \<noteq> MODE_UNSET" "working_mode a7 = MODE_AGGR \<longrightarrow> 0 < aggr_keys_cnt fs"
    using a6 aggr_cnt[OF a6(2)] by (auto simp: mode_set_def a7_def)
  moreover have "ca_paths a7 = rest" "progress_bar_type a7 \<noteq> PROGRESS_BAR_UNSET" "output_params a7 = op"
    using a6(1) default_progress_bar_set by (simp_all add: a7_def before_fields_keep a5(1))
  moreover have "use_tput args' \<longrightarrow> tput_allowed L args'" by (simp add: run7 tput_allowed_def)
  ultimately show ?thesis
    using a5(2) op(2) a6(2,4) fields7 fields_check_inv[OF ok(1) a6(2)] run7
    by (simp add: args_ready_def)
qed

lemma init_opt_state_fields: "ca_fields (os_args (init_opt_state args e)) = ca_fields args"
  by (simp add: init_opt_state_def)

lemma arg_parse_args_ready:
  assumes "libnf_ok L" and "parse_ok L" and "\<And>s. os_strdup_ok os s"
    and "ca_fields args = empty_fields"
    and "arg_parse L os e args opts rest = Ret ((E_OK, args'), e')"
  shows "args_ready L args'"
proof -
  obtain ecode st where loop: "opt_loop opts (init_opt_state args e) = Ret (ecode, st)"
    using assms(5) by (auto simp: arg_parse_def res_simps)
  have "ca_fields (os_args st) = empty_fields"
    using opt_loop_fields[OF loop] assms(4) by (simp add: init_opt_state_fields)
  moreover obtain tz where "finish_args L os tz rest st = Ret (E_OK, args')"
    using assms(5) loop by (auto simp: arg_parse_def res_simps split: if_splits)
  ultimately show ?thesis by (intro finish_args_ready[OF assms(1-3)])
qed

text \<open>C16: when the command line is accepted, the program starts from a consistent state: the field
  structure satisfies its invariant, its order of columns and its final check, a working mode is chosen, aggregation has
  a key, TPUT stays enabled only under the conditions it needs, there is a path, and no output
  parameter is left unset.\<close>

theorem arg_parse_ready:
  assumes "libnf_ok L" and "parse_ok L" and "\<And>s. os_strdup_ok os s"
    and "ca_fields args = empty_fields"
    and "arg_parse L os e args opts rest = Ret ((E_OK, args'), e')"
  shows "args_ready L args'"
  by (rule arg_parse_args_ready[OF assms])

subsection \<open>The parser always returns\<close>

text \<open>
  What the C library does: the clock works, the current local time is one that \<open>mktime\<close> can convert
  back, and a token that a format of \<open>strptime\<close> converts completely is converted completely whatever
  the initial content of the structure.
\<close>

definition time_ok :: "os_time \<Rightarrow> bool" where
  "time_ok os \<longleftrightarrow> os_now os \<noteq> -1
     \<and> (\<exists>now_tm. os_localtime os (os_now os) = Some now_tm \<and> local_instant os now_tm \<noteq> -1)
     \<and> (\<forall>tok f t t'. os_strptime os tok f (os_attempt os) = Some ([], t')
          \<longrightarrow> (\<exists>t''. os_strptime os tok f t = Some ([], t'')))"

text \<open>A date the program can handle: it does not begin with a newline, which is asserted, and if it
  is accepted \<open>mktime\<close> does not give -1 for it, which is the mark of a time that it cannot represent
  and also the last second before the epoch; the program aborts on it.\<close>

definition date_ok :: "os_time \<Rightarrow> string \<Rightarrow> bool" where
  "date_ok os d \<longleftrightarrow> (d = [] \<or> hd d \<noteq> CHR 0x0A)
     \<and> (\<forall>e lcl e'. str_to_tm os e d = Ret (Some lcl, e') \<longrightarrow> local_instant os lcl \<noteq> -1)"

text \<open>The dates of a time range.\<close>

definition range_dates :: "string \<Rightarrow> string list" where
  "range_dates s = (case split_at_char TIME_RANGE_DELIM s of Some (a, b) \<Rightarrow> [a, b] | None \<Rightarrow> [s])"

definition time_point_ok :: "os_time \<Rightarrow> string \<Rightarrow> bool" where
  "time_point_ok os s \<longleftrightarrow> s \<noteq> [] \<and> date_ok os s"

definition time_range_ok :: "os_time \<Rightarrow> string \<Rightarrow> bool" where
  "time_range_ok os s \<longleftrightarrow> s \<noteq> [] \<and> (\<forall>d\<in>set (range_dates s). date_ok os d)"

text \<open>\<open>getopt_long\<close> returns options of the table, with an argument exactly where one is required.\<close>

definition getopt_ok :: "(opt \<times> string option) list \<Rightarrow> bool" where
  "getopt_ok opts \<longleftrightarrow>
     (\<forall>(opt, optarg)\<in>set opts. opt = OPT_INVALID
        \<or> (\<exists>(nm, required, val)\<in>set long_opts. val = opt \<and> required = (optarg \<noteq> None)))"

text \<open>The arguments that are asserted not to be empty, or have another limit.\<close>

definition optarg_ok :: "os_time \<Rightarrow> opt \<times> string option \<Rightarrow> bool" where
  "optarg_ok os p \<longleftrightarrow>
     (case p of
        (OPT_LIMIT, Some s) \<Rightarrow> s \<noteq> []
      | (OPT_VERBOSITY, Some s) \<Rightarrow> s \<noteq> []
      | (OPT_NUM_THREADS, Some s) \<Rightarrow> s \<noteq> []
      | (OPT_TIME_POINT, Some s) \<Rightarrow> time_point_ok os s
      | (OPT_TIME_RANGE, Some s) \<Rightarrow> time_range_ok os s
      | (OPT_TIME_ZONE, Some s) \<Rightarrow> length s < 256
      | _ \<Rightarrow> True)"

definition st_ok :: "os_time \<Rightarrow> opt_state \<Rightarrow> bool" where
  "st_ok os st \<longleftrightarrow> limit_optarg st \<noteq> Some []
     \<and> (case time_point_optarg st of None \<Rightarrow> True | Some s \<Rightarrow> time_point_ok os s)
     \<and> (case time_range_optarg st of None \<Rightarrow> True | Some s \<Rightarrow> time_range_ok os s)
     \<and> (case time_zone_optarg st of None \<Rightarrow> True | Some s \<Rightarrow> length s < 256)
     \<and> setenv_ok (ae_tz (os_env st))"

lemma set_output_param_total:
  "\<exists>c op. set_output_param f (Some s) st = Ret (c, st\<lparr>os_args := (os_args st)\<lparr>output_params := op\<rparr>\<rparr>)"
  by (cases "f (output_params (os_args st)) s") (auto simp: set_output_param_def with_optarg_def)

lemma set_verbosity_total: "s \<noteq> [] \<Longrightarrow> \<exists>c e'. set_verbosity_level e s = Ret (c, e') \<and> ae_tz e' = ae_tz e"
  using str_to_int_result[of s]
  by (auto simp: set_verbosity_level_def VERBOSITY_QUIET_def VERBOSITY_DEBUG_def Let_def split: sum.splits)

lemma set_num_threads_total: "s \<noteq> [] \<Longrightarrow> \<exists>c e'. set_num_threads e s = Ret (c, e') \<and> ae_tz e' = ae_tz e"
  using str_to_int_result[of s] by (auto simp: set_num_threads_def split: sum.splits)

lemma opt_step_total:
  assumes "getopt_ok [(opt, a)]" "optarg_ok os (opt, a)" "st_ok os st"
  shows "\<exists>c st'. opt_step opt a st = Ret (c, st') \<and> st_ok os st'"
proof -
  have arg: "opt = OPT_INVALID \<or> (\<exists>s. a = Some s)
      \<or> opt \<in> {OPT_OUTPUT_RICH_HEADER, OPT_OUTPUT_NO_ELLIPSIZE, OPT_NO_TPUT, OPT_NO_BFINDEX, OPT_HELP, OPT_VERSION}"
    using assms(1) by (auto simp: getopt_ok_def long_opts_def)
  have out: "\<exists>c st'. set_output_param f (Some s) st = Ret (c, st') \<and> st_ok os st'" for f s
    using set_output_param_total[of f s st] assms(3) by (auto simp: st_ok_def)
  show ?thesis
  proof (cases a)
    case None
    with arg assms(3) show ?thesis by (auto simp: st_ok_def)
  next
    case (Some s)
    show ?thesis
    proof (cases opt)
      case OPT_STATISTIC
      then show ?thesis using Some assms(3)
        by (auto simp: st_ok_def parse_stat_spec_def DEFAULT_STAT_REC_LIMIT_def split: option.splits)
    next
      case OPT_VERBOSITY
      then show ?thesis using Some assms(2,3) set_verbosity_total[of s "os_env st"]
        by (auto simp: st_ok_def optarg_ok_def with_optarg_def)
    next
      case OPT_NUM_THREADS
      then show ?thesis using Some assms(2,3) set_num_threads_total[of s "os_env st"]
        by (auto simp: st_ok_def optarg_ok_def with_optarg_def)
    next
      case OPT_PROGRESS_BAR_TYPE
      then show ?thesis using Some assms(3)
        by (cases "set_progress_bar_type (progress_bar_type (os_args st)) s")
          (auto simp: st_ok_def with_optarg_def)
    qed (use Some assms(2,3) out in \<open>simp_all add: st_ok_def optarg_ok_def\<close>)
  qed
qed

lemma opt_loop_total:
  "getopt_ok opts \<Longrightarrow> \<forall>p\<in>set opts. optarg_ok os p \<Longrightarrow> st_ok os st
   \<Longrightarrow> \<exists>c st'. opt_loop opts st = Ret (c, st') \<and> st_ok os st'"
proof (induction opts st rule: opt_loop.induct)
  case (2 opt optarg opts st)
  obtain c st1 where s: "opt_step opt optarg st = Ret (c, st1)" "st_ok os st1"
    using opt_step_total[of opt optarg os st] 2(2-4) by (auto simp: getopt_ok_def)
  show ?case
  proof (cases "c = E_OK")
    case True
    have "getopt_ok opts" "\<forall>p\<in>set opts. optarg_ok os p" using 2(2,3) by (auto simp: getopt_ok_def)
    then obtain c' st' where "opt_loop opts st1 = Ret (c', st')" "st_ok os st'"
      using "2.IH"[of c st1] True s(2) by auto
    then show ?thesis using s True by auto
  qed (use s in auto)
qed simp

lemma try_formats_total: "time_ok os \<Longrightarrow> \<exists>r. try_formats os tok fs t = Ret r"
proof (induction fs)
  case (Cons f fs)
  show ?case
  proof (cases "\<exists>t'. os_strptime os tok f (os_attempt os) = Some ([], t')")
    case True
    then obtain t' t'' where "os_strptime os tok f (os_attempt os) = Some ([], t')"
        "os_strptime os tok f t = Some ([], t'')"
      using Cons.prems unfolding time_ok_def by metis
    then show ?thesis by simp
  next
    case False
    then show ?thesis using Cons by (auto split: option.splits list.splits)
  qed
qed simp

lemma parse_tokens_total: "time_ok os \<Longrightarrow> \<exists>r. parse_tokens os toks t = Ret r"
proof (induction toks arbitrary: t)
  case (Cons tok toks)
  obtain r where "try_formats os tok date_formats t = Ret r" using try_formats_total[OF Cons.prems] by blast
  then show ?case using Cons by (cases r) auto
qed simp

lemma time_ok_now:
  "time_ok os \<Longrightarrow> os_now os \<noteq> -1 \<and> (\<exists>now_tm. os_localtime os (os_now os) = Some now_tm \<and> local_instant os now_tm \<noteq> -1)"
  unfolding time_ok_def by blast

lemma str_to_tm_total:
  assumes "time_ok os" "env_ok e" "date_ok os d"
  shows "\<exists>r. str_to_tm os e d = Ret (r, e) \<and> (\<forall>lcl. r = Some lcl \<longrightarrow> local_instant os lcl \<noteq> -1)"
proof -
  obtain r where r: "parse_tokens os (strtok TIME_DELIM d) unset_tm = Ret r"
    using parse_tokens_total[OF assms(1)] by blast
  obtain now_tm where n: "os_localtime os (os_now os) = Some now_tm" "os_now os \<noteq> -1"
    using time_ok_now[OF assms(1)] by blast
  have "\<exists>r. str_to_tm os e d = Ret (r, e)"
    using r n mktime_utc_Ret[OF assms(2)] assms(3) by (cases r) (simp_all add: str_to_tm_def date_ok_def)
  then show ?thesis using assms(3) by (auto simp: date_ok_def)
qed

lemma set_time_point_total:
  assumes "time_ok os" "env_ok e" "time_point_ok os s"
  shows "\<exists>c args'. set_time_point os e args s = Ret ((c, args'), e)"
proof -
  have s: "s \<noteq> []" "date_ok os s" using assms(3) by (simp_all add: time_point_ok_def)
  then obtain r where r: "str_to_tm os e s = Ret (r, e)" "\<forall>lcl. r = Some lcl \<longrightarrow> local_instant os lcl \<noteq> -1"
    using str_to_tm_total[OF assms(1,2)] by blast
  show ?thesis
  proof (cases r)
    case None
    then show ?thesis using r s by (simp add: set_time_point_def)
  next
    case (Some lcl)
    then have "local_instant os lcl \<noteq> -1" using r(2) by blast
    from set_time_point_eq[OF assms(2) s(1) r(1)[unfolded Some] this refl] show ?thesis by auto
  qed
qed

lemma set_time_range_total:
  assumes "time_ok os" "env_ok e" "time_range_ok os s"
  shows "\<exists>c args'. set_time_range os e args s = Ret ((c, args'), e)"
proof -
  obtain now_tm where n: "os_localtime os (os_now os) = Some now_tm" "os_now os \<noteq> -1" "local_instant os now_tm \<noteq> -1"
    using time_ok_now[OF assms(1)] by blast
  obtain x y where xy: "(case split_at_char TIME_RANGE_DELIM s of Some (a, b) \<Rightarrow> (a, Some b) | None \<Rightarrow> (s, None)) = (x, y)"
    by (cases "case split_at_char TIME_RANGE_DELIM s of Some (a, b) \<Rightarrow> (a, Some b) | None \<Rightarrow> (s, None)") auto
  then have sub: "date_ok os x" "\<And>z. y = Some z \<Longrightarrow> date_ok os z"
    using assms(3) by (auto simp: time_range_ok_def range_dates_def split: option.splits)
  obtain rx where rx: "str_to_tm os e x = Ret (rx, e)" "\<forall>lcl. rx = Some lcl \<longrightarrow> local_instant os lcl \<noteq> -1"
    using str_to_tm_total[OF assms(1,2) sub(1)] by blast
  have "\<exists>ry. (case y of Some s \<Rightarrow> str_to_tm os e s | None \<Rightarrow>
       abort_if (os_now os = -1) E_INTERNAL (case os_localtime os (os_now os) of
          None \<Rightarrow> Abort E_INTERNAL | Some now_tm \<Rightarrow> Ret (Some now_tm, e))) = Ret (ry, e)
      \<and> (\<forall>lcl. ry = Some lcl \<longrightarrow> local_instant os lcl \<noteq> -1)"
  proof (cases y)
    case (Some z)
    then show ?thesis using str_to_tm_total[OF assms(1,2) sub(2)[OF Some]] by auto
  qed (simp add: n)
  then obtain ry where ry: "(case y of Some s \<Rightarrow> str_to_tm os e s | None \<Rightarrow>
       abort_if (os_now os = -1) E_INTERNAL (case os_localtime os (os_now os) of
          None \<Rightarrow> Abort E_INTERNAL | Some now_tm \<Rightarrow> Ret (Some now_tm, e))) = Ret (ry, e)"
      "\<forall>lcl. ry = Some lcl \<longrightarrow> local_instant os lcl \<noteq> -1" by blast
  have "s \<noteq> []" using assms(3) by (simp add: time_range_ok_def)
  then show ?thesis
    using rx(2) ry(2)
    by (cases rx; cases ry)
      (simp_all add: set_time_range_def xy rx(1) ry(1) tm_local_to_utc_def Let_def local_instant_def
        align_back_Ret[OF assms(2)] align_forth_Ret[OF assms(2)])
qed

text \<open>The default field lists name fields that libnf knows.\<close>

definition defaults_ok :: "libnf \<Rightarrow> bool" where
  "defaults_ok L \<longleftrightarrow>
     (\<forall>s\<in>{DEFAULT_LIST_FIELDS, DEFAULT_AGGR_FIELDS}. \<forall>tok\<in>set (strtok FIELDS_DELIM s). field_parse L tok \<noteq> Ret None)"

lemma output_tokens_added:
  assumes ok: "libnf_ok L" "parse_ok L"
  shows "fields_inv L fs \<Longrightarrow> \<forall>tok\<in>set toks. field_parse L tok \<noteq> Ret None
    \<Longrightarrow> output_fields_cnt fs + length toks \<le> OUTPUT_FIELDS_MAX
    \<Longrightarrow> \<exists>fs'. until_false (parse_one_field L False) toks fs = Ret (True, fs')"
proof (induction toks arbitrary: fs)
  case (Cons tok toks)
  obtain fid al al6 where p: "field_parse L tok = Ret (Some (fid, al, al6))" "valid_id L fid"
    using field_parse_cases[OF ok, of tok] Cons.prems(2) by (metis list.set_intros(1))
  have "output_fields_cnt fs < OUTPUT_FIELDS_MAX" using Cons.prems(3) by simp
  then obtain fs1 where fs1: "fields_add_output_field L fs fid = Ret (True, fs1)" "fields_inv L fs1"
      "output_fields_cnt fs1 \<le> Suc (output_fields_cnt fs)"
    using fields_add_output_field_spec[OF ok(1) p(2) Cons.prems(1)] by auto
  have "\<exists>fs'. until_false (parse_one_field L False) toks fs1 = Ret (True, fs')"
    by (rule Cons.IH) (use fs1 Cons.prems in auto)
  moreover have "parse_one_field L False tok fs = Ret (True, fs1)"
    using p(1) fs1(1) by (simp add: parse_one_field_def)
  ultimately show ?case by simp
qed simp

lemma default_lengths:
  "length (strtok FIELDS_DELIM DEFAULT_LIST_FIELDS) = 9" "length (strtok FIELDS_DELIM DEFAULT_AGGR_FIELDS) = 8"
  by code_simp+

lemma default_fields_added:
  assumes ok: "libnf_ok L" "parse_ok L" "os_strdup_ok os s" and st: "keys_only L args"
    and d: "defaults_ok L" "s \<in> {DEFAULT_LIST_FIELDS, DEFAULT_AGGR_FIELDS}"
  shows "\<exists>fs. parse_fields L os s (ca_fields args) False = Ret (True, fs)"
proof -
  have inv: "fields_inv L (ca_fields args)" "output_fields_cnt (ca_fields args) = 0"
    using st out_cnt by (auto simp: keys_only_def)
  have "\<exists>fs'. until_false (parse_one_field L False) (strtok FIELDS_DELIM s) (ca_fields args) = Ret (True, fs')"
    using d default_lengths
    by (intro output_tokens_added[OF ok(1,2) inv(1)]) (auto simp: defaults_ok_def inv(2) OUTPUT_FIELDS_MAX_def)
  then show ?thesis using ok(3) by (auto simp: parse_fields_def)
qed

lemma and_then_total:
  assumes "\<exists>c s. m = Ret (c, s)" and "\<And>s. m = Ret (E_OK, s) \<Longrightarrow> \<exists>c s'. f s = Ret (c, s')"
  shows "\<exists>c s. and_then m f = Ret (c, s)"
  using assms by (auto simp: and_then_def split: if_splits)

lemma with_fields_total: "\<exists>b fs. f (ca_fields args) = Ret (b, fs) \<Longrightarrow> \<exists>c args'. with_fields f args = Ret (c, args')"
  by (auto simp: with_fields_def)

lemma select_mode_total:
  assumes ok: "libnf_ok L" "parse_ok L" "\<And>s. os_strdup_ok os s" and e: "ca_fields args = empty_fields"
  shows "\<exists>c args'. select_mode L os a srt args = Ret (c, args')"
proof -
  have sort: "\<exists>b fs'. parse_sort_spec L os s fs = Ret (b, fs')"
    if "fields_inv L fs" "sk_field (sort_key fs) = None" "out_ptrs fs = []" for s fs
    using parse_sort_spec_spec[OF ok(1,2) that(1) ok(3) that(2,3), of s] by blast
  have sort_empty: "\<exists>b fs'. parse_sort_spec L os s empty_fields = Ret (b, fs')" for s
    using sort[OF empty_fields_keys(1,3,2)] by blast
  show ?thesis
  proof (cases a)
    case None
    then show ?thesis
      using sort_empty e by (cases srt) (auto simp: select_mode_def intro!: with_fields_total)
  next
    case (Some as)
    obtain b fs where p: "parse_fields L os as empty_fields True = Ret (b, fs)" "fields_inv L fs"
      "sort_key fs = sort_key empty_fields" "out_ptrs fs = out_ptrs empty_fields"
      using parse_fields_spec[OF ok(1,2) empty_fields_keys(1) ok(3), of as True] by auto
    have s2: "\<exists>b fs'. parse_sort_spec L os s fs = Ret (b, fs')" for s
      using sort[OF p(2)] p(3,4) by (simp add: empty_fields_keys)
    have "\<exists>c args'. and_then (with_fields (\<lambda>fs. parse_fields L os as fs True) (args\<lparr>working_mode := MODE_AGGR\<rparr>))
        (\<lambda>args. case srt of Some s \<Rightarrow> with_fields (parse_sort_spec L os s) args | None \<Rightarrow> Ret (E_OK, args))
      = Ret (c, args')"
    proof (rule and_then_total)
      show "\<exists>c s. with_fields (\<lambda>fs. parse_fields L os as fs True) (args\<lparr>working_mode := MODE_AGGR\<rparr>) = Ret (c, s)"
        using p(1) e by (intro with_fields_total) simp
    next
      fix s1 assume "with_fields (\<lambda>fs. parse_fields L os as fs True) (args\<lparr>working_mode := MODE_AGGR\<rparr>) = Ret (E_OK, s1)"
      then have "ca_fields s1 = fs" using p(1) e by (auto simp: with_fields_OK)
      then show "\<exists>c s'. (case srt of Some s \<Rightarrow> with_fields (parse_sort_spec L os s) s1 | None \<Rightarrow> Ret (E_OK, s1)) = Ret (c, s')"
        using s2 by (cases srt) (auto intro!: with_fields_total)
    qed
    then show ?thesis using Some by (simp add: select_mode_def)
  qed
qed

lemma set_output_fields_total:
  assumes ok: "libnf_ok L" "parse_ok L" "\<And>s. os_strdup_ok os s" "defaults_ok L"
    and st: "keys_only L args" "mode_set args"
  shows "\<exists>c args'. set_output_fields L os spec args = Ret (c, args')"
proof (cases spec)
  case (Some s)
  have "\<exists>b fs. parse_fields L os s (ca_fields args) False = Ret (b, fs)"
    using parse_fields_spec[OF ok(1,2) _ ok(3), of "ca_fields args" s False] st(1) by (auto simp: keys_only_def)
  then show ?thesis using Some by (auto simp: set_output_fields_def Let_def intro!: with_fields_total)
next
  case None
  have d: "\<exists>fs. parse_fields L os s (ca_fields args) False = Ret (True, fs)"
    if "s \<in> {DEFAULT_LIST_FIELDS, DEFAULT_AGGR_FIELDS}" for s
    using default_fields_added[OF ok(1,2) ok(3) st(1) ok(4) that] .
  show ?thesis
    using None d[of DEFAULT_LIST_FIELDS] d[of DEFAULT_AGGR_FIELDS] st(2)
    by (cases "working_mode args") (auto simp: set_output_fields_def Let_def mode_set_def DEFAULT_SORT_FIELDS_def)
qed

lemma finish_args_total:
  assumes ok: "libnf_ok L" "parse_ok L" "\<And>s. os_strdup_ok os s" "defaults_ok L"
    and env: "time_ok (os_time.truncate os)" "env_ok tz"
    and st: "st_ok (os_time.truncate os) st" "ca_fields (os_args st) = empty_fields"
  shows "\<exists>c args'. finish_args L os tz rest st = Ret (c, args')"
  unfolding finish_args_def
proof (intro and_then_total)
  show "\<exists>c s. select_mode L os (aggr_optarg st) (sort_optarg st) (os_args st) = Ret (c, s)"
    by (rule select_mode_total[OF ok(1-3) st(2)])
next
  fix a1
  show "\<exists>c s. set_limit (limit_optarg st) a1 = Ret (c, s)"
    using str_to_luint_result st(1)
    by (cases "limit_optarg st") (fastforce simp: set_limit_def st_ok_def split: sum.splits)+
next
  fix a2
  show "\<exists>c s. check_filter os (filter_optarg st) a2 = Ret (c, s)"
    by (cases "filter_optarg st") (auto simp: check_filter_def set_filter_def)
next
  fix a3
  show "\<exists>c s. set_times os tz (time_point_optarg st) (time_range_optarg st) a3 = Ret (c, s)"
  proof -
    have "\<exists>c s'. map_res fst (set_time_point (os_time.truncate os) tz a3 s) = Ret (c, s')"
      if "time_point_optarg st = Some s" for s
      using set_time_point_total[OF env, of s a3] st(1) that by (auto simp: st_ok_def)
    moreover have "\<exists>c s'. map_res fst (set_time_range (os_time.truncate os) tz a3 s) = Ret (c, s')"
      if "time_range_optarg st = Some s" for s
      using set_time_range_total[OF env, of s a3] st(1) that by (auto simp: st_ok_def)
    ultimately show ?thesis
      by (cases "time_point_optarg st"; cases "time_range_optarg st") (simp_all add: set_times_def)
  qed
next
  fix a4
  show "\<exists>c s. set_paths rest a4 = Ret (c, s)" by (simp add: set_paths_def)
next
  fix a1 a2 a3 a4 a5
  assume s1: "select_mode L os (aggr_optarg st) (sort_optarg st) (os_args st) = Ret (E_OK, a1)"
    and s2: "set_limit (limit_optarg st) a1 = Ret (E_OK, a2)"
    and s3: "check_filter os (filter_optarg st) a2 = Ret (E_OK, a3)"
    and s4: "set_times os tz (time_point_optarg st) (time_range_optarg st) a3 = Ret (E_OK, a4)"
    and s5: "set_paths rest a4 = Ret (E_OK, a5)"
  have k: "keys_only L a1" "mode_set a1" using select_mode_OK[OF ok(1-3) st(2) s1] by simp_all
  have "keys_only L a4" "mode_set a4"
    using k set_limit_OK[OF s2] check_filter_OK[OF s3] set_times_OK[OF s4] by auto
  then have k5: "keys_only L a5" "mode_set a5" using s5 by (auto simp: set_paths_def split: if_splits)
  let ?a = "default_progress_bar (metadata_only a5)"
  have k6: "keys_only L ?a" "mode_set ?a" using k5 before_fields_keep by auto
  show "\<exists>c s. set_output_fields L os (output_fields_optarg st) ?a = Ret (c, s)"
    by (rule set_output_fields_total[OF ok k6])
  fix a6 assume s6: "set_output_fields L os (output_fields_optarg st) ?a = Ret (E_OK, a6)"
  obtain fs where a6: "ca_fields a6 = fs" "fields_inv L fs"
    using set_output_fields_OK[OF ok(1-3) k6 s6] by auto
  obtain op where "default_output_params a6 = Ret (a6\<lparr>output_params := op\<rparr>)"
    using default_output_params_Ret by blast
  then show "\<exists>c s'. res_bind (default_output_params a6) (\<lambda>args. res_bind (decide_tput L args) (\<lambda>args.
      res_bind (fields_check L (ca_fields args)) (\<lambda>ret. assert_then ret (Ret (E_OK, args))))) = Ret (c, s')"
    using a6 fields_check_inv[OF ok(1) a6(2)] by (simp add: decide_tput_Ret[OF ok(1)])
qed

text \<open>C17: the parser always returns: no assertion of the option handlers, of the date parsing, of the
  alignment or of the final check of the fields fails, no null argument is read, and the program is
  not aborted, for all options \<open>getopt_long\<close> can deliver.  The arguments for limit, verbosity,
  threads and times are not empty (\<open>optarg_ok\<close>), a date neither begins with a newline nor is one that
  \<open>mktime\<close> answers with -1, a time zone has fewer than 256 characters: the program asserts these or
  aborts.  The clock, \<open>localtime\<close>, \<open>setenv\<close> and the allocations succeed, and libnf knows the default
  fields.\<close>

theorem arg_parse_total:
  assumes "libnf_ok L" and "parse_ok L" and "defaults_ok L" and "\<And>s. os_strdup_ok os s"
    and "time_ok (os_time.truncate os)" and "setenv_ok (ae_tz e)"
    and "ca_fields args = empty_fields"
    and "getopt_ok opts" and "\<forall>p\<in>set opts. optarg_ok (os_time.truncate os) p"
  shows "\<exists>c args' e'. arg_parse L os e args opts rest = Ret ((c, args'), e')"
proof -
  have "st_ok (os_time.truncate os) (init_opt_state args e)" using assms(6) by (simp add: st_ok_def init_opt_state_def)
  then obtain c st where loop: "opt_loop opts (init_opt_state args e) = Ret (c, st)" "st_ok (os_time.truncate os) st"
    using opt_loop_total[OF assms(8,9)] by blast
  show ?thesis
  proof (cases "c = E_OK")
    case False
    then show ?thesis using loop by (auto simp: arg_parse_def)
  next
    case True
    obtain e1 where e1: "set_time_zone (os_env st) (time_zone_optarg st) = Ret e1" "env_ok (ae_tz e1)"
      using loop(2) by (auto simp: set_time_zone_def st_ok_def env_ok_def Let_def split: option.splits)
    have "ca_fields (os_args st) = empty_fields"
      using opt_loop_fields[OF loop(1)] assms(7) by (simp add: init_opt_state_fields)
    then obtain c' args' where "finish_args L os (ae_tz e1) rest st = Ret (c', args')"
      using finish_args_total[OF assms(1,2,4,3,5) e1(2) loop(2)] by blast
    then show ?thesis using loop True e1 by (auto simp: arg_parse_def)
  qed
qed

definition sample_arg_env :: arg_env where
  "sample_arg_env = \<lparr>ae_tz = \<lparr>env_tz = None, setenv_ok = True\<rparr>, ae_verbosity = 2, ae_threads = None\<rparr>"

text \<open>C32: the statistic option is a shortcut: it has the effect of the aggregation option with the
  part before the first \<open>#\<close>, the order option with the part after it, and the limit option with 10.\<close>

theorem statistic_is_shortcut:
  assumes "CHR ''#'' \<notin> set flds"
  shows "opt_loop ((OPT_STATISTIC, Some (flds @ ''#'' @ srt)) # opts) st
       = opt_loop ((OPT_AGGREGATION, Some flds) # (OPT_ORDER, Some srt) # (OPT_LIMIT, Some ''10'') # opts) st
   \<and> opt_loop ((OPT_STATISTIC, Some flds) # opts) st
       = opt_loop ((OPT_AGGREGATION, Some flds) # (OPT_ORDER, Some ''flows'') # (OPT_LIMIT, Some ''10'') # opts) st"
  using assms split_at_char_append[OF assms, of srt] split_at_char_None[of "CHR ''#''" flds]
  by (simp add: parse_stat_spec_def STAT_DELIM_def DEFAULT_STAT_REC_LIMIT_def DEFAULT_STAT_SORT_KEY_def)

theorem statistic_is_shortcut_witness:
  "opt_loop [(OPT_STATISTIC, Some ''srcip#bytes'')] (init_opt_state zero_args sample_arg_env)
     = opt_loop [(OPT_AGGREGATION, Some ''srcip''), (OPT_ORDER, Some ''bytes''), (OPT_LIMIT, Some ''10'')]
         (init_opt_state zero_args sample_arg_env)"
  using statistic_is_shortcut[of "''srcip''" "''bytes''" "[]" "init_opt_state zero_args sample_arg_env"] by simp

subsection \<open>An instance\<close>

definition sample_arg_os :: arg_os where
  "sample_arg_os = \<lparr>os_strptime = \<lambda>_ _ _. None, os_attempt = zero_tm, os_now = 0,
     os_localtime = \<lambda>_. Some zero_tm, os_mktime = \<lambda>_. 0, os_filter_ok = \<lambda>_. True, os_strdup_ok = \<lambda>_. True\<rparr>"

definition sample_opts :: "(opt \<times> string option) list" where
  "sample_opts = [(OPT_STATISTIC, Some ''srcip#bytes''), (OPT_LIMIT, Some ''5''), (OPT_FILTER, Some ''port 80'')]"

definition both_accepted :: "(bool \<times> fields) res \<Rightarrow> (fields \<Rightarrow> (bool \<times> fields) res) \<Rightarrow> bool" where
  "both_accepted r f =
     (case r of Ret (b, fs) \<Rightarrow> b \<and> (case f fs of Ret (b', _) \<Rightarrow> b' | _ \<Rightarrow> False) | _ \<Rightarrow> False)"

lemma sample_parse_ok: "parse_ok sample_libnf"
  by (auto simp: parse_ok_def sample_libnf_def valid_id_def split: option.splits)

lemma sample_defaults_ok: "defaults_ok sample_libnf"
  by code_simp

lemma sample_keys:
  "both_accepted (parse_fields sample_libnf sample_arg_os ''srcip'' empty_fields True)
     (parse_sort_spec sample_libnf sample_arg_os ''bytes'')"
  by code_simp

lemma both_acceptedD: "both_accepted r f \<Longrightarrow> \<exists>fs fs'. r = Ret (True, fs) \<and> f fs = Ret (True, fs')"
proof -
  assume a: "both_accepted r f"
  then obtain fs where r: "r = Ret (True, fs)" by (cases r) (auto simp: both_accepted_def)
  with a show ?thesis by (cases "f fs") (auto simp: both_accepted_def)
qed

lemma finish_args_accepts:
  assumes ok: "libnf_ok L" "parse_ok L" "\<And>s. os_strdup_ok os s" "defaults_ok L" "\<And>s. os_filter_ok os s"
    and st: "ca_fields (os_args st) = empty_fields" "time_point_optarg st = None" "time_range_optarg st = None"
      "output_fields_optarg st = None" "rest \<noteq> []"
    and run: "select_mode L os (aggr_optarg st) (sort_optarg st) (os_args st) = Ret (E_OK, a1)"
      "set_limit (limit_optarg st) a1 = Ret (E_OK, a2)"
  shows "\<exists>args'. finish_args L os tz rest st = Ret (E_OK, args')"
proof -
  have k1: "keys_only L a1" "mode_set a1" using select_mode_OK[OF ok(1-3) st(1) run(1)] by simp_all
  have k2: "keys_only L a2" "mode_set a2" using k1 set_limit_OK[OF run(2)] by auto
  obtain a3 where a3: "check_filter os (filter_optarg st) a2 = Ret (E_OK, a3)"
    by (cases "filter_optarg st") (auto simp: check_filter_def set_filter_def ok(5))
  have k3: "keys_only L a3" "mode_set a3" using k2 check_filter_OK[OF a3] by auto
  define a5 where "a5 = default_progress_bar (metadata_only (a3\<lparr>ca_paths := rest\<rparr>))"
  have k5: "keys_only L a5" "mode_set a5" using k3 by (simp_all add: a5_def before_fields_keep)
  have d: "\<exists>fs. parse_fields L os s (ca_fields a5) False = Ret (True, fs)"
    if "s \<in> {DEFAULT_LIST_FIELDS, DEFAULT_AGGR_FIELDS}" for s
    using default_fields_added[OF ok(1,2) ok(3) k5(1) ok(4) that] .
  obtain a6 where a6: "set_output_fields L os None a5 = Ret (E_OK, a6)"
    using d[of DEFAULT_LIST_FIELDS] d[of DEFAULT_AGGR_FIELDS] k5(2)
    by (cases "working_mode a5") (auto simp: set_output_fields_def Let_def mode_set_def DEFAULT_SORT_FIELDS_def)
  obtain fs where fs: "ca_fields a6 = fs" "fields_inv L fs" using set_output_fields_OK[OF ok(1-3) k5 a6] by auto
  obtain op where op: "default_output_params a6 = Ret (a6\<lparr>output_params := op\<rparr>)"
    using default_output_params_Ret by blast
  show ?thesis
    using run a3 st a6 op fs fields_check_inv[OF ok(1) fs(2)]
    by (simp add: finish_args_def and_then_def set_times_def set_paths_def a5_def decide_tput_Ret[OF ok(1)])
qed

lemma sample_accepted:
  "\<exists>args' e'. arg_parse sample_libnf sample_arg_os sample_arg_env zero_args sample_opts [''/data''] = Ret ((E_OK, args'), e')"
proof -
  define st where "st = (init_opt_state zero_args sample_arg_env)\<lparr>aggr_optarg := Some ''srcip'',
      sort_optarg := Some ''bytes'', limit_optarg := Some (dec 5), filter_optarg := Some ''port 80''\<rparr>"
  have five: "''5'' = dec 5" by code_simp
  have loop: "opt_loop sample_opts (init_opt_state zero_args sample_arg_env) = Ret (E_OK, st)"
    by (simp add: sample_opts_def five parse_stat_spec_def STAT_DELIM_def st_def init_opt_state_def)
  have os: "os_strdup_ok sample_arg_os s" "os_filter_ok sample_arg_os s" for s by (simp_all add: sample_arg_os_def)
  have e: "ca_fields (os_args st) = empty_fields" by (simp add: st_def init_opt_state_def zero_args_def)
  obtain fs fs' where "parse_fields sample_libnf sample_arg_os ''srcip'' empty_fields True = Ret (True, fs)"
      "parse_sort_spec sample_libnf sample_arg_os ''bytes'' fs = Ret (True, fs')"
    using both_acceptedD[OF sample_keys] by blast
  then obtain a1 where s1: "select_mode sample_libnf sample_arg_os (aggr_optarg st) (sort_optarg st) (os_args st) = Ret (E_OK, a1)"
    using e by (simp add: st_def select_mode_def and_then_def with_fields_def)
  have lim: "set_limit (limit_optarg st) a1 = Ret (E_OK, a1\<lparr>rec_limit := 5\<rparr>)"
    using str_to_luint_dec[of 5] by (simp add: set_limit_def st_def)
  have fin: "\<exists>args'. finish_args sample_libnf sample_arg_os tz [''/data''] st = Ret (E_OK, args')" for tz
    by (rule finish_args_accepts[OF sample_libnf_ok sample_parse_ok os(1) sample_defaults_ok os(2) e _ _ _ _ s1 lim])
      (simp_all add: st_def init_opt_state_def)
  define e1 where "e1 = (os_env st)\<lparr>ae_tz := (ae_tz (os_env st))\<lparr>env_tz := Some []\<rparr>\<rparr>"
  have tz: "set_time_zone (os_env st) (time_zone_optarg st) = Ret e1"
    by (simp add: set_time_zone_def st_def init_opt_state_def sample_arg_env_def e1_def)
  obtain args' where "finish_args sample_libnf sample_arg_os (ae_tz e1) [''/data''] st = Ret (E_OK, args')"
    using fin by blast
  then show ?thesis using loop tz by (simp add: arg_parse_def)
qed

theorem arg_parse_ready_witness:
  "\<exists>args' e'. arg_parse sample_libnf sample_arg_os sample_arg_env zero_args sample_opts [''/data''] = Ret ((E_OK, args'), e')
     \<and> args_ready sample_libnf args'"
proof -
  obtain args' e' where r: "arg_parse sample_libnf sample_arg_os sample_arg_env zero_args sample_opts [''/data'']
      = Ret ((E_OK, args'), e')" using sample_accepted by blast
  have "args_ready sample_libnf args'"
    by (rule arg_parse_ready[OF sample_libnf_ok sample_parse_ok _ _ r])
      (simp_all add: sample_arg_os_def zero_args_def)
  with r show ?thesis by blast
qed

text \<open>The operating system of \<open>Time_Range\<close>, which knows two weekdays, with a working \<open>mktime\<close>.\<close>

definition week_os :: arg_os where
  "week_os = os_time.extend sample_os \<lparr>os_filter_ok = \<lambda>_. True, os_strdup_ok = \<lambda>_. True\<rparr>"

lemma week_os: "os_time.truncate week_os = sample_os" "os_strdup_ok week_os s"
  by (simp_all add: week_os_def sample_os_def os_time.defs)

lemma str_to_tm_in_env:
  assumes "str_to_tm os e d = Ret (r, e')" "env_ok e2"
  shows "str_to_tm os e2 d = Ret (r, e2)"
  using assms(1) mktime_utc_Ret[OF assms(2)]
  by (auto simp: str_to_tm_def res_simps dest!: mktime_utc_cases split: option.splits)

lemma week_dates: "date_ok sample_os ''Mon''" "date_ok sample_os ''Tue''"
proof -
  have "local_instant sample_os lcl \<noteq> -1"
    if "d \<in> {''Mon'', ''Tue''}" "str_to_tm sample_os e d = Ret (Some lcl, e')" for d e lcl e'
    using that sample_str_to_tm sample_local str_to_tm_in_env[OF that(2) sample_env_ok] by auto
  then show "date_ok sample_os ''Mon''" "date_ok sample_os ''Tue''" unfolding date_ok_def by (simp_all) blast+
qed

lemma sample_time_ok: "time_ok sample_os"
proof -
  have "local_instant sample_os (gmtime 1600000000) \<noteq> -1" by code_simp
  then show ?thesis by (auto simp: time_ok_def sample_os_def sample_strptime_def split: if_splits)
qed

theorem arg_parse_total_witness:
  "\<exists>c args' e'. arg_parse sample_libnf week_os sample_arg_env zero_args
      [(OPT_TIME_RANGE, Some ''Mon#Tue''), (OPT_VERBOSITY, Some ''9''), (OPT_TIME_ZONE, Some ''CET'')] [''/data'']
     = Ret ((c, args'), e')"
proof (rule arg_parse_total[OF sample_libnf_ok sample_parse_ok sample_defaults_ok])
  have "time_range_ok sample_os ''Mon#Tue''"
    using week_dates by (simp add: time_range_ok_def range_dates_def TIME_RANGE_DELIM_def)
  then show "\<forall>p\<in>set [(OPT_TIME_RANGE, Some ''Mon#Tue''), (OPT_VERBOSITY, Some ''9''), (OPT_TIME_ZONE, Some ''CET'')].
      optarg_ok (os_time.truncate week_os) p"
    by (simp add: optarg_ok_def week_os)
qed (simp_all add: week_os sample_time_ok sample_arg_env_def zero_args_def getopt_ok_def long_opts_def)

end
