(* ===== verification/Wire.thy ===== *)
theory Wire
  imports Prelude "HOL-Library.Word"
begin

text \<open>
  What travels between slaves and the master: messages of the tags of
  \<open>src/common.h\<close>, and the framing of records inside a message, a 4-byte size
  of type \<open>xchg_rec_size_t\<close> in host (little-endian) order before each record.
\<close>

type_synonym byte = "8 word"

datatype mpi_tag =
    TAG_UNSET | TAG_LIST | TAG_SORT | TAG_AGGR | TAG_TPUT1 | TAG_TPUT2 | TAG_TPUT3 | TAG_STATS
  | TAG_PROGRESS

type_synonym message = "mpi_tag \<times> byte list"

definition XCHG_BUFF_SIZE :: nat where "XCHG_BUFF_SIZE = 1024 * 1024"

definition put_u32 :: "32 word \<Rightarrow> byte list" where
  "put_u32 w = map (\<lambda>i. ucast (drop_bit (8 * i) w)) [0..<4]"

definition get_u32 :: "byte list \<Rightarrow> 32 word" where
  "get_u32 bs = foldr (\<lambda>b acc. ucast b + push_bit 8 acc) bs 0"

definition frame :: "byte list \<Rightarrow> byte list" where
  "frame r = put_u32 (of_nat (length r)) @ r"

definition read_frame :: "byte list \<Rightarrow> (byte list \<times> byte list) option" where
  "read_frame bs =
     (if length bs < 4 then None
      else let n = unat (get_u32 (take 4 bs)) in
           if length bs < 4 + n then None
           else Some (take n (drop 4 bs), drop (4 + n) bs))"

definition rec_ok :: "byte list \<Rightarrow> bool" where
  "rec_ok r \<longleftrightarrow> length r < 2 ^ 32"

lemma length_put_u32 [simp]: "length (put_u32 w) = 4"
  by (simp add: put_u32_def)

lemma length_frame [simp]: "length (frame r) = 4 + length r"
  by (simp add: frame_def)

lemma low_byte: "ucast (ucast w :: byte) + push_bit 8 (drop_bit 8 w) = (w :: 32 word)"
proof -
  have "ucast (ucast w :: byte) = take_bit 8 w"
    by (rule bit_word_eqI) (auto simp: bit_simps)
  then show ?thesis using bits_ident[of 8 w] by (simp add: add.commute)
qed

lemma get_put_u32 [simp]: "get_u32 (put_u32 w) = w"
proof -
  have top: "drop_bit 32 w = 0" by (rule bit_word_eqI) (simp add: bit_simps)
  have l: "ucast (ucast (drop_bit k w) :: byte) + push_bit 8 (drop_bit (8 + k) w) = drop_bit k w" for k
    using low_byte[of "drop_bit k w"] by (simp add: add.commute)
  have upt: "[0..<4] = [0, 1, 2, 3 :: nat]" by (simp add: upt_rec numeral_eq_Suc)
  have "get_u32 (put_u32 w) =
     ucast (ucast w :: byte) + push_bit 8 (ucast (ucast (drop_bit 8 w) :: byte)
     + push_bit 8 (ucast (ucast (drop_bit 16 w) :: byte)
     + push_bit 8 (ucast (ucast (drop_bit 24 w) :: byte) + push_bit 8 (drop_bit 32 w))))"
    by (simp add: get_u32_def put_u32_def upt top)
  also have "\<dots> = w"
    using l[of 24] l[of 16] l[of 8] l[of 0] by simp
  finally show ?thesis .
qed

lemma rec_ok_size: "rec_ok r \<Longrightarrow> unat (of_nat (length r) :: 32 word) = length r"
  by (simp add: rec_ok_def unat_of_nat take_bit_nat_eq_self)

lemma read_frame_frame: "rec_ok r \<Longrightarrow> read_frame (frame r @ rest) = Some (r, rest)"
  by (simp add: read_frame_def frame_def rec_ok_size)

lemma frame_not_Nil: "frame r \<noteq> []"
  by (simp add: frame_def put_u32_def)

subsection \<open>The contract of a framing\<close>

text \<open>
  A framing reads back the record it wrote, whatever follows it in the buffer.  The
  messages of the exchange rely only on this.
\<close>

locale framing =
  fixes enc :: "'r \<Rightarrow> 'b list"
    and dec :: "'b list \<Rightarrow> ('r \<times> 'b list) option"
    and okr :: "'r \<Rightarrow> bool"
  assumes dec_enc: "okr r \<Longrightarrow> dec (enc r @ rest) = Some (r, rest)"
    and enc_not_Nil: "enc r \<noteq> []"
begin

lemma concat_Nil: "concat (map enc rs) = [] \<longleftrightarrow> rs = []"
  using enc_not_Nil by (cases rs) simp_all

lemma concat_inj:
  "\<forall>r\<in>set rs. okr r \<Longrightarrow> \<forall>r\<in>set ss. okr r \<Longrightarrow> concat (map enc rs) = concat (map enc ss) \<Longrightarrow> rs = ss"
proof (induction rs arbitrary: ss)
  case Nil
  then show ?case using concat_Nil[of ss] by simp
next
  case (Cons r rs)
  from Cons.prems(3) concat_Nil[of "r # rs"] obtain s ss' where ss: "ss = s # ss'"
    by (cases ss) simp_all
  have "dec (enc r @ concat (map enc rs)) = Some (r, concat (map enc rs))"
    using Cons.prems(1) by (intro dec_enc) simp
  moreover have "dec (enc s @ concat (map enc ss')) = Some (s, concat (map enc ss'))"
    using Cons.prems(2) ss by (intro dec_enc) simp
  moreover have "enc r @ concat (map enc rs) = enc s @ concat (map enc ss')"
    using Cons.prems(3) unfolding ss by simp
  ultimately have "Some (r, concat (map enc rs)) = Some (s, concat (map enc ss'))" by metis
  then have "r = s" "concat (map enc rs) = concat (map enc ss')" by blast+
  then show ?case using Cons.IH[of ss'] Cons.prems(1,2) ss by simp
qed

end

interpretation wire: framing frame read_frame rec_ok
  by unfold_locales (simp_all add: read_frame_frame frame_not_Nil)

text \<open>A message that carries the records \<open>rs\<close>.\<close>

definition pack :: "byte list list \<Rightarrow> byte list" where
  "pack rs = concat (map frame rs)"

lemma pack_simps [simp]: "pack [] = []" "pack (r # rs) = frame r @ pack rs" "pack (rs @ ss) = pack rs @ pack ss"
  by (simp_all add: pack_def)

lemma pack_Nil_iff: "pack rs = [] \<longleftrightarrow> rs = []"
  unfolding pack_def by (rule wire.concat_Nil)

lemma pack_inj:
  "\<forall>r\<in>set rs. rec_ok r \<Longrightarrow> \<forall>r\<in>set ss. rec_ok r \<Longrightarrow> pack rs = pack ss \<Longrightarrow> rs = ss"
  unfolding pack_def by (rule wire.concat_inj)

end
