(* ===== verification/Send_Raw.thy ===== *)
theory Send_Raw
  imports Wire
begin

text \<open>
  \<open>send_raw_mem\<close> and \<open>send_terminator\<close> of \<open>src/slave.c\<close>: the records of a
  libnf memory, in the order of its cursor, packed into messages of at most one
  buffer.  The state has both buffers, the one in use, the pending \<open>MPI_Isend\<close>
  and the messages sent so far; a write to the buffer of a pending send is a
  data race.  \<open>lnf_mem_read_raw_c\<close> is a parameter.
\<close>

datatype raw_result = Raw_OK "byte list" | Raw_NOMEM | Raw_EOF

datatype lnf_status = St_OK | St_EOF | St_NOMEM

text \<open>The documented behaviour of \<open>lnf_mem_read_raw_c\<close>: the record, if the free space suffices.\<close>

definition raw_read_ok :: "(byte list \<Rightarrow> int \<Rightarrow> raw_result) \<Rightarrow> bool" where
  "raw_read_ok rr \<longleftrightarrow> (\<forall>r n. rr r n = (if int (length r) \<le> n then Raw_OK r else Raw_NOMEM))"

record send_state =
  s_bufs :: "bool \<Rightarrow> byte list"
  s_idx :: bool
  s_off :: nat
  s_buff_cnt :: nat
  s_rec_cnt :: "64 word"
  s_cursor :: "nat option"
  s_ret :: lnf_status
  s_request :: "bool option"
  s_sent :: "message list"

text \<open>A write of \<open>d\<close> at offset \<open>off\<close> of the buffer in use.\<close>

definition write_at :: "nat \<Rightarrow> byte list \<Rightarrow> byte list \<Rightarrow> byte list" where
  "write_at off d b = take off b @ d @ drop (off + length d) b"

definition buf_write :: "nat \<Rightarrow> byte list \<Rightarrow> send_state \<Rightarrow> send_state res" where
  "buf_write off d s =
     (if s_request s = Some (s_idx s) then Data_Race
      else if off + length d > length (s_bufs s (s_idx s)) then Out_Of_Bounds
      else Ret (s\<lparr>s_bufs := (s_bufs s)(s_idx s := write_at off d (s_bufs s (s_idx s)))\<rparr>))"

text \<open>\<open>MPI_Wait\<close> for the previous send, then \<open>MPI_Isend\<close> of the buffer in use.\<close>

definition wait_isend :: "mpi_tag \<Rightarrow> send_state \<Rightarrow> send_state" where
  "wait_isend tag s =
     s\<lparr>s_sent := s_sent s @ [(tag, take (s_off s) (s_bufs s (s_idx s)))],
       s_request := Some (s_idx s)\<rparr>"

definition cursor_step :: "byte list list \<Rightarrow> nat \<Rightarrow> nat option \<times> lnf_status" where
  "cursor_step recs c = (if Suc c < length recs then (Some (Suc c), St_OK) else (None, St_EOF))"

definition send_step ::
  "(byte list \<Rightarrow> int \<Rightarrow> raw_result) \<Rightarrow> byte list list \<Rightarrow> mpi_tag \<Rightarrow> nat \<Rightarrow> nat \<Rightarrow> send_state \<Rightarrow> send_state res" where
  "send_step rr recs tag buff_size c s =
     (let buff_remaining = (of_nat buff_size - of_nat (s_off s) - 4 :: 64 word) in
      case rr (recs ! c) (sint (ucast buff_remaining :: 32 word)) of
        Raw_EOF \<Rightarrow> Assert_Fail
      | Raw_OK r \<Rightarrow>
          res_bind (buf_write (s_off s) (put_u32 (of_nat (length r)) @ r) s)
           (\<lambda>s1. let (cur, ret) = cursor_step recs c in
              Ret (s1\<lparr>s_off := s_off s1 + 4 + unat (of_nat (length r) :: 32 word),
                      s_buff_cnt := s_buff_cnt s1 + 1, s_rec_cnt := s_rec_cnt s1 + 1,
                      s_cursor := cur, s_ret := ret\<rparr>))
      | Raw_NOMEM \<Rightarrow>
          Ret ((wait_isend tag s)\<lparr>s_off := 0, s_buff_cnt := 0, s_idx := \<not> s_idx s,
                 s_ret := St_NOMEM\<rparr>))"

partial_function (option) send_loop ::
  "(byte list \<Rightarrow> int \<Rightarrow> raw_result) \<Rightarrow> byte list list \<Rightarrow> mpi_tag \<Rightarrow> nat \<Rightarrow> 64 word \<Rightarrow> send_state
   \<Rightarrow> send_state res option" where
  "send_loop rr recs tag buff_size rec_limit s =
     (case s_cursor s of
        None \<Rightarrow> Some (Ret s)
      | Some c \<Rightarrow>
          if rec_limit > s_rec_cnt s
          then (case send_step rr recs tag buff_size c s of
                  Ret s' \<Rightarrow> send_loop rr recs tag buff_size rec_limit s'
                | Abort x \<Rightarrow> Some (Abort x)
                | Assert_Fail \<Rightarrow> Some Assert_Fail
                | Out_Of_Bounds \<Rightarrow> Some Out_Of_Bounds
                | Data_Race \<Rightarrow> Some Data_Race)
          else Some (Ret s))"

definition send_init :: "byte list list \<Rightarrow> (bool \<Rightarrow> byte list) \<Rightarrow> send_state" where
  "send_init recs bufs =
     \<lparr>s_bufs = bufs, s_idx = False, s_off = 0, s_buff_cnt = 0, s_rec_cnt = 0,
      s_cursor = (if recs = [] then None else Some 0),
      s_ret = (if recs = [] then St_EOF else St_OK),
      s_request = None, s_sent = []\<rparr>"

definition send_terminator :: "mpi_tag \<Rightarrow> message" where
  "send_terminator tag = (tag, [])"

definition send_finish :: "mpi_tag \<Rightarrow> 64 word \<Rightarrow> send_state \<Rightarrow> message list res" where
  "send_finish tag rec_limit s =
     abort_if (rec_limit = - 1 \<and> s_ret s \<noteq> St_EOF) E_LNF
      (let s1 = (if s_buff_cnt s \<noteq> 0 then wait_isend tag s else s) in
       Ret (s_sent s1 @ [send_terminator tag]))"

definition send_raw_mem ::
  "(byte list \<Rightarrow> int \<Rightarrow> raw_result) \<Rightarrow> nat \<Rightarrow> byte list list \<Rightarrow> 64 word \<Rightarrow> mpi_tag
   \<Rightarrow> (bool \<Rightarrow> byte list) \<Rightarrow> nat \<Rightarrow> message list res option" where
  "send_raw_mem rr max_raw_len recs rec_limit tag bufs buff_size =
     (if buff_size < 4 + max_raw_len then Some Assert_Fail
      else let rec_limit = (if rec_limit = 0 then - 1 else rec_limit) in
           map_option (\<lambda>r. res_bind r (send_finish tag rec_limit))
             (send_loop rr recs tag buff_size rec_limit (send_init recs bufs)))"

subsection \<open>What the loop keeps\<close>

text \<open>
  After \<open>k\<close> records: the records sent are in the messages, the others of the \<open>k\<close>
  packed in the prefix of the buffer in use, which no pending send owns.
\<close>

definition send_inv ::
  "byte list list \<Rightarrow> mpi_tag \<Rightarrow> nat \<Rightarrow> nat \<Rightarrow> byte list list list \<Rightarrow> byte list list \<Rightarrow> send_state \<Rightarrow> bool" where
  "send_inv recs tag buff_size k gs cur s \<longleftrightarrow>
     k \<le> length recs \<and> concat gs @ cur = take k recs
   \<and> s_sent s = map (\<lambda>g. (tag, pack g)) gs
   \<and> (\<forall>g\<in>set gs. g \<noteq> [] \<and> length (pack g) \<le> buff_size)
   \<and> (\<forall>i. length (s_bufs s i) = buff_size)
   \<and> s_off s = length (pack cur) \<and> s_off s \<le> buff_size
   \<and> take (s_off s) (s_bufs s (s_idx s)) = pack cur
   \<and> s_buff_cnt s = length cur
   \<and> s_rec_cnt s = of_nat k
   \<and> s_cursor s = (if k < length recs then Some k else None)
   \<and> (k = length recs \<longrightarrow> s_ret s = St_EOF)
   \<and> s_request s \<noteq> Some (s_idx s)"

definition send_params_ok :: "nat \<Rightarrow> nat \<Rightarrow> byte list list \<Rightarrow> bool" where
  "send_params_ok max_raw_len buff_size recs \<longleftrightarrow>
     4 + max_raw_len \<le> buff_size \<and> buff_size < 2 ^ 31
   \<and> (\<forall>r\<in>set recs. length r \<le> max_raw_len) \<and> length recs < 2 ^ 64 - 1"

lemma ucast_word_of_int: "ucast (word_of_int k :: 64 word) = (word_of_int k :: 32 word)"
  by (rule bit_word_eqI) (auto simp: bit_simps bit_word_of_int_iff)

lemma sint_small: "- (2 ^ 31) \<le> k \<Longrightarrow> k < 2 ^ 31 \<Longrightarrow> sint (word_of_int k :: 32 word) = k"
  by (simp add: sint_sbintrunc' signed_take_bit_int_eq_self)

lemma remaining_space:
  assumes "buff_size < 2 ^ 31" "off \<le> buff_size"
  shows "sint (ucast (of_nat buff_size - of_nat off - 4 :: 64 word) :: 32 word)
    = int buff_size - int off - 4"
proof -
  have "(of_nat buff_size - of_nat off - 4 :: 64 word) = word_of_int (int buff_size - int off - 4)"
    by simp
  then have "(ucast (of_nat buff_size - of_nat off - 4 :: 64 word) :: 32 word)
      = word_of_int (int buff_size - int off - 4)"
    by (simp only: ucast_word_of_int)
  also have "sint (word_of_int (int buff_size - int off - 4) :: 32 word) = int buff_size - int off - 4"
    using assms by (intro sint_small) simp_all
  finally show ?thesis .
qed

lemma take_write_at:
  "off + length d \<le> length b \<Longrightarrow> take (off + length d) (write_at off d b) = take off b @ d"
  by (simp add: write_at_def)

lemma length_write_at: "off + length d \<le> length b \<Longrightarrow> length (write_at off d b) = length b"
  by (simp add: write_at_def)

lemma length_pack_le: "r \<in> set rs \<Longrightarrow> 4 + length r \<le> length (pack rs)"
  by (induction rs) auto

text \<open>The two outcomes of one iteration.\<close>

lemma send_step_fits:
  assumes rr: "raw_read_ok rr" and p: "send_params_ok ml bs recs"
    and inv: "send_inv recs tag bs k gs cur s" and k: "k < length recs"
    and fits: "s_off s + 4 + length (recs ! k) \<le> bs"
  shows "\<exists>s'. send_step rr recs tag bs k s = Ret s' \<and> send_inv recs tag bs (Suc k) gs (cur @ [recs ! k]) s'"
proof -
  define r where "r = recs ! k"
  have "length r \<le> ml" using p k by (simp add: send_params_ok_def r_def)
  then have r: "length r < 2 ^ 32" "s_off s + (4 + length r) \<le> bs"
    using p fits by (simp_all add: send_params_ok_def r_def)
  have len: "unat (of_nat (length r) :: 32 word) = length r"
    using r(1) by (simp add: unat_of_nat take_bit_nat_eq_self)
  have i: "k \<le> length recs" "concat gs @ cur = take k recs" "s_sent s = map (\<lambda>g. (tag, pack g)) gs"
    "\<forall>g\<in>set gs. g \<noteq> [] \<and> length (pack g) \<le> bs" "\<And>i. length (s_bufs s i) = bs"
    "s_off s = length (pack cur)" "s_off s \<le> bs" "take (s_off s) (s_bufs s (s_idx s)) = pack cur"
    "s_buff_cnt s = length cur" "s_rec_cnt s = of_nat k" "s_request s \<noteq> Some (s_idx s)"
    using inv unfolding send_inv_def by blast+
  have "sint (ucast (of_nat bs - of_nat (s_off s) - 4 :: 64 word) :: 32 word) = int bs - int (s_off s) - 4"
    using p i(7) by (intro remaining_space) (simp_all add: send_params_ok_def)
  moreover have "int (length r) \<le> int bs - int (s_off s) - 4" using r(2) by linarith
  ultimately have read: "rr r (sint (ucast (of_nat bs - of_nat (s_off s) - 4 :: 64 word) :: 32 word)) = Raw_OK r"
    using rr by (simp add: raw_read_ok_def)
  define b where "b = write_at (s_off s) (frame r) (s_bufs s (s_idx s))"
  define s' where "s' = s\<lparr>s_bufs := (s_bufs s)(s_idx s := b), s_off := s_off s + 4 + length r,
      s_buff_cnt := s_buff_cnt s + 1, s_rec_cnt := s_rec_cnt s + 1,
      s_cursor := fst (cursor_step recs k), s_ret := snd (cursor_step recs k)\<rparr>"
  have "buf_write (s_off s) (put_u32 (of_nat (length r)) @ r) s = Ret (s\<lparr>s_bufs := (s_bufs s)(s_idx s := b)\<rparr>)"
    using i(5,11) r(2) by (simp add: buf_write_def b_def frame_def)
  then have step: "send_step rr recs tag bs k s = Ret s'"
    using read by (simp add: send_step_def r_def[symmetric] s'_def len split: prod.split)
  have "take (s_off s + length (frame r)) b = pack cur @ frame r"
    unfolding b_def using i(5,8) r(2) by (subst take_write_at) simp_all
  moreover have "length b = bs" unfolding b_def using i(5) r(2) by (subst length_write_at) simp_all
  moreover have "take (Suc k) recs = take k recs @ [r]"
    using k by (simp add: take_Suc_conv_app_nth r_def)
  ultimately have "send_inv recs tag bs (Suc k) gs (cur @ [r]) s'"
    using i k r(2) unfolding send_inv_def s'_def cursor_step_def
    by (simp add: add.assoc)
  with step show ?thesis by (auto simp: r_def)
qed

lemma send_step_full:
  assumes rr: "raw_read_ok rr" and p: "send_params_ok ml bs recs"
    and inv: "send_inv recs tag bs k gs cur s" and k: "k < length recs"
    and full: "\<not> s_off s + 4 + length (recs ! k) \<le> bs"
  shows "\<exists>s'. send_step rr recs tag bs k s = Ret s' \<and> send_inv recs tag bs k (gs @ [cur]) [] s'"
proof -
  define r where "r = recs ! k"
  have "length r \<le> ml" using p k by (simp add: send_params_ok_def r_def)
  then have r: "4 + length r \<le> bs" using p by (simp add: send_params_ok_def)
  have i: "s_off s = length (pack cur)" "s_off s \<le> bs"
    using inv by (simp_all add: send_inv_def)
  have "take (s_off s) (s_bufs s (s_idx s)) = pack cur" using inv unfolding send_inv_def by blast
  then have t: "take (length (pack cur)) (s_bufs s (s_idx s)) = pack cur" by (simp only: i(1))
  have ne: "cur \<noteq> []" using full r i(1) by (auto simp: r_def)
  have "sint (ucast (of_nat bs - of_nat (s_off s) - 4 :: 64 word) :: 32 word) = int bs - int (s_off s) - 4"
    using p i(2) by (intro remaining_space) (simp_all add: send_params_ok_def)
  moreover have "\<not> int (length r) \<le> int bs - int (s_off s) - 4"
    using full unfolding r_def[symmetric] by linarith
  ultimately have "rr r (sint (ucast (of_nat bs - of_nat (s_off s) - 4 :: 64 word) :: 32 word)) = Raw_NOMEM"
    using rr by (simp add: raw_read_ok_def)
  then have "send_step rr recs tag bs k s
      = Ret ((wait_isend tag s)\<lparr>s_off := 0, s_buff_cnt := 0, s_idx := \<not> s_idx s, s_ret := St_NOMEM\<rparr>)"
    by (simp add: send_step_def r_def[symmetric])
  moreover have "send_inv recs tag bs k (gs @ [cur]) []
      ((wait_isend tag s)\<lparr>s_off := 0, s_buff_cnt := 0, s_idx := \<not> s_idx s, s_ret := St_NOMEM\<rparr>)"
    using inv k ne i t unfolding send_inv_def wait_isend_def by simp
  ultimately show ?thesis by blast
qed

text \<open>The loop: every record up to the limit, by induction on the records left and the buffer.\<close>

lemma send_loop_Ret:
  assumes rr: "raw_read_ok rr" and p: "send_params_ok ml bs recs"
  shows "send_inv recs tag bs k gs cur s \<Longrightarrow> k \<le> unat lim \<Longrightarrow>
    \<exists>s' k' gs' cur'. send_loop rr recs tag bs lim s = Some (Ret s')
      \<and> send_inv recs tag bs k' gs' cur' s' \<and> k' = min (length recs) (unat lim)"
proof (induction "(length recs - k, s_off s)" arbitrary: k gs cur s
    rule: wf_induct_rule[OF wf_lex_prod[OF wf_less wf_less]])
  case 1
  note inv = "1.prems"(1)
  have k: "k \<le> length recs" "s_rec_cnt s = of_nat k"
    "s_cursor s = (if k < length recs then Some k else None)" "s_off s = length (pack cur)"
    using inv unfolding send_inv_def by blast+
  have len: "length recs < 2 ^ 64" using p by (simp add: send_params_ok_def)
  have guard: "s_rec_cnt s < lim \<longleftrightarrow> k < unat lim"
    using k(1,2) len by (simp add: word_less_nat_alt unat_of_nat take_bit_nat_eq_self)
  show ?case
  proof (cases "k < length recs \<and> k < unat lim")
    case False
    then have "send_loop rr recs tag bs lim s = Some (Ret s)"
      using guard k(3) by (subst send_loop.simps) auto
    moreover have "k = min (length recs) (unat lim)" using False "1.prems"(2) k(1) by auto
    ultimately show ?thesis using inv by blast
  next
    case True
    then have unf: "send_loop rr recs tag bs lim s =
      (case send_step rr recs tag bs k s of Ret s' \<Rightarrow> send_loop rr recs tag bs lim s'
       | Abort x \<Rightarrow> Some (Abort x) | Assert_Fail \<Rightarrow> Some Assert_Fail
       | Out_Of_Bounds \<Rightarrow> Some Out_Of_Bounds | Data_Race \<Rightarrow> Some Data_Race)"
      using guard k(3) by (subst send_loop.simps) simp
    show ?thesis
    proof (cases "s_off s + 4 + length (recs ! k) \<le> bs")
      case fits: True
      obtain s' where s': "send_step rr recs tag bs k s = Ret s'"
        "send_inv recs tag bs (Suc k) gs (cur @ [recs ! k]) s'"
        using send_step_fits[OF rr p inv _ fits] True by blast
      have "length recs - Suc k < length recs - k" using True by arith
      with "1.hyps"[OF _ s'(2)] True show ?thesis by (simp add: unf s'(1))
    next
      case full: False
      obtain s' where s': "send_step rr recs tag bs k s = Ret s'"
        "send_inv recs tag bs k (gs @ [cur]) [] s'"
        using send_step_full[OF rr p inv _ full] True by blast
      have "length (recs ! k) \<le> ml" using p True by (simp add: send_params_ok_def)
      then have "4 + length (recs ! k) \<le> bs" using p by (simp add: send_params_ok_def)
      then have "s_off s' < s_off s" using full s'(2) by (simp add: send_inv_def)
      from "1.hyps"[OF _ s'(2)] this True show ?thesis by (simp add: unf s'(1))
    qed
  qed
qed

text \<open>The messages of one sender: nonempty groups of records, then a terminator.\<close>

definition sender_msgs :: "mpi_tag \<Rightarrow> byte list list list \<Rightarrow> message list" where
  "sender_msgs tag gs = map (\<lambda>g. (tag, pack g)) gs @ [send_terminator tag]"

lemma send_raw_mem_Ret:
  assumes rr: "raw_read_ok rr" and p: "send_params_ok ml bs recs"
    and bufs: "\<forall>i. length (bufs i) = bs"
  shows "\<exists>gs. send_raw_mem rr ml recs lim tag bufs bs = Some (Ret (sender_msgs tag gs))
    \<and> concat gs = (if lim = 0 then recs else take (unat lim) recs)
    \<and> (\<forall>g\<in>set gs. g \<noteq> [] \<and> length (pack g) \<le> bs)"
proof -
  define l where "l = (if lim = 0 then - 1 else lim :: 64 word)"
  have init: "send_inv recs tag bs 0 [] [] (send_init recs bufs)"
    using bufs by (simp add: send_inv_def send_init_def)
  obtain s k gs cur where s: "send_loop rr recs tag bs l (send_init recs bufs) = Some (Ret s)"
    "send_inv recs tag bs k gs cur s" "k = min (length recs) (unat l)"
    using send_loop_Ret[OF rr p init] by (metis zero_le)
  have u: "unat (- 1 :: 64 word) = 2 ^ 64 - 1" by (simp add: unsigned_minus_1_eq_mask mask_eq_exp_minus_1)
  have len: "length recs < 2 ^ 64 - 1" using p by (simp add: send_params_ok_def)
  have "l = - 1 \<Longrightarrow> k = length recs" using s(3) u len by simp
  then have fin: "\<not> (l = - 1 \<and> s_ret s \<noteq> St_EOF)" using s(2) by (auto simp: send_inv_def)
  have i: "concat gs @ cur = take k recs" "s_sent s = map (\<lambda>g. (tag, pack g)) gs"
    "\<forall>g\<in>set gs. g \<noteq> [] \<and> length (pack g) \<le> bs" "s_buff_cnt s = length cur"
    "s_off s = length (pack cur)" "s_off s \<le> bs" "take (s_off s) (s_bufs s (s_idx s)) = pack cur"
    using s(2) unfolding send_inv_def by blast+
  define gs' where "gs' = (if cur = [] then gs else gs @ [cur])"
  have "send_finish tag l s = Ret (sender_msgs tag gs')"
    using fin i(2,4,7) by (auto simp: send_finish_def sender_msgs_def wait_isend_def gs'_def Let_def)
  moreover have "concat gs' = (if lim = 0 then recs else take (unat lim) recs)"
    using i(1) s(3) u len by (auto simp: gs'_def l_def min_def)
  moreover have "\<forall>g\<in>set gs'. g \<noteq> [] \<and> length (pack g) \<le> bs"
    using i(3,5,6) by (auto simp: gs'_def)
  moreover have "\<not> bs < 4 + ml" using p by (simp add: send_params_ok_def)
  ultimately show ?thesis
    using s(1) by (auto simp: send_raw_mem_def Let_def l_def[symmetric])
qed

end
