(* ===== verification/Summary.thy ===== *)
theory Summary
  imports Libnf "HOL-Library.Word" "HOL-Library.Multiset"
begin

text \<open>
  The statistics of a run: \<open>struct processed_summ\<close>, \<open>struct metadata_summ\<close> and
  the functions of \<open>src/slave.c\<close> that update and share them.  All counters are
  64-bit and wrap.  \<open>lnf_rec_fget\<close> and \<open>lnf_info\<close> are parameters.
\<close>

record processed_summ =
  ps_flows :: "64 word"
  ps_pkts :: "64 word"
  ps_bytes :: "64 word"

record metadata_summ =
  ms_flows :: "64 word"
  ms_flows_tcp :: "64 word"
  ms_flows_udp :: "64 word"
  ms_flows_icmp :: "64 word"
  ms_flows_other :: "64 word"
  ms_pkts :: "64 word"
  ms_pkts_tcp :: "64 word"
  ms_pkts_udp :: "64 word"
  ms_pkts_icmp :: "64 word"
  ms_pkts_other :: "64 word"
  ms_bytes :: "64 word"
  ms_bytes_tcp :: "64 word"
  ms_bytes_udp :: "64 word"
  ms_bytes_icmp :: "64 word"
  ms_bytes_other :: "64 word"

datatype info_key =
    LNF_INFO_FLOWS | LNF_INFO_FLOWS_TCP | LNF_INFO_FLOWS_UDP | LNF_INFO_FLOWS_ICMP
  | LNF_INFO_FLOWS_OTHER | LNF_INFO_PACKETS | LNF_INFO_PACKETS_TCP | LNF_INFO_PACKETS_UDP
  | LNF_INFO_PACKETS_ICMP | LNF_INFO_PACKETS_OTHER | LNF_INFO_BYTES | LNF_INFO_BYTES_TCP
  | LNF_INFO_BYTES_UDP | LNF_INFO_BYTES_ICMP | LNF_INFO_BYTES_OTHER

definition zero_ps :: processed_summ where
  "zero_ps = \<lparr>ps_flows = 0, ps_pkts = 0, ps_bytes = 0\<rparr>"

definition zero_ms :: metadata_summ where
  "zero_ms = \<lparr>ms_flows = 0, ms_flows_tcp = 0, ms_flows_udp = 0, ms_flows_icmp = 0, ms_flows_other = 0,
     ms_pkts = 0, ms_pkts_tcp = 0, ms_pkts_udp = 0, ms_pkts_icmp = 0, ms_pkts_other = 0,
     ms_bytes = 0, ms_bytes_tcp = 0, ms_bytes_udp = 0, ms_bytes_icmp = 0, ms_bytes_other = 0\<rparr>"

subsection \<open>Operations\<close>

definition processed_summ_update :: "(lnf_const \<Rightarrow> 64 word) \<Rightarrow> processed_summ \<Rightarrow> processed_summ" where
  "processed_summ_update fget ps =
     (let ps = ps\<lparr>ps_flows := ps_flows ps + fget LNF_FLD_AGGR_FLOWS\<rparr>;
          ps = ps\<lparr>ps_pkts := ps_pkts ps + fget LNF_FLD_DPKTS\<rparr>
      in ps\<lparr>ps_bytes := ps_bytes ps + fget LNF_FLD_DOCTETS\<rparr>)"

definition processed_summ_share :: "processed_summ \<Rightarrow> processed_summ \<Rightarrow> processed_summ" where
  "processed_summ_share shared priv =
     \<lparr>ps_flows = ps_flows shared + ps_flows priv,
      ps_pkts = ps_pkts shared + ps_pkts priv,
      ps_bytes = ps_bytes shared + ps_bytes priv\<rparr>"

text \<open>The five values of one kind; an error of \<open>lnf_info\<close> fails the assertion.\<close>

definition read_info ::
  "(info_key \<Rightarrow> 64 word option) \<Rightarrow> info_key list \<Rightarrow> (64 word list \<Rightarrow> 'a res) \<Rightarrow> 'a res" where
  "read_info lnf_info ks k =
     assert_then (list_all (\<lambda>x. lnf_info x \<noteq> None) ks) (k (map (\<lambda>x. the (lnf_info x)) ks))"

definition metadata_summ_update :: "(info_key \<Rightarrow> 64 word option) \<Rightarrow> metadata_summ \<Rightarrow> metadata_summ res" where
  "metadata_summ_update lnf_info ms =
     read_info lnf_info
      [LNF_INFO_FLOWS, LNF_INFO_FLOWS_TCP, LNF_INFO_FLOWS_UDP, LNF_INFO_FLOWS_ICMP, LNF_INFO_FLOWS_OTHER]
      (\<lambda>f. let ms = ms\<lparr>ms_flows := ms_flows ms + f ! 0, ms_flows_tcp := ms_flows_tcp ms + f ! 1,
                      ms_flows_udp := ms_flows_udp ms + f ! 2, ms_flows_icmp := ms_flows_icmp ms + f ! 3,
                      ms_flows_other := ms_flows_other ms + f ! 4\<rparr> in
       read_info lnf_info
        [LNF_INFO_PACKETS, LNF_INFO_PACKETS_TCP, LNF_INFO_PACKETS_UDP, LNF_INFO_PACKETS_ICMP,
         LNF_INFO_PACKETS_OTHER]
        (\<lambda>p. let ms = ms\<lparr>ms_pkts := ms_pkts ms + p ! 0, ms_pkts_tcp := ms_pkts_tcp ms + p ! 1,
                        ms_pkts_udp := ms_pkts_udp ms + p ! 2, ms_pkts_icmp := ms_pkts_icmp ms + p ! 3,
                        ms_pkts_other := ms_pkts_other ms + p ! 4\<rparr> in
         read_info lnf_info
          [LNF_INFO_BYTES, LNF_INFO_BYTES_TCP, LNF_INFO_BYTES_UDP, LNF_INFO_BYTES_ICMP,
           LNF_INFO_BYTES_OTHER]
          (\<lambda>b. Ret (ms\<lparr>ms_bytes := ms_bytes ms + b ! 0, ms_bytes_tcp := ms_bytes_tcp ms + b ! 1,
                     ms_bytes_udp := ms_bytes_udp ms + b ! 2, ms_bytes_icmp := ms_bytes_icmp ms + b ! 3,
                     ms_bytes_other := ms_bytes_other ms + b ! 4\<rparr>))))"

definition metadata_summ_share :: "metadata_summ \<Rightarrow> metadata_summ \<Rightarrow> metadata_summ" where
  "metadata_summ_share shared priv =
     \<lparr>ms_flows = ms_flows shared + ms_flows priv,
      ms_flows_tcp = ms_flows_tcp shared + ms_flows_tcp priv,
      ms_flows_udp = ms_flows_udp shared + ms_flows_udp priv,
      ms_flows_icmp = ms_flows_icmp shared + ms_flows_icmp priv,
      ms_flows_other = ms_flows_other shared + ms_flows_other priv,
      ms_pkts = ms_pkts shared + ms_pkts priv,
      ms_pkts_tcp = ms_pkts_tcp shared + ms_pkts_tcp priv,
      ms_pkts_udp = ms_pkts_udp shared + ms_pkts_udp priv,
      ms_pkts_icmp = ms_pkts_icmp shared + ms_pkts_icmp priv,
      ms_pkts_other = ms_pkts_other shared + ms_pkts_other priv,
      ms_bytes = ms_bytes shared + ms_bytes priv,
      ms_bytes_tcp = ms_bytes_tcp shared + ms_bytes_tcp priv,
      ms_bytes_udp = ms_bytes_udp shared + ms_bytes_udp priv,
      ms_bytes_icmp = ms_bytes_icmp shared + ms_bytes_icmp priv,
      ms_bytes_other = ms_bytes_other shared + ms_bytes_other priv\<rparr>"

text \<open>
  A slave process: every thread updates its private counters for its files and
  adds them to the shared ones, in any order; \<open>MPI_Reduce\<close> with \<open>MPI_SUM\<close> adds
  up the processes in any order.
\<close>

fun processed_thread :: "('r \<Rightarrow> lnf_const \<Rightarrow> 64 word) \<Rightarrow> 'r list \<Rightarrow> processed_summ \<Rightarrow> processed_summ" where
  "processed_thread fget [] ps = ps"
| "processed_thread fget (r # rs) ps = processed_thread fget rs (processed_summ_update (fget r) ps)"

fun metadata_thread :: "('f \<Rightarrow> info_key \<Rightarrow> 64 word option) \<Rightarrow> 'f list \<Rightarrow> metadata_summ \<Rightarrow> metadata_summ res" where
  "metadata_thread info [] ms = Ret ms"
| "metadata_thread info (f # fs) ms = res_bind (metadata_summ_update (info f) ms) (metadata_thread info fs)"

definition processed_process :: "('r \<Rightarrow> lnf_const \<Rightarrow> 64 word) \<Rightarrow> 'r list list \<Rightarrow> processed_summ" where
  "processed_process fget threads =
     fold (\<lambda>rs shared. processed_summ_share shared (processed_thread fget rs zero_ps)) threads zero_ps"

fun metadata_process :: "('f \<Rightarrow> info_key \<Rightarrow> 64 word option) \<Rightarrow> 'f list list \<Rightarrow> metadata_summ \<Rightarrow> metadata_summ res" where
  "metadata_process info [] shared = Ret shared"
| "metadata_process info (fs # ts) shared =
     res_bind (metadata_thread info fs zero_ms)
       (\<lambda>ms. metadata_process info ts (metadata_summ_share shared ms))"

subsection \<open>Commutative summaries\<close>

locale summary =
  fixes add :: "'s \<Rightarrow> 's \<Rightarrow> 's" and zero :: 's
  assumes add_assoc: "add (add a b) c = add a (add b c)"
    and add_commute: "add a b = add b a"
    and add_zero: "add a zero = a"
begin

text \<open>The total of the contributions \<open>f x\<close>, starting from \<open>s\<close>.\<close>

lemma fold_shift: "fold (\<lambda>x s. add s (f x)) xs (add s t) = add s (fold (\<lambda>x s. add s (f x)) xs t)"
  by (induction xs arbitrary: t) (simp_all add: add_assoc)

lemma fold_from_zero: "fold (\<lambda>x s. add s (f x)) xs s = add s (fold (\<lambda>x s. add s (f x)) xs zero)"
  using fold_shift[of f xs s zero] by (simp add: add_zero)

lemma fold_order:
  assumes "mset xs = mset ys"
  shows "fold (\<lambda>x s. add s (f x)) xs s = fold (\<lambda>x s. add s (f x)) ys s"
proof (rule fold_permuted_eq[where P = "\<lambda>_. True"])
  show "add (add z (f x)) (f y) = add (add z (f y)) (f x)" for x y z
    by (metis add_assoc add_commute)
qed (use assms in simp_all)

lemma fold_groups:
  "fold (\<lambda>g s. add s (fold (\<lambda>x s. add s (f x)) g zero)) gs s = fold (\<lambda>x s. add s (f x)) (concat gs) s"
proof (induction gs arbitrary: s)
  case (Cons g gs)
  have "add s (fold (\<lambda>x s. add s (f x)) g zero) = fold (\<lambda>x s. add s (f x)) g s"
    by (rule fold_from_zero[symmetric])
  with Cons show ?case by simp
qed simp

end

interpretation ps: summary processed_summ_share zero_ps
  by unfold_locales (simp_all add: processed_summ_share_def zero_ps_def add_ac)

interpretation ms: summary metadata_summ_share zero_ms
  by unfold_locales (simp_all add: metadata_summ_share_def zero_ms_def add_ac)

subsection \<open>Totals\<close>

text \<open>The contribution of one record, and of one file.\<close>

definition record_summ :: "(lnf_const \<Rightarrow> 64 word) \<Rightarrow> processed_summ" where
  "record_summ fget =
     \<lparr>ps_flows = fget LNF_FLD_AGGR_FLOWS, ps_pkts = fget LNF_FLD_DPKTS, ps_bytes = fget LNF_FLD_DOCTETS\<rparr>"

definition file_summ :: "(info_key \<Rightarrow> 64 word option) \<Rightarrow> metadata_summ" where
  "file_summ info = (case metadata_summ_update info zero_ms of Ret ms \<Rightarrow> ms | _ \<Rightarrow> zero_ms)"

definition info_ok :: "(info_key \<Rightarrow> 64 word option) \<Rightarrow> bool" where
  "info_ok info \<longleftrightarrow> (\<forall>k. info k \<noteq> None)"

definition sum_ps :: "processed_summ list \<Rightarrow> processed_summ" where
  "sum_ps xs = \<lparr>ps_flows = sum_list (map ps_flows xs), ps_pkts = sum_list (map ps_pkts xs),
     ps_bytes = sum_list (map ps_bytes xs)\<rparr>"

lemma processed_update_share: "processed_summ_update fget ps = processed_summ_share ps (record_summ fget)"
  by (simp add: processed_summ_update_def processed_summ_share_def record_summ_def Let_def)

lemma processed_thread_fold:
  "processed_thread fget rs ps = fold (\<lambda>r s. processed_summ_share s (record_summ (fget r))) rs ps"
  by (induction rs arbitrary: ps) (simp_all add: processed_update_share)

lemma metadata_update_share:
  "info_ok info \<Longrightarrow> metadata_summ_update info ms = Ret (metadata_summ_share ms (file_summ info))"
  by (simp add: metadata_summ_update_def metadata_summ_share_def file_summ_def read_info_def
      zero_ms_def info_ok_def Let_def)

lemma metadata_thread_fold:
  "\<forall>f\<in>set fs. info_ok (info f) \<Longrightarrow>
   metadata_thread info fs ms = Ret (fold (\<lambda>f s. metadata_summ_share s (file_summ (info f))) fs ms)"
  by (induction fs arbitrary: ms) (simp_all add: metadata_update_share)

lemma metadata_process_fold:
  "\<forall>fs\<in>set ts. \<forall>f\<in>set fs. info_ok (info f) \<Longrightarrow>
   metadata_process info ts ms = Ret (fold (\<lambda>f s. metadata_summ_share s (file_summ (info f))) (concat ts) ms)"
proof (induction ts arbitrary: ms)
  case (Cons fs ts)
  have "metadata_summ_share ms (fold (\<lambda>f s. metadata_summ_share s (file_summ (info f))) fs zero_ms)
      = fold (\<lambda>f s. metadata_summ_share s (file_summ (info f))) fs ms"
    by (rule ms.fold_from_zero[symmetric])
  with Cons show ?case by (simp add: metadata_thread_fold)
qed simp

lemma fold_sum_ps:
  "fold (\<lambda>r s. processed_summ_share s (f r)) rs s = processed_summ_share s (sum_ps (map f rs))"
proof (induction rs arbitrary: s)
  case Nil
  then show ?case by (simp add: sum_ps_def processed_summ_share_def)
next
  case (Cons r rs)
  then show ?case by (simp add: sum_ps_def processed_summ_share_def add.assoc)
qed

text \<open>C27: the processed-records summary of a slave is the sum over all its records, modulo 2^64,
  whatever the distribution of the files over the threads.\<close>

theorem processed_total:
  assumes "mset (concat threads) = mset rs"
  shows "processed_process fget threads = sum_ps (map (\<lambda>r. record_summ (fget r)) rs)"
proof -
  have "processed_process fget threads
      = fold (\<lambda>r s. processed_summ_share s (record_summ (fget r))) (concat threads) zero_ps"
    unfolding processed_process_def processed_thread_fold by (rule ps.fold_groups)
  also have "\<dots> = fold (\<lambda>r s. processed_summ_share s (record_summ (fget r))) rs zero_ps"
    using assms by (rule ps.fold_order)
  also have "\<dots> = sum_ps (map (\<lambda>r. record_summ (fget r)) rs)"
    by (simp add: fold_sum_ps) (simp add: processed_summ_share_def zero_ps_def)
  finally show ?thesis .
qed

text \<open>The metadata summary does not depend on which thread opened which file: any two
  distributions of the same files give the same totals.\<close>

theorem metadata_total:
  assumes "mset (concat threads) = mset (concat threads')"
    and "\<forall>fs\<in>set threads. \<forall>f\<in>set fs. info_ok (info f)"
  shows "\<exists>ms. metadata_process info threads zero_ms = Ret ms \<and> metadata_process info threads' zero_ms = Ret ms"
proof -
  have "set (concat threads') = set (concat threads)" using assms(1) by (metis mset_eq_setD)
  then have "\<forall>f\<in>set (concat threads'). info_ok (info f)" using assms(2) by auto
  then have ok: "\<forall>fs\<in>set threads'. \<forall>f\<in>set fs. info_ok (info f)" by auto
  show ?thesis
    using ms.fold_order[OF assms(1)]
    unfolding metadata_process_fold[OF assms(2)] metadata_process_fold[OF ok] by simp
qed

theorem processed_total_witness:
  "processed_process (\<lambda>r k. if k = LNF_FLD_DOCTETS then - 1 else r) [[1], [], [2, 3]]
   = sum_ps (map (\<lambda>r. record_summ ((\<lambda>r k. if k = LNF_FLD_DOCTETS then - 1 else r) r)) [3, 2, 1])"
  by (rule processed_total) simp

theorem metadata_total_witness:
  "\<exists>ms. metadata_process (\<lambda>f k. Some f) [[1], [2]] zero_ms = Ret ms
      \<and> metadata_process (\<lambda>f k. Some f) [[], [2, 1]] zero_ms = Ret ms"
  by (rule metadata_total) (simp_all add: info_ok_def)

end
