(* ===== verification/List_Mode.thy ===== *)
theory List_Mode
  imports Send_Raw Summary Query_Fields
begin

text \<open>
  Reading a flow file in the slave: \<open>ff_read_and_send\<close> (list mode) and
  \<open>ff_read_and_store\<close> (the other modes) of \<open>src/slave.c\<close>.

  \<open>lnf_read\<close> yields the records of the file in order.  The shared context of the
  slave's threads (\<open>proc_rec_cntr\<close>, \<open>rec_limit_reached\<close>) may be changed by
  the other threads before each of its accesses: \<open>fc_others k\<close> is that change
  before the \<open>k\<close>-th access.  The history of a thread has, for each of its
  accesses, what it found and what it left; \<open>Slave\<close> relates the histories of
  the threads of a process.
\<close>

type_synonym shared = "64 word \<times> bool"

record 'r ff_cfg =
  fc_fields :: fields
  fc_match :: "'r \<Rightarrow> bool"
  fc_get :: "'r \<Rightarrow> int \<Rightarrow> byte list"
  fc_u64 :: "'r \<Rightarrow> lnf_const \<Rightarrow> 64 word"
  fc_limit :: "64 word"
  fc_tag :: mpi_tag
  fc_others :: "nat \<Rightarrow> shared \<Rightarrow> shared"

record ff_state =
  ff_send :: send_state
  ff_proc :: "64 word"
  ff_reached :: bool
  ff_summ :: processed_summ
  ff_hist :: "(shared \<times> shared) list"

text \<open>One access to the shared context, a read when \<open>f\<close> changes nothing.\<close>

definition access :: "'r ff_cfg \<Rightarrow> (shared \<Rightarrow> shared) \<Rightarrow> ff_state \<Rightarrow> ff_state" where
  "access C f st =
     (let found = fc_others C (length (ff_hist st)) (ff_proc st, ff_reached st); left = f found
      in st\<lparr>ff_proc := fst left, ff_reached := snd left, ff_hist := ff_hist st @ [(found, left)]\<rparr>)"

text \<open>The atomic addition to the counter, and the test of the counter that sets the flag.\<close>

definition add_processed :: "nat \<Rightarrow> shared \<Rightarrow> shared" where
  "add_processed n sh = (fst sh + of_nat n, snd sh)"

definition limit_reached :: "64 word \<Rightarrow> shared \<Rightarrow> bool" where
  "limit_reached lim sh \<longleftrightarrow> lim \<noteq> 0 \<and> fst sh \<ge> lim"

definition set_limit_reached :: "64 word \<Rightarrow> shared \<Rightarrow> shared" where
  "set_limit_reached lim sh = (fst sh, snd sh \<or> limit_reached lim sh)"

definition write_field :: "'r ff_cfg \<Rightarrow> 'r \<Rightarrow> nat \<Rightarrow> send_state \<Rightarrow> send_state res" where
  "write_field C r i s =
     (let f = all_flds (fc_fields C) ! i in
      res_bind (buf_write (s_off s) (fc_get C r (fld_id f)) s)
        (\<lambda>s1. Ret (s1\<lparr>s_off := s_off s1 + fld_size f\<rparr>)))"

text \<open>The record goes into the buffer: its size, then every field.\<close>

definition write_record :: "'r ff_cfg \<Rightarrow> 'r \<Rightarrow> ff_state \<Rightarrow> ff_state res" where
  "write_record C r st =
     (let rec_size = of_nat (all_sizes_sum (fc_fields C)) :: 32 word;
          st1 = st\<lparr>ff_summ := processed_summ_update (fc_u64 C r) (ff_summ st)\<rparr>;
          s = ff_send st1 in
      res_bind (buf_write (s_off s) (put_u32 rec_size) s) (\<lambda>s1.
      res_bind (each_res (write_field C r) [0..<all_cnt (fc_fields C)] (s1\<lparr>s_off := s_off s1 + 4\<rparr>)) (\<lambda>s2.
      Ret (st1\<lparr>ff_send := s2\<lparr>s_buff_cnt := s_buff_cnt s2 + 1\<rparr>\<rparr>))))"

text \<open>The buffer is full; \<open>True\<close> when the loop breaks.\<close>

definition flush_buffer :: "'r ff_cfg \<Rightarrow> ff_state \<Rightarrow> bool \<times> ff_state" where
  "flush_buffer C st =
     (let st1 = access C id st in
      if ff_reached st1
      then (True, st1\<lparr>ff_send := (ff_send st1)\<lparr>s_buff_cnt := 0\<rparr>\<rparr>)
      else
        let s = wait_isend (fc_tag C) (ff_send st1);
            st2 = access C (add_processed (s_buff_cnt s)) (st1\<lparr>ff_send := s\<rparr>);
            st3 = st2\<lparr>ff_send := s\<lparr>s_off := 0, s_buff_cnt := 0, s_idx := \<not> s_idx s\<rparr>\<rparr>;
            st4 = access C (set_limit_reached (fc_limit C)) st3
        in (limit_reached (fc_limit C) (ff_proc st4, ff_reached st4), st4))"

fun ff_send_loop :: "'r ff_cfg \<Rightarrow> 'r list \<Rightarrow> ff_state \<Rightarrow> ff_state res" where
  "ff_send_loop C [] st = Ret st"
| "ff_send_loop C (r # rs) st =
     (if \<not> fc_match C r then ff_send_loop C rs st
      else
        let rec_size = unat (of_nat (all_sizes_sum (fc_fields C)) :: 32 word);
            (stop, st1) = (if s_off (ff_send st) + rec_size + 4 > XCHG_BUFF_SIZE
                           then flush_buffer C st else (False, st))
        in if stop then Ret st1
           else res_bind (write_record C r st1) (ff_send_loop C rs))"

definition ff_send_rest :: "'r ff_cfg \<Rightarrow> ff_state \<Rightarrow> ff_state" where
  "ff_send_rest C st =
     (let s = ff_send st;
          st1 = (if s_buff_cnt s \<noteq> 0
                 then access C (add_processed (s_buff_cnt s)) (st\<lparr>ff_send := wait_isend (fc_tag C) s\<rparr>)
                 else st)
      in access C (set_limit_reached (fc_limit C)) st1)"

definition ff_read_and_send :: "'r ff_cfg \<Rightarrow> (bool \<Rightarrow> byte list) \<Rightarrow> 'r list \<Rightarrow> ff_state \<Rightarrow> ff_state res" where
  "ff_read_and_send C bufs rs st =
     (let st0 = st\<lparr>ff_send := (ff_send st)\<lparr>s_bufs := bufs, s_idx := False, s_off := 0, s_buff_cnt := 0,
                                         s_request := None\<rparr>\<rparr>
      in res_bind (ff_send_loop C rs st0)
           (\<lambda>st1. let st2 = ff_send_rest C st1
                  in Ret (st2\<lparr>ff_send := (ff_send st2)\<lparr>s_request := None\<rparr>\<rparr>)))"

text \<open>The other modes write every matching record into the libnf memory.\<close>

fun ff_read_and_store ::
  "'r ff_cfg \<Rightarrow> ('r \<Rightarrow> 'm \<Rightarrow> 'm option) \<Rightarrow> 'r list \<Rightarrow> processed_summ \<times> 'm \<Rightarrow> (processed_summ \<times> 'm) res" where
  "ff_read_and_store C lnf_mem_write [] st = Ret st"
| "ff_read_and_store C lnf_mem_write (r # rs) (ps, mem) =
     (if \<not> fc_match C r then ff_read_and_store C lnf_mem_write rs (ps, mem)
      else case lnf_mem_write r mem of
             None \<Rightarrow> Abort E_LNF
           | Some mem' \<Rightarrow>
               ff_read_and_store C lnf_mem_write rs (processed_summ_update (fc_u64 C r) ps, mem'))"

subsection \<open>The record written\<close>

definition raw_record :: "'r ff_cfg \<Rightarrow> 'r \<Rightarrow> byte list" where
  "raw_record C r = concat (map (\<lambda>i. fc_get C r (fld_id (all_flds (fc_fields C) ! i))) [0..<all_cnt (fc_fields C)])"

text \<open>libnf writes as many bytes as the field has, and a record fits a buffer.\<close>

definition ff_cfg_ok :: "libnf \<Rightarrow> 'r ff_cfg \<Rightarrow> bool" where
  "ff_cfg_ok L C \<longleftrightarrow>
     all_inv L (fc_fields C)
   \<and> (\<forall>r. \<forall>i<all_cnt (fc_fields C).
        length (fc_get C r (fld_id (all_flds (fc_fields C) ! i))) = fld_size (all_flds (fc_fields C) ! i))
   \<and> all_sizes_sum (fc_fields C) + 4 \<le> XCHG_BUFF_SIZE"

text \<open>The part of the buffer in use that has been filled.\<close>

definition live :: "send_state \<Rightarrow> byte list" where
  "live s = take (s_off s) (s_bufs s (s_idx s))"

definition ff_inv :: "'r ff_cfg \<Rightarrow> message list \<Rightarrow> 'r list list \<Rightarrow> 'r list \<Rightarrow> send_state \<Rightarrow> bool" where
  "ff_inv C pre gs cur s \<longleftrightarrow>
     s_sent s = pre @ map (\<lambda>g. (fc_tag C, pack (map (raw_record C) g))) gs
   \<and> (\<forall>g\<in>set gs. g \<noteq> [] \<and> length (pack (map (raw_record C) g)) \<le> XCHG_BUFF_SIZE)
   \<and> (\<forall>i. length (s_bufs s i) = XCHG_BUFF_SIZE)
   \<and> s_off s = length (pack (map (raw_record C) cur)) \<and> s_off s \<le> XCHG_BUFF_SIZE
   \<and> live s = pack (map (raw_record C) cur)
   \<and> s_buff_cnt s = length cur
   \<and> s_request s \<noteq> Some (s_idx s)"

lemma length_raw_record: "ff_cfg_ok L C \<Longrightarrow> length (raw_record C r) = all_sizes_sum (fc_fields C)"
proof -
  assume ok: "ff_cfg_ok L C"
  let ?fs = "fc_fields C"
  have "map (\<lambda>i. length (fc_get C r (fld_id (all_flds ?fs ! i)))) [0..<all_cnt ?fs]
      = map (\<lambda>i. fld_size (all_flds ?fs ! i)) [0..<all_cnt ?fs]"
    using ok by (auto simp: ff_cfg_ok_def)
  moreover have "map (\<lambda>i. fld_size (all_flds ?fs ! i)) [0..<all_cnt ?fs] = map fld_size (take (all_cnt ?fs) (all_flds ?fs))"
    using ok by (intro nth_equalityI) (auto simp: ff_cfg_ok_def all_inv_def)
  ultimately show ?thesis using ok
    by (simp add: raw_record_def length_concat comp_def ff_cfg_ok_def all_inv_def)
qed

lemma buf_write_Ret:
  assumes "s_request s \<noteq> Some (s_idx s)" "off + length d \<le> length (s_bufs s (s_idx s))"
  shows "buf_write off d s = Ret (s\<lparr>s_bufs := (s_bufs s)(s_idx s := write_at off d (s_bufs s (s_idx s)))\<rparr>)"
  using assms by (simp add: buf_write_def)

text \<open>Appending a list of pieces at the write offset.\<close>

definition appended :: "byte list \<Rightarrow> send_state \<Rightarrow> send_state \<Rightarrow> bool" where
  "appended d s s' \<longleftrightarrow>
     (\<forall>i. length (s_bufs s' i) = length (s_bufs s i)) \<and> s_off s' = s_off s + length d
   \<and> live s' = live s @ d
   \<and> s_idx s' = s_idx s \<and> s_request s' = s_request s \<and> s_sent s' = s_sent s \<and> s_buff_cnt s' = s_buff_cnt s"

lemma appended_write:
  assumes "s_request s \<noteq> Some (s_idx s)" "s_off s + length d \<le> length (s_bufs s (s_idx s))"
  shows "\<exists>s'. buf_write (s_off s) d s = Ret s' \<and> appended d s (s'\<lparr>s_off := s_off s' + length d\<rparr>)"
  using assms by (simp add: buf_write_Ret appended_def live_def take_write_at length_write_at)

lemma appended_trans: "appended d s s1 \<Longrightarrow> appended e s1 s2 \<Longrightarrow> appended (d @ e) s s2"
  by (simp add: appended_def)

lemma write_fields:
  assumes ok: "ff_cfg_ok L C" and rq: "s_request s \<noteq> Some (s_idx s)"
  shows "n \<le> all_cnt (fc_fields C) \<Longrightarrow>
    s_off s + length (concat (map (\<lambda>i. fc_get C r (fld_id (all_flds (fc_fields C) ! i))) [0..<n]))
      \<le> length (s_bufs s (s_idx s)) \<Longrightarrow>
    \<exists>s'. each_res (write_field C r) [0..<n] s = Ret s'
       \<and> appended (concat (map (\<lambda>i. fc_get C r (fld_id (all_flds (fc_fields C) ! i))) [0..<n])) s s'"
proof (induction n)
  case 0
  then show ?case by (simp add: appended_def)
next
  case (Suc n)
  let ?d = "concat (map (\<lambda>i. fc_get C r (fld_id (all_flds (fc_fields C) ! i))) [0..<n])"
  let ?e = "fc_get C r (fld_id (all_flds (fc_fields C) ! n))"
  obtain s1 where s1: "each_res (write_field C r) [0..<n] s = Ret s1" "appended ?d s s1"
    using Suc by auto
  have "s_request s1 \<noteq> Some (s_idx s1)" "s_off s1 + length ?e \<le> length (s_bufs s1 (s_idx s1))"
    using s1(2) rq Suc.prems(2) by (simp_all add: appended_def)
  from appended_write[OF this] obtain s2 where s2: "buf_write (s_off s1) ?e s1 = Ret s2"
    "appended ?e s1 (s2\<lparr>s_off := s_off s2 + length ?e\<rparr>)" by blast
  have len: "length ?e = fld_size (all_flds (fc_fields C) ! n)"
    using ok Suc.prems(1) by (simp add: ff_cfg_ok_def)
  have "write_field C r n s1 = Ret (s2\<lparr>s_off := s_off s2 + length ?e\<rparr>)"
    using s2(1) by (simp add: write_field_def len)
  with s1 s2(2) show ?case
    by (auto simp: each_res_append intro!: appended_trans[OF s1(2)])
qed

lemma rec_size_word:
  assumes "ff_cfg_ok L C"
  shows "unat (of_nat (all_sizes_sum (fc_fields C)) :: 32 word) = all_sizes_sum (fc_fields C)"
proof -
  have "all_sizes_sum (fc_fields C) < 2 ^ 32" using assms by (simp add: ff_cfg_ok_def XCHG_BUFF_SIZE_def)
  then show ?thesis by (simp add: unat_of_nat take_bit_nat_eq_self)
qed

lemma write_record_Ret:
  assumes ok: "ff_cfg_ok L C" and inv: "ff_inv C pre gs cur (ff_send st)"
    and room: "s_off (ff_send st) + all_sizes_sum (fc_fields C) + 4 \<le> XCHG_BUFF_SIZE"
  shows "\<exists>st'. write_record C r st = Ret st' \<and> ff_inv C pre gs (cur @ [r]) (ff_send st')
    \<and> ff_proc st' = ff_proc st \<and> ff_reached st' = ff_reached st \<and> ff_hist st' = ff_hist st
    \<and> ff_summ st' = processed_summ_update (fc_u64 C r) (ff_summ st)"
proof -
  define s where "s = ff_send st"
  let ?sz = "put_u32 (of_nat (all_sizes_sum (fc_fields C)))"
  have i: "s_sent s = pre @ map (\<lambda>g. (fc_tag C, pack (map (raw_record C) g))) gs"
    "\<forall>g\<in>set gs. g \<noteq> [] \<and> length (pack (map (raw_record C) g)) \<le> XCHG_BUFF_SIZE"
    "\<And>i. length (s_bufs s i) = XCHG_BUFF_SIZE"
    "s_off s = length (pack (map (raw_record C) cur))"
    "live s = pack (map (raw_record C) cur)"
    "s_buff_cnt s = length cur" "s_request s \<noteq> Some (s_idx s)"
    using inv unfolding ff_inv_def s_def by blast+
  have "s_off s + length ?sz \<le> length (s_bufs s (s_idx s))" using room i(3) by (simp add: s_def)
  from appended_write[OF i(7) this] obtain s1 where s1: "buf_write (s_off s) ?sz s = Ret s1"
    "appended ?sz s (s1\<lparr>s_off := s_off s1 + 4\<rparr>)" by auto
  define s1' where "s1' = s1\<lparr>s_off := s_off s1 + 4\<rparr>"
  have a1: "appended ?sz s s1'" using s1(2) by (simp add: s1'_def)
  have "s_request s1' \<noteq> Some (s_idx s1')" "s_off s1' + length (raw_record C r) \<le> length (s_bufs s1' (s_idx s1'))"
    using a1 i(3,7) room by (simp_all add: appended_def length_raw_record[OF ok] s_def)
  then obtain s2 where s2: "each_res (write_field C r) [0..<all_cnt (fc_fields C)] s1' = Ret s2"
    "appended (raw_record C r) s1' s2"
    using write_fields[OF ok, of s1' "all_cnt (fc_fields C)" r] by (auto simp: raw_record_def)
  define s3 where "s3 = s2\<lparr>s_buff_cnt := s_buff_cnt s2 + 1\<rparr>"
  have "live s3 = live s2" by (simp add: s3_def live_def)
  have a: "appended (frame (raw_record C r)) s s2"
    using appended_trans[OF a1 s2(2)] by (simp add: frame_def length_raw_record[OF ok])
  have "write_record C r st
      = Ret (st\<lparr>ff_summ := processed_summ_update (fc_u64 C r) (ff_summ st), ff_send := s3\<rparr>)"
    using s1(1) s2(1) by (simp add: write_record_def s_def[symmetric] s1'_def[symmetric] s3_def)
  moreover have "ff_inv C pre gs (cur @ [r]) s3"
    using a i room \<open>live s3 = live s2\<close> unfolding ff_inv_def
    by (simp add: s3_def appended_def length_raw_record[OF ok] s_def[symmetric])
  ultimately show ?thesis by auto
qed

subsection \<open>The reading loop\<close>

definition monotone_others :: "'r ff_cfg \<Rightarrow> bool" where
  "monotone_others C \<longleftrightarrow> (\<forall>k p. snd (fc_others C k (p, True)))"

definition alone :: "'r ff_cfg \<Rightarrow> bool" where
  "alone C \<longleftrightarrow> (\<forall>k x. fc_others C k x = x)"

definition groups_sent :: "'r ff_cfg \<Rightarrow> message list \<Rightarrow> 'r list list \<Rightarrow> send_state \<Rightarrow> bool" where
  "groups_sent C pre gs s \<longleftrightarrow>
     s_sent s = pre @ map (\<lambda>g. (fc_tag C, pack (map (raw_record C) g))) gs
   \<and> (\<forall>g\<in>set gs. g \<noteq> [] \<and> length (pack (map (raw_record C) g)) \<le> XCHG_BUFF_SIZE)
   \<and> (\<forall>i. length (s_bufs s i) = XCHG_BUFF_SIZE)"

text \<open>
  An access never clears the flag, sets it only when the counter has reached the limit,
  and adds a number of records to the counter.
\<close>

definition ev_ok :: "64 word \<Rightarrow> shared \<times> shared \<Rightarrow> bool" where
  "ev_ok lim e \<longleftrightarrow>
     (snd (fst e) \<longrightarrow> snd (snd e)) \<and> (snd (snd e) \<and> \<not> snd (fst e) \<longrightarrow> limit_reached lim (snd e))"

definition ev_inc :: "shared \<times> shared \<Rightarrow> nat" where
  "ev_inc e = unat (fst (snd e) - fst (fst e))"

text \<open>The accesses since the history \<open>h0\<close> have counted the records of \<open>gs\<close>.\<close>

definition counted ::
  "'r ff_cfg \<Rightarrow> 64 word \<Rightarrow> (shared \<times> shared) list \<Rightarrow> 'r list list \<Rightarrow> ff_state \<Rightarrow> bool" where
  "counted C p0 h0 gs st \<longleftrightarrow>
     (alone C \<longrightarrow> ff_proc st = p0 + of_nat (length (concat gs)))
   \<and> (\<exists>evs. ff_hist st = h0 @ evs \<and> (\<forall>e\<in>set evs. ev_ok (fc_limit C) e)
        \<and> sum_list (map ev_inc evs) = length (concat gs))"

text \<open>One of these accesses has found or left the flag set.\<close>

definition flagged :: "(shared \<times> shared) list \<Rightarrow> ff_state \<Rightarrow> bool" where
  "flagged h0 st \<longleftrightarrow> (\<exists>e\<in>set (drop (length h0) (ff_hist st)). snd (snd e))"

definition limit_hit :: "'r ff_cfg \<Rightarrow> ff_state \<Rightarrow> bool" where
  "limit_hit C st \<longleftrightarrow> fc_limit C \<noteq> 0 \<and> fc_limit C \<le> ff_proc st"

lemma access_send [simp]: "ff_send (access C f st) = ff_send st" "ff_summ (access C f st) = ff_summ st"
  by (simp_all add: access_def Let_def)

lemma access_alone:
  "alone C \<Longrightarrow> (ff_proc (access C f st), ff_reached (access C f st)) = f (ff_proc st, ff_reached st)"
  by (simp add: access_def alone_def Let_def)

lemma access_reached:
  assumes "monotone_others C" "ff_reached st" "\<And>sh. snd sh \<Longrightarrow> snd (f sh)"
  shows "ff_reached (access C f st)"
  using assms by (simp add: access_def Let_def monotone_others_def)

lemma counted_send [simp]: "counted C p0 h0 gs (st\<lparr>ff_send := x\<rparr>) = counted C p0 h0 gs st"
  by (simp add: counted_def)

lemma flagged_send [simp]: "flagged h0 (st\<lparr>ff_send := x\<rparr>) = flagged h0 st"
  by (simp add: flagged_def)

lemma counted_access:
  assumes "counted C p0 h0 gs st" and "\<And>sh. ev_ok (fc_limit C) (sh, f sh)"
    and "\<And>sh. fst (f sh) = fst sh + of_nat n" and "n < 2 ^ 64"
    and "length (concat gs') = length (concat gs) + n"
  shows "counted C p0 h0 gs' (access C f st)"
proof -
  have "ff_proc (access C f st) = ff_proc st + of_nat n" if "alone C"
    using access_alone[OF that, of f st] assms(3) by (metis fst_conv)
  moreover obtain evs where evs: "ff_hist st = h0 @ evs" "\<forall>e\<in>set evs. ev_ok (fc_limit C) e"
    "sum_list (map ev_inc evs) = length (concat gs)" "alone C \<longrightarrow> ff_proc st = p0 + of_nat (length (concat gs))"
    using assms(1) by (auto simp: counted_def)
  define found where "found = fc_others C (length (ff_hist st)) (ff_proc st, ff_reached st)"
  have "ev_inc (found, f found) = n"
    using assms(3,4) by (simp add: ev_inc_def unat_of_nat take_bit_nat_eq_self)
  then have "ff_hist (access C f st) = h0 @ (evs @ [(found, f found)])"
    "\<forall>e\<in>set (evs @ [(found, f found)]). ev_ok (fc_limit C) e"
    "sum_list (map ev_inc (evs @ [(found, f found)])) = length (concat gs')"
    using evs assms(2)[of found] assms(5) by (simp_all add: access_def Let_def found_def)
  ultimately show ?thesis
    using evs(4) assms(5) unfolding counted_def by auto
qed

lemma counted_read: "counted C p0 h0 gs st \<Longrightarrow> counted C p0 h0 gs (access C id st)"
  by (rule counted_access[where n = 0]) (simp_all add: ev_ok_def)

lemma counted_add:
  "counted C p0 h0 gs st \<Longrightarrow> length cur < 2 ^ 64 \<Longrightarrow>
   counted C p0 h0 (gs @ [cur]) (access C (add_processed (length cur)) st)"
  by (rule counted_access[where n = "length cur"]) (simp_all add: ev_ok_def add_processed_def)

lemma counted_limit: "counted C p0 h0 gs st \<Longrightarrow> counted C p0 h0 gs (access C (set_limit_reached (fc_limit C)) st)"
  by (rule counted_access[where n = 0]) (auto simp: ev_ok_def set_limit_reached_def limit_reached_def)

lemma flagged_access:
  assumes "counted C p0 h0 gs st" and "ff_reached (access C f st)"
  shows "flagged h0 (access C f st)"
  using assms by (auto simp: counted_def flagged_def access_def Let_def)

lemma flagged_stays: "flagged h0 st \<Longrightarrow> length h0 \<le> length (ff_hist st) \<Longrightarrow> flagged h0 (access C f st)"
  by (auto simp: flagged_def access_def Let_def)

lemma counted_length: "counted C p0 h0 gs st \<Longrightarrow> length h0 \<le> length (ff_hist st)"
  by (auto simp: counted_def)

lemma set_limit_id [simp]: "fst (set_limit_reached lim sh) = fst sh"
  by (simp add: set_limit_reached_def)

lemma limit_access:
  "limit_reached (fc_limit C) (ff_proc (access C (set_limit_reached (fc_limit C)) st), b) \<Longrightarrow>
   ff_reached (access C (set_limit_reached (fc_limit C)) st)"
  by (simp add: access_def Let_def set_limit_reached_def limit_reached_def)

lemma ff_inv_sent: "ff_inv C pre gs cur s \<Longrightarrow> groups_sent C pre gs s"
  by (simp add: ff_inv_def groups_sent_def)

lemma isend_live: "s_sent (wait_isend tag s) = s_sent s @ [(tag, live s)]" "s_bufs (wait_isend tag s) = s_bufs s"
  by (simp_all add: wait_isend_def live_def)

text \<open>A full buffer holds at least one record: one record always fits an empty one.\<close>

lemma full_not_empty:
  assumes "ff_cfg_ok L C" "ff_inv C pre gs cur s" "s_off s + all_sizes_sum (fc_fields C) + 4 > XCHG_BUFF_SIZE"
  shows "cur \<noteq> []"
  using assms by (auto simp: ff_inv_def ff_cfg_ok_def)

lemma length_le_pack: "length rs \<le> length (pack rs)"
  by (induction rs) simp_all

lemma group_small: "ff_inv C pre gs cur s \<Longrightarrow> length cur < 2 ^ 64"
  using length_le_pack[of "map (raw_record C) cur"] by (simp add: ff_inv_def XCHG_BUFF_SIZE_def)

lemma flush_stop:
  assumes "ff_inv C pre gs cur (ff_send st)" "cur \<noteq> []" "flush_buffer C st = (True, st')" "counted C p0 h0 gs st"
  shows "\<exists>gs'. (gs' = gs \<or> gs' = gs @ [cur]) \<and> groups_sent C pre gs' (ff_send st') \<and> s_buff_cnt (ff_send st') = 0
    \<and> ff_reached st' \<and> flagged h0 st' \<and> counted C p0 h0 gs' st' \<and> (alone C \<and> \<not> ff_reached st \<longrightarrow> limit_hit C st')"
proof (cases "ff_reached (access C id st)")
  case True
  then have st': "st' = (access C id st)\<lparr>ff_send := (ff_send st)\<lparr>s_buff_cnt := 0\<rparr>\<rparr>"
    using assms(3) by (simp add: flush_buffer_def Let_def)
  have "alone C \<longrightarrow> ff_reached st" using access_alone[of C id st] True by auto
  then show ?thesis
    using assms(1,4) True counted_read[OF assms(4)] flagged_access[OF assms(4) True]
    by (intro exI[of _ gs]) (auto simp: st' groups_sent_def ff_inv_def)
next
  case False
  define st1 where "st1 = access C id st"
  define s where "s = wait_isend (fc_tag C) (ff_send st)"
  define st2 where "st2 = access C (add_processed (s_buff_cnt s)) (st1\<lparr>ff_send := s\<rparr>)"
  define st3 where "st3 = st2\<lparr>ff_send := s\<lparr>s_off := 0, s_buff_cnt := 0, s_idx := \<not> s_idx s\<rparr>\<rparr>"
  have st': "st' = access C (set_limit_reached (fc_limit C)) st3" "limit_reached (fc_limit C) (ff_proc st', ff_reached st')"
    using assms(3) False by (auto simp: flush_buffer_def Let_def st1_def s_def st2_def st3_def)
  have "s_buff_cnt s = length cur" using assms(1) by (simp add: s_def wait_isend_def ff_inv_def)
  then have c: "counted C p0 h0 (gs @ [cur]) st3"
    using counted_add[OF _ group_small[OF assms(1)]] counted_read[OF assms(4)] by (simp add: st3_def st2_def st1_def)
  have r: "ff_reached st'" using limit_access st' by metis
  have "groups_sent C pre (gs @ [cur]) (ff_send st')" "s_buff_cnt (ff_send st') = 0"
    using assms(1,2) by (simp_all add: st' st3_def s_def groups_sent_def ff_inv_def isend_live)
  then show ?thesis
    using r counted_limit[OF c] flagged_access[OF c] st'(2)
    by (intro exI[of _ "gs @ [cur]"]) (auto simp: st'(1) limit_reached_def limit_hit_def)
qed

lemma flush_continue:
  assumes "ff_inv C pre gs cur (ff_send st)" "cur \<noteq> []" "flush_buffer C st = (False, st')" "counted C p0 h0 gs st"
  shows "ff_inv C pre (gs @ [cur]) [] (ff_send st') \<and> counted C p0 h0 (gs @ [cur]) st'
    \<and> (alone C \<longrightarrow> ff_reached st' = ff_reached st)"
proof -
  have nr: "\<not> ff_reached (access C id st)" using assms(3) by (auto simp: flush_buffer_def Let_def)
  have i: "live (ff_send st) = pack (map (raw_record C) cur)" "s_off (ff_send st) \<le> XCHG_BUFF_SIZE"
    "s_off (ff_send st) = length (pack (map (raw_record C) cur))" "s_buff_cnt (ff_send st) = length cur"
    using assms(1) unfolding ff_inv_def by blast+
  have l0: "live (s\<lparr>s_off := 0, s_buff_cnt := n, s_idx := b\<rparr>) = []" for s n b by (simp add: live_def)
  define st1 where "st1 = access C id st"
  define s where "s = wait_isend (fc_tag C) (ff_send st)"
  define st2 where "st2 = access C (add_processed (s_buff_cnt s)) (st1\<lparr>ff_send := s\<rparr>)"
  define st3 where "st3 = st2\<lparr>ff_send := s\<lparr>s_off := 0, s_buff_cnt := 0, s_idx := \<not> s_idx s\<rparr>\<rparr>"
  have st': "st' = access C (set_limit_reached (fc_limit C)) st3" "\<not> limit_reached (fc_limit C) (ff_proc st', ff_reached st')"
    using assms(3) nr by (auto simp: flush_buffer_def Let_def st1_def s_def st2_def st3_def)
  have s: "s_sent s = s_sent (ff_send st) @ [(fc_tag C, pack (map (raw_record C) cur))]"
    "s_bufs s = s_bufs (ff_send st)" "s_request s = Some (s_idx s)" "s_buff_cnt s = length cur"
    using i by (simp_all add: s_def isend_live) (simp_all add: wait_isend_def)
  have "ff_inv C pre (gs @ [cur]) [] (ff_send st')"
    using assms(1,2) i(2,3) s l0 unfolding ff_inv_def st' st3_def by simp
  moreover have "counted C p0 h0 (gs @ [cur]) st3"
    using counted_add[OF _ group_small[OF assms(1)]] counted_read[OF assms(4)] s(4) by (simp add: st3_def st2_def st1_def)
  then have "counted C p0 h0 (gs @ [cur]) st'" unfolding st' by (rule counted_limit)
  moreover have "ff_reached st' = ff_reached st" if a: "alone C"
  proof -
    have "ff_reached st3 = ff_reached st"
      using access_alone[OF a, of id st] access_alone[OF a, of "add_processed (s_buff_cnt s)" "st1\<lparr>ff_send := s\<rparr>"]
      by (simp add: st3_def st2_def st1_def add_processed_def)
    then show ?thesis
      using access_alone[OF a, of "set_limit_reached (fc_limit C)" st3] st'
      by (auto simp: set_limit_reached_def limit_reached_def)
  qed
  ultimately show ?thesis by blast
qed

lemma ff_send_loop_Ret:
  assumes ok: "ff_cfg_ok L C"
  shows "ff_inv C pre gs cur (ff_send st) \<Longrightarrow> counted C p0 h0 gs st \<Longrightarrow>
    \<exists>st' gs'. ff_send_loop C rs st = Ret st' \<and> counted C p0 h0 gs' st' \<and>
      ((\<exists>cur'. ff_inv C pre gs' cur' (ff_send st') \<and> concat gs' @ cur' = concat gs @ cur @ filter (fc_match C) rs)
     \<or> (groups_sent C pre gs' (ff_send st') \<and> s_buff_cnt (ff_send st') = 0 \<and> ff_reached st' \<and> flagged h0 st'
         \<and> (\<exists>rest. concat gs' @ rest = concat gs @ cur @ filter (fc_match C) rs)
         \<and> (alone C \<and> \<not> ff_reached st \<longrightarrow> limit_hit C st')))"
proof (induction rs arbitrary: gs cur st)
  case Nil
  then show ?case by auto
next
  case (Cons r rs)
  note inv = Cons.prems(1)
  show ?case
  proof (cases "fc_match C r")
    case False
    with Cons show ?thesis by simp
  next
    case m: True
    let ?full = "s_off (ff_send st) + all_sizes_sum (fc_fields C) + 4 > XCHG_BUFF_SIZE"
    have step: "ff_send_loop C (r # rs) st =
      (let (stop, st1) = (if ?full then flush_buffer C st else (False, st))
       in if stop then Ret st1 else res_bind (write_record C r st1) (ff_send_loop C rs))"
      using m by (simp add: rec_size_word[OF ok])
    have tail: "\<exists>st' gs'. res_bind (write_record C r st1) (ff_send_loop C rs) = Ret st' \<and> counted C p0 h0 gs' st' \<and>
      ((\<exists>cur'. ff_inv C pre gs' cur' (ff_send st') \<and> concat gs' @ cur' = concat gs @ cur @ filter (fc_match C) (r # rs))
     \<or> (groups_sent C pre gs' (ff_send st') \<and> s_buff_cnt (ff_send st') = 0 \<and> ff_reached st' \<and> flagged h0 st'
         \<and> (\<exists>rest. concat gs' @ rest = concat gs @ cur @ filter (fc_match C) (r # rs))
         \<and> (alone C \<and> \<not> ff_reached st \<longrightarrow> limit_hit C st')))"
      if st1: "ff_inv C pre gs1 cur1 (ff_send st1)" "counted C p0 h0 gs1 st1" "concat gs1 @ cur1 = concat gs @ cur"
        "s_off (ff_send st1) + all_sizes_sum (fc_fields C) + 4 \<le> XCHG_BUFF_SIZE"
        "alone C \<longrightarrow> ff_reached st1 = ff_reached st" for st1 gs1 cur1
    proof -
      obtain st2 where st2: "write_record C r st1 = Ret st2" "ff_inv C pre gs1 (cur1 @ [r]) (ff_send st2)"
        "ff_proc st2 = ff_proc st1" "ff_reached st2 = ff_reached st1" "ff_hist st2 = ff_hist st1"
        using write_record_Ret[OF ok st1(1,4)] by blast
      have c: "counted C p0 h0 gs1 st2" using st1(2) st2(3,5) by (simp add: counted_def)
      have split: "concat gs1 @ (cur1 @ [r]) @ xs = concat gs @ cur @ r # xs" for xs
        using st1(3) by (metis append.assoc append_Cons append_Nil)
      show ?thesis
        using Cons.IH[OF st2(2) c] st1(5) st2(1,4) m unfolding split by auto
    qed
    show ?thesis
    proof (cases ?full)
      case False
      with tail[OF inv Cons.prems(2)] show ?thesis unfolding step by simp
    next
      case True
      have ne: "cur \<noteq> []" using full_not_empty[OF ok inv True] .
      obtain stop st1 where f: "flush_buffer C st = (stop, st1)" by (cases "flush_buffer C st")
      show ?thesis
      proof (cases stop)
        case True
        obtain gs' where gs': "gs' = gs \<or> gs' = gs @ [cur]" "groups_sent C pre gs' (ff_send st1)"
          "s_buff_cnt (ff_send st1) = 0" "ff_reached st1" "flagged h0 st1" "counted C p0 h0 gs' st1"
          "alone C \<and> \<not> ff_reached st \<longrightarrow> limit_hit C st1"
          using flush_stop[OF inv ne _ Cons.prems(2), of st1] f True by auto
        moreover have "\<exists>rest. concat gs' @ rest = concat gs @ cur @ filter (fc_match C) (r # rs)"
          using gs'(1) by auto
        ultimately show ?thesis unfolding step using f \<open>?full\<close> True by auto
      next
        case False
        then have fc: "ff_inv C pre (gs @ [cur]) [] (ff_send st1)" "counted C p0 h0 (gs @ [cur]) st1"
          "alone C \<longrightarrow> ff_reached st1 = ff_reached st"
          using flush_continue[OF inv ne _ Cons.prems(2), of st1] f by auto
        have "s_off (ff_send st1) + all_sizes_sum (fc_fields C) + 4 \<le> XCHG_BUFF_SIZE"
          using fc(1) ok by (simp add: ff_inv_def ff_cfg_ok_def)
        from tail[OF fc(1,2) _ this fc(3)] show ?thesis unfolding step using f \<open>?full\<close> False by simp
      qed
    qed
  qed
qed

lemma send_rest:
  assumes inv: "ff_inv C pre gs cur (ff_send st)" and c: "counted C p0 h0 gs st"
  shows "\<exists>gs'. concat gs' = concat gs @ cur \<and> groups_sent C pre gs' (ff_send (ff_send_rest C st))
    \<and> counted C p0 h0 gs' (ff_send_rest C st)"
proof (cases "cur = []")
  case True
  have "s_buff_cnt (ff_send st) = 0" "groups_sent C pre gs (ff_send st)"
    using inv True ff_inv_sent[OF inv] by (simp_all add: ff_inv_def)
  then show ?thesis using counted_limit[OF c] True
    by (intro exI[of _ gs]) (auto simp: ff_send_rest_def Let_def)
next
  case False
  have cnt: "s_buff_cnt (ff_send st) = length cur" "live (ff_send st) = pack (map (raw_record C) cur)"
    "length (pack (map (raw_record C) cur)) \<le> XCHG_BUFF_SIZE"
    using inv by (simp_all add: ff_inv_def)
  have "groups_sent C pre (gs @ [cur]) (ff_send (ff_send_rest C st))"
    using ff_inv_sent[OF inv] cnt False
    by (simp add: ff_send_rest_def Let_def groups_sent_def isend_live)
  moreover have "counted C p0 h0 (gs @ [cur]) (ff_send_rest C st)"
    using cnt False c by (simp add: ff_send_rest_def Let_def counted_limit counted_add[OF _ group_small[OF inv]])
  ultimately show ?thesis by (intro exI[of _ "gs @ [cur]"]) simp
qed

lemma rest_of_stopped:
  assumes "s_buff_cnt (ff_send st) = 0"
  shows "ff_send_rest C st = access C (set_limit_reached (fc_limit C)) st"
  using assms by (simp add: ff_send_rest_def Let_def)

lemma ff_read_and_send_Ret:
  assumes ok: "ff_cfg_ok L C" and bufs: "\<forall>i. length (bufs i) = XCHG_BUFF_SIZE"
  shows "\<exists>st' gs rest. ff_read_and_send C bufs rs st = Ret st'
    \<and> groups_sent C (s_sent (ff_send st)) gs (ff_send st')
    \<and> concat gs @ rest = filter (fc_match C) rs
    \<and> counted C (ff_proc st) (ff_hist st) gs st'
    \<and> (rest \<noteq> [] \<longrightarrow> flagged (ff_hist st) st' \<and> (monotone_others C \<longrightarrow> ff_reached st')
         \<and> (alone C \<and> \<not> ff_reached st \<longrightarrow> limit_hit C st'))"
proof -
  define pre where "pre = s_sent (ff_send st)"
  define st0 where "st0 = st\<lparr>ff_send := (ff_send st)\<lparr>s_bufs := bufs, s_idx := False, s_off := 0,
      s_buff_cnt := 0, s_request := None\<rparr>\<rparr>"
  have init: "ff_inv C pre [] [] (ff_send st0)" "counted C (ff_proc st) (ff_hist st) [] st0" "ff_reached st0 = ff_reached st"
    using bufs by (simp_all add: ff_inv_def st0_def pre_def live_def counted_def)
  obtain st1 gs1 where loop: "ff_send_loop C rs st0 = Ret st1" "counted C (ff_proc st) (ff_hist st) gs1 st1"
    and alt: "(\<exists>cur'. ff_inv C pre gs1 cur' (ff_send st1) \<and> concat gs1 @ cur' = filter (fc_match C) rs)
     \<or> (groups_sent C pre gs1 (ff_send st1) \<and> s_buff_cnt (ff_send st1) = 0 \<and> ff_reached st1
         \<and> flagged (ff_hist st) st1 \<and> (\<exists>rest. concat gs1 @ rest = filter (fc_match C) rs)
         \<and> (alone C \<and> \<not> ff_reached st \<longrightarrow> limit_hit C st1))"
    using ff_send_loop_Ret[OF ok init(1,2), of rs] init(3) by auto
  define st2 where "st2 = ff_send_rest C st1"
  define st' where "st' = st2\<lparr>ff_send := (ff_send st2)\<lparr>s_request := None\<rparr>\<rparr>"
  have run: "ff_read_and_send C bufs rs st = Ret st'"
    using loop(1) by (simp add: ff_read_and_send_def st0_def st2_def st'_def Let_def)
  have same: "groups_sent C pre gs (ff_send st') = groups_sent C pre gs (ff_send st2)"
    "limit_hit C st' = limit_hit C st2" for gs by (simp_all add: st'_def groups_sent_def limit_hit_def)
  have "\<exists>gs rest. groups_sent C pre gs (ff_send st') \<and> concat gs @ rest = filter (fc_match C) rs
      \<and> counted C (ff_proc st) (ff_hist st) gs st'
      \<and> (rest \<noteq> [] \<longrightarrow> flagged (ff_hist st) st' \<and> (monotone_others C \<longrightarrow> ff_reached st')
         \<and> (alone C \<and> \<not> ff_reached st \<longrightarrow> limit_hit C st'))"
    using alt
  proof (elim disjE exE conjE)
    fix cur' assume "ff_inv C pre gs1 cur' (ff_send st1)" and all: "concat gs1 @ cur' = filter (fc_match C) rs"
    from send_rest[OF this(1) loop(2)] obtain gs where
      "concat gs = concat gs1 @ cur'" "groups_sent C pre gs (ff_send st2)" "counted C (ff_proc st) (ff_hist st) gs st2"
      unfolding st2_def by blast
    then show ?thesis using all same by (intro exI[of _ gs] exI[of _ "[]"]) (simp add: st'_def)
  next
    fix rest
    assume s: "groups_sent C pre gs1 (ff_send st1)" "s_buff_cnt (ff_send st1) = 0" "ff_reached st1"
      "flagged (ff_hist st) st1" "alone C \<and> \<not> ff_reached st \<longrightarrow> limit_hit C st1"
      and split: "concat gs1 @ rest = filter (fc_match C) rs"
    have st2: "st2 = access C (set_limit_reached (fc_limit C)) st1" using rest_of_stopped[OF s(2)] by (simp add: st2_def)
    have "ff_proc st2 = ff_proc st1" if "alone C"
      using access_alone[OF that, of "set_limit_reached (fc_limit C)" st1] by (auto simp: st2 set_limit_reached_def)
    moreover have "counted C (ff_proc st) (ff_hist st) gs1 st2" unfolding st2 by (rule counted_limit[OF loop(2)])
    moreover have "flagged (ff_hist st) st2" unfolding st2 by (rule flagged_stays[OF s(4) counted_length[OF loop(2)]])
    moreover have "ff_reached st2" if "monotone_others C"
      unfolding st2 using that s(3) by (rule access_reached) (simp add: set_limit_reached_def)
    ultimately show ?thesis
      using s(1,5) split same by (intro exI[of _ gs1] exI[of _ rest]) (auto simp: st2 st'_def limit_hit_def)
  qed
  then show ?thesis unfolding run pre_def by blast
qed

text \<open>C19: reading a flow file in list mode, whatever the other threads do to the shared counter
  and flag: no buffer is overrun or written while MPI owns it, the records that pass the filter are
  sent in file order in nonempty messages of at most one buffer, and a record is left out only
  after the record limit has been reached.  A thread that works alone counts the records it sends
  exactly, and stops early only when it has counted the limit.\<close>

theorem ff_read_and_send_prefix:
  assumes ok: "ff_cfg_ok L C" and mono: "monotone_others C" and bufs: "\<forall>i. length (bufs i) = XCHG_BUFF_SIZE"
  shows "\<exists>st' gs rest. ff_read_and_send C bufs rs st = Ret st'
    \<and> s_sent (ff_send st') = s_sent (ff_send st) @ map (\<lambda>g. (fc_tag C, pack (map (raw_record C) g))) gs
    \<and> (\<forall>g\<in>set gs. g \<noteq> [] \<and> length (pack (map (raw_record C) g)) \<le> XCHG_BUFF_SIZE)
    \<and> concat gs @ rest = filter (fc_match C) rs
    \<and> (rest \<noteq> [] \<longrightarrow> ff_reached st')
    \<and> (alone C \<and> \<not> ff_reached st \<longrightarrow>
         ff_proc st' = ff_proc st + of_nat (length (concat gs)) \<and> (rest \<noteq> [] \<longrightarrow> limit_hit C st'))"
proof -
  obtain st' gs rest where r: "ff_read_and_send C bufs rs st = Ret st'"
    "groups_sent C (s_sent (ff_send st)) gs (ff_send st')" "concat gs @ rest = filter (fc_match C) rs"
    "counted C (ff_proc st) (ff_hist st) gs st'"
    "rest \<noteq> [] \<longrightarrow> ff_reached st' \<and> (alone C \<and> \<not> ff_reached st \<longrightarrow> limit_hit C st')"
    using ff_read_and_send_Ret[OF ok bufs, of rs st] mono by blast
  then show ?thesis
    by (intro exI[of _ st'] exI[of _ gs] exI[of _ rest]) (auto simp: groups_sent_def counted_def)
qed

subsection \<open>Instances\<close>

definition sample_ff_fields :: fields where
  "sample_ff_fields = empty_fields\<lparr>all_flds := (all_flds empty_fields)[0 := \<lparr>fld_id = 13, fld_size = 1\<rparr>],
     all_cnt := 1, all_sizes_sum := 1\<rparr>"

definition sample_ff_cfg :: "byte ff_cfg" where
  "sample_ff_cfg = \<lparr>fc_fields = sample_ff_fields, fc_match = (\<lambda>r. r \<noteq> 0), fc_get = (\<lambda>r _. [r]),
     fc_u64 = (\<lambda>_ _. 1), fc_limit = 0, fc_tag = TAG_LIST, fc_others = (\<lambda>_ x. x)\<rparr>"

definition sample_ff_state :: ff_state where
  "sample_ff_state = \<lparr>ff_send = send_init [] (\<lambda>_. []), ff_proc = 0, ff_reached = False, ff_summ = zero_ps, ff_hist = []\<rparr>"

lemma sample_ff_cfg_ok: "ff_cfg_ok sample_libnf sample_ff_cfg"
proof -
  have "all_inv sample_libnf sample_ff_fields"
    by (simp add: all_inv_def sample_ff_fields_def empty_fields_def valid_id_def sample_libnf_def
        field_get_size_def assert_id_def lnf_info_ok_def max_defs nth_list_update take_Suc hd_conv_nth)
  then show ?thesis
    by (simp add: ff_cfg_ok_def sample_ff_cfg_def)
      (simp add: sample_ff_fields_def empty_fields_def max_defs XCHG_BUFF_SIZE_def)
qed

theorem ff_read_and_send_prefix_witness:
  "\<exists>st' gs rest. ff_read_and_send sample_ff_cfg (\<lambda>_. replicate XCHG_BUFF_SIZE 0) [1, 0, 2] sample_ff_state = Ret st'
    \<and> s_sent (ff_send st') = s_sent (ff_send sample_ff_state)
        @ map (\<lambda>g. (fc_tag sample_ff_cfg, pack (map (raw_record sample_ff_cfg) g))) gs
    \<and> (\<forall>g\<in>set gs. g \<noteq> [] \<and> length (pack (map (raw_record sample_ff_cfg) g)) \<le> XCHG_BUFF_SIZE)
    \<and> concat gs @ rest = filter (fc_match sample_ff_cfg) [1, 0, 2]
    \<and> (rest \<noteq> [] \<longrightarrow> ff_reached st')
    \<and> (alone sample_ff_cfg \<and> \<not> ff_reached sample_ff_state \<longrightarrow>
         ff_proc st' = ff_proc sample_ff_state + of_nat (length (concat gs))
         \<and> (rest \<noteq> [] \<longrightarrow> limit_hit sample_ff_cfg st'))"
  by (rule ff_read_and_send_prefix[OF sample_ff_cfg_ok])
    (simp_all add: monotone_others_def sample_ff_cfg_def)

end
