(* ===== verification/Recv.thy ===== *)
theory Recv
  imports Send_Raw "HOL-Library.Multiset"
begin

text \<open>
  \<open>recv_loop\<close> and its callbacks of \<open>src/master.c\<close>, \<open>mpi_wait_poll\<close> of
  \<open>src/common.c\<close>, and the network between them: every sender's messages arrive in
  the order it sent them, those of different senders in any order.
\<close>

subsection \<open>Waiting for a request\<close>

text \<open>
  The \<open>k\<close>-th \<open>MPI_Test\<close> reports completion when \<open>tests k\<close>; the \<open>k\<close>-th
  \<open>nanosleep\<close> is interrupted by a signal when \<open>sleeps k\<close>; \<open>MPI_Wait\<close>
  polls without sleeping.  The value is
  whether the operation has completed (the code returns -1 when it has not).
\<close>

partial_function (option) wait_poll_loop :: "(nat \<Rightarrow> bool) \<Rightarrow> (nat \<Rightarrow> bool) \<Rightarrow> nat \<Rightarrow> bool option" where
  "wait_poll_loop tests sleeps k =
     (if tests k then Some True
      else if sleeps k then Some False
      else wait_poll_loop tests sleeps (Suc k))"

definition mpi_wait_poll :: "int \<Rightarrow> int \<Rightarrow> (nat \<Rightarrow> bool) \<Rightarrow> (nat \<Rightarrow> bool) \<Rightarrow> bool option" where
  "mpi_wait_poll tv_sec tv_nsec tests sleeps =
     (if tv_sec = 0 \<and> tv_nsec = 0 then wait_poll_loop tests (\<lambda>_. False) 0
      else wait_poll_loop tests sleeps 0)"

subsection \<open>The receiving loop\<close>

type_synonym 's callback = "byte list \<Rightarrow> 32 word \<Rightarrow> 's \<Rightarrow> error_code \<times> 's"

definition mem_write_raw_callback :: "('m \<Rightarrow> byte list \<Rightarrow> 'm option) \<Rightarrow> 'm callback" where
  "mem_write_raw_callback lnf_mem_write_raw data data_len user =
     (case lnf_mem_write_raw user data of
        None \<Rightarrow> (E_LNF, user)
      | Some user' \<Rightarrow> (E_OK, user'))"

definition print_stream_next_callback :: "(byte list \<Rightarrow> 'o \<Rightarrow> 'o) \<Rightarrow> 'o callback" where
  "print_stream_next_callback print_stream_next data data_len out = (E_OK, print_stream_next data out)"

record 's recv_state =
  r_bufs :: "bool \<Rightarrow> byte list"
  r_idx :: bool
  r_request :: "bool option"
  r_active :: nat
  r_msg_cnt :: nat
  r_rec_cnt :: "64 word"
  r_exceeded :: bool
  r_user :: 's

text \<open>The inner loop over the records of a message that ends at offset \<open>msg_end\<close> of the buffer.\<close>

function recv_records ::
  "'s callback \<Rightarrow> byte list \<Rightarrow> nat \<Rightarrow> 64 word \<Rightarrow> nat \<Rightarrow> 64 word \<times> bool \<times> 's \<Rightarrow> (64 word \<times> bool \<times> 's) res" where
  "recv_records cb buf msg_end lim p (cnt, exc, u) =
     (if p < msg_end then
        if p + 4 > length buf then Out_Of_Bounds
        else
          let rec_size = get_u32 (take 4 (drop p buf)) in
          if p + 4 + unat rec_size > length buf then Out_Of_Bounds
          else
            let (ecode, u') = cb (take (unat rec_size) (drop (p + 4) buf)) rec_size u in
            if ecode \<noteq> E_OK then Abort ecode
            else if cnt + 1 = lim then Ret (cnt + 1, True, u')
            else recv_records cb buf msg_end lim (p + 4 + unat rec_size) (cnt + 1, exc, u')
      else Ret (cnt, exc, u))"
  by pat_completeness auto
termination
  by (relation "measure (\<lambda>(cb, buf, msg_end, lim, p, st). msg_end - p)") auto

declare recv_records.simps [simp del]

text \<open>One iteration: the arrived message is in the buffer the request was started with.\<close>

definition recv_msg ::
  "mpi_tag \<Rightarrow> 64 word \<Rightarrow> 's callback \<Rightarrow> message \<Rightarrow> 's recv_state \<Rightarrow> 's recv_state res" where
  "recv_msg tag lim cb msg s =
     (let (msg_tag, m) = msg; b = r_idx s;
          s1 = s\<lparr>r_bufs := (r_bufs s)(b := m @ drop (length m) (r_bufs s b)), r_request := None\<rparr> in
      if r_request s \<noteq> Some b then Assert_Fail
      else if length m > XCHG_BUFF_SIZE then Out_Of_Bounds
      else assert_then (msg_tag = tag)
       (if m = []
        then let active = r_active s1 - 1 in
             Ret (s1\<lparr>r_active := active, r_request := (if active \<noteq> 0 then Some b else None)\<rparr>)
        else let s2 = s1\<lparr>r_msg_cnt := r_msg_cnt s1 + 1, r_idx := \<not> b, r_request := Some (\<not> b)\<rparr> in
             if r_exceeded s2 then Ret s2
             else if r_request s2 = Some b then Data_Race
             else res_bind (recv_records cb (r_bufs s2 b) (length m) lim 0
                             (r_rec_cnt s2, r_exceeded s2, r_user s2))
                   (\<lambda>(cnt, exc, u). Ret (s2\<lparr>r_rec_cnt := cnt, r_exceeded := exc, r_user := u\<rparr>))))"

text \<open>\<open>None\<close>: the loop waits for a message that never comes.\<close>

fun recv_run ::
  "mpi_tag \<Rightarrow> 64 word \<Rightarrow> 's callback \<Rightarrow> message list \<Rightarrow> 's recv_state \<Rightarrow> 's recv_state res option" where
  "recv_run tag lim cb [] s = (if r_active s = 0 then Some (Ret s) else None)"
| "recv_run tag lim cb (m # ms) s =
     (if r_active s = 0 then Some (Ret s)
      else case recv_msg tag lim cb m s of
             Ret s' \<Rightarrow> recv_run tag lim cb ms s'
           | Abort x \<Rightarrow> Some (Abort x)
           | Assert_Fail \<Rightarrow> Some Assert_Fail
           | Out_Of_Bounds \<Rightarrow> Some Out_Of_Bounds
           | Data_Race \<Rightarrow> Some Data_Race)"

definition recv_init :: "(bool \<Rightarrow> byte list) \<Rightarrow> nat \<Rightarrow> 's \<Rightarrow> 's recv_state" where
  "recv_init bufs source_cnt u =
     \<lparr>r_bufs = bufs, r_idx = False, r_request = Some False, r_active = source_cnt,
      r_msg_cnt = 0, r_rec_cnt = 0, r_exceeded = False, r_user = u\<rparr>"

definition recv_loop ::
  "(bool \<Rightarrow> byte list) \<Rightarrow> nat \<Rightarrow> 64 word \<Rightarrow> mpi_tag \<Rightarrow> 's callback \<Rightarrow> 's \<Rightarrow> message list \<Rightarrow> 's res option" where
  "recv_loop bufs source_cnt lim tag cb u ms =
     (if source_cnt = 0 then Some Assert_Fail
      else map_option
        (\<lambda>r. res_bind r (\<lambda>s. assert_then (r_request s = None) (Ret (r_user s))))
        (recv_run tag lim cb ms (recv_init bufs source_cnt u)))"

subsection \<open>The network\<close>

inductive arrives :: "'m list list \<Rightarrow> 'm list \<Rightarrow> bool" where
  arrives_done: "\<forall>q\<in>set qs. q = [] \<Longrightarrow> arrives qs []"
| arrives_next: "i < length qs \<Longrightarrow> qs ! i = m # rest \<Longrightarrow> arrives (qs[i := rest]) out \<Longrightarrow> arrives qs (m # out)"

inductive_cases arrives_NilE: "arrives qs []"
inductive_cases arrives_ConsE: "arrives qs (m # out)"

lemma arrives_prefix:
  "i < length qs \<Longrightarrow> qs ! i = g @ rest \<Longrightarrow> arrives (qs[i := rest]) out \<Longrightarrow> arrives qs (g @ out)"
proof (induction g arbitrary: qs)
  case Nil
  then show ?case by (metis append_Nil list_update_id)
next
  case (Cons x g)
  have "arrives (qs[i := g @ rest]) (g @ out)" using Cons by (intro Cons.IH) simp_all
  with Cons.prems show ?case by (auto intro: arrives_next)
qed

lemma arrives_mset: "arrives qs out \<Longrightarrow> mset out = sum_list (map mset qs)"
proof (induction rule: arrives.induct)
  case (arrives_done qs)
  then show ?case by (induction qs) auto
next
  case (arrives_next i qs m rest out)
  define A where "A = take i qs"
  define B where "B = drop (Suc i) qs"
  have "qs = A @ (m # rest) # B"
    unfolding A_def B_def using arrives_next.hyps(1,2) by (metis id_take_nth_drop)
  moreover have "qs[i := rest] = A @ rest # B"
    unfolding A_def B_def using arrives_next.hyps(1) by (rule upd_conv_take_nth_drop)
  ultimately have "sum_list (map mset qs) = add_mset m (sum_list (map mset (qs[i := rest])))"
    by simp
  with arrives_next.IH show ?case by simp
qed

subsection \<open>What is received\<close>

text \<open>The effect of records on the counter, the limit flag and the callback's state.\<close>

fun absorb :: "'s callback \<Rightarrow> 64 word \<Rightarrow> byte list list \<Rightarrow> 64 word \<times> bool \<times> 's \<Rightarrow> 64 word \<times> bool \<times> 's" where
  "absorb cb lim [] st = st"
| "absorb cb lim (r # rs) (cnt, exc, u) =
     (if exc then (cnt, exc, u)
      else absorb cb lim rs (cnt + 1, cnt + 1 = lim, snd (cb r (of_nat (length r)) u)))"

lemma absorb_exceeded: "absorb cb lim rs (cnt, True, u) = (cnt, True, u)"
  by (cases rs) simp_all

lemma absorb_append: "absorb cb lim (rs @ ss) st = absorb cb lim ss (absorb cb lim rs st)"
  by (induction cb lim rs st rule: absorb.induct) (auto simp: absorb_exceeded)

definition deliver :: "'s callback \<Rightarrow> byte list list \<Rightarrow> 's \<Rightarrow> 's" where
  "deliver cb rs u = fold (\<lambda>r u. snd (cb r (of_nat (length r)) u)) rs u"

lemma deliver_Cons [simp]: "deliver cb (r # rs) u = deliver cb rs (snd (cb r (of_nat (length r)) u))"
  by (simp add: deliver_def)

lemma deliver_Nil [simp]: "deliver cb [] u = u"
  by (simp add: deliver_def)

lemma absorb_from:
  "n + length rs < 2 ^ 64 \<Longrightarrow> lim = 0 \<or> n < unat lim \<Longrightarrow>
   absorb cb lim rs (of_nat n, False, u) =
     (let taken = (if lim = 0 then rs else take (unat lim - n) rs) in
      (of_nat (n + length taken), lim \<noteq> 0 \<and> n + length taken = unat lim, deliver cb taken u))"
proof (induction rs arbitrary: n u)
  case Nil
  then show ?case by auto
next
  case (Cons r rs)
  have n: "n + 1 < 2 ^ 64" using Cons.prems(1) by simp
  have eq: "of_nat n + 1 = lim \<longleftrightarrow> n + 1 = unat lim"
  proof -
    have "of_nat n + 1 = (of_nat (n + 1) :: 64 word)" by simp
    moreover have "unat (of_nat (n + 1) :: 64 word) = n + 1" using n by (simp add: unat_of_nat take_bit_nat_eq_self del: of_nat_add of_nat_Suc)
    ultimately show ?thesis by (metis word_unat_eq_iff)
  qed
  show ?case
  proof (cases "of_nat n + 1 = lim")
    case True
    then have "lim \<noteq> 0" "unat lim - n = 1" using eq by auto
    with True eq show ?thesis by (simp add: absorb_exceeded Let_def)
  next
    case False
    have "lim = 0 \<or> n + 1 < unat lim" using False eq Cons.prems(2) by auto
    moreover have "unat lim - n = Suc (unat lim - (n + 1))" if "lim \<noteq> 0"
      using that calculation by simp
    moreover have "absorb cb lim rs (of_nat (n + 1), False, snd (cb r (of_nat (length r)) u)) =
      (let taken = (if lim = 0 then rs else take (unat lim - (n + 1)) rs) in
      (of_nat (n + 1 + length taken), lim \<noteq> 0 \<and> n + 1 + length taken = unat lim,
       deliver cb taken (snd (cb r (of_nat (length r)) u))))"
      using Cons.prems(1) calculation(1) by (intro Cons.IH) simp_all
    ultimately show ?thesis using False by (auto simp: Let_def ac_simps)
  qed
qed

definition cb_total :: "'s callback \<Rightarrow> bool" where
  "cb_total cb \<longleftrightarrow> (\<forall>d n u. fst (cb d n u) = E_OK)"

lemma recv_records_pack:
  assumes "cb_total cb"
  shows "\<forall>r\<in>set g. rec_ok r \<Longrightarrow> buf = pre @ pack g @ junk \<Longrightarrow>
    recv_records cb buf (length pre + length (pack g)) lim (length pre) (cnt, False, u)
      = Ret (absorb cb lim g (cnt, False, u))"
proof (induction g arbitrary: pre cnt u)
  case Nil
  then show ?case by (simp add: recv_records.simps)
next
  case (Cons r g)
  have r: "rec_ok r" using Cons.prems by simp
  define u' where "u' = snd (cb r (of_nat (length r)) u)"
  have cb: "cb r (of_nat (length r)) u = (E_OK, u')"
    using assms by (simp add: u'_def cb_total_def prod_eq_iff)
  have buf: "buf = pre @ put_u32 (of_nat (length r)) @ r @ pack g @ junk"
    using Cons.prems(2) by (simp add: frame_def)
  have size: "get_u32 (take 4 (drop (length pre) buf)) = of_nat (length r)"
    unfolding buf by simp
  have data: "take (length r) (drop (length pre + 4) buf) = r"
    unfolding buf by (simp add: add.commute)
  have IH: "recv_records cb buf (length (pre @ frame r) + length (pack g)) lim (length (pre @ frame r)) (cnt + 1, False, u')
      = Ret (absorb cb lim g (cnt + 1, False, u'))"
    by (rule Cons.IH) (use Cons.prems in simp_all)
  have "\<not> length buf < length pre + 4" "\<not> length buf < length pre + 4 + length r" unfolding buf by simp_all
  then show ?case
    using IH cb size data
    by (simp add: recv_records.simps[of cb buf _ lim "length pre"] rec_ok_size[OF r] Let_def
        absorb_exceeded u'_def[symmetric] add.assoc)
qed

subsection \<open>Every record arrives\<close>

text \<open>What a sender still has in flight: nothing, or groups of records and its terminator.\<close>

definition in_flight :: "mpi_tag \<Rightarrow> byte list list list option \<Rightarrow> message list" where
  "in_flight tag p = (case p of None \<Rightarrow> [] | Some gs \<Rightarrow> sender_msgs tag gs)"

definition flight_recs :: "byte list list list option \<Rightarrow> byte list list" where
  "flight_recs p = (case p of None \<Rightarrow> [] | Some gs \<Rightarrow> concat gs)"

definition flight_ok :: "byte list list list option \<Rightarrow> bool" where
  "flight_ok p \<longleftrightarrow>
     (\<forall>gs g. p = Some gs \<longrightarrow> g \<in> set gs \<longrightarrow> g \<noteq> [] \<and> length (pack g) \<le> XCHG_BUFF_SIZE \<and> (\<forall>r\<in>set g. rec_ok r))"

definition active :: "byte list list list option list \<Rightarrow> nat" where
  "active ps = length (filter (\<lambda>p. p \<noteq> None) ps)"

lemma in_flight_Nil: "in_flight tag p = [] \<longleftrightarrow> p = None"
  by (cases p) (simp_all add: in_flight_def sender_msgs_def)

lemma in_flight_Cons:
  "in_flight tag p = m # rest \<Longrightarrow>
     (p = Some [] \<and> m = (tag, []) \<and> rest = in_flight tag None)
   \<or> (\<exists>g gs. p = Some (g # gs) \<and> m = (tag, pack g) \<and> rest = in_flight tag (Some gs))"
proof (cases p)
  case None
  then show "in_flight tag p = m # rest \<Longrightarrow> ?thesis" by (simp add: in_flight_def)
next
  case (Some gs)
  then show "in_flight tag p = m # rest \<Longrightarrow> ?thesis"
    by (cases gs) (auto simp: in_flight_def sender_msgs_def send_terminator_def)
qed

lemma active_update:
  "i < length ps \<Longrightarrow> ps ! i \<noteq> None \<Longrightarrow>
   active (ps[i := p]) = (if p = None then active ps - 1 else active ps) \<and> 0 < active ps"
proof -
  assume i: "i < length ps" "ps ! i \<noteq> None"
  define A where "A = take i ps"
  define B where "B = drop (Suc i) ps"
  have e: "ps = A @ ps ! i # B" unfolding A_def B_def using i(1) by (rule id_take_nth_drop)
  have u: "ps[i := p] = A @ p # B"
    unfolding A_def B_def using i(1) by (rule upd_conv_take_nth_drop)
  have act: "active (A @ x # B) = active A + active B + (if x = None then 0 else 1)" for x
    by (simp add: active_def)
  have "active ps = active (A @ ps ! i # B)" by (rule arg_cong[OF e])
  then have "active ps = active A + active B + 1" using i(2) by (simp add: act)
  then show ?thesis by (simp add: u act)
qed

lemma active_zero: "active ps = 0 \<longleftrightarrow> (\<forall>p\<in>set ps. p = None)"
  by (auto simp: active_def filter_empty_conv)

definition recv_inv :: "byte list list list option list \<Rightarrow> 's recv_state \<Rightarrow> bool" where
  "recv_inv ps s \<longleftrightarrow>
     r_active s = active ps
   \<and> r_request s = (if active ps = 0 then None else Some (r_idx s))"

definition progress :: "'s recv_state \<Rightarrow> 64 word \<times> bool \<times> 's" where
  "progress s = (r_rec_cnt s, r_exceeded s, r_user s)"

lemma recv_terminator:
  assumes "recv_inv ps s" "i < length ps" "ps ! i = Some []"
  shows "\<exists>s'. recv_msg tag lim cb (tag, []) s = Ret s' \<and> recv_inv (ps[i := None]) s' \<and> progress s' = progress s"
  using assms active_update[of i ps None]
  by (auto simp: recv_msg_def recv_inv_def progress_def Let_def)

lemma recv_data:
  assumes cb: "cb_total cb" and inv: "recv_inv ps s" and i: "i < length ps" "ps ! i = Some (g # gs)"
    and ok: "flight_ok (ps ! i)"
  shows "\<exists>s'. recv_msg tag lim cb (tag, pack g) s = Ret s' \<and> recv_inv (ps[i := Some gs]) s'
    \<and> progress s' = absorb cb lim g (progress s)"
proof -
  have g: "g \<noteq> []" "length (pack g) \<le> XCHG_BUFF_SIZE" "\<forall>r\<in>set g. rec_ok r"
    using ok i unfolding flight_ok_def by auto
  have act: "active (ps[i := Some gs]) = active ps" "0 < active ps"
    using active_update[OF i(1), of "Some gs"] i(2) by auto
  define b where "b = r_idx s"
  define buf where "buf = pack g @ drop (length (pack g)) (r_bufs s b)"
  have recs: "recv_records cb buf (length (pack g)) lim 0 (r_rec_cnt s, False, r_user s)
      = Ret (absorb cb lim g (r_rec_cnt s, False, r_user s))"
    using recv_records_pack[OF cb g(3), of buf "[]" _ lim] by (simp add: buf_def)
  obtain c e u where a: "absorb cb lim g (r_rec_cnt s, False, r_user s) = (c, e, u)"
    by (metis prod_cases3)
  have rq: "r_request s = Some b" using inv act by (simp add: recv_inv_def b_def)
  show ?thesis
    using inv act g rq recs a
    by (cases "r_exceeded s")
      (auto simp: recv_msg_def Let_def b_def[symmetric] buf_def[symmetric] pack_Nil_iff recv_inv_def
        progress_def absorb_exceeded)
qed

lemma recv_run_arrives:
  assumes cb: "cb_total cb"
  shows "arrives qs ms \<Longrightarrow> qs = map (in_flight tag) ps \<Longrightarrow> \<forall>p\<in>set ps. flight_ok p \<Longrightarrow> recv_inv ps s \<Longrightarrow>
    \<exists>s' delivered. recv_run tag lim cb ms s = Some (Ret s') \<and> r_request s' = None
      \<and> arrives (map flight_recs ps) delivered \<and> progress s' = absorb cb lim delivered (progress s)"
proof (induction arbitrary: ps s rule: arrives.induct)
  case (arrives_done qs)
  then have "\<forall>p\<in>set ps. p = None" by (auto simp: in_flight_Nil)
  then have "active ps = 0" "\<forall>q\<in>set (map flight_recs ps). q = []"
    by (simp add: active_zero) (use \<open>\<forall>p\<in>set ps. p = None\<close> in \<open>auto dest!: bspec simp: flight_recs_def\<close>)
  then have "active ps = 0" "arrives (map flight_recs ps) []"
    by (auto intro: arrives.arrives_done)
  with arrives_done.prems show ?case by (intro exI[of _ s] exI[of _ "[]"]) (simp add: recv_inv_def)
next
  case (arrives_next i qs m rest out)
  have i: "i < length ps" "in_flight tag (ps ! i) = m # rest"
    using arrives_next.hyps(1,2) arrives_next.prems(1) by simp_all
  have ok: "flight_ok (ps ! i)" using i(1) arrives_next.prems(2) by simp
  have step: "\<exists>p' g. rest = in_flight tag p' \<and> flight_ok p' \<and> flight_recs (ps ! i) = g @ flight_recs p'
      \<and> (\<exists>s1. recv_msg tag lim cb m s = Ret s1 \<and> recv_inv (ps[i := p']) s1
           \<and> progress s1 = absorb cb lim g (progress s))"
    using in_flight_Cons[OF i(2)]
  proof (elim disjE exE conjE)
    assume t: "ps ! i = Some []" "m = (tag, [])" "rest = in_flight tag None"
    show ?thesis
      using recv_terminator[OF arrives_next.prems(3) i(1) t(1), of tag lim cb] t
      by (intro exI[of _ None] exI[of _ "[]"]) (simp add: flight_ok_def flight_recs_def)
  next
    fix g gs
    assume t: "ps ! i = Some (g # gs)" "m = (tag, pack g)" "rest = in_flight tag (Some gs)"
    show ?thesis
      using recv_data[OF cb arrives_next.prems(3) i(1) t(1) ok, of tag lim] t ok
      by (intro exI[of _ "Some gs"] exI[of _ g]) (auto simp: flight_ok_def flight_recs_def)
  qed
  then obtain p' g s1 where p': "rest = in_flight tag p'" "flight_ok p'" "flight_recs (ps ! i) = g @ flight_recs p'"
    "recv_msg tag lim cb m s = Ret s1" "recv_inv (ps[i := p']) s1"
    "progress s1 = absorb cb lim g (progress s)" by blast
  have "qs[i := rest] = map (in_flight tag) (ps[i := p'])"
    using arrives_next.prems(1) p'(1) by (simp add: map_update)
  moreover have "\<forall>p\<in>set (ps[i := p']). flight_ok p"
    using arrives_next.prems(2) p'(2) set_update_subset_insert by fastforce
  ultimately obtain s' d where s': "recv_run tag lim cb out s1 = Some (Ret s')" "r_request s' = None"
    "arrives (map flight_recs (ps[i := p'])) d" "progress s' = absorb cb lim d (progress s1)"
    using arrives_next.IH p'(5) by blast
  have "r_active s \<noteq> 0"
    using arrives_next.prems(3) active_update[OF i(1), of None] i(2) in_flight_Nil[of tag "ps ! i"]
    by (simp add: recv_inv_def)
  then have "recv_run tag lim cb (m # out) s = Some (Ret s')" using p'(4) s'(1) by simp
  moreover have "arrives (map flight_recs ps) (g @ d)"
    using i(1) p'(3) s'(3) by (intro arrives_prefix[of i]) (simp_all add: map_update)
  moreover have "progress s' = absorb cb lim (g @ d) (progress s)"
    using s'(4) p'(6) by (simp add: absorb_append)
  ultimately show ?case using s'(2) by blast
qed

text \<open>A sender: its records, in the order of its memory, and its record limit.\<close>

type_synonym sender = "byte list list \<times> 64 word"

definition sent_recs :: "sender \<Rightarrow> byte list list" where
  "sent_recs sn = (case sn of (recs, lim) \<Rightarrow> if lim = 0 then recs else take (unat lim) recs)"

definition sends ::
  "(byte list \<Rightarrow> int \<Rightarrow> raw_result) \<Rightarrow> nat \<Rightarrow> mpi_tag \<Rightarrow> (bool \<Rightarrow> byte list) \<Rightarrow> sender \<Rightarrow> message list \<Rightarrow> bool" where
  "sends rr ml tag bufs sn out \<longleftrightarrow>
     (case sn of (recs, lim) \<Rightarrow> send_raw_mem rr ml recs lim tag bufs XCHG_BUFF_SIZE = Some (Ret out))"

lemma set_sent_recs: "set (sent_recs sn) \<subseteq> set (fst sn)"
  by (auto simp: sent_recs_def split: prod.splits dest: in_set_takeD)

lemma sends_flight:
  assumes "raw_read_ok rr" "send_params_ok ml XCHG_BUFF_SIZE (fst sn)"
    "\<forall>i. length (bufs i) = XCHG_BUFF_SIZE" "sends rr ml tag bufs sn out"
  shows "\<exists>p. out = in_flight tag p \<and> flight_ok p \<and> flight_recs p = sent_recs sn \<and> p \<noteq> None"
proof -
  obtain recs lim where sn: "sn = (recs, lim)" by (cases sn)
  obtain gs where gs: "out = sender_msgs tag gs" "concat gs = sent_recs sn"
    "\<forall>g\<in>set gs. g \<noteq> [] \<and> length (pack g) \<le> XCHG_BUFF_SIZE"
    using send_raw_mem_Ret[OF assms(1) _ assms(3), of ml recs lim tag] assms(2,4)
    by (auto simp: sn sends_def sent_recs_def)
  have "rec_ok r" if "g \<in> set gs" "r \<in> set g" for g r
  proof -
    have "r \<in> set (concat gs)" using that by auto
    then have "r \<in> set (sent_recs sn)" by (simp only: gs(2))
    then have "r \<in> set (fst sn)" by (rule subsetD[OF set_sent_recs])
    then show ?thesis using assms(2) by (auto simp: send_params_ok_def rec_ok_def)
  qed
  with gs show ?thesis
    by (intro exI[of _ "Some gs"]) (auto simp: in_flight_def flight_ok_def flight_recs_def)
qed

lemma recv_loop_arrives:
  assumes "cb_total cb" and "arrives (map (in_flight tag) ps) ms" and "\<forall>p\<in>set ps. flight_ok p \<and> p \<noteq> None"
    and "ps \<noteq> []" and "length (concat (map flight_recs ps)) < 2 ^ 64"
  shows "\<exists>delivered. arrives (map flight_recs ps) delivered
    \<and> recv_loop bufs (length ps) lim tag cb u ms
      = Some (Ret (deliver cb (if lim = 0 then delivered else take (unat lim) delivered) u))"
proof -
  have act: "active ps = length ps" using assms(3) by (simp add: active_def)
  have "recv_inv ps (recv_init bufs (length ps) u)"
    using act assms(4) by (simp add: recv_inv_def recv_init_def)
  then obtain s d where s: "recv_run tag lim cb ms (recv_init bufs (length ps) u) = Some (Ret s)"
    "r_request s = None" "arrives (map flight_recs ps) d"
    "progress s = absorb cb lim d (progress (recv_init bufs (length ps) u))"
    using recv_run_arrives[OF assms(1,2) refl] assms(3) by blast
  have "size (mset d) = length (concat (map flight_recs ps))"
    unfolding arrives_mset[OF s(3)] by (induction ps) simp_all
  then have len: "0 + length d < 2 ^ 64" using assms(5) by simp
  have "lim = 0 \<or> 0 < unat lim" by (simp add: unat_gt_0)
  then have "r_user s = deliver cb (if lim = 0 then d else take (unat lim) d) u"
    using absorb_from[OF len, of lim cb u] s(4) by (simp add: progress_def recv_init_def Let_def)
  with s assms(4) show ?thesis by (auto simp: recv_loop_def)
qed

text \<open>C9: the exchange loses nothing.  Whatever the interleaving of the messages of the slave
  threads, \<open>recv_loop\<close> ends, no buffer is overrun or used while MPI owns it, no assertion fails,
  and the callback sees every record of every sender (up to its limit) exactly once, each sender's
  in order; with a record limit it sees the first records of that sequence.\<close>

theorem exchange_delivers_all:
  assumes "raw_read_ok rr" and "cb_total cb" and "senders \<noteq> []"
    and "\<forall>s\<in>set senders. send_params_ok ml XCHG_BUFF_SIZE (fst s)"
    and "\<forall>i. length (bufs i) = XCHG_BUFF_SIZE"
    and "list_all2 (sends rr ml tag bufs) senders outs"
    and "arrives outs ms"
    and "length (concat (map sent_recs senders)) < 2 ^ 64"
  shows "\<exists>delivered. arrives (map sent_recs senders) delivered
    \<and> recv_loop rbufs (length senders) lim tag cb u ms
      = Some (Ret (deliver cb (if lim = 0 then delivered else take (unat lim) delivered) u))"
proof -
  have "\<exists>ps. outs = map (in_flight tag) ps \<and> (\<forall>p\<in>set ps. flight_ok p \<and> p \<noteq> None)
      \<and> map flight_recs ps = map sent_recs senders"
    using assms(6,4)
  proof (induction rule: list_all2_induct)
    case Nil
    show ?case by (intro exI[of _ "[]"]) simp
  next
    case (Cons s ss out outs)
    obtain p where "out = in_flight tag p" "flight_ok p" "flight_recs p = sent_recs s" "p \<noteq> None"
      using sends_flight[OF assms(1) _ assms(5) Cons.hyps(1)] Cons.prems by auto
    moreover obtain ps where "outs = map (in_flight tag) ps" "\<forall>p\<in>set ps. flight_ok p \<and> p \<noteq> None"
      "map flight_recs ps = map sent_recs ss" using Cons.IH Cons.prems by auto
    ultimately show ?case by (intro exI[of _ "p # ps"]) simp
  qed
  then obtain ps where ps: "outs = map (in_flight tag) ps" "\<forall>p\<in>set ps. flight_ok p \<and> p \<noteq> None"
    "map flight_recs ps = map sent_recs senders" by blast
  have len: "length ps = length senders" using ps(3) by (rule map_eq_imp_length_eq)
  have ne: "ps \<noteq> []" using len assms(3) by auto
  have arr: "arrives (map (in_flight tag) ps) ms" using assms(7) by (simp only: ps(1))
  have l8: "length (concat (map flight_recs ps)) < 2 ^ 64" using assms(8) by (simp only: ps(3))
  show ?thesis
    using recv_loop_arrives[OF assms(2) arr ps(2) ne l8, of rbufs lim u] unfolding ps(3) len .
qed

text \<open>C20: a sender's messages, for any record limit: all records up to the limit, in order, in
  nonempty groups that fit the receiver's buffer, then the terminator.  The loop ends, the 64-bit
  and 32-bit space computations do not go wrong, and no buffer is written while its send is pending.\<close>

theorem send_raw_mem_groups:
  assumes "raw_read_ok rr" and "send_params_ok ml bs recs" and "\<forall>i. length (bufs i) = bs"
  shows "\<exists>gs. send_raw_mem rr ml recs lim tag bufs bs = Some (Ret (map (\<lambda>g. (tag, pack g)) gs @ [(tag, [])]))
    \<and> concat gs = (if lim = 0 then recs else take (unat lim) recs)
    \<and> (\<forall>g\<in>set gs. pack g \<noteq> [] \<and> length (pack g) \<le> bs)"
  using send_raw_mem_Ret[OF assms, of lim tag]
  by (simp add: sender_msgs_def send_terminator_def pack_Nil_iff)

subsection \<open>Instances\<close>

definition sample_read :: "byte list \<Rightarrow> int \<Rightarrow> raw_result" where
  "sample_read r n = (if int (length r) \<le> n then Raw_OK r else Raw_NOMEM)"

definition sample_bufs :: "bool \<Rightarrow> byte list" where
  "sample_bufs i = replicate XCHG_BUFF_SIZE 0"

definition sample_cb :: "byte list list callback" where
  "sample_cb d n u = (E_OK, u @ [d])"

definition sample_msgs :: "byte list \<Rightarrow> message list" where
  "sample_msgs r = sender_msgs TAG_SORT [[r]]"

lemma sample_read_ok: "raw_read_ok sample_read"
  by (simp add: raw_read_ok_def sample_read_def)

lemma sample_params: "send_params_ok 2 XCHG_BUFF_SIZE [[1, 2]]" "send_params_ok 2 XCHG_BUFF_SIZE [[3]]"
  by (simp_all add: send_params_ok_def XCHG_BUFF_SIZE_def)

lemma sample_bufs_length: "\<forall>i. length (sample_bufs i) = XCHG_BUFF_SIZE"
  by (simp add: sample_bufs_def)

lemma concat_single:
  "concat gs = [r] \<Longrightarrow> \<forall>g\<in>set gs. g \<noteq> [] \<Longrightarrow> gs = [[r]]"
  by (cases gs) (auto simp: append_eq_Cons_conv concat_eq_Nil_conv neq_Nil_conv)

lemma sample_sends:
  assumes "send_params_ok 2 XCHG_BUFF_SIZE [r]"
  shows "sends sample_read 2 TAG_SORT sample_bufs ([r], 0) (sample_msgs r)"
proof -
  obtain gs where gs: "send_raw_mem sample_read 2 [r] 0 TAG_SORT sample_bufs XCHG_BUFF_SIZE
      = Some (Ret (sender_msgs TAG_SORT gs))" "concat gs = [r]" "\<forall>g\<in>set gs. g \<noteq> []"
    using send_raw_mem_Ret[OF sample_read_ok assms sample_bufs_length, of 0 TAG_SORT] by auto
  have "gs = [[r]]" using gs(2,3) by (rule concat_single)
  with gs(1) show ?thesis by (simp add: sends_def sample_msgs_def)
qed

theorem send_raw_mem_groups_witness:
  "\<exists>gs. send_raw_mem sample_read 2 [[1, 2]] 5 TAG_SORT sample_bufs XCHG_BUFF_SIZE
      = Some (Ret (map (\<lambda>g. (TAG_SORT, pack g)) gs @ [(TAG_SORT, [])]))
    \<and> concat gs = (if (5 :: 64 word) = 0 then [[1, 2]] else take (unat (5 :: 64 word)) [[1, 2]])
    \<and> (\<forall>g\<in>set gs. pack g \<noteq> [] \<and> length (pack g) \<le> XCHG_BUFF_SIZE)"
  by (rule send_raw_mem_groups[OF sample_read_ok sample_params(1) sample_bufs_length])

text \<open>Two senders whose messages interleave.\<close>

lemma sample_arrives:
  "arrives [sample_msgs [1, 2], sample_msgs [3]]
     [(TAG_SORT, pack [[3]]), (TAG_SORT, pack [[1, 2]]), (TAG_SORT, []), (TAG_SORT, [])]"
  unfolding sample_msgs_def sender_msgs_def send_terminator_def
  by (rule arrives_next[of 1], simp, simp, rule arrives_next[of 0], simp, simp,
      rule arrives_next[of 0], simp, simp, rule arrives_next[of 1], simp, simp, rule arrives_done, simp)

theorem exchange_delivers_all_witness:
  "\<exists>delivered. arrives (map sent_recs [([[1, 2]], 0), ([[3]], 0)]) delivered
    \<and> recv_loop sample_bufs (length [([[1, 2]] :: byte list list, 0 :: 64 word), ([[3]], 0)]) 1 TAG_SORT sample_cb []
        [(TAG_SORT, pack [[3]]), (TAG_SORT, pack [[1, 2]]), (TAG_SORT, []), (TAG_SORT, [])]
      = Some (Ret (deliver sample_cb
          (if (1 :: 64 word) = 0 then delivered else take (unat (1 :: 64 word)) delivered) []))"
proof (rule exchange_delivers_all[OF sample_read_ok])
  show "cb_total sample_cb" by (simp add: cb_total_def sample_cb_def)
  show "list_all2 (sends sample_read 2 TAG_SORT sample_bufs) [([[1, 2]], 0), ([[3]], 0)]
      [sample_msgs [1, 2], sample_msgs [3]]"
    using sample_sends sample_params by simp
qed (use sample_params sample_arrives sample_bufs_length in \<open>simp_all add: sent_recs_def\<close>)

end
