(* ===== verification/Bfindex.thy ===== *)
theory Bfindex
  imports Prelude "HOL-Library.Word"
begin

text \<open>
  \<open>src/bfindex.c\<close>: the tree of IP addresses that is built from a compiled
  filter, its reduction, its evaluation against a Bloom filter index, and the
  name of the index file that belongs to a flow file.

  The compiled filter is a tree of the ffilter library; of its nodes the code
  reads the type, the operator, the network value and the two children.  The
  static variables \<open>ip_cnt\<close> and \<open>global_ecode\<close> and the outcomes of
  \<open>malloc\<close> are the state.
\<close>

subsection \<open>Filter nodes (ffilter.h, as far as the code reads them)\<close>

datatype ff_type =
    FF_TYPE_ADDR | FF_TYPE_UNSUPPORTED
  | FF_TYPE_UNSIGNED | FF_TYPE_UNSIGNED_BIG | FF_TYPE_SIGNED | FF_TYPE_SIGNED_BIG
  | FF_TYPE_UINT8 | FF_TYPE_UINT16 | FF_TYPE_UINT32 | FF_TYPE_UINT64
  | FF_TYPE_INT8 | FF_TYPE_INT16 | FF_TYPE_INT32 | FF_TYPE_INT64
  | FF_TYPE_DOUBLE | FF_TYPE_MAC | FF_TYPE_STRING | FF_TYPE_MPLS
  | FF_TYPE_TIMESTAMP | FF_TYPE_TIMESTAMP_BIG | FF_TYPE_TERM
  | FF_TYPE_UNKNOWN

datatype ff_oper =
    FF_OP_AND | FF_OP_OR
  | FF_OP_UNDEF | FF_OP_NOT | FF_OP_IN | FF_OP_YES | FF_OP_NOOP | FF_OP_EQ | FF_OP_LT
  | FF_OP_GT | FF_OP_ISSET | FF_OP_ISNSET | FF_OP_EXIST | FF_OP_TERM
  | FF_OP_UNKNOWN

type_synonym ip_data = "32 word list"

record ff_net =
  net_ver :: int
  net_mask :: ip_data
  net_ip :: ip_data

datatype ff_node =
  FF_Node (ff_ntype: ff_type) (ff_noper: ff_oper) (ff_nvalue: ff_net)
    (ff_left: "ff_node option") (ff_right: "ff_node option")

lemma ff_child_size:
  "ff_left n = Some m \<Longrightarrow> size m < size n" "ff_right n = Some m \<Longrightarrow> size m < size n"
  by (cases n; simp)+

subsection \<open>Index nodes and the module's state\<close>

datatype bf_ecode = BFINDEX_E_OK | BFINDEX_E_MEM | BFINDEX_E_LIMIT | BFINDEX_E_NO_EQ | BFINDEX_E_MASK

datatype node_type =
  NODE_TYPE_UNSET | NODE_TYPE_OPER_AND | NODE_TYPE_OPER_OR | NODE_TYPE_ADDR_V4 | NODE_TYPE_ADDR_V6

datatype bfindex_node =
    BF_Addr node_type ip_data
  | BF_Oper node_type "bfindex_node option" "bfindex_node option"

fun bf_type :: "bfindex_node \<Rightarrow> node_type" where
  "bf_type (BF_Addr t _) = t"
| "bf_type (BF_Oper t _ _) = t"

record bf_state =
  ip_cnt :: "64 word"
  global_ecode :: bf_ecode
  malloc_outcomes :: "bool list"

definition init_bf_state :: bf_state where
  "init_bf_state = \<lparr>ip_cnt = 0, global_ecode = BFINDEX_E_OK, malloc_outcomes = []\<rparr>"

definition MAX_IP_ADDRESES :: "64 word" where "MAX_IP_ADDRESES = 20"

definition UINT32_MAX :: "32 word" where "UINT32_MAX = - 1"

definition node_type_is_addr :: "node_type \<Rightarrow> bool" where
  "node_type_is_addr t \<longleftrightarrow> t = NODE_TYPE_ADDR_V4 \<or> t = NODE_TYPE_ADDR_V6"

definition node_type_is_oper :: "node_type \<Rightarrow> bool" where
  "node_type_is_oper t \<longleftrightarrow> t = NODE_TYPE_OPER_AND \<or> t = NODE_TYPE_OPER_OR"

text \<open>\<open>malloc\<close>: the outcomes are consumed one by one; past the end of the list it succeeds.\<close>

fun bf_malloc :: "bf_state \<Rightarrow> bool \<times> bf_state" where
  "bf_malloc s =
     (case malloc_outcomes s of [] \<Rightarrow> (True, s)
      | b # bs \<Rightarrow> (b, s\<lparr>malloc_outcomes := bs\<rparr>))"

definition fail_with :: "bf_ecode \<Rightarrow> bf_state \<Rightarrow> (bfindex_node option \<times> bf_state) res" where
  "fail_with e s = Ret (None, s\<lparr>global_ecode := e\<rparr>)"

subsection \<open>Construction\<close>

definition build_addr_node :: "bf_state \<Rightarrow> ff_node \<Rightarrow> (bfindex_node option \<times> bf_state) res" where
  "build_addr_node s n =
     assert_then (ff_ntype n = FF_TYPE_ADDR)
      (if ff_noper n \<noteq> FF_OP_EQ then fail_with BFINDEX_E_NO_EQ s
       else
         let s1 = s\<lparr>ip_cnt := ip_cnt s + 1\<rparr> in
         if ip_cnt s1 > MAX_IP_ADDRESES then fail_with BFINDEX_E_LIMIT s1
         else
           let net = ff_nvalue n in
           res_bind
            (if net_ver net = 4 then Ret (NODE_TYPE_ADDR_V4, net_mask net ! 3 \<noteq> UINT32_MAX)
             else if net_ver net = 6
             then Ret (NODE_TYPE_ADDR_V6, net_mask net \<noteq> replicate 4 UINT32_MAX)
             else Abort E_INTERNAL) (\<lambda>(node_type, using_mask).
           if using_mask then fail_with BFINDEX_E_MASK s1
           else
             (case bf_malloc s1 of (node, s2) \<Rightarrow>
              if \<not> node then fail_with BFINDEX_E_MEM s2
              else Ret (Some (BF_Addr node_type (net_ip net)), s2))))"

definition prune_oper_subtree ::
  "node_type \<Rightarrow> bfindex_node option \<Rightarrow> bfindex_node option \<Rightarrow> bfindex_node option res" where
  "prune_oper_subtree t left right =
     assert_then (node_type_is_oper t)
      (Ret (case (left, right) of
              (None, None) \<Rightarrow> None
            | (None, Some r) \<Rightarrow> Some r
            | (Some l, None) \<Rightarrow> Some l
            | (Some (BF_Addr tyl ipl), Some (BF_Addr tyr ipr)) \<Rightarrow>
                if node_type_is_addr tyl \<and> node_type_is_addr tyr \<and> tyl = tyr \<and> ipl = ipr
                then left
                else Some (BF_Oper t left right)
            | _ \<Rightarrow> Some (BF_Oper t left right)))"

function (sequential)
  build_node :: "bf_state \<Rightarrow> ff_node option \<Rightarrow> (bfindex_node option \<times> bf_state) res"
and
  build_oper_node :: "bf_state \<Rightarrow> ff_node \<Rightarrow> (bfindex_node option \<times> bf_state) res"
where
  "build_node s None = Assert_Fail"
| "build_node s (Some n) =
     (case ff_ntype n of
        FF_TYPE_ADDR \<Rightarrow> build_addr_node s n
      | FF_TYPE_UNSUPPORTED \<Rightarrow> build_oper_node s n
      | FF_TYPE_UNKNOWN \<Rightarrow> Abort E_INTERNAL
      | _ \<Rightarrow> fail_with BFINDEX_E_OK s)"
| "build_oper_node s n =
     assert_then (ff_ntype n = FF_TYPE_UNSUPPORTED)
      (if ff_noper n = FF_OP_UNKNOWN then Abort E_INTERNAL
       else if ff_noper n \<noteq> FF_OP_AND \<and> ff_noper n \<noteq> FF_OP_OR then fail_with BFINDEX_E_OK s
       else
         let node_type = (if ff_noper n = FF_OP_AND then NODE_TYPE_OPER_AND else NODE_TYPE_OPER_OR) in
         (case bf_malloc s of (node, s1) \<Rightarrow>
          if \<not> node then fail_with BFINDEX_E_MEM s1
          else
            res_bind (build_node s1 (ff_left n)) (\<lambda>(left, s2).
            res_bind (build_node s2 (ff_right n)) (\<lambda>(right, s3).
            res_bind (prune_oper_subtree node_type left right) (\<lambda>reduced_node.
            Ret (reduced_node, s3))))))"
  by pat_completeness auto
termination
  by (relation "measure (\<lambda>x. case x of
      Inl (s, m) \<Rightarrow> (case m of None \<Rightarrow> 0 | Some n \<Rightarrow> 2 * size n + 2)
    | Inr (s, n) \<Rightarrow> 2 * size n + 1)")
    (auto split: option.split dest: ff_child_size)

declare build_node.simps [simp del] build_oper_node.simps [simp del]

definition bfindex_init :: "bf_state \<Rightarrow> ff_node option \<Rightarrow> (bfindex_node option \<times> bf_state) res" where
  "bfindex_init s filter_root =
     assert_then (filter_root \<noteq> None)
      (res_bind (build_node s filter_root) (\<lambda>(bfindex_root, s1).
       if bfindex_root = None then Ret (None, s1)
       else if global_ecode s1 \<noteq> BFINDEX_E_OK then Ret (None, s1)
       else Ret (bfindex_root, s1)))"

subsection \<open>Evaluation\<close>

text \<open>
  \<open>stored\<close> is \<open>bfi_addr_is_stored\<close> on a loaded index.  A node whose type
  does not fit its variant of the union, or a missing child, is undefined
  behaviour of the code.
\<close>

fun bfindex_tree_contains :: "(ip_data \<Rightarrow> bool) \<Rightarrow> bfindex_node \<Rightarrow> bool res" where
  "bfindex_tree_contains stored (BF_Addr t ip) =
     (if node_type_is_addr t then Ret (stored ip)
      else if t = NODE_TYPE_UNSET then Abort E_INTERNAL else Out_Of_Bounds)"
| "bfindex_tree_contains stored (BF_Oper t (Some l) (Some r)) =
     (if t = NODE_TYPE_OPER_AND then
        res_bind (bfindex_tree_contains stored l) (\<lambda>a.
          if a then bfindex_tree_contains stored r else Ret False)
      else if t = NODE_TYPE_OPER_OR then
        res_bind (bfindex_tree_contains stored l) (\<lambda>a.
          if a then Ret True else bfindex_tree_contains stored r)
      else if t = NODE_TYPE_UNSET then Abort E_INTERNAL else Out_Of_Bounds)"
| "bfindex_tree_contains stored (BF_Oper t l r) =
     (if t = NODE_TYPE_UNSET then Abort E_INTERNAL else Out_Of_Bounds)"

text \<open>\<open>load\<close> is \<open>bfi_load_index\<close>: an index that cannot be loaded excludes nothing.\<close>

definition bfindex_contains ::
  "(string \<Rightarrow> (ip_data \<Rightarrow> bool) option) \<Rightarrow> bfindex_node \<Rightarrow> string \<Rightarrow> bool res" where
  "bfindex_contains load node index_file_path =
     (case load index_file_path of
        None \<Rightarrow> Ret True
      | Some stored \<Rightarrow> bfindex_tree_contains stored node)"

fun bfindex_free :: "bfindex_node option \<Rightarrow> nat" where
  \<comment> \<open>the number of nodes handed to \<open>free\<close>\<close>
  "bfindex_free None = 0"
| "bfindex_free (Some (BF_Addr t ip)) = 1"
| "bfindex_free (Some (BF_Oper t l r)) =
     (if node_type_is_oper t then bfindex_free l + bfindex_free r else 0) + 1"

subsection \<open>Index file names\<close>

definition FLOW_FILE_NAME_PREFIX :: string where "FLOW_FILE_NAME_PREFIX = ''lnf''"
definition BFINDEX_FILE_NAME_PREFIX :: string where "BFINDEX_FILE_NAME_PREFIX = ''bfi.''"

text \<open>The part of a path up to and including the last slash, and the rest.\<close>

definition dir_part :: "string \<Rightarrow> string" where
  "dir_part p = rev (dropWhile (\<lambda>c. c \<noteq> CHR ''/'') (rev p))"

definition file_part :: "string \<Rightarrow> string" where
  "file_part p = rev (takeWhile (\<lambda>c. c \<noteq> CHR ''/'') (rev p))"

definition cut_prefix :: "string \<Rightarrow> string \<Rightarrow> string" where
  "cut_prefix pre s = (if take (length pre) s = pre then drop (length pre) s else s)"

text \<open>\<open>None\<close>: the allocation of the result failed.\<close>

definition bfindex_flow_to_index_path :: "bool \<Rightarrow> string \<Rightarrow> string option res" where
  "bfindex_flow_to_index_path malloc_ok flow_file_path =
     (if flow_file_path = [] then Out_Of_Bounds
      else
        assert_then (last flow_file_path \<noteq> CHR ''/'')
         (if \<not> malloc_ok then Ret None
          else Ret (Some (dir_part flow_file_path @ BFINDEX_FILE_NAME_PREFIX
                          @ cut_prefix (FLOW_FILE_NAME_PREFIX @ ''.'') (file_part flow_file_path)))))"

subsection \<open>Trees the code builds are well formed\<close>

fun wf_bf :: "bfindex_node \<Rightarrow> bool" where
  "wf_bf (BF_Addr t ip) = node_type_is_addr t"
| "wf_bf (BF_Oper t (Some l) (Some r)) = (node_type_is_oper t \<and> wf_bf l \<and> wf_bf r)"
| "wf_bf (BF_Oper t l r) = False"

text \<open>What an index query means: \<open>and\<close>/\<open>or\<close> over the answers for the addresses.\<close>

fun bf_eval :: "(ip_data \<Rightarrow> bool) \<Rightarrow> bfindex_node \<Rightarrow> bool" where
  "bf_eval stored (BF_Addr t ip) = stored ip"
| "bf_eval stored (BF_Oper t (Some l) (Some r)) =
     (if t = NODE_TYPE_OPER_AND then bf_eval stored l \<and> bf_eval stored r
      else bf_eval stored l \<or> bf_eval stored r)"
| "bf_eval stored (BF_Oper t l r) = False"

lemma tree_contains_eval: "wf_bf t \<Longrightarrow> bfindex_tree_contains stored t = Ret (bf_eval stored t)"
  by (induction stored t rule: bf_eval.induct) (auto simp: node_type_is_oper_def)

lemma prune_wf:
  assumes "prune_oper_subtree t l r = Ret (Some m)"
    and "\<And>x. l = Some x \<Longrightarrow> wf_bf x" and "\<And>x. r = Some x \<Longrightarrow> wf_bf x"
  shows "wf_bf m"
  using assms
  by (auto simp: prune_oper_subtree_def res_simps split: option.splits bfindex_node.splits if_splits)

lemma prune_None: "node_type_is_oper t \<Longrightarrow> prune_oper_subtree t l r = Ret None \<longleftrightarrow> l = None \<and> r = None"
  by (auto simp: prune_oper_subtree_def split: option.splits bfindex_node.splits)

lemma prune_Ret: "node_type_is_oper t \<Longrightarrow> \<exists>m. prune_oper_subtree t l r = Ret m"
  by (simp add: prune_oper_subtree_def)

lemma prune_one:
  "node_type_is_oper t \<Longrightarrow> prune_oper_subtree t None r = Ret r"
  "node_type_is_oper t \<Longrightarrow> prune_oper_subtree t l None = Ret l"
  by (auto simp: prune_oper_subtree_def split: option.splits bfindex_node.splits)

lemma prune_eval:
  assumes "prune_oper_subtree t (Some l) (Some r) = Ret (Some m)"
  shows "bf_eval stored m \<longleftrightarrow>
    (if t = NODE_TYPE_OPER_AND then bf_eval stored l \<and> bf_eval stored r
     else bf_eval stored l \<or> bf_eval stored r)"
  using assms
  by (auto simp: prune_oper_subtree_def res_simps split: bfindex_node.splits if_splits)

lemma build_addr_wf: "build_addr_node s n = Ret (Some t, s') \<Longrightarrow> wf_bf t"
  by (auto simp: build_addr_node_def fail_with_def res_simps node_type_is_addr_def Let_def
      split: if_splits prod.splits)

lemma build_wf:
  "build_node s nd = Ret (Some t, s') \<Longrightarrow> wf_bf t"
  "build_oper_node s n = Ret (Some t, s') \<Longrightarrow> wf_bf t"
proof (induction s nd and s n arbitrary: t s' and t s' rule: build_node_build_oper_node.induct)
  case (1 s)
  then show ?case by (simp add: build_node.simps)
next
  case (2 s n)
  then show ?case
    by (auto simp: build_node.simps fail_with_def dest: build_addr_wf split: ff_type.splits)
next
  case (3 s n)
  from "3.prems" obtain s1 l s2 r m where
    g: "ff_ntype n = FF_TYPE_UNSUPPORTED" "ff_noper n \<noteq> FF_OP_UNKNOWN"
      "\<not> (ff_noper n \<noteq> FF_OP_AND \<and> ff_noper n \<noteq> FF_OP_OR)"
    and mal: "bf_malloc s = (True, s1)"
    and l: "build_node s1 (ff_left n) = Ret (l, s2)"
    and r: "build_node s2 (ff_right n) = Ret (r, s')"
    and p: "prune_oper_subtree (if ff_noper n = FF_OP_AND then NODE_TYPE_OPER_AND else NODE_TYPE_OPER_OR) l r
              = Ret (Some t)"
    by (auto simp: build_oper_node.simps fail_with_def res_simps Let_def
        split: if_splits prod.splits)
  have "\<And>x. l = Some x \<Longrightarrow> wf_bf x" "\<And>x. r = Some x \<Longrightarrow> wf_bf x"
    using "3.IH"(1)[OF g(2,3) refl mal[symmetric]] "3.IH"(2)[OF g(2,3) refl mal[symmetric]] l r by auto
  then show ?case by (rule prune_wf[OF p])
qed

text \<open>Whatever filter and whatever allocation failures, a tree that \<open>bfindex_init\<close> returns can
  be evaluated: the query reaches neither a missing child nor an illegal node type.\<close>

theorem bfindex_query_total:
  assumes "bfindex_init s root = Ret (Some t, s')"
  shows "\<exists>b. bfindex_tree_contains stored t = Ret b"
proof -
  have "\<exists>s1. build_node s root = Ret (Some t, s1)"
    using assms by (auto simp: bfindex_init_def res_simps split: if_splits)
  then show ?thesis using build_wf(1) tree_contains_eval by blast
qed

subsection \<open>Which filters are indexed, and when the index is a safe over-approximation\<close>

definition full_mask :: "ff_net \<Rightarrow> bool" where
  "full_mask net \<longleftrightarrow>
     (net_ver net = 4 \<and> net_mask net ! 3 = UINT32_MAX)
   \<or> (net_ver net = 6 \<and> net_mask net = replicate 4 UINT32_MAX)"

definition is_oper :: "ff_node \<Rightarrow> ff_oper \<Rightarrow> bool" where
  "is_oper n opr \<longleftrightarrow> ff_ntype n = FF_TYPE_UNSUPPORTED \<and> ff_noper n = opr"

definition eq_addr :: "ff_node \<Rightarrow> bool" where
  "eq_addr n \<longleftrightarrow> ff_ntype n = FF_TYPE_ADDR \<and> ff_noper n = FF_OP_EQ"

text \<open>
  Filters the ffilter library produces: known node types, both children present
  under \<open>and\<close>/\<open>or\<close>, address nodes of version 4 or 6.
\<close>

fun wf_ff :: "ff_node \<Rightarrow> bool" where
  "wf_ff (FF_Node t opr v l r) \<longleftrightarrow>
     t \<noteq> FF_TYPE_UNKNOWN
   \<and> (t = FF_TYPE_ADDR \<longrightarrow> net_ver v \<in> {4, 6})
   \<and> (t = FF_TYPE_UNSUPPORTED \<longrightarrow> opr \<noteq> FF_OP_UNKNOWN \<and>
        (opr \<in> {FF_OP_AND, FF_OP_OR} \<longrightarrow>
           (case l of None \<Rightarrow> False | Some l' \<Rightarrow> wf_ff l') \<and>
           (case r of None \<Rightarrow> False | Some r' \<Rightarrow> wf_ff r')))"

fun count_addr :: "ff_node \<Rightarrow> nat" where
  "count_addr (FF_Node t opr v l r) =
     (if t = FF_TYPE_ADDR then (if opr = FF_OP_EQ then 1 else 0)
      else if t = FF_TYPE_UNSUPPORTED \<and> opr \<in> {FF_OP_AND, FF_OP_OR} then
        (case l of None \<Rightarrow> 0 | Some l' \<Rightarrow> count_addr l')
        + (case r of None \<Rightarrow> 0 | Some r' \<Rightarrow> count_addr r')
      else 0)"

fun indexable :: "ff_node \<Rightarrow> bool" where
  "indexable (FF_Node t opr v l r) \<longleftrightarrow>
     (if t = FF_TYPE_ADDR then opr = FF_OP_EQ \<and> full_mask v
      else if t = FF_TYPE_UNSUPPORTED \<and> opr \<in> {FF_OP_AND, FF_OP_OR} then
        (case l of None \<Rightarrow> False | Some l' \<Rightarrow> indexable l')
        \<or> (case r of None \<Rightarrow> False | Some r' \<Rightarrow> indexable r')
      else False)"

text \<open>Under every \<open>or\<close>, both sides are indexable or none is.\<close>

fun or_complete :: "ff_node \<Rightarrow> bool" where
  "or_complete (FF_Node t opr v l r) \<longleftrightarrow>
     (t = FF_TYPE_UNSUPPORTED \<and> opr \<in> {FF_OP_AND, FF_OP_OR} \<longrightarrow>
        (case l of None \<Rightarrow> True | Some l' \<Rightarrow> or_complete l')
      \<and> (case r of None \<Rightarrow> True | Some r' \<Rightarrow> or_complete r')
      \<and> (opr = FF_OP_OR \<longrightarrow>
          (case l of None \<Rightarrow> False | Some l' \<Rightarrow> indexable l')
          = (case r of None \<Rightarrow> False | Some r' \<Rightarrow> indexable r')))"

text \<open>
  What the code relies on of ffilter: a record matches an \<open>and\<close> only if it
  matches both sides, an \<open>or\<close> only if it matches one, and an equality with a
  full address only if it carries that address.
\<close>

definition ff_semantics :: "(ff_node \<Rightarrow> 'r \<Rightarrow> bool) \<Rightarrow> ('r \<Rightarrow> ip_data set) \<Rightarrow> bool" where
  "ff_semantics matches addrs \<longleftrightarrow>
     (\<forall>n l r x. is_oper n FF_OP_AND \<longrightarrow> ff_left n = Some l \<longrightarrow> ff_right n = Some r \<longrightarrow>
        matches n x \<longrightarrow> matches l x \<and> matches r x)
   \<and> (\<forall>n l r x. is_oper n FF_OP_OR \<longrightarrow> ff_left n = Some l \<longrightarrow> ff_right n = Some r \<longrightarrow>
        matches n x \<longrightarrow> matches l x \<or> matches r x)
   \<and> (\<forall>n x. eq_addr n \<longrightarrow> full_mask (ff_nvalue n) \<longrightarrow> matches n x \<longrightarrow>
        net_ip (ff_nvalue n) \<in> addrs x)"

text \<open>The result of one build, in the absence of allocation failures and below the address limit.\<close>

definition built ::
  "(ff_node \<Rightarrow> 'r \<Rightarrow> bool) \<Rightarrow> ('r \<Rightarrow> ip_data set) \<Rightarrow> ff_node \<Rightarrow> bf_state \<Rightarrow> bfindex_node option \<Rightarrow> bf_state \<Rightarrow> bool"
where
  "built matches addrs n s r s' \<longleftrightarrow>
     malloc_outcomes s' = [] \<and> unat (ip_cnt s') = unat (ip_cnt s) + count_addr n
   \<and> (r \<noteq> None \<longleftrightarrow> indexable n)
   \<and> (\<forall>t stored x. r = Some t \<longrightarrow> or_complete n \<longrightarrow> matches n x \<longrightarrow> (\<forall>a\<in>addrs x. stored a) \<longrightarrow>
        bf_eval stored t)"

lemma unat_Suc_limit:
  fixes w :: "64 word"
  assumes "unat w < 20"
  shows "unat (w + 1) = unat w + 1" "\<not> w + 1 > MAX_IP_ADDRESES"
proof -
  show *: "unat (w + 1) = unat w + 1"
    using assms by (simp add: unat_word_ariths)
  show "\<not> w + 1 > MAX_IP_ADDRESES"
    using assms * by (simp add: word_less_nat_alt MAX_IP_ADDRESES_def)
qed

lemma build_addr_spec:
  assumes sem: "ff_semantics matches addrs" and n: "ff_ntype n = FF_TYPE_ADDR" "wf_ff n"
    and s: "malloc_outcomes s = []" "unat (ip_cnt s) + count_addr n \<le> 20"
  shows "\<exists>r s'. build_addr_node s n = Ret (r, s') \<and> built matches addrs n s r s'"
proof (cases "ff_noper n = FF_OP_EQ")
  case False
  with n s show ?thesis
    by (cases n) (auto simp: build_addr_node_def fail_with_def built_def)
next
  case True
  have cnt: "count_addr n = 1" and ver: "net_ver (ff_nvalue n) = 4 \<or> net_ver (ff_nvalue n) = 6"
    and ix: "indexable n \<longleftrightarrow> full_mask (ff_nvalue n)"
    using n True by (cases n; simp)+
  have lim: "unat (ip_cnt s + 1) = unat (ip_cnt s) + 1" "\<not> ip_cnt s + 1 > MAX_IP_ADDRESES"
    using unat_Suc_limit[of "ip_cnt s"] s(2) cnt by simp_all
  have eq: "eq_addr n" using n True by (simp add: eq_addr_def)
  show ?thesis
  proof (cases "full_mask (ff_nvalue n)")
    case True
    have "\<exists>t. build_addr_node s n = Ret (Some (BF_Addr t (net_ip (ff_nvalue n))), s\<lparr>ip_cnt := ip_cnt s + 1\<rparr>)"
      using n \<open>ff_noper n = FF_OP_EQ\<close> lim s(1) True ver
      by (auto simp: build_addr_node_def Let_def full_mask_def)
    moreover have "net_ip (ff_nvalue n) \<in> addrs x" if "matches n x" for x
      using sem eq True that by (auto simp: ff_semantics_def)
    ultimately show ?thesis
      using s(1) cnt ix True lim by (fastforce simp: built_def)
  next
    case False
    have "build_addr_node s n = Ret (None, s\<lparr>ip_cnt := ip_cnt s + 1, global_ecode := BFINDEX_E_MASK\<rparr>)"
      using n \<open>ff_noper n = FF_OP_EQ\<close> lim s(1) False ver
      by (auto simp: build_addr_node_def Let_def full_mask_def fail_with_def)
    then show ?thesis using s(1) cnt ix False lim by (simp add: built_def)
  qed
qed

lemma built_oper:
  assumes sem: "ff_semantics matches addrs"
    and n: "n = FF_Node FF_TYPE_UNSUPPORTED opr v (Some l) (Some r)" "opr \<in> {FF_OP_AND, FF_OP_OR}"
    and l: "built matches addrs l s rl s1" and r: "built matches addrs r s1 rr s2"
    and p: "prune_oper_subtree (if opr = FF_OP_AND then NODE_TYPE_OPER_AND else NODE_TYPE_OPER_OR) rl rr = Ret m"
  shows "built matches addrs n s m s2"
proof -
  let ?t = "if opr = FF_OP_AND then NODE_TYPE_OPER_AND else NODE_TYPE_OPER_OR"
  have oper: "node_type_is_oper ?t" by (simp add: node_type_is_oper_def)
  have none: "m = None \<longleftrightarrow> rl = None \<and> rr = None"
    using prune_None[OF oper, of rl rr] p by auto
  have ix: "m \<noteq> None \<longleftrightarrow> indexable n"
    using n l r none by (auto simp: built_def)
  have sound: "bf_eval stored t"
    if t: "m = Some t" and oc: "or_complete n" and mt: "matches n x" and st: "\<forall>a\<in>addrs x. stored a"
    for t stored x
  proof -
    have ev_l: "bf_eval stored tt" if "rl = Some tt" "matches l x" for tt
      using l that oc st n by (auto simp: built_def)
    have ev_r: "bf_eval stored tt" if "rr = Some tt" "matches r x" for tt
      using r that oc st n by (auto simp: built_def)
    have m_and: "matches l x \<and> matches r x" if "opr = FF_OP_AND"
    proof -
      have "is_oper n FF_OP_AND" "ff_left n = Some l" "ff_right n = Some r"
        using n that by (simp_all add: is_oper_def)
      with sem mt show ?thesis unfolding ff_semantics_def by blast
    qed
    have m_or: "matches l x \<or> matches r x" if "opr = FF_OP_OR"
    proof -
      have "is_oper n FF_OP_OR" "ff_left n = Some l" "ff_right n = Some r"
        using n that by (simp_all add: is_oper_def)
      with sem mt show ?thesis unfolding ff_semantics_def by blast
    qed
    have both: "rl \<noteq> None \<longleftrightarrow> rr \<noteq> None" if "opr = FF_OP_OR"
      using oc n l r that by (auto simp: built_def)
    show ?thesis
    proof (cases rl)
      case None
      then obtain tt where tt: "rr = Some tt" using none t by auto
      then have "opr = FF_OP_AND" using both None n(2) by auto
      moreover have "m = rr" using p None oper by (simp add: prune_one)
      ultimately show ?thesis using m_and ev_r tt t by simp
    next
      case l: (Some tl')
      show ?thesis
      proof (cases rr)
        case None
        then have "opr = FF_OP_AND" using both l n(2) by auto
        moreover have "m = rl" using p None oper by (simp add: prune_one)
        ultimately show ?thesis using m_and ev_l l t by simp
      next
        case r: (Some tr')
        have "bf_eval stored t \<longleftrightarrow> (if ?t = NODE_TYPE_OPER_AND then bf_eval stored tl' \<and> bf_eval stored tr'
            else bf_eval stored tl' \<or> bf_eval stored tr')"
          using prune_eval p l r t by simp
        then show ?thesis using m_and m_or ev_l ev_r l r n(2) by auto
      qed
    qed
  qed
  show ?thesis
    unfolding built_def using l r n ix sound by (auto simp: built_def)
qed

lemma build_spec:
  assumes sem: "ff_semantics matches addrs"
  shows "wf_ff n \<Longrightarrow> malloc_outcomes s = [] \<Longrightarrow> unat (ip_cnt s) + count_addr n \<le> 20 \<Longrightarrow>
    \<exists>r s'. build_node s (Some n) = Ret (r, s') \<and> built matches addrs n s r s'"
proof (induction n arbitrary: s rule: wf_ff.induct)
  case (1 t opr v lo ro)
  let ?n = "FF_Node t opr v lo ro"
  consider (addr) "t = FF_TYPE_ADDR"
    | (oper) "t = FF_TYPE_UNSUPPORTED" "opr \<in> {FF_OP_AND, FF_OP_OR}"
    | (other) "t \<noteq> FF_TYPE_ADDR" "t = FF_TYPE_UNSUPPORTED \<longrightarrow> opr \<notin> {FF_OP_AND, FF_OP_OR}"
    by blast
  then show ?case
  proof cases
    case addr
    then show ?thesis
      using build_addr_spec[OF sem, of ?n s] "1.prems" by (simp add: build_node.simps)
  next
    case other
    then have "build_node s (Some ?n) = Ret (None, s\<lparr>global_ecode := BFINDEX_E_OK\<rparr>)"
      using "1.prems"(1)
      by (cases t) (auto simp: build_node.simps build_oper_node.simps fail_with_def)
    with other "1.prems" show ?thesis by (auto simp: built_def)
  next
    case oper
    then obtain l r where lr: "lo = Some l" "ro = Some r" "wf_ff l" "wf_ff r"
      using "1.prems"(1) by (auto split: option.splits)
    have cnt: "count_addr ?n = count_addr l + count_addr r" using oper lr by simp
    obtain rl s1 where l: "build_node s (Some l) = Ret (rl, s1)" "built matches addrs l s rl s1"
      using "1.IH"(1)[of l s] oper lr "1.prems" cnt by auto
    have s1: "malloc_outcomes s1 = []" "unat (ip_cnt s1) + count_addr r \<le> 20"
      using l(2) "1.prems" cnt by (simp_all add: built_def)
    obtain rr s2 where r: "build_node s1 (Some r) = Ret (rr, s2)" "built matches addrs r s1 rr s2"
      using "1.IH"(2)[of r s1] oper lr s1 by auto
    let ?t = "if opr = FF_OP_AND then NODE_TYPE_OPER_AND else NODE_TYPE_OPER_OR"
    have "node_type_is_oper ?t" by (simp add: node_type_is_oper_def)
    then obtain m where m: "prune_oper_subtree ?t rl rr = Ret m"
      using prune_Ret by blast
    have "build_node s (Some ?n) = Ret (m, s2)"
      using oper lr l(1) r(1) m "1.prems"(2)
      by (auto simp: build_node.simps build_oper_node.simps Let_def)
    moreover have "built matches addrs ?n s m s2"
      using built_oper[OF sem _ oper(2) l(2) r(2) m] oper lr by simp
    ultimately show ?thesis by blast
  qed
qed

text \<open>C8: No false negatives: if every \<open>or\<close> of the filter has either two indexable sides or none, and
  the addresses counted so far (by the threads that built their trees before) together with those of
  the filter are at most 20, a file whose index holds all addresses of a matching record is never
  skipped.  Both conditions are needed: C34 and \<open>bfindex_limit_overwritten\<close> have the counterexamples.\<close>

theorem bfindex_no_false_negative:
  assumes "ff_semantics matches addrs" and "wf_ff n" and "or_complete n"
    and "malloc_outcomes s = []" and "unat (ip_cnt s) + count_addr n \<le> 20"
    and "bfindex_init s (Some n) = Ret (Some t, s')"
    and "matches n x" and "\<forall>a\<in>addrs x. stored a"
    and "load path = Some stored \<or> load path = None"
  shows "bfindex_contains load t path = Ret True"
proof -
  obtain r s1 where r: "build_node s (Some n) = Ret (r, s1)" "built matches addrs n s r s1"
    using build_spec[OF assms(1,2,4,5)] by blast
  have t: "r = Some t" using assms(6) r(1) by (auto simp: bfindex_init_def res_simps split: if_splits)
  have "wf_bf t" using build_wf(1) r(1) t by blast
  moreover have "bf_eval stored t" using r(2) t assms(3,7,8) by (auto simp: built_def)
  ultimately show ?thesis
    using assms(9) by (auto simp: bfindex_contains_def tree_contains_eval split: option.split)
qed

text \<open>A small filter language over records (addresses, port) for the concrete instances.\<close>

definition no_net :: ff_net where "no_net = \<lparr>net_ver = 0, net_mask = [], net_ip = []\<rparr>"

definition v4_net :: "32 word \<Rightarrow> ff_net" where
  "v4_net a = \<lparr>net_ver = 4, net_mask = [0, 0, 0, UINT32_MAX], net_ip = [0, 0, 0, a]\<rparr>"

definition addr_node :: "32 word \<Rightarrow> ff_node" where
  "addr_node a = FF_Node FF_TYPE_ADDR FF_OP_EQ (v4_net a) None None"

definition port_node :: ff_node where
  "port_node = FF_Node FF_TYPE_UINT16 FF_OP_EQ no_net None None"

definition oper_node :: "ff_oper \<Rightarrow> ff_node \<Rightarrow> ff_node \<Rightarrow> ff_node" where
  "oper_node opr l r = FF_Node FF_TYPE_UNSUPPORTED opr no_net (Some l) (Some r)"

fun sample_match :: "ff_node \<Rightarrow> ip_data list \<times> bool \<Rightarrow> bool" where
  "sample_match (FF_Node t opr v l r) x =
     (if t = FF_TYPE_UNSUPPORTED \<and> opr = FF_OP_AND then
        (case l of None \<Rightarrow> False | Some l' \<Rightarrow> sample_match l' x)
        \<and> (case r of None \<Rightarrow> False | Some r' \<Rightarrow> sample_match r' x)
      else if t = FF_TYPE_UNSUPPORTED \<and> opr = FF_OP_OR then
        (case l of None \<Rightarrow> False | Some l' \<Rightarrow> sample_match l' x)
        \<or> (case r of None \<Rightarrow> False | Some r' \<Rightarrow> sample_match r' x)
      else if t = FF_TYPE_ADDR then net_ip v \<in> set (fst x)
      else snd x)"

definition sample_addrs :: "ip_data list \<times> bool \<Rightarrow> ip_data set" where
  "sample_addrs x = set (fst x)"

lemma sample_semantics: "ff_semantics sample_match sample_addrs"
proof -
  have 1: "sample_match l x \<and> sample_match r x"
    if "is_oper n FF_OP_AND" "ff_left n = Some l" "ff_right n = Some r" "sample_match n x" for n l r x
    using that by (cases n) (simp add: is_oper_def)
  have 2: "sample_match l x \<or> sample_match r x"
    if "is_oper n FF_OP_OR" "ff_left n = Some l" "ff_right n = Some r" "sample_match n x" for n l r x
    using that by (cases n) (simp add: is_oper_def)
  have 3: "net_ip (ff_nvalue n) \<in> set (fst x)" if "eq_addr n" "sample_match n x" for n x
    using that by (cases n) (simp add: eq_addr_def)
  show ?thesis
    unfolding ff_semantics_def sample_addrs_def using 1 2 3 by blast
qed

lemmas sample_nodes = addr_node_def port_node_def oper_node_def v4_net_def no_net_def

lemmas build_eval = bfindex_init_def build_node.simps build_oper_node.simps build_addr_node_def
  prune_oper_subtree_def fail_with_def init_bf_state_def Let_def node_type_is_oper_def
  node_type_is_addr_def MAX_IP_ADDRESES_def

theorem bfindex_query_total_witness:
  "\<exists>b. bfindex_tree_contains (\<lambda>_. False) (BF_Addr NODE_TYPE_ADDR_V4 [0, 0, 0, 7]) = Ret b"
proof -
  have "\<exists>s'. bfindex_init init_bf_state (Some (addr_node 7))
      = Ret (Some (BF_Addr NODE_TYPE_ADDR_V4 [0, 0, 0, 7]), s')"
    by (simp add: build_eval sample_nodes)
  then show ?thesis using bfindex_query_total by blast
qed

theorem bfindex_no_false_negative_witness:
  "bfindex_contains (\<lambda>_. Some (\<lambda>a. a = [0, 0, 0, 7])) (BF_Addr NODE_TYPE_ADDR_V4 [0, 0, 0, 7]) ''bfi.1''
   = Ret True"
proof -
  let ?n = "oper_node FF_OP_AND (addr_node 7) port_node"
  have init: "bfindex_init init_bf_state (Some ?n)
      = Ret (Some (BF_Addr NODE_TYPE_ADDR_V4 [0, 0, 0, 7]), \<lparr>ip_cnt = 1, global_ecode = BFINDEX_E_OK, malloc_outcomes = []\<rparr>)"
    by (simp add: build_eval sample_nodes)
  show ?thesis
    by (rule bfindex_no_false_negative[OF sample_semantics _ _ _ _ init,
          of "([[0, 0, 0, 7]], True)" "\<lambda>a. a = [0, 0, 0, 7]"])
      (simp_all add: sample_nodes init_bf_state_def sample_addrs_def)
qed

text \<open>C34: The guard on \<open>or\<close> is needed, and the code does not have it: for \<open>address or port\<close> the
  reduction keeps the address alone, so a file without the address is skipped although it holds
  matching records.\<close>

theorem bfindex_or_skips_matching_file:
  "\<exists>t s'. bfindex_init init_bf_state (Some (oper_node FF_OP_OR (addr_node 7) port_node)) = Ret (Some t, s')
     \<and> ff_semantics sample_match sample_addrs
     \<and> sample_match (oper_node FF_OP_OR (addr_node 7) port_node) ([[0, 0, 0, 9]], True)
     \<and> bfindex_contains (\<lambda>_. Some (\<lambda>a. a = [0, 0, 0, 9])) t ''bfi.1'' = Ret False"
  using sample_semantics
  by (simp add: build_eval sample_nodes bfindex_contains_def)

text \<open>So is the bound on the addresses: the error of an address beyond the limit is overwritten by the
  \<open>E_OK\<close> of a node that follows it, and the address is missing in the tree.\<close>

lemma bfindex_limit_overwritten:
  "\<exists>t s'. bfindex_init (init_bf_state\<lparr>ip_cnt := 19\<rparr>)
        (Some (oper_node FF_OP_AND (oper_node FF_OP_OR (addr_node 7) (addr_node 9)) port_node)) = Ret (Some t, s')
     \<and> sample_match (oper_node FF_OP_AND (oper_node FF_OP_OR (addr_node 7) (addr_node 9)) port_node) ([[0, 0, 0, 9]], True)
     \<and> bfindex_contains (\<lambda>_. Some (\<lambda>a. a = [0, 0, 0, 9])) t ''bfi.1'' = Ret False"
  by (simp add: build_eval sample_nodes bfindex_contains_def)

subsection \<open>The address limit\<close>

lemma unat_Suc_big:
  fixes w :: "64 word"
  assumes "20 \<le> unat w" "unat w + 1 < 2 ^ 64"
  shows "unat (w + 1) = unat w + 1" "w + 1 > MAX_IP_ADDRESES"
proof -
  show *: "unat (w + 1) = unat w + 1"
    using assms by (simp add: unat_word_ariths)
  show "w + 1 > MAX_IP_ADDRESES"
    using assms * by (simp add: word_less_nat_alt MAX_IP_ADDRESES_def)
qed

lemma build_addr_exhausted:
  assumes n: "ff_ntype n = FF_TYPE_ADDR"
    and s: "20 \<le> unat (ip_cnt s)" "unat (ip_cnt s) + count_addr n < 2 ^ 64"
  shows "\<exists>s'. build_addr_node s n = Ret (None, s') \<and> unat (ip_cnt s') = unat (ip_cnt s) + count_addr n"
proof (cases "ff_noper n = FF_OP_EQ")
  case False
  with n show ?thesis by (cases n) (simp add: build_addr_node_def fail_with_def)
next
  case True
  then have "count_addr n = 1" using n by (cases n) simp
  with n True s unat_Suc_big[of "ip_cnt s"] show ?thesis
    by (simp add: build_addr_node_def fail_with_def Let_def)
qed

lemma bf_malloc_ip_cnt: "bf_malloc s = (b, s') \<Longrightarrow> ip_cnt s' = ip_cnt s"
  by (auto split: list.splits)

lemma build_exhausted:
  "wf_ff n \<Longrightarrow> 20 \<le> unat (ip_cnt s) \<Longrightarrow> unat (ip_cnt s) + count_addr n < 2 ^ 64 \<Longrightarrow>
   \<exists>s'. build_node s (Some n) = Ret (None, s')
     \<and> unat (ip_cnt s) \<le> unat (ip_cnt s') \<and> unat (ip_cnt s') \<le> unat (ip_cnt s) + count_addr n"
proof (induction n arbitrary: s rule: wf_ff.induct)
  case (1 t opr v lo ro)
  let ?n = "FF_Node t opr v lo ro"
  consider (addr) "t = FF_TYPE_ADDR"
    | (oper) "t = FF_TYPE_UNSUPPORTED" "opr \<in> {FF_OP_AND, FF_OP_OR}"
    | (other) "t \<noteq> FF_TYPE_ADDR" "t = FF_TYPE_UNSUPPORTED \<longrightarrow> opr \<notin> {FF_OP_AND, FF_OP_OR}"
    by blast
  then show ?case
  proof cases
    case addr
    then show ?thesis
      using build_addr_exhausted[of ?n s] "1.prems" by (fastforce simp: build_node.simps)
  next
    case other
    then have "build_node s (Some ?n) = Ret (None, s\<lparr>global_ecode := BFINDEX_E_OK\<rparr>)"
      using "1.prems"(1)
      by (cases t) (auto simp: build_node.simps build_oper_node.simps fail_with_def)
    then show ?thesis by simp
  next
    case oper
    then obtain l r where lr: "lo = Some l" "ro = Some r" "wf_ff l" "wf_ff r"
      using "1.prems"(1) by (auto split: option.splits)
    have cnt: "count_addr ?n = count_addr l + count_addr r" using oper lr by simp
    obtain b s0 where m: "bf_malloc s = (b, s0)" by fastforce
    note ip0 = bf_malloc_ip_cnt[OF m]
    show ?thesis
    proof (cases b)
      case False
      with oper m ip0 show ?thesis
        by (auto simp: build_node.simps build_oper_node.simps fail_with_def Let_def)
    next
      case True
      obtain s1 where l: "build_node s0 (Some l) = Ret (None, s1)"
          "unat (ip_cnt s) \<le> unat (ip_cnt s1)" "unat (ip_cnt s1) \<le> unat (ip_cnt s) + count_addr l"
        using "1.IH"(1)[of l s0] oper lr "1.prems"(2,3) cnt ip0 by auto
      obtain s2 where r: "build_node s1 (Some r) = Ret (None, s2)"
          "unat (ip_cnt s1) \<le> unat (ip_cnt s2)" "unat (ip_cnt s2) \<le> unat (ip_cnt s1) + count_addr r"
        using "1.IH"(2)[of r s1] oper lr l(2,3) "1.prems"(2,3) cnt by auto
      have "build_node s (Some ?n) = Ret (None, s2)"
        using oper lr m True l(1) r(1)
        by (auto simp: build_node.simps build_oper_node.simps Let_def prune_one node_type_is_oper_def)
      with l r cnt show ?thesis by auto
    qed
  qed
qed

text \<open>The address counter is never reset: once the process has seen \<open>MAX_IP_ADDRESES\<close>
  address nodes (in whatever thread or filter), no filter is ever indexed again.\<close>

theorem bfindex_limit_is_per_process:
  assumes "wf_ff n" and "20 \<le> unat (ip_cnt s)" and "unat (ip_cnt s) + count_addr n < 2 ^ 64"
  shows "\<exists>s'. bfindex_init s (Some n) = Ret (None, s')"
  using build_exhausted[OF assms] by (auto simp: bfindex_init_def)

theorem bfindex_limit_is_per_process_witness:
  "\<exists>s'. bfindex_init (init_bf_state\<lparr>ip_cnt := 20\<rparr>) (Some (addr_node 7)) = Ret (None, s')"
  by (rule bfindex_limit_is_per_process) (simp_all add: sample_nodes init_bf_state_def)

subsection \<open>Index file names\<close>

lemma dir_file_parts: "dir_part p @ file_part p = p"
  by (metis dir_part_def file_part_def rev_append rev_rev_ident takeWhile_dropWhile_id)

lemma file_part_no_slash: "CHR ''/'' \<notin> set (file_part p)"
  by (auto simp: file_part_def dest: set_takeWhileD)

lemma dir_part_end: "dir_part p = [] \<or> last (dir_part p) = CHR ''/''"
proof (cases "dropWhile (\<lambda>c. c \<noteq> CHR ''/'') (rev p)")
  case Nil
  then show ?thesis by (simp add: dir_part_def)
next
  case (Cons c cs)
  then have "c = CHR ''/''" using hd_dropWhile[of "\<lambda>c. c \<noteq> CHR ''/''" "rev p"] by simp
  with Cons show ?thesis by (simp add: dir_part_def)
qed

lemma parts_of_append:
  assumes "d = [] \<or> last d = CHR ''/''" and "CHR ''/'' \<notin> set f"
  shows "dir_part (d @ f) = d" "file_part (d @ f) = f"
proof -
  have tw: "takeWhile (\<lambda>c. c \<noteq> CHR ''/'') (rev f @ xs) = rev f @ takeWhile (\<lambda>c. c \<noteq> CHR ''/'') xs" for xs
    by (rule takeWhile_append2) (use assms(2) in auto)
  have dw: "dropWhile (\<lambda>c. c \<noteq> CHR ''/'') (rev f @ xs) = dropWhile (\<lambda>c. c \<noteq> CHR ''/'') xs" for xs
    by (rule dropWhile_append2) (use assms(2) in auto)
  have "takeWhile (\<lambda>c. c \<noteq> CHR ''/'') (rev d) = [] \<and> dropWhile (\<lambda>c. c \<noteq> CHR ''/'') (rev d) = rev d"
    using assms(1) by (cases d rule: rev_cases) auto
  then show "dir_part (d @ f) = d" "file_part (d @ f) = f"
    by (simp_all add: dir_part_def file_part_def tw dw)
qed

text \<open>The index of a flow file lies in the flow file's directory, its name starts with the
  index prefix and is otherwise the flow file's name without the standard flow file prefix.\<close>

theorem index_path_parts:
  assumes "p \<noteq> []" and "last p \<noteq> CHR ''/''"
  shows "\<exists>q. bfindex_flow_to_index_path True p = Ret (Some q) \<and> dir_part q = dir_part p
    \<and> file_part q = BFINDEX_FILE_NAME_PREFIX @ cut_prefix (FLOW_FILE_NAME_PREFIX @ ''.'') (file_part p)
    \<and> length q \<le> length p + length BFINDEX_FILE_NAME_PREFIX"
proof -
  let ?f = "BFINDEX_FILE_NAME_PREFIX @ cut_prefix (FLOW_FILE_NAME_PREFIX @ ''.'') (file_part p)"
  have "set (cut_prefix pre f) \<subseteq> set f" for pre f :: string
    by (auto simp: cut_prefix_def dest: in_set_dropD)
  then have "CHR ''/'' \<notin> set ?f"
    using file_part_no_slash[of p] by (auto simp: BFINDEX_FILE_NAME_PREFIX_def)
  note parts = parts_of_append[OF dir_part_end this]
  have "length (cut_prefix pre f) \<le> length f" for pre f :: string
    by (simp add: cut_prefix_def)
  then have "length (dir_part p @ ?f) \<le> length (dir_part p @ file_part p) + length BFINDEX_FILE_NAME_PREFIX"
    by (simp add: le_diff_conv)
  then show ?thesis
    using assms parts by (simp add: bfindex_flow_to_index_path_def dir_file_parts)
qed

theorem index_path_parts_witness:
  "\<exists>q. bfindex_flow_to_index_path True ''d/lnf.1'' = Ret (Some q) \<and> dir_part q = dir_part ''d/lnf.1''
    \<and> file_part q = BFINDEX_FILE_NAME_PREFIX @ cut_prefix (FLOW_FILE_NAME_PREFIX @ ''.'') (file_part ''d/lnf.1'')
    \<and> length q \<le> length ''d/lnf.1'' + length BFINDEX_FILE_NAME_PREFIX"
  by (rule index_path_parts) simp_all

lemma build_addr_Ret:
  assumes "wf_ff n" "ff_ntype n = FF_TYPE_ADDR"
  shows "\<exists>r s'. build_addr_node s n = Ret (r, s')"
proof (cases n)
  case (FF_Node t opr v l r)
  then have "net_ver v = 4 \<or> net_ver v = 6" using assms by simp
  then show ?thesis
    using assms(2) FF_Node by (auto simp: build_addr_node_def fail_with_def Let_def split: prod.split)
qed

text \<open>Whatever the allocations and the address count, the construction returns.\<close>

lemma build_Ret: "wf_ff n \<Longrightarrow> \<exists>r s'. build_node s (Some n) = Ret (r, s')"
proof (induction n arbitrary: s rule: wf_ff.induct)
  case (1 t opr v lo ro)
  let ?n = "FF_Node t opr v lo ro"
  show ?case
  proof (cases "t = FF_TYPE_UNSUPPORTED \<and> opr \<in> {FF_OP_AND, FF_OP_OR}")
    case False
    then show ?thesis
      using build_addr_Ret[OF "1.prems"] "1.prems"
      by (cases t) (auto simp: build_node.simps build_oper_node.simps fail_with_def)
  next
    case True
    then obtain l r where lr: "lo = Some l" "ro = Some r" "wf_ff l" "wf_ff r"
      using "1.prems" by (auto split: option.splits)
    obtain b s1 where m: "bf_malloc s = (b, s1)" by fastforce
    obtain rl s2 where l: "build_node s1 (Some l) = Ret (rl, s2)" using "1.IH"(1)[of l s1] True lr by auto
    obtain rr s3 where r: "build_node s2 (Some r) = Ret (rr, s3)" using "1.IH"(2)[of r s2] True lr by auto
    let ?t = "if opr = FF_OP_AND then NODE_TYPE_OPER_AND else NODE_TYPE_OPER_OR"
    have "node_type_is_oper ?t" by (simp add: node_type_is_oper_def)
    then obtain m' where "prune_oper_subtree ?t rl rr = Ret m'" using prune_Ret by blast
    then show ?thesis
      using True lr l r m by (auto simp: build_node.simps build_oper_node.simps fail_with_def Let_def)
  qed
qed

lemma bfindex_init_Ret: "wf_ff n \<Longrightarrow> \<exists>r s'. bfindex_init s (Some n) = Ret (r, s')"
  using build_Ret[of n s] by (auto simp: bfindex_init_def)

lemma bfindex_init_wf: "bfindex_init s n = Ret (Some t, s') \<Longrightarrow> wf_bf t"
  using build_wf(1) by (auto simp: bfindex_init_def res_simps split: if_splits)

lemma bfindex_contains_Ret: "wf_bf t \<Longrightarrow> \<exists>b. bfindex_contains load t path = Ret b"
  by (auto simp: bfindex_contains_def tree_contains_eval split: option.split)

end
