(* ===== verification/Path_Array.thy ===== *)
theory Path_Array
  imports Time_Range Bfindex Decimal
begin

text \<open>
  \<open>src/path_array.c\<close>: the list of flow files to read, from the user's paths,
  the time range and the file system.  Path buffers have \<open>PATH_MAX\<close> bytes; a
  string that does not fit with its terminating zero is written out of bounds.

  The file system is a parameter: \<open>fs_stat\<close> (\<open>None\<close> is an error, otherwise
  whether the path is a directory), \<open>fs_readdir\<close> (\<open>None\<close> when \<open>opendir\<close>
  fails), the outcome of the memory allocations, the host name and the MPI rank.
\<close>

definition PATH_MAX :: nat where "PATH_MAX = 4096"
definition PATH_ARRAY_INIT_SIZE :: nat where "PATH_ARRAY_INIT_SIZE = 50"
definition PATH_ARRAY_GROWTH_FACTOR :: nat where "PATH_ARRAY_GROWTH_FACTOR = 2"

record filesys =
  fs_stat :: "string \<Rightarrow> bool option"
  fs_readdir :: "string \<Rightarrow> string list option"
  fs_mem_ok :: "nat \<Rightarrow> bool"
  fs_hostname :: string
  fs_rank :: nat

record path_array_ctx =
  pa_names :: "string option list"
  pa_names_cnt :: nat
  pa_names_size :: nat

subsection \<open>The growing array\<close>

text \<open>\<open>realloc\<close> keeps the entries and leaves the new ones undefined (\<open>None\<close>).\<close>

definition add_path :: "filesys \<Rightarrow> string \<Rightarrow> path_array_ctx \<Rightarrow> path_array_ctx res" where
  "add_path F nm pa =
     assert_then (nm \<noteq> [])
      (let grow = pa_names_cnt pa = pa_names_size pa;
           sz = (if grow then pa_names_size pa * PATH_ARRAY_GROWTH_FACTOR else pa_names_size pa);
           arr = (if grow then pa_names pa @ replicate (sz - pa_names_size pa) None else pa_names pa)
       in abort_if (grow \<and> \<not> fs_mem_ok F sz) E_MEM
         (abort_if (\<not> fs_mem_ok F (length nm + 1)) E_MEM
           (if pa_names_cnt pa < length arr
            then Ret \<lparr>pa_names = arr[pa_names_cnt pa := Some nm],
                      pa_names_cnt = pa_names_cnt pa + 1, pa_names_size = sz\<rparr>
            else Out_Of_Bounds)))"

definition pa_used :: "path_array_ctx \<Rightarrow> string list" where
  "pa_used pa = map the (take (pa_names_cnt pa) (pa_names pa))"

definition pa_inv :: "path_array_ctx \<Rightarrow> bool" where
  "pa_inv pa \<longleftrightarrow>
     pa_names_cnt pa \<le> pa_names_size pa \<and> length (pa_names pa) = pa_names_size pa
   \<and> PATH_ARRAY_INIT_SIZE \<le> pa_names_size pa
   \<and> (pa_names_size pa = PATH_ARRAY_INIT_SIZE \<or> pa_names_size pa < 2 * pa_names_cnt pa)
   \<and> (\<forall>x\<in>set (take (pa_names_cnt pa) (pa_names pa)). x \<noteq> None)"

definition mem_always :: "filesys \<Rightarrow> bool" where
  "mem_always F \<longleftrightarrow> (\<forall>n. fs_mem_ok F n)"

lemma add_path_Ret:
  assumes "pa_inv pa" "nm \<noteq> []" "mem_always F"
  shows "\<exists>pa'. add_path F nm pa = Ret pa' \<and> pa_inv pa' \<and> pa_used pa' = pa_used pa @ [nm]"
proof -
  define c where "c = pa_names_cnt pa"
  define arr where "arr = (if c = pa_names_size pa then pa_names pa @ replicate (pa_names_size pa) None else pa_names pa)"
  define sz where "sz = (if c = pa_names_size pa then pa_names_size pa * 2 else pa_names_size pa)"
  have inv: "c \<le> pa_names_size pa" "length (pa_names pa) = pa_names_size pa" "50 \<le> pa_names_size pa"
    "pa_names_size pa = 50 \<or> pa_names_size pa < 2 * c" "\<forall>x\<in>set (take c (pa_names pa)). x \<noteq> None"
    using assms(1) by (simp_all add: pa_inv_def PATH_ARRAY_INIT_SIZE_def c_def)
  have a: "length arr = sz" "c < sz" "take c arr = take c (pa_names pa)"
    using inv by (auto simp: arr_def sz_def)
  define pa' where "pa' = \<lparr>pa_names = arr[c := Some nm], pa_names_cnt = c + 1, pa_names_size = sz\<rparr>"
  have "add_path F nm pa = Ret pa'"
    using assms(2,3) a(1,2)
    by (auto simp: add_path_def mem_always_def PATH_ARRAY_GROWTH_FACTOR_def Let_def c_def arr_def sz_def pa'_def)
  moreover have t: "take (c + 1) (arr[c := Some nm]) = take c (pa_names pa) @ [Some nm]"
    using a by (simp add: take_simps)
  moreover have "pa_inv pa'"
    using inv a t unfolding pa_inv_def pa'_def PATH_ARRAY_INIT_SIZE_def by (auto simp: sz_def)
  moreover have "pa_used pa' = pa_used pa @ [nm]"
    using t by (simp add: pa_used_def pa'_def c_def)
  ultimately show ?thesis by blast
qed

subsection \<open>From a time range\<close>

text \<open>\<open>strftime\<close> with \<open>FLOW_FILE_FORMAT\<close>: zero when the text and its terminating zero do not fit.\<close>

definition dec2 :: "int \<Rightarrow> string" where
  "dec2 i = zpad 2 (dec_int i)"

definition flow_file_name :: "tm \<Rightarrow> string" where
  "flow_file_name t =
     (let Y = dec_int (tm_year t + TM_YEAR_BASE); m = dec2 (tm_mon t + 1); d = dec2 (tm_mday t)
      in Y @ ''/'' @ m @ ''/'' @ d @ ''/'' @ FLOW_FILE_NAME_PREFIX @ ''.''
         @ Y @ m @ d @ dec2 (tm_hour t) @ dec2 (tm_min t) @ dec2 (tm_sec t))"

definition strftime_flow :: "nat \<Rightarrow> tm \<Rightarrow> string option" where
  "strftime_flow room t = (if length (flow_file_name t) < room then Some (flow_file_name t) else None)"

definition with_slash :: "string \<Rightarrow> string" where
  "with_slash p = (if last p \<noteq> CHR ''/'' then p @ ''/'' else p)"

text \<open>The loop goes round without a step when \<open>strftime\<close> fails, so it may not end.\<close>

partial_function (option) fill_from_time_loop ::
  "filesys \<Rightarrow> tz_env \<Rightarrow> string \<Rightarrow> tm \<Rightarrow> tm \<Rightarrow> path_array_ctx \<Rightarrow> path_array_ctx res option" where
  "fill_from_time_loop F e dir tm_end ctx pa =
     (if tm_diff tm_end ctx > 0
      then (case strftime_flow (PATH_MAX - length dir) ctx of
              None \<Rightarrow> fill_from_time_loop F e dir tm_end ctx pa
            | Some s \<Rightarrow>
                (case mktime_utc e (ctx\<lparr>tm_sec := tm_sec ctx + FLOW_FILE_ROTATION_INTERVAL\<rparr>) of
                   Ret ((_, ctx'), e') \<Rightarrow>
                     (case (if fs_stat F (dir @ s) = None then Ret pa else add_path F (dir @ s) pa) of
                        Ret pa' \<Rightarrow> fill_from_time_loop F e' dir tm_end ctx' pa'
                      | Abort x \<Rightarrow> Some (Abort x)
                      | Assert_Fail \<Rightarrow> Some Assert_Fail
                      | Out_Of_Bounds \<Rightarrow> Some Out_Of_Bounds
                      | Data_Race \<Rightarrow> Some Data_Race)
                 | Abort x \<Rightarrow> Some (Abort x)
                 | Assert_Fail \<Rightarrow> Some Assert_Fail
                 | Out_Of_Bounds \<Rightarrow> Some Out_Of_Bounds
                 | Data_Race \<Rightarrow> Some Data_Race))
      else Some (Ret pa))"

definition fill_from_time ::
  "filesys \<Rightarrow> tz_env \<Rightarrow> string \<Rightarrow> tm \<Rightarrow> tm \<Rightarrow> path_array_ctx \<Rightarrow> path_array_ctx res option" where
  "fill_from_time F e path tm_begin tm_end pa =
     (if path = [] then Some Out_Of_Bounds
      else fill_from_time_loop F e (with_slash path) tm_end tm_begin pa)"

subsection \<open>From a directory tree\<close>

definition hidden :: "string \<Rightarrow> bool" where
  "hidden nm \<longleftrightarrow> nm \<noteq> [] \<and> hd nm = CHR ''.''"

definition is_index_file :: "string \<Rightarrow> bool" where
  "is_index_file nm \<longleftrightarrow>
     take (length BFINDEX_FILE_NAME_PREFIX) nm = BFINDEX_FILE_NAME_PREFIX"

text \<open>\<open>strcpy\<close>, then \<open>strcat\<close> of the slash and of the name, into \<open>new_path[PATH_MAX]\<close>.\<close>

definition child_path :: "string \<Rightarrow> string \<Rightarrow> string res" where
  "child_path path d_name =
     (if path = [] \<or> length path + 1 > PATH_MAX then Out_Of_Bounds
      else let p = with_slash path; q = p @ d_name in
           if length p + 1 > PATH_MAX \<or> length q + 1 > PATH_MAX then Out_Of_Bounds else Ret q)"

definition skip_entry :: "string \<Rightarrow> string \<Rightarrow> bool" where
  "skip_entry path d_name \<longleftrightarrow>
     hidden d_name \<or> is_index_file d_name \<or> length path + length d_name + 1 > PATH_MAX"

text \<open>\<open>None\<close>: the fuel, a bound on the depth of the recursion, is used up.\<close>

fun fill_from_path :: "nat \<Rightarrow> filesys \<Rightarrow> string \<Rightarrow> path_array_ctx \<Rightarrow> path_array_ctx res option"
  and fill_entries :: "nat \<Rightarrow> filesys \<Rightarrow> string \<Rightarrow> string list \<Rightarrow> path_array_ctx \<Rightarrow> path_array_ctx res option" where
  "fill_from_path 0 F path pa = None"
| "fill_from_path (Suc n) F path pa =
     (case fs_stat F path of
        None \<Rightarrow> Some (Ret pa)
      | Some False \<Rightarrow> Some (add_path F path pa)
      | Some True \<Rightarrow>
          (case fs_readdir F path of
             None \<Rightarrow> Some (Ret pa)
           | Some es \<Rightarrow> fill_entries n F path es pa))"
| "fill_entries n F path [] pa = Some (Ret pa)"
| "fill_entries n F path (d # ds) pa =
     (if skip_entry path d then fill_entries n F path ds pa
      else case child_path path d of
             Ret q \<Rightarrow>
               (case fill_from_path n F q pa of
                  None \<Rightarrow> None
                | Some (Ret pa') \<Rightarrow> fill_entries n F path ds pa'
                | Some r \<Rightarrow> Some r)
           | Abort x \<Rightarrow> Some (Abort x)
           | Assert_Fail \<Rightarrow> Some Assert_Fail
           | Out_Of_Bounds \<Rightarrow> Some Out_Of_Bounds
           | Data_Race \<Rightarrow> Some Data_Race)"

subsection \<open>The path preprocessor\<close>

text \<open>\<open>strcat\<close> into \<open>path[PATH_MAX]\<close>.\<close>

definition strcat_path :: "string \<Rightarrow> string \<Rightarrow> string res" where
  "strcat_path path s = (if length path + length s + 1 > PATH_MAX then Out_Of_Bounds else Ret (path @ s))"

text \<open>
  The directives after the initial rank directive.  The value is the result
  of the function and the path built; \<open>gethostname\<close> fails when the name and its
  terminating zero do not fit the rest of the buffer.
\<close>

function expand_directives :: "filesys \<Rightarrow> string \<Rightarrow> string \<Rightarrow> (bool \<times> string) res" where
  "expand_directives F last_path path =
     (case split_at_char (CHR ''%'') last_path of
        None \<Rightarrow> res_bind (strcat_path path last_path) (\<lambda>p. Ret (True, p))
      | Some (before, after) \<Rightarrow>
          (case strcat_path path before of
             Ret p \<Rightarrow>
               if after \<noteq> [] \<and> hd after = CHR ''h'' then
                 if length (fs_hostname F) + 1 > PATH_MAX - length p then Ret (False, p)
                 else expand_directives F (tl after) (p @ fs_hostname F)
               else Ret (False, p)
           | r \<Rightarrow> map_res (\<lambda>p. (False, p)) r))"
  by pat_completeness auto
termination
  by (relation "measure (\<lambda>(F, s, p). length s)") (auto dest!: split_at_char_length)

definition rank_directive :: "string \<Rightarrow> bool" where
  "rank_directive fmt \<longleftrightarrow> (case fmt of c1 # c2 # _ \<Rightarrow> c1 = CHR ''%'' \<and> is_digit c2 | _ \<Rightarrow> False)"

text \<open>\<open>atoi\<close>: the value of \<open>strtol\<close>, which stops at \<open>LONG_MAX\<close>, converted to \<open>int\<close>.\<close>

definition atoi_digits :: "string \<Rightarrow> int" where
  "atoi_digits digits = c_int (int (min (digits_val digits) (2 ^ 63 - 1)))"

definition path_preprocessor :: "filesys \<Rightarrow> string \<Rightarrow> (bool \<times> string) res" where
  "path_preprocessor F fmt =
     (if length fmt \<ge> PATH_MAX then Ret (False, [])
      else if rank_directive fmt
      then let digits = takeWhile is_digit (tl fmt); rest = dropWhile is_digit (tl fmt) in
           if rest = [] \<or> hd rest \<noteq> CHR '':'' then Ret (False, [])
           else if int (fs_rank F) \<noteq> atoi_digits digits then Ret (False, [])
           else expand_directives F (tl rest) []
      else expand_directives F fmt [])"

subsection \<open>All paths\<close>

definition path_array_one ::
  "filesys \<Rightarrow> tz_env \<Rightarrow> tm \<Rightarrow> tm \<Rightarrow> string \<Rightarrow> path_array_ctx \<Rightarrow> path_array_ctx res option" where
  "path_array_one F e tm_begin tm_end path pa =
     (case path_preprocessor F path of
        Ret (False, _) \<Rightarrow> Some (Ret pa)
      | Ret (True, new_path) \<Rightarrow>
          (case fs_stat F new_path of
             None \<Rightarrow> Some (Ret pa)
           | Some is_dir \<Rightarrow>
               if tm_diff tm_end tm_begin > 0 \<and> is_dir
               then fill_from_time F e new_path tm_begin tm_end pa
               else fill_from_path (PATH_MAX + 2) F new_path pa)
      | Abort x \<Rightarrow> Some (Abort x)
      | Assert_Fail \<Rightarrow> Some Assert_Fail
      | Out_Of_Bounds \<Rightarrow> Some Out_Of_Bounds
      | Data_Race \<Rightarrow> Some Data_Race)"

fun path_array_each ::
  "filesys \<Rightarrow> tz_env \<Rightarrow> tm \<Rightarrow> tm \<Rightarrow> string list \<Rightarrow> path_array_ctx \<Rightarrow> path_array_ctx res option" where
  "path_array_each F e tm_begin tm_end [] pa = Some (Ret pa)"
| "path_array_each F e tm_begin tm_end (p # ps) pa =
     (case path_array_one F e tm_begin tm_end p pa of
        Some (Ret pa') \<Rightarrow> path_array_each F e tm_begin tm_end ps pa'
      | r \<Rightarrow> r)"

text \<open>\<open>None\<close> as the value returned is the null pointer of a failed \<open>malloc\<close>.\<close>

definition path_array_gen ::
  "filesys \<Rightarrow> tz_env \<Rightarrow> string list \<Rightarrow> tm \<Rightarrow> tm \<Rightarrow> path_array_ctx option res option" where
  "path_array_gen F e paths tm_begin tm_end =
     (if paths = [] then Some Assert_Fail
      else if \<not> fs_mem_ok F PATH_ARRAY_INIT_SIZE then Some (Ret None)
      else map_option (map_res Some)
            (path_array_each F e tm_begin tm_end paths
              \<lparr>pa_names = replicate PATH_ARRAY_INIT_SIZE None, pa_names_cnt = 0,
               pa_names_size = PATH_ARRAY_INIT_SIZE\<rparr>))"

subsection \<open>The walk through a time range\<close>

text \<open>The files of the slots from \<open>b\<close> on, as long as they begin before \<open>f\<close>.\<close>

definition slot_count :: "int \<Rightarrow> int \<Rightarrow> nat" where
  "slot_count b f = nat ((f - b + 299) div 300)"

definition slot_file :: "string \<Rightarrow> int \<Rightarrow> nat \<Rightarrow> string" where
  "slot_file dir b k = dir @ flow_file_name (gmtime (b + 300 * int k))"

lemma slot_count_step: "b < f \<Longrightarrow> slot_count b f = Suc (slot_count (b + 300) f)"
proof -
  assume "b < f"
  have "(f - b + 299) div 300 = (f - (b + 300) + 299) div 300 + 1"
    using div_add_self2[of 300 "f - (b + 300) + 299"] by simp
  moreover have "0 \<le> (f - (b + 300) + 299) div 300"
    using \<open>b < f\<close> by (simp add: pos_imp_zdiv_nonneg_iff)
  ultimately show ?thesis by (simp add: slot_count_def)
qed

lemma slot_count_zero: "f \<le> b \<Longrightarrow> slot_count b f = 0"
proof -
  assume "f \<le> b"
  then have "(f - b + 299) div 300 \<le> 299 div 300" by (intro zdiv_mono1) simp_all
  then show ?thesis by (simp add: slot_count_def)
qed

lemma slot_files_step:
  "b < f \<Longrightarrow> map (slot_file dir b) [0..< slot_count b f]
     = slot_file dir b 0 # map (slot_file dir (b + 300)) [0..< slot_count (b + 300) f]"
  by (simp add: slot_count_step upt_conv_Cons map_Suc_upt[symmetric] slot_file_def algebra_simps
      del: upt_Suc)

lemma fill_from_time_loop_Ret:
  assumes "env_ok e" "mem_always F"
  shows "pa_inv pa \<Longrightarrow> \<bar>f - b\<bar> < 2 ^ 31 \<Longrightarrow> \<forall>k < slot_count b f. length (slot_file dir b k) < PATH_MAX \<Longrightarrow>
    \<exists>pa'. fill_from_time_loop F e dir (gmtime f) (gmtime b) pa = Some (Ret pa') \<and> pa_inv pa'
      \<and> pa_used pa' = pa_used pa @ filter (\<lambda>p. fs_stat F p \<noteq> None) (map (slot_file dir b) [0..< slot_count b f])"
proof (induction "slot_count b f" arbitrary: b pa)
  case 0
  have "f \<le> b" using 0(1) slot_count_step[of b f] by (cases "b < f") auto
  then have "\<not> tm_diff (gmtime f) (gmtime b) > 0" using 0 by (simp add: tm_diff_gmtime)
  then show ?case using 0 by (subst fill_from_time_loop.simps) simp
next
  case (Suc n)
  have bf: "b < f" using Suc(2) slot_count_zero[of f b] by (cases "b < f") auto
  then have d: "tm_diff (gmtime f) (gmtime b) > 0" using Suc.prems(2) by (simp add: tm_diff_gmtime)
  have range: "\<bar>f - (b + 300)\<bar> < 2 ^ 31" using bf Suc.prems(2) by simp
  let ?p = "slot_file dir b 0"
  have p: "?p = dir @ flow_file_name (gmtime b)" by (simp add: slot_file_def)
  have "length ?p < PATH_MAX" using Suc.prems(3) Suc(2) by auto
  then have s: "strftime_flow (PATH_MAX - length dir) (gmtime b) = Some (flow_file_name (gmtime b))"
    by (simp add: strftime_flow_def p)
  have m: "mktime_utc e (gmtime b\<lparr>tm_sec := tm_sec (gmtime b) + FLOW_FILE_ROTATION_INTERVAL\<rparr>)
      = Ret ((b + 300, gmtime (b + 300)), e)"
    using assms(1) by (simp add: mktime_utc_Ret FLOW_FILE_ROTATION_INTERVAL_def tm_time_gmtime)
  obtain pa1 where pa1: "(if fs_stat F ?p = None then Ret pa else add_path F ?p pa) = Ret pa1" "pa_inv pa1"
    "pa_used pa1 = pa_used pa @ (if fs_stat F ?p = None then [] else [?p])"
  proof (cases "fs_stat F ?p = None")
    case False
    have "?p \<noteq> []" by (simp add: p flow_file_name_def Let_def)
    then obtain pa1 where "add_path F ?p pa = Ret pa1" "pa_inv pa1" "pa_used pa1 = pa_used pa @ [?p]"
      using add_path_Ret[OF Suc.prems(1) _ assms(2)] by blast
    with False show ?thesis by (intro that[of pa1]) auto
  qed (use Suc.prems(1) that in simp)
  have n: "n = slot_count (b + 300) f" using Suc(2) slot_count_step[OF bf] by simp
  have fit: "\<forall>k < slot_count (b + 300) f. length (slot_file dir (b + 300) k) < PATH_MAX"
  proof (intro allI impI)
    fix k assume "k < slot_count (b + 300) f"
    then have "length (slot_file dir b (Suc k)) < PATH_MAX"
      using Suc.prems(3) slot_count_step[OF bf] by simp
    then show "length (slot_file dir (b + 300) k) < PATH_MAX" by (simp add: slot_file_def algebra_simps)
  qed
  obtain pa2 where pa2: "fill_from_time_loop F e dir (gmtime f) (gmtime (b + 300)) pa1 = Some (Ret pa2)"
    "pa_inv pa2" "pa_used pa2 = pa_used pa1 @ filter (\<lambda>p. fs_stat F p \<noteq> None)
      (map (slot_file dir (b + 300)) [0..< slot_count (b + 300) f])"
    using Suc.hyps(1)[OF n pa1(2) range fit] by blast
  have "fill_from_time_loop F e dir (gmtime f) (gmtime b) pa = Some (Ret pa2)"
    using d s m pa1(1)[unfolded p] pa2(1)
    by (subst fill_from_time_loop.simps) (auto simp del: fill_from_time_loop.simps)
  then show ?case
    using pa2(2,3) pa1(3) by (auto simp: slot_files_step[OF bf])
qed


text \<open>C36: when the name of a flow file does not fit \<open>PATH_MAX\<close>, the loop does not end: it
  warns and tries the same file again, although skipping it is what the warning announces.\<close>

theorem fill_from_time_hangs:
  assumes "path \<noteq> []" and "tm_diff tm_end ctx > 0"
    and "PATH_MAX \<le> length (with_slash path) + length (flow_file_name ctx)"
  shows "fill_from_time F e path ctx tm_end pa = None"
proof -
  have no: "strftime_flow (PATH_MAX - length (with_slash path)) ctx = None"
    using assms(3) by (simp add: strftime_flow_def)
  define P where "P = (\<lambda>(F' :: filesys) (e' :: tz_env) (dir :: string) tm_end' ctx' (pa' :: path_array_ctx) (y :: path_array_ctx res).
      \<not> (tm_diff tm_end' ctx' > 0 \<and> strftime_flow (PATH_MAX - length dir) ctx' = None))"
  have "P F' e' dir tm_end' ctx' pa' y"
    if "fill_from_time_loop F' e' dir tm_end' ctx' pa' = Some y" for F' e' dir tm_end' ctx' pa' y
  proof (rule fill_from_time_loop.raw_induct[OF _ that])
    fix loop F1 e1 dir1 end1 ctx1 pa1 y1
    assume IH: "\<And>F e dir tm_end ctx pa y. loop F e dir tm_end ctx pa = Some y \<Longrightarrow> P F e dir tm_end ctx pa y"
      and body: "(if tm_diff end1 ctx1 > 0
        then (case strftime_flow (PATH_MAX - length dir1) ctx1 of
              None \<Rightarrow> loop F1 e1 dir1 end1 ctx1 pa1
            | Some s \<Rightarrow>
                (case mktime_utc e1 (ctx1\<lparr>tm_sec := tm_sec ctx1 + FLOW_FILE_ROTATION_INTERVAL\<rparr>) of
                   Ret ((_, ctx'), e') \<Rightarrow>
                     (case (if fs_stat F1 (dir1 @ s) = None then Ret pa1 else add_path F1 (dir1 @ s) pa1) of
                        Ret pa' \<Rightarrow> loop F1 e' dir1 end1 ctx' pa'
                      | Abort x \<Rightarrow> Some (Abort x)
                      | Assert_Fail \<Rightarrow> Some Assert_Fail
                      | Out_Of_Bounds \<Rightarrow> Some Out_Of_Bounds
                      | Data_Race \<Rightarrow> Some Data_Race)
                 | Abort x \<Rightarrow> Some (Abort x)
                 | Assert_Fail \<Rightarrow> Some Assert_Fail
                 | Out_Of_Bounds \<Rightarrow> Some Out_Of_Bounds
                 | Data_Race \<Rightarrow> Some Data_Race))
        else Some (Ret pa1)) = Some y1"
    show "P F1 e1 dir1 end1 ctx1 pa1 y1"
    proof (rule ccontr)
      assume "\<not> P F1 e1 dir1 end1 ctx1 pa1 y1"
      then have stuck: "tm_diff end1 ctx1 > 0" "strftime_flow (PATH_MAX - length dir1) ctx1 = None"
        by (simp_all add: P_def)
      with body have "loop F1 e1 dir1 end1 ctx1 pa1 = Some y1" by simp
      from IH[OF this] stuck show False by (simp add: P_def)
    qed
  qed
  then have "\<not> (tm_diff tm_end ctx > 0 \<and> strftime_flow (PATH_MAX - length (with_slash path)) ctx = None)"
    if "fill_from_time_loop F e (with_slash path) tm_end ctx pa = Some y" for y
    using that unfolding P_def by blast
  then have "fill_from_time_loop F e (with_slash path) tm_end ctx pa = None"
    using assms(2) no by (cases "fill_from_time_loop F e (with_slash path) tm_end ctx pa") blast+
  then show ?thesis using assms(1) by (simp add: fill_from_time_def)
qed

subsection \<open>The walk through a directory tree\<close>

text \<open>The files a path leads to, and the directories on the way.\<close>

inductive reaches :: "filesys \<Rightarrow> string \<Rightarrow> string \<Rightarrow> bool" for F where
  reaches_file: "fs_stat F p = Some False \<Longrightarrow> reaches F p p"
| reaches_dir:
    "fs_stat F p = Some True \<Longrightarrow> fs_readdir F p = Some es \<Longrightarrow> d \<in> set es \<Longrightarrow> \<not> skip_entry p d
     \<Longrightarrow> reaches F (with_slash p @ d) f \<Longrightarrow> reaches F p f"

inductive_cases reachesE: "reaches F p f"

text \<open>No entry of a directory has an empty name, nor one that fits the buffer only without the slash.\<close>

definition entries_ok :: "filesys \<Rightarrow> bool" where
  "entries_ok F \<longleftrightarrow>
     (\<forall>p es. fs_readdir F p = Some es \<longrightarrow>
        (\<forall>d\<in>set es. d \<noteq> [] \<and> (p \<noteq> [] \<and> last p \<noteq> CHR ''/'' \<longrightarrow> length p + length d + 1 \<noteq> PATH_MAX)))"

lemma reaches_stat: "fs_stat F p = None \<Longrightarrow> \<not> reaches F p f"
  by (auto elim: reachesE)

lemma child_path_Ret:
  assumes "p \<noteq> []" "\<not> skip_entry p d" "d \<noteq> []"
    "last p \<noteq> CHR ''/'' \<longrightarrow> length p + length d + 1 \<noteq> PATH_MAX"
  shows "child_path p d = Ret (with_slash p @ d)" "with_slash p @ d \<noteq> []"
    "length p < length (with_slash p @ d)" "length (with_slash p @ d) < PATH_MAX"
proof -
  have "length p + length d + 1 \<le> PATH_MAX" using assms(2) by (simp add: skip_entry_def)
  moreover have "0 < length d" using assms(3) by simp
  ultimately show "child_path p d = Ret (with_slash p @ d)" "with_slash p @ d \<noteq> []"
    "length p < length (with_slash p @ d)" "length (with_slash p @ d) < PATH_MAX"
    using assms(1,3,4) by (auto simp: child_path_def with_slash_def Let_def)
qed

definition reached_from :: "filesys \<Rightarrow> string \<Rightarrow> string list \<Rightarrow> string set" where
  "reached_from F p es = {f. \<exists>d\<in>set es. \<not> skip_entry p d \<and> reaches F (with_slash p @ d) f}"

lemma reached_from_simps:
  "reached_from F p [] = {}"
  "reached_from F p (d # ds)
   = (if skip_entry p d then {} else {f. reaches F (with_slash p @ d) f}) \<union> reached_from F p ds"
  by (auto simp: reached_from_def)

lemma reaches_of_dir:
  "fs_stat F p = Some True \<Longrightarrow> fs_readdir F p = Some es \<Longrightarrow> {f. reaches F p f} = reached_from F p es"
proof (intro set_eqI iffI)
  fix f
  assume dir: "fs_stat F p = Some True" "fs_readdir F p = Some es" and "f \<in> {f. reaches F p f}"
  then have "reaches F p f" by simp
  then show "f \<in> reached_from F p es"
    by (cases rule: reachesE) (use dir in \<open>auto simp: reached_from_def\<close>)
next
  fix f
  assume "fs_stat F p = Some True" "fs_readdir F p = Some es" "f \<in> reached_from F p es"
  then show "f \<in> {f. reaches F p f}" by (auto simp: reached_from_def intro: reaches_dir)
qed

lemma reaches_of_file: "fs_stat F p = Some False \<Longrightarrow> {f. reaches F p f} = {p}"
proof (intro set_eqI iffI)
  fix f
  assume reg: "fs_stat F p = Some False" and "f \<in> {f. reaches F p f}"
  then have "reaches F p f" by simp
  then show "f \<in> {p}" by (cases rule: reachesE) (use reg in auto)
qed (auto intro: reaches_file)

lemma reaches_of_unreadable:
  "fs_stat F p = Some True \<Longrightarrow> fs_readdir F p = None \<Longrightarrow> {f. reaches F p f} = {}"
proof (rule ccontr)
  assume un: "fs_stat F p = Some True" "fs_readdir F p = None" and "{f. reaches F p f} \<noteq> {}"
  then obtain f where "reaches F p f" by blast
  then show False by (cases rule: reachesE) (use un in auto)
qed

definition grows_by :: "path_array_ctx \<Rightarrow> path_array_ctx \<Rightarrow> string set \<Rightarrow> bool" where
  "grows_by pa pa' S \<longleftrightarrow> pa_inv pa' \<and> (\<exists>new. pa_used pa' = pa_used pa @ new \<and> set new = S)"

lemma grows_by_trans: "grows_by pa pa1 S \<Longrightarrow> grows_by pa1 pa2 T \<Longrightarrow> grows_by pa pa2 (S \<union> T)"
  by (auto simp: grows_by_def)

lemma fill_from_path_Ret:
  assumes "entries_ok F" "mem_always F"
  shows "pa_inv pa \<Longrightarrow> p \<noteq> [] \<Longrightarrow> length p < PATH_MAX \<Longrightarrow> PATH_MAX < n + length p \<Longrightarrow>
    \<exists>pa'. fill_from_path n F p pa = Some (Ret pa') \<and> grows_by pa pa' {f. reaches F p f}"
proof (induction n arbitrary: p pa)
  case 0
  then show ?case by simp
next
  case (Suc n)
  consider (err) "fs_stat F p = None" | (reg) "fs_stat F p = Some False" | (dir) "fs_stat F p = Some True"
    by (cases "fs_stat F p") auto
  then show ?case
  proof cases
    case err
    then show ?thesis using Suc.prems(1) reaches_stat[OF err] by (auto simp: grows_by_def)
  next
    case reg
    then have "{f. reaches F p f} = {p}" by (rule reaches_of_file)
    then show ?thesis using reg add_path_Ret[OF Suc.prems(1,2) assms(2)] by (auto simp: grows_by_def)
  next
    case dir
    show ?thesis
    proof (cases "fs_readdir F p")
      case None
      with dir have "{f. reaches F p f} = {}" by (rule reaches_of_unreadable)
      then show ?thesis using dir None Suc.prems(1) by (auto simp: grows_by_def)
    next
      case (Some es)
      have e: "\<forall>d\<in>set es. d \<noteq> [] \<and> (last p \<noteq> CHR ''/'' \<longrightarrow> length p + length d + 1 \<noteq> PATH_MAX)"
        using assms(1) Some Suc.prems(2) unfolding entries_ok_def by blast
      have "\<exists>pa'. fill_entries n F p es pa = Some (Ret pa') \<and> grows_by pa pa' (reached_from F p es)"
        using e Suc.prems(1)
      proof (induction es arbitrary: pa)
        case Nil
        then show ?case by (simp add: grows_by_def reached_from_simps)
      next
        case (Cons d ds)
        show ?case
        proof (cases "skip_entry p d")
          case True
          with Cons show ?thesis by (simp add: reached_from_simps)
        next
          case False
          have d: "d \<noteq> []" "last p \<noteq> CHR ''/'' \<longrightarrow> length p + length d + 1 \<noteq> PATH_MAX"
            using Cons.prems(1) by auto
          note c = child_path_Ret[OF Suc.prems(2) False d]
          have "PATH_MAX < n + length (with_slash p @ d)" using c(3) Suc.prems(4) by linarith
          then obtain pa1 where pa1: "fill_from_path n F (with_slash p @ d) pa = Some (Ret pa1)"
            "grows_by pa pa1 {f. reaches F (with_slash p @ d) f}"
            using Suc.IH[OF Cons.prems(2) c(2,4)] by blast
          moreover obtain pa2 where "fill_entries n F p ds pa1 = Some (Ret pa2)"
            "grows_by pa1 pa2 (reached_from F p ds)"
            using Cons.IH[of pa1] Cons.prems(1) pa1(2) by (auto simp: grows_by_def)
          ultimately show ?thesis
            using False c(1) grows_by_trans by (auto simp: reached_from_simps)
        qed
      qed
      then show ?thesis using dir Some by (simp add: reaches_of_dir)
    qed
  qed
qed

text \<open>C28: without a time range, exactly the files reachable below the path are added: hidden
  entries, index files and names that are too long are skipped.  The recursion depth is bounded by
  \<open>PATH_MAX\<close>, so it ends on any file system, cycles through links included.\<close>

theorem fill_from_path_files:
  assumes "entries_ok F" and "mem_always F" and "pa_inv pa" and "p \<noteq> []" and "length p < PATH_MAX"
  shows "\<exists>pa' new. fill_from_path (PATH_MAX + 2) F p pa = Some (Ret pa') \<and> pa_inv pa'
    \<and> pa_used pa' = pa_used pa @ new \<and> set new = {f. reaches F p f}"
  using fill_from_path_Ret[OF assms, of "PATH_MAX + 2"] by (auto simp: grows_by_def)

text \<open>C37: the length check of \<open>fill_from_path\<close> does not count the slash it inserts: an entry
  whose path has exactly \<open>PATH_MAX\<close> characters with the slash passes the check, and its
  terminating zero is written behind the buffer.\<close>

theorem fill_from_path_overflow:
  assumes "fs_stat F p = Some True" and "fs_readdir F p = Some (d # ds)" and "p \<noteq> []"
    and "last p \<noteq> CHR ''/''" and "\<not> hidden d" and "\<not> is_index_file d"
    and "length p + length d + 1 = PATH_MAX"
  shows "fill_from_path (Suc n) F p pa = Some Out_Of_Bounds"
  using assms by (simp add: skip_entry_def child_path_def with_slash_def Let_def)

subsection \<open>The path preprocessor\<close>

text \<open>What the directives stand for; \<open>None\<close> for an unknown one.\<close>

function expansion :: "string \<Rightarrow> string \<Rightarrow> string option" where
  "expansion host s =
     (case split_at_char (CHR ''%'') s of
        None \<Rightarrow> Some s
      | Some (a, b) \<Rightarrow>
          if b \<noteq> [] \<and> hd b = CHR ''h''
          then map_option (\<lambda>r. a @ host @ r) (expansion host (tl b)) else None)"
  by pat_completeness auto
termination
  by (relation "measure (\<lambda>(h, s). length s)") (auto dest!: split_at_char_length)

declare expansion.simps [simp del] expand_directives.simps [simp del]

lemma expand_directives_Ret:
  "expansion (fs_hostname F) s = Some r \<Longrightarrow> length path + length r < PATH_MAX \<Longrightarrow>
   expand_directives F s path = Ret (True, path @ r)"
proof (induction F s path arbitrary: r rule: expand_directives.induct)
  case (1 F s path)
  show ?case
  proof (cases "split_at_char (CHR ''%'') s")
    case None
    with 1(2,3) show ?thesis
      by (subst expand_directives.simps) (auto simp: expansion.simps[of _ s] strcat_path_def)
  next
    case (Some ab)
    obtain a b where ab: "split_at_char (CHR ''%'') s = Some (a, b)" using Some by (cases ab) simp
    obtain r' where r': "b \<noteq> []" "hd b = CHR ''h''" "expansion (fs_hostname F) (tl b) = Some r'"
      "r = a @ fs_hostname F @ r'"
      using 1(2) ab by (auto simp: expansion.simps[of _ s] split: if_splits)
    have fit: "strcat_path path a = Ret (path @ a)" using 1(3) r'(4) by (simp add: strcat_path_def)
    have room: "\<not> length (fs_hostname F) + 1 > PATH_MAX - length (path @ a)" using 1(3) r'(4) by simp
    have "expand_directives F (tl b) ((path @ a) @ fs_hostname F) = Ret (True, ((path @ a) @ fs_hostname F) @ r')"
      using 1(1)[OF ab refl fit _ room r'(3)] r' 1(3) by simp
    then show ?thesis
      using ab fit room r' by (simp add: expand_directives.simps[of F s])
  qed
qed

text \<open>The preprocessor replaces every \<open>%h\<close> by the host name and keeps the rest, for every
  format whose expansion fits \<open>PATH_MAX\<close>.\<close>

theorem path_preprocessor_expands:
  assumes "length fmt < PATH_MAX" and "\<not> rank_directive fmt"
    and "expansion (fs_hostname F) fmt = Some r" and "length r < PATH_MAX"
  shows "path_preprocessor F fmt = Ret (True, r)"
  using assms expand_directives_Ret[of F fmt r "[]"] by (simp add: path_preprocessor_def)

text \<open>A path with a rank directive is used by that rank only.\<close>

theorem path_preprocessor_rank:
  assumes "k < 2 ^ 31" and "length (''%'' @ dec k @ '':'' @ rest) < PATH_MAX"
    and "expansion (fs_hostname F) rest = Some r" and "length r < PATH_MAX"
  shows "path_preprocessor F (''%'' @ dec k @ '':'' @ rest)
    = Ret (if fs_rank F = k then (True, r) else (False, []))"
proof -
  obtain c cs where c: "dec k = c # cs" by (cases "dec k") simp_all
  have d: "is_digit c" "\<forall>x\<in>set (dec k). is_digit x"
    using dec_digits[of k] c by (simp_all add: list_all_iff)
  have colon: "\<not> is_digit (CHR '':'')" by (simp add: is_digit_def)
  have t: "takeWhile is_digit (dec k @ '':'' @ rest) = dec k" "dropWhile is_digit (dec k @ '':'' @ rest) = '':'' @ rest"
    using d(2) colon by (simp_all add: takeWhile_append2 dropWhile_append2)
  have "rank_directive (''%'' @ dec k @ '':'' @ rest)" using c d(1) by (simp add: rank_directive_def)
  moreover have "atoi_digits (dec k) = int k"
    using assms(1) digits_val_dec[of k] c_int_id[of "int k"] by (simp add: atoi_digits_def min_def)
  ultimately show ?thesis
    using assms t expand_directives_Ret[OF assms(3), of "[]"]
    by (auto simp: path_preprocessor_def Let_def)
qed

text \<open>C38: the text after a directive is appended without a length check: a host name and a rest
  that do not fit together overflow the path buffer.\<close>

theorem path_preprocessor_overflow:
  assumes "length rest + 2 < PATH_MAX" and "CHR ''%'' \<notin> set rest"
    and "length (fs_hostname F) < PATH_MAX" and "PATH_MAX \<le> length (fs_hostname F) + length rest"
  shows "path_preprocessor F (''%h'' @ rest) = Out_Of_Bounds"
proof -
  have n: "split_at_char (CHR ''%'') rest = None" using assms(2) by (simp add: split_at_char_None)
  have h: "split_at_char (CHR ''%'') (CHR ''%'' # CHR ''h'' # rest) = Some ([], CHR ''h'' # rest)" by simp
  have r: "\<not> rank_directive (CHR ''%'' # CHR ''h'' # rest)" by (simp add: rank_directive_def is_digit_def)
  have e: "expand_directives F rest (fs_hostname F) = Out_Of_Bounds"
    using n assms(4) by (simp add: expand_directives.simps[of F rest] strcat_path_def)
  have "expand_directives F (CHR ''%'' # CHR ''h'' # rest) [] = Out_Of_Bounds"
    using e assms(3)
    by (subst expand_directives.simps) (simp add: strcat_path_def PATH_MAX_def)
  then show ?thesis using assms(1) r by (simp add: path_preprocessor_def)
qed

subsection \<open>All paths are generated\<close>

text \<open>
  When the names fit, the generation of the paths ends with an array of files.  A path takes at most
  its own length and a host name for every percent sign; in a time range the name of the slot is added.
\<close>

definition expanded_room :: "filesys \<Rightarrow> string \<Rightarrow> nat" where
  "expanded_room F fmt = length fmt + count_list fmt (CHR ''%'') * length (fs_hostname F)"

definition paths_fit :: "filesys \<Rightarrow> string list \<Rightarrow> tm \<Rightarrow> tm \<Rightarrow> bool" where
  "paths_fit F paths tm_begin tm_end \<longleftrightarrow>
     paths \<noteq> [] \<and> (\<forall>p\<in>set paths. expanded_room F p < PATH_MAX)
   \<and> (tm_diff tm_end tm_begin > 0 \<longrightarrow>
        (\<exists>b f. tm_begin = gmtime b \<and> tm_end = gmtime f \<and> \<bar>f - b\<bar> < 2 ^ 31
           \<and> (\<forall>p\<in>set paths. \<forall>k < slot_count b f.
                expanded_room F p + 1 + length (flow_file_name (gmtime (b + 300 * int k))) < PATH_MAX)))"

text \<open>A file system: allocations succeed, an empty path is an error, a path that ends with a slash is no file.\<close>

definition filesys_ok :: "filesys \<Rightarrow> bool" where
  "filesys_ok F \<longleftrightarrow>
     mem_always F \<and> entries_ok F \<and> fs_stat F [] = None \<and> (\<forall>p. fs_stat F p = Some False \<longrightarrow> last p \<noteq> CHR ''/'')"

lemma expand_directives_room:
  "length path + expanded_room F s < PATH_MAX \<Longrightarrow>
   \<exists>ok q. expand_directives F s path = Ret (ok, q) \<and> length q \<le> length path + expanded_room F s"
proof (induction F s path rule: expand_directives.induct)
  case (1 F s path)
  show ?case
  proof (cases "split_at_char (CHR ''%'') s")
    case None
    then have "expand_directives F s path = Ret (True, path @ s)"
      using 1(2) by (subst expand_directives.simps) (simp add: strcat_path_def expanded_room_def)
    then show ?thesis by (intro exI[of _ True] exI[of _ "path @ s"]) (simp add: expanded_room_def)
  next
    case (Some ab)
    obtain a b where ab: "split_at_char (CHR ''%'') s = Some (a, b)" using Some by (cases ab) simp
    then have s: "s = a @ CHR ''%'' # b" by (simp add: split_at_char_Some)
    let ?h = "fs_hostname F"
    have room: "expanded_room F s = length a + 1 + length b + (count_list a (CHR ''%'') + 1 + count_list b (CHR ''%'')) * length ?h"
      by (simp add: s expanded_room_def)
    have fit: "strcat_path path a = Ret (path @ a)" using 1(2) room by (simp add: strcat_path_def)
    have len: "length path + length a \<le> length path + expanded_room F s" by (simp add: room)
    show ?thesis
    proof (cases "b \<noteq> [] \<and> hd b = CHR ''h''")
      case False
      then show ?thesis using ab fit len by (subst expand_directives.simps) auto
    next
      case True
      then obtain b' where b: "b = CHR ''h'' # b'" by (cases b) auto
      have r: "length path + length a + length ?h + expanded_room F b' \<le> length path + expanded_room F s"
        by (simp add: room expanded_room_def[of F b'] b algebra_simps)
      have host: "\<not> length ?h + 1 > PATH_MAX - length (path @ a)" using r 1(2) by simp
      have "length ((path @ a) @ ?h) + expanded_room F (tl b) < PATH_MAX" using r 1(2) b by simp
      from 1(1)[OF ab refl fit True host this] obtain ok q where
        "expand_directives F (tl b) ((path @ a) @ ?h) = Ret (ok, q)"
        "length q \<le> length ((path @ a) @ ?h) + expanded_room F (tl b)" by blast
      then show ?thesis using ab fit True host r b by (subst expand_directives.simps) auto
    qed
  qed
qed

lemma path_preprocessor_room:
  assumes "expanded_room F fmt < PATH_MAX"
  shows "\<exists>ok q. path_preprocessor F fmt = Ret (ok, q) \<and> length q \<le> expanded_room F fmt"
proof -
  have short: "length fmt < PATH_MAX" using assms by (simp add: expanded_room_def)
  show ?thesis
  proof (cases "rank_directive fmt")
    case False
    then show ?thesis using expand_directives_room[of "[]" F fmt] assms short by (auto simp: path_preprocessor_def)
  next
    case True
    let ?rest = "dropWhile is_digit (tl fmt)"
    have tl: "fmt \<noteq> []" using True by (auto simp: rank_directive_def split: list.splits)
    have le: "expanded_room F (tl ?rest) \<le> expanded_room F fmt"
    proof -
      have split: "fmt = (hd fmt # takeWhile is_digit (tl fmt)) @ ?rest" using tl by simp
      have "count_list fmt (CHR ''%'') = count_list (hd fmt # takeWhile is_digit (tl fmt)) (CHR ''%'') + count_list ?rest (CHR ''%'')"
        using arg_cong[OF split, of "\<lambda>s. count_list s (CHR ''%'')"] unfolding count_list_append .
      moreover have "length fmt = length (hd fmt # takeWhile is_digit (tl fmt)) + length ?rest"
        using arg_cong[OF split, of length] unfolding length_append .
      moreover have "count_list (tl xs) c \<le> count_list xs c" for xs :: string and c by (cases xs) simp_all
      from this[of ?rest "CHR ''%''"] have "count_list (tl ?rest) (CHR ''%'') \<le> count_list ?rest (CHR ''%'')" .
      moreover have "length (tl ?rest) \<le> length ?rest" by simp
      ultimately show ?thesis unfolding expanded_room_def by (intro add_mono mult_le_mono1) linarith+
    qed
    then have "length [] + expanded_room F (tl ?rest) < PATH_MAX" using assms by simp
    from expand_directives_room[OF this] show ?thesis
      using True short le by (auto simp: path_preprocessor_def Let_def)
  qed
qed

text \<open>Every path added can be the path of a flow file.\<close>

definition files_named :: "path_array_ctx \<Rightarrow> bool" where
  "files_named pa \<longleftrightarrow> (\<forall>p\<in>set (pa_used pa). p \<noteq> [] \<and> last p \<noteq> CHR ''/'')"

lemma reaches_is_file: "reaches F p f \<Longrightarrow> fs_stat F f = Some False"
  by (induction rule: reaches.induct)

lemma flow_file_name_last: "last (flow_file_name (gmtime t)) \<noteq> CHR ''/''" "flow_file_name t' \<noteq> []"
proof -
  have "0 \<le> tm_sec (gmtime t)" by (simp add: gmtime_def Let_def)
  then obtain n where n: "dec_int (tm_sec (gmtime t)) = dec n" by (auto simp: dec_int_def split: if_splits)
  have dig: "last (dec n) \<noteq> CHR ''/''"
  proof
    assume "last (dec n) = CHR ''/''"
    then have "is_digit (CHR ''/'')" using dec_digits[of n] last_in_set[of "dec n"] by (auto simp: list_all_iff)
    then show False by (simp add: is_digit_def)
  qed
  have "last (dec2 (tm_sec (gmtime t))) \<noteq> CHR ''/''" "dec2 (tm_sec (gmtime t)) \<noteq> []"
    using dig by (auto simp: dec2_def zpad_def n)
  then show "last (flow_file_name (gmtime t)) \<noteq> CHR ''/''" by (simp add: flow_file_name_def Let_def)
  show "flow_file_name t' \<noteq> []" by (simp add: flow_file_name_def Let_def)
qed

lemma fill_from_time_room:
  assumes "env_ok e" "mem_always F" "pa_inv pa" "q \<noteq> []" "\<bar>f - b\<bar> < 2 ^ 31"
    and "\<forall>k < slot_count b f. length q + 1 + length (flow_file_name (gmtime (b + 300 * int k))) < PATH_MAX"
    and "files_named pa"
  shows "\<exists>pa'. fill_from_time F e q (gmtime b) (gmtime f) pa = Some (Ret pa') \<and> pa_inv pa' \<and> files_named pa'"
proof -
  have w: "length (with_slash q) \<le> length q + 1" by (simp add: with_slash_def)
  have fit: "\<forall>k < slot_count b f. length (slot_file (with_slash q) b k) < PATH_MAX"
  proof (intro allI impI)
    fix k assume "k < slot_count b f"
    then have "length q + 1 + length (flow_file_name (gmtime (b + 300 * int k))) < PATH_MAX" using assms(6) by blast
    then show "length (slot_file (with_slash q) b k) < PATH_MAX" using w by (simp add: slot_file_def)
  qed
  obtain pa' where pa': "fill_from_time_loop F e (with_slash q) (gmtime f) (gmtime b) pa = Some (Ret pa')" "pa_inv pa'"
    "pa_used pa' = pa_used pa @ filter (\<lambda>p. fs_stat F p \<noteq> None) (map (slot_file (with_slash q) b) [0..< slot_count b f])"
    using fill_from_time_loop_Ret[OF assms(1-3,5) fit] by blast
  have "p \<noteq> [] \<and> last p \<noteq> CHR ''/''" if "p \<in> set (map (slot_file (with_slash q) b) [0..< slot_count b f])" for p
    using that flow_file_name_last by (auto simp: slot_file_def)
  then have "files_named pa'" using assms(7) pa'(3) by (auto simp: files_named_def)
  then show ?thesis using pa' assms(4) by (simp add: fill_from_time_def)
qed

lemma reaches_named:
  assumes "filesys_ok F" "reaches F p f"
  shows "f \<noteq> [] \<and> last f \<noteq> CHR ''/''"
  using assms(1) reaches_is_file[OF assms(2)] by (auto simp: filesys_ok_def)

lemma fill_from_path_room:
  assumes "filesys_ok F" "pa_inv pa" "q \<noteq> []" "length q < PATH_MAX" "files_named pa"
  shows "\<exists>pa'. fill_from_path (PATH_MAX + 2) F q pa = Some (Ret pa') \<and> pa_inv pa' \<and> files_named pa'"
proof -
  have F: "entries_ok F" "mem_always F" using assms(1) by (simp_all add: filesys_ok_def)
  have "PATH_MAX < PATH_MAX + 2 + length q" by simp
  from fill_from_path_Ret[OF F assms(2-4) this] obtain pa' where
    pa': "fill_from_path (PATH_MAX + 2) F q pa = Some (Ret pa')" "grows_by pa pa' {f. reaches F q f}"
    by blast
  have "files_named pa'"
    unfolding files_named_def
  proof
    fix p assume "p \<in> set (pa_used pa')"
    then have "p \<in> set (pa_used pa) \<or> reaches F q p" using pa'(2) by (auto simp: grows_by_def)
    then show "p \<noteq> [] \<and> last p \<noteq> CHR ''/''"
      using assms(5) reaches_named[OF assms(1), of q p] unfolding files_named_def by blast
  qed
  then show ?thesis using pa' by (auto simp: grows_by_def)
qed

lemma path_array_one_room:
  assumes "filesys_ok F" "env_ok e" "paths_fit F paths tb te" "p \<in> set paths" "pa_inv pa" "files_named pa"
  shows "\<exists>pa'. path_array_one F e tb te p pa = Some (Ret pa') \<and> pa_inv pa' \<and> files_named pa'"
proof -
  have "expanded_room F p < PATH_MAX" using assms(3,4) by (simp add: paths_fit_def)
  from path_preprocessor_room[OF this] obtain ok q where
    q: "path_preprocessor F p = Ret (ok, q)" "length q \<le> expanded_room F p" by blast
  have stay: ?thesis if "path_array_one F e tb te p pa = Some (Ret pa)" using that assms(5,6) by blast
  show ?thesis
  proof (cases "ok \<and> fs_stat F q \<noteq> None")
    case False
    then show ?thesis using q by (intro stay) (auto simp: path_array_one_def split: bool.splits)
  next
    case True
    then obtain dir where dir: "ok" "fs_stat F q = Some dir" by auto
    then have ne: "q \<noteq> []" using assms(1) by (auto simp: filesys_ok_def)
    have len: "length q < PATH_MAX" using q(2) \<open>expanded_room F p < PATH_MAX\<close> by simp
    show ?thesis
    proof (cases "tm_diff te tb > 0 \<and> dir")
      case False
      then show ?thesis using fill_from_path_room[OF assms(1,5) ne len assms(6)] q dir by (auto simp: path_array_one_def)
    next
      case tr: True
      then obtain b f where bf: "tb = gmtime b" "te = gmtime f" "\<bar>f - b\<bar> < 2 ^ 31"
        "\<forall>k < slot_count b f. expanded_room F p + 1 + length (flow_file_name (gmtime (b + 300 * int k))) < PATH_MAX"
        using assms(3,4) unfolding paths_fit_def by blast
      have "\<forall>k < slot_count b f. length q + 1 + length (flow_file_name (gmtime (b + 300 * int k))) < PATH_MAX"
        using bf(4) q(2) by fastforce
      from fill_from_time_room[OF assms(2) _ assms(5) ne bf(3) this assms(6)]
      show ?thesis using assms(1) q dir tr bf(1,2) by (auto simp: path_array_one_def filesys_ok_def)
    qed
  qed
qed

lemma path_array_each_room:
  assumes "filesys_ok F" "env_ok e" "paths_fit F paths tb te"
  shows "set ps \<subseteq> set paths \<Longrightarrow> pa_inv pa \<Longrightarrow> files_named pa \<Longrightarrow>
    \<exists>pa'. path_array_each F e tb te ps pa = Some (Ret pa') \<and> pa_inv pa' \<and> files_named pa'"
proof (induction ps arbitrary: pa)
  case (Cons p ps)
  then obtain pa1 where "path_array_one F e tb te p pa = Some (Ret pa1)" "pa_inv pa1" "files_named pa1"
    using path_array_one_room[OF assms, of p pa] by auto
  then show ?case using Cons.IH[of pa1] Cons.prems(1) by auto
qed simp

text \<open>The generation of the paths ends, and its files have names.\<close>

lemma path_array_gen_Ret:
  assumes "filesys_ok F" "env_ok e" "paths_fit F paths tb te"
  shows "\<exists>pa. path_array_gen F e paths tb te = Some (Ret (Some pa)) \<and> pa_inv pa \<and> files_named pa"
proof -
  let ?pa = "\<lparr>pa_names = replicate PATH_ARRAY_INIT_SIZE None, pa_names_cnt = 0, pa_names_size = PATH_ARRAY_INIT_SIZE\<rparr>"
  have "pa_inv ?pa" "files_named ?pa" by (simp_all add: pa_inv_def files_named_def pa_used_def)
  with path_array_each_room[OF assms subset_refl, of ?pa] obtain pa where
    "path_array_each F e tb te paths ?pa = Some (Ret pa)" "pa_inv pa" "files_named pa" by blast
  then show ?thesis
    using assms(1,3) by (auto simp: path_array_gen_def paths_fit_def filesys_ok_def mem_always_def)
qed

subsection \<open>Instances\<close>

definition sample_fs :: filesys where
  "sample_fs = \<lparr>fs_stat = (\<lambda>p. Some (p = ''d'')), fs_readdir = (\<lambda>p. if p = ''d'' then Some [''a'', ''.h'', ''bfi.x''] else None),
     fs_mem_ok = (\<lambda>_. True), fs_hostname = ''node'', fs_rank = 2\<rparr>"

text \<open>A directory whose path leaves room for one more character, but not for a slash as well.\<close>

definition deep_dir :: string where
  "deep_dir = replicate 4094 (CHR ''a'')"

definition deep_fs :: filesys where
  "deep_fs = sample_fs\<lparr>fs_stat := (\<lambda>p. Some True), fs_readdir := (\<lambda>p. Some [''x'']),
     fs_hostname := replicate 4000 (CHR ''h'')\<rparr>"

definition empty_pa :: path_array_ctx where
  "empty_pa = \<lparr>pa_names = replicate PATH_ARRAY_INIT_SIZE None, pa_names_cnt = 0,
     pa_names_size = PATH_ARRAY_INIT_SIZE\<rparr>"

lemma empty_pa_inv: "pa_inv empty_pa"
  by (simp add: pa_inv_def empty_pa_def)

lemma sample_fs_mem: "mem_always sample_fs"
  by (simp add: mem_always_def sample_fs_def)




theorem fill_from_time_hangs_witness:
  "fill_from_time sample_fs sample_env (deep_dir @ ''a'') (gmtime 0) (gmtime 300) empty_pa = None"
  by (rule fill_from_time_hangs)
    (simp_all add: deep_dir_def with_slash_def tm_diff_gmtime PATH_MAX_def)

theorem fill_from_path_files_witness:
  "\<exists>pa' new. fill_from_path (PATH_MAX + 2) sample_fs ''d'' empty_pa = Some (Ret pa') \<and> pa_inv pa'
    \<and> pa_used pa' = pa_used empty_pa @ new \<and> set new = {f. reaches sample_fs ''d'' f}"
proof (rule fill_from_path_files[OF _ sample_fs_mem empty_pa_inv])
  show "entries_ok sample_fs"
    by (auto simp: entries_ok_def sample_fs_def PATH_MAX_def split: if_splits)
qed (simp_all add: PATH_MAX_def)

theorem fill_from_path_overflow_witness:
  "fill_from_path (Suc 7) deep_fs deep_dir empty_pa = Some Out_Of_Bounds"
  by (rule fill_from_path_overflow[of deep_fs deep_dir "''x''" "[]"])
    (simp_all add: deep_fs_def deep_dir_def hidden_def is_index_file_def BFINDEX_FILE_NAME_PREFIX_def PATH_MAX_def)

theorem path_preprocessor_expands_witness:
  "path_preprocessor sample_fs ''/data/%h/x'' = Ret (True, ''/data/node/x'')"
  by (rule path_preprocessor_expands)
    (simp_all add: PATH_MAX_def rank_directive_def is_digit_def expansion.simps sample_fs_def)

theorem path_preprocessor_rank_witness:
  "path_preprocessor sample_fs (''%'' @ dec 2 @ '':'' @ ''/x'')
    = Ret (if fs_rank sample_fs = 2 then (True, ''/x'') else (False, []))"
  by (rule path_preprocessor_rank)
    (simp_all add: PATH_MAX_def dec.simps expansion.simps)

theorem path_preprocessor_overflow_witness:
  "path_preprocessor deep_fs (''%h'' @ replicate 100 (CHR ''r'')) = Out_Of_Bounds"
  by (rule path_preprocessor_overflow) (simp_all add: PATH_MAX_def deep_fs_def)

end
