(* ===== verification/Double.thy ===== *)
theory Double
  imports Main
begin

text \<open>
  The IEEE double arithmetic the program uses on nonnegative integers: the
  conversion of a \<open>uint64_t\<close>, the quotient of two integers, \<open>ceil\<close>.  A double
  is \<open>mant * 2 ^ e\<close> with a mantissa of 53 bits; every operation rounds to the
  nearest, ties to even.  The quotients occurring are far from the subnormal range.
\<close>

definition rne :: "nat \<Rightarrow> nat \<Rightarrow> nat" where
  \<comment> \<open>the quotient rounded to the nearest integer, ties to even\<close>
  "rne n d =
     (let q = n div d; r = n mod d in
      if 2 * r < d \<or> (2 * r = d \<and> even q) then q else q + 1)"

text \<open>The exponents that bring a quotient below \<open>2 ^ 53\<close>, or up to \<open>2 ^ 52\<close>.\<close>

function down_exp :: "nat \<Rightarrow> nat \<Rightarrow> nat" where
  "down_exp n d = (if d = 0 \<or> n < 2 ^ 53 * d then 0 else Suc (down_exp n (2 * d)))"
  by pat_completeness auto
termination
  by (relation "measure (\<lambda>(n, d). Suc n - d)") auto

function up_exp :: "nat \<Rightarrow> nat \<Rightarrow> nat" where
  "up_exp n d = (if n = 0 \<or> 2 ^ 52 * d \<le> n then 0 else Suc (up_exp (2 * n) d))"
  by pat_completeness auto
termination
  by (relation "measure (\<lambda>(n, d). 2 ^ 52 * d - n)") auto

declare down_exp.simps [simp del] up_exp.simps [simp del]

text \<open>\<open>(double)n\<close>, an integer.\<close>

definition double_of :: "nat \<Rightarrow> nat" where
  "double_of n = (let e = down_exp n 1 in rne n (2 ^ e) * 2 ^ e)"

text \<open>\<open>a / b\<close> as a fraction \<open>(p, k)\<close>, meaning \<open>p / 2 ^ k\<close>.\<close>

definition double_div :: "nat \<Rightarrow> nat \<Rightarrow> nat \<times> nat" where
  "double_div a b =
     (if 2 ^ 53 * b \<le> a
      then let e = down_exp a b in (rne a (b * 2 ^ e) * 2 ^ e, 0)
      else let k = up_exp a b in (rne (a * 2 ^ k) b, k))"

text \<open>\<open>ceil\<close> and truncation of \<open>p / 2 ^ k\<close>.\<close>

definition frac_ceil :: "nat \<times> nat \<Rightarrow> nat" where
  "frac_ceil x = (case x of (p, k) \<Rightarrow> (p + 2 ^ k - 1) div 2 ^ k)"

definition ceil_quotient :: "nat \<Rightarrow> nat \<Rightarrow> nat" where
  \<comment> \<open>\<open>ceil((double)a / b)\<close>\<close>
  "ceil_quotient a b = frac_ceil (double_div (double_of a) (double_of b))"

lemma rne_le: "0 < d \<Longrightarrow> n \<le> c * d \<Longrightarrow> rne n d \<le> c"
proof -
  assume d: "0 < d" and n: "n \<le> c * d"
  have "n div d \<le> c" using n d by (metis div_le_mono nonzero_mult_div_cancel_right less_not_refl2)
  moreover have "n div d = c \<Longrightarrow> n mod d = 0"
  proof -
    assume "n div d = c"
    then have "c * d + n mod d = n" using div_mult_mod_eq[of n d] by simp
    with n show "n mod d = 0" by simp
  qed
  ultimately show ?thesis using d by (cases "n div d = c") (auto simp: rne_def Let_def)
qed

lemma double_of_exact: "n < 2 ^ 53 \<Longrightarrow> double_of n = n"
proof -
  assume "n < 2 ^ 53"
  then have "down_exp n 1 = 0" by (subst down_exp.simps) simp
  then show ?thesis by (simp add: double_of_def rne_def Let_def)
qed

text \<open>Below \<open>2 ^ 53\<close> the rounding never makes the quotient exceed the integer above it.\<close>

lemma ceil_quotient_le:
  assumes "a < 2 ^ 53" "0 < b" "b < 2 ^ 53" "a \<le> c * b"
  shows "ceil_quotient a b \<le> c"
proof -
  define k where "k = up_exp a b"
  have "2 ^ 53 * 1 \<le> 2 ^ 53 * b" using assms(2) by (intro mult_le_mono2) simp
  then have lt: "\<not> 2 ^ 53 * b \<le> a" using assms(1) by simp
  have "a * 2 ^ k \<le> (c * 2 ^ k) * b" using assms(4) by (simp add: mult.commute mult.left_commute)
  then have p: "rne (a * 2 ^ k) b \<le> c * 2 ^ k" using assms(2) by (rule rne_le[rotated])
  have "(rne (a * 2 ^ k) b + 2 ^ k - 1) div 2 ^ k < Suc c"
    using p by (intro less_mult_imp_div_less) (simp add: Suc_le_lessD)
  then show ?thesis
    using lt assms by (simp add: ceil_quotient_def double_of_exact double_div_def frac_ceil_def k_def[symmetric] Let_def)
qed

end
