(* ===== verification/Tput.thy ===== *)
theory Tput
  imports Libnf_Mem Double
begin

text \<open>
  The TPUT Top-N algorithm: the master's side (\<open>src/master.c\<close>) and the
  slave's side (\<open>src/slave.c\<close>).  The exchange of the records is
  \<open>exchange_delivers_all\<close> of \<open>Recv\<close>; here a memory is the list of its records
  in cursor order, a record its aggregation key and the value of the sort key.

  \<open>tbl\<close> is libnf's sorted aggregation memory: it turns the records written to
  it into one record per key, with the sum of the values, in sort order.
\<close>

type_synonym 'k item = "'k \<times> 64 word"

datatype direction = Desc | Asc

definition val_sum :: "'k item list \<Rightarrow> 'k \<Rightarrow> 64 word" where
  "val_sum xs k = sum_list (map snd (filter (\<lambda>p. fst p = k) xs))"

definition ordered :: "direction \<Rightarrow> 64 word \<Rightarrow> 64 word \<Rightarrow> bool" where
  "ordered dir a b \<longleftrightarrow> (case dir of Desc \<Rightarrow> b \<le> a | Asc \<Rightarrow> a \<le> b)"

definition table_of :: "direction \<Rightarrow> 'k item list \<Rightarrow> 'k item list \<Rightarrow> bool" where
  "table_of dir xs t \<longleftrightarrow>
     distinct (map fst t) \<and> set (map fst t) = set (map fst xs)
   \<and> (\<forall>p\<in>set t. snd p = val_sum xs (fst p))
   \<and> sorted_wrt (\<lambda>p q. ordered dir (snd p) (snd q)) t"

definition table_ok :: "direction \<Rightarrow> ('k item list \<Rightarrow> 'k item list) \<Rightarrow> bool" where
  "table_ok dir tbl \<longleftrightarrow> (\<forall>xs. table_of dir xs (tbl xs))"

subsection \<open>The slave\<close>

text \<open>The records \<open>send_raw_mem\<close> sends: zero means all of them.\<close>

definition sent_items :: "64 word \<Rightarrow> 'i list \<Rightarrow> 'i list" where
  "sent_items rec_limit mem = (if rec_limit = 0 then mem else take (unat rec_limit) mem)"

definition slave_tput_phase_1 :: "64 word \<Rightarrow> 'k item list \<Rightarrow> 'k item list" where
  "slave_tput_phase_1 rec_limit mem = sent_items rec_limit mem"

text \<open>The \<open>do\<close> loop of \<open>tput_phase_2_find_threshold_cnt\<close> stops at the first record that fails.\<close>

fun threshold_loop :: "direction \<Rightarrow> 64 word \<Rightarrow> 'k item list \<Rightarrow> 64 word \<Rightarrow> 64 word" where
  "threshold_loop dir threshold [] rec_cntr = rec_cntr"
| "threshold_loop dir threshold (p # ps) rec_cntr =
     (if dir = Desc \<and> snd p \<ge> threshold then threshold_loop dir threshold ps (rec_cntr + 1)
      else if dir = Asc \<and> snd p \<le> threshold then threshold_loop dir threshold ps (rec_cntr + 1)
      else rec_cntr)"

definition tput_phase_2_find_threshold_cnt :: "direction \<Rightarrow> 64 word \<Rightarrow> 'k item list \<Rightarrow> 64 word" where
  "tput_phase_2_find_threshold_cnt dir threshold mem =
     (if mem = [] then 0 else threshold_loop dir threshold mem 0)"

definition slave_tput_phase_2 :: "direction \<Rightarrow> 64 word \<Rightarrow> 'k item list \<Rightarrow> 'k item list" where
  "slave_tput_phase_2 dir threshold mem =
     sent_items (tput_phase_2_find_threshold_cnt dir threshold mem) mem"

text \<open>The received keys are looked up one by one; the records found go to a list memory.\<close>

fun slave_tput_phase_3 :: "'k list \<Rightarrow> 'k item list \<Rightarrow> 'k item list" where
  "slave_tput_phase_3 [] mem = []"
| "slave_tput_phase_3 (k # ks) mem =
     (case map_of mem k of
        None \<Rightarrow> slave_tput_phase_3 ks mem
      | Some v \<Rightarrow> (k, v) # slave_tput_phase_3 ks mem)"

subsection \<open>The master\<close>

text \<open>The walk to the \<open>N\<close>-th, or the last, record.\<close>

fun bottom_walk :: "64 word \<Rightarrow> 'i list \<Rightarrow> 64 word \<Rightarrow> 'i \<Rightarrow> 'i" where
  "bottom_walk rec_limit [] cursor_position nth_or_last = nth_or_last"
| "bottom_walk rec_limit (p # ps) cursor_position nth_or_last =
     (if cursor_position < rec_limit then bottom_walk rec_limit ps (cursor_position + 1) p
      else nth_or_last)"

definition tput_phase_1_find_bottom :: "64 word \<Rightarrow> 'k item list \<Rightarrow> 64 word" where
  "tput_phase_1_find_bottom rec_limit mem =
     (case mem of [] \<Rightarrow> 0 | p # ps \<Rightarrow> snd (bottom_walk rec_limit mem 0 p))"

definition tput_threshold :: "64 word \<Rightarrow> nat \<Rightarrow> 64 word" where
  "tput_threshold bottom slave_threads_cnt = of_nat (ceil_quotient (unat bottom) slave_threads_cnt)"

definition master_tput_phase_1 ::
  "('k item list \<Rightarrow> 'k item list) \<Rightarrow> 64 word \<Rightarrow> 'k item list list \<Rightarrow> 64 word" where
  "master_tput_phase_1 tbl rec_limit threads =
     tput_phase_1_find_bottom rec_limit (tbl (concat (map (slave_tput_phase_1 rec_limit) threads)))"

definition master_tput_phase_2 ::
  "('k item list \<Rightarrow> 'k item list) \<Rightarrow> direction \<Rightarrow> 64 word \<Rightarrow> 'k item list list \<Rightarrow> 'k item list" where
  "master_tput_phase_2 tbl dir phase_1_bottom threads =
     (let threshold = tput_threshold phase_1_bottom (length threads) in
      tbl (concat (map (slave_tput_phase_2 dir threshold) threads)))"

definition master_tput_phase_3 ::
  "('k item list \<Rightarrow> 'k item list) \<Rightarrow> 'k item list \<Rightarrow> 'k item list list \<Rightarrow> 'k item list" where
  "master_tput_phase_3 tbl mem threads =
     tbl (concat (map (slave_tput_phase_3 (map fst mem)) threads))"

text \<open>\<open>aggr_main\<close>: the records printed are the first \<open>rec_limit\<close> of the final memory.\<close>

definition aggr_main ::
  "('k item list \<Rightarrow> 'k item list) \<Rightarrow> direction \<Rightarrow> bool \<Rightarrow> 64 word \<Rightarrow> 'k item list list \<Rightarrow> 'k item list" where
  "aggr_main tbl dir use_tput rec_limit threads =
     sent_items rec_limit
      (if use_tput
       then let bottom = master_tput_phase_1 tbl rec_limit threads;
                mem = master_tput_phase_2 tbl dir bottom threads
            in master_tput_phase_3 tbl mem threads
       else tbl (concat (map (sent_items 0) threads)))"

subsection \<open>Totals\<close>

text \<open>The exact total of a key over all threads, and the queries whose totals fit 64 bits.\<close>

definition nat_sum :: "'k item list \<Rightarrow> 'k \<Rightarrow> nat" where
  "nat_sum xs k = sum_list (map (\<lambda>p. unat (snd p)) (filter (\<lambda>p. fst p = k) xs))"

definition total :: "'k item list list \<Rightarrow> 'k \<Rightarrow> nat" where
  "total threads k = nat_sum (concat threads) k"

definition all_keys :: "'k item list list \<Rightarrow> 'k set" where
  "all_keys threads = set (map fst (concat threads))"

definition tput_input_ok :: "direction \<Rightarrow> 'k item list list \<Rightarrow> bool" where
  "tput_input_ok dir threads \<longleftrightarrow>
     threads \<noteq> [] \<and> length threads < 2 ^ 31
   \<and> (\<forall>t\<in>set threads. distinct (map fst t) \<and> sorted_wrt (\<lambda>p q. ordered dir (snd p) (snd q)) t)
   \<and> length (concat threads) < 2 ^ 64 \<and> (\<forall>k. total threads k < 2 ^ 53)"

lemma nat_sum_append [simp]: "nat_sum (xs @ ys) k = nat_sum xs k + nat_sum ys k"
  by (simp add: nat_sum_def)

lemma nat_sum_Nil [simp]: "nat_sum [] k = 0"
  by (simp add: nat_sum_def)

lemma nat_sum_Cons [simp]: "nat_sum (p # xs) k = (if fst p = k then unat (snd p) else 0) + nat_sum xs k"
  by (simp add: nat_sum_def)

lemma val_sum_exact: "nat_sum xs k < 2 ^ 64 \<Longrightarrow> unat (val_sum xs k) = nat_sum xs k"
proof (induction xs)
  case Nil
  then show ?case by (simp add: val_sum_def)
next
  case (Cons p xs)
  have IH: "unat (val_sum xs k) = nat_sum xs k" using Cons by simp
  show ?case
  proof (cases "fst p = k")
    case True
    have "unat (snd p + val_sum xs k) = unat (snd p) + unat (val_sum xs k)"
      using Cons.prems True IH by (intro unat_add_lem[THEN iffD1]) simp
    with True IH show ?thesis by (simp add: val_sum_def)
  qed (use IH in \<open>simp add: val_sum_def\<close>)
qed

text \<open>A sublist in the sense of a thread-wise restriction has smaller sums.\<close>

lemma nat_sum_concat_le:
  assumes "\<And>t. t \<in> set ts \<Longrightarrow> nat_sum (f t) k \<le> nat_sum t k"
  shows "nat_sum (concat (map f ts)) k \<le> nat_sum (concat ts) k"
  using assms by (induction ts) (auto intro: add_mono)

lemma nat_sum_take_le: "nat_sum (take n t) k \<le> nat_sum t k"
proof -
  have "nat_sum t k = nat_sum (take n t) k + nat_sum (drop n t) k"
    by (metis append_take_drop_id nat_sum_append)
  then show ?thesis by simp
qed

lemma nat_sum_absent: "k \<notin> set (map fst xs) \<Longrightarrow> nat_sum xs k = 0"
  by (induction xs) auto

lemma nat_sum_distinct: "distinct (map fst t) \<Longrightarrow> nat_sum t k = (case map_of t k of None \<Rightarrow> 0 | Some v \<Rightarrow> unat v)"
proof (induction t)
  case (Cons p t)
  then show ?case
    by (cases p) (auto simp: nat_sum_absent image_iff split: option.splits dest: map_of_SomeD)
qed simp

subsection \<open>Sub-results\<close>

lemma total_concat: "total ths k = (\<Sum>t\<leftarrow>ths. nat_sum t k)"
  by (induction ths) (simp_all add: total_def)

lemma nat_sum_pos: "p \<in> set xs \<Longrightarrow> unat (snd p) \<le> nat_sum xs (fst p)"
  by (induction xs) auto

lemma sent_items_subset: "set (sent_items lim t) \<subseteq> set t"
  by (auto simp: sent_items_def dest: in_set_takeD)

lemma nat_sum_sent_le: "nat_sum (sent_items lim t) k \<le> nat_sum t k"
  by (simp add: sent_items_def nat_sum_take_le)

lemma table_value:
  assumes "table_of dir xs t" "p \<in> set t" "nat_sum xs (fst p) < 2 ^ 64"
  shows "unat (snd p) = nat_sum xs (fst p)"
  using assms val_sum_exact by (auto simp: table_of_def)

lemma bottom_walk_nth:
  "n + length ps < 2 ^ 64 \<Longrightarrow>
   bottom_walk lim ps (of_nat n) lst =
     (if ps \<noteq> [] \<and> n < unat lim then ps ! (min (length ps) (unat lim - n) - 1) else lst)"
proof (induction ps arbitrary: n lst)
  case Nil
  then show ?case by simp
next
  case (Cons p ps)
  have n: "unat (of_nat n :: 64 word) = n" using Cons.prems by (simp add: unat_of_nat take_bit_nat_eq_self)
  have g: "(of_nat n :: 64 word) < lim \<longleftrightarrow> n < unat lim" by (simp add: word_less_nat_alt n)
  have IH: "bottom_walk lim ps (of_nat (n + 1)) p =
      (if ps \<noteq> [] \<and> n + 1 < unat lim then ps ! (min (length ps) (unat lim - (n + 1)) - 1) else p)"
    using Cons.prems by (intro Cons.IH) simp
  show ?case
  proof (cases "n < unat lim")
    case False
    then show ?thesis by (simp add: g)
  next
    case True
    show ?thesis
    proof (cases "ps \<noteq> [] \<and> n + 1 < unat lim")
      case t: True
      then have "min (length (p # ps)) (unat lim - n) - 1 = Suc (min (length ps) (unat lim - (n + 1)) - 1)"
        by (cases ps) auto
      with True t IH g show ?thesis by (simp add: add.commute)
    next
      case f: False
      then have "min (length (p # ps)) (unat lim - n) - 1 = 0" by auto
      with True f IH g show ?thesis by (auto simp: add.commute)
    qed
  qed
qed

lemma find_bottom_nth:
  "mem \<noteq> [] \<Longrightarrow> length mem < 2 ^ 64 \<Longrightarrow> lim \<noteq> 0 \<Longrightarrow>
   tput_phase_1_find_bottom lim mem = snd (mem ! (min (length mem) (unat lim) - 1))"
  using bottom_walk_nth[of 0 mem lim] by (cases mem) (auto simp: tput_phase_1_find_bottom_def unat_gt_0)

text \<open>The first records of a descending table are the largest.\<close>

lemma desc_nth_le:
  "sorted_wrt (\<lambda>p q. ordered Desc (snd p) (snd q)) t \<Longrightarrow> i \<le> j \<Longrightarrow> j < length t \<Longrightarrow> snd (t ! j) \<le> snd (t ! i)"
  by (cases "i = j") (auto simp: sorted_wrt_iff_nth_less ordered_def)

text \<open>Enough keys reach the bottom: \<open>N\<close> of them, or all.\<close>

definition enough :: "64 word \<Rightarrow> nat \<Rightarrow> 'k item list list \<Rightarrow> 'k set \<Rightarrow> bool" where
  "enough lim B ths K \<longleftrightarrow>
     K \<subseteq> all_keys ths \<and> (K = all_keys ths \<or> card K = unat lim) \<and> (\<forall>k\<in>K. B \<le> total ths k)"

lemma length_sent_concat: "length (concat (map (sent_items lim) ths)) \<le> length (concat ths)"
  by (induction ths) (auto simp: sent_items_def intro: add_mono)

lemma total_small: "tput_input_ok dir ths \<Longrightarrow> total ths k < 2 ^ 53"
  by (simp add: tput_input_ok_def)

lemma phase_1_bottom:
  assumes tbl: "table_ok Desc tbl" and ok: "tput_input_ok Desc ths" and lim: "lim \<noteq> 0"
  shows "\<exists>K. enough lim (unat (master_tput_phase_1 tbl lim ths)) ths K"
proof -
  define xs where "xs = concat (map (sent_items lim) ths)"
  define mem where "mem = tbl xs"
  have t: "distinct (map fst mem)" "set (map fst mem) = set (map fst xs)"
    "sorted_wrt (\<lambda>p q. ordered Desc (snd p) (snd q)) mem" "table_of Desc xs mem"
    using tbl by (auto simp: table_ok_def table_of_def mem_def)
  have le: "nat_sum xs k \<le> total ths k" for k
    unfolding xs_def total_def by (intro nat_sum_concat_le) (simp add: nat_sum_sent_le)
  have val: "p \<in> set mem \<Longrightarrow> unat (snd p) \<le> total ths (fst p)" for p
    using table_value[OF t(4)] le[of "fst p"] total_small[OF ok, of "fst p"] by fastforce
  have keys: "set (map fst mem) \<subseteq> all_keys ths"
    unfolding t(2) xs_def all_keys_def using sent_items_subset by fastforce
  have "length (map fst mem) = card (set (map fst mem))" using t(1) by (simp only: distinct_card)
  also have "\<dots> \<le> length xs" unfolding t(2) using card_length[of "map fst xs"] by simp
  also have "\<dots> \<le> length (concat ths)" unfolding xs_def by (rule length_sent_concat)
  finally have len: "length mem < 2 ^ 64" using ok by (simp add: tput_input_ok_def)
  have N: "0 < unat lim" using lim by (simp add: unat_gt_0)
  show ?thesis
  proof (cases "unat lim \<le> length mem")
    case True
    define K where "K = set (map fst (take (unat lim) mem))"
    have "B \<le> total ths k" if kK: "k \<in> K" "B = unat (master_tput_phase_1 tbl lim ths)" for k B
    proof -
      obtain i where i: "i < unat lim" "i < length mem" "k = fst (mem ! i)"
      proof -
        obtain p where "p \<in> set (take (unat lim) mem)" "k = fst p" using kK(1) by (auto simp: K_def)
        then show ?thesis using True that by (auto simp: in_set_conv_nth)
      qed
      have "snd (mem ! (unat lim - 1)) \<le> snd (mem ! i)"
        using i True N by (intro desc_nth_le[OF t(3)]) simp_all
      moreover have "mem \<noteq> []" using i(2) by auto
      then have "master_tput_phase_1 tbl lim ths = snd (mem ! (unat lim - 1))"
        using True len lim N find_bottom_nth[of mem lim]
        by (auto simp: master_tput_phase_1_def slave_tput_phase_1_def[abs_def] xs_def[symmetric] mem_def[symmetric])
      ultimately show ?thesis using val[of "mem ! i"] i kK(2) by (auto simp: word_le_nat_alt)
    qed
    moreover have "card K = unat lim"
      using t(1) True by (simp add: K_def distinct_card take_map[symmetric] del: set_map)
    moreover have "K \<subseteq> all_keys ths" using keys set_take_subset[of "unat lim" "map fst mem"]
      by (auto simp: K_def take_map)
    ultimately show ?thesis unfolding enough_def by (intro exI[of _ K]) blast
  next
    case False
    have full: "sent_items lim t = t" if "t \<in> set ths" for t
    proof (rule ccontr)
      assume "sent_items lim t \<noteq> t"
      then have l: "unat lim < length t" "sent_items lim t = take (unat lim) t"
        using lim by (auto simp: sent_items_def)
      have "distinct (map fst (take (unat lim) t))"
        using ok that by (simp add: tput_input_ok_def take_map[symmetric] distinct_take)
      then have "unat lim = card (set (map fst (take (unat lim) t)))"
        using l(1) by (simp add: distinct_card del: set_map)
      also have "\<dots> \<le> card (set (map fst mem))"
      proof (intro card_mono)
        have "set (take (unat lim) t) \<subseteq> set xs" unfolding l(2)[symmetric] xs_def using that by auto
        then show "set (map fst (take (unat lim) t)) \<subseteq> set (map fst mem)" unfolding t(2) by auto
      qed simp
      also have "\<dots> \<le> length mem" using card_length[of "map fst mem"] by simp
      finally show False using False by simp
    qed
    have xs: "xs = concat ths" unfolding xs_def using full by (simp add: map_idI)
    have all: "set (map fst mem) = all_keys ths" by (simp only: t(2) xs all_keys_def)
    have "unat (master_tput_phase_1 tbl lim ths) \<le> total ths k" if kA: "k \<in> all_keys ths" for k
    proof -
      obtain i where i: "i < length mem" "k = fst (mem ! i)"
      proof -
        obtain p where "p \<in> set mem" "k = fst p" using kA unfolding all[symmetric] by auto
        then show ?thesis using that by (auto simp: in_set_conv_nth)
      qed
      then have "mem \<noteq> []" by auto
      then have "master_tput_phase_1 tbl lim ths = snd (mem ! (length mem - 1))"
        using False len lim find_bottom_nth[of mem lim]
        by (auto simp: master_tput_phase_1_def slave_tput_phase_1_def[abs_def] xs_def[symmetric] mem_def[symmetric] min_def)
      moreover have "snd (mem ! (length mem - 1)) \<le> snd (mem ! i)"
        using i by (intro desc_nth_le[OF t(3)]) simp_all
      ultimately show ?thesis using val[of "mem ! i"] i by (auto simp: word_le_nat_alt)
    qed
    then show ?thesis unfolding enough_def by (intro exI[of _ "all_keys ths"]) blast
  qed
qed

subsection \<open>Phase 2 misses no key that reaches the bottom\<close>

lemma threshold_loop_desc:
  "threshold_loop Desc thr t c = c + of_nat (length (takeWhile (\<lambda>p. thr \<le> snd p) t))"
  by (induction t arbitrary: c) (simp_all add: add.assoc)

lemma desc_not_taken:
  assumes "sorted_wrt (\<lambda>p q. ordered Desc (snd p) (snd q)) t" "p \<in> set t"
    "p \<notin> set (takeWhile (\<lambda>p. thr \<le> snd p) t)"
  shows "snd p < thr"
proof -
  let ?P = "\<lambda>p. thr \<le> snd p"
  have "p \<in> set (dropWhile ?P t)"
    using assms(2,3) by (metis Un_iff set_append takeWhile_dropWhile_id)
  then obtain d ds where d: "dropWhile ?P t = d # ds" by (cases "dropWhile ?P t") simp_all
  then have "\<not> thr \<le> snd d" by (metis hd_dropWhile list.discI list.sel(1))
  moreover have "sorted_wrt (\<lambda>p q. ordered Desc (snd p) (snd q)) (dropWhile ?P t)"
    using assms(1) by (metis sorted_wrt_append takeWhile_dropWhile_id)
  then have "p = d \<or> snd p \<le> snd d"
    using \<open>p \<in> set (dropWhile ?P t)\<close> d by (auto simp: ordered_def)
  ultimately show ?thesis by auto
qed

lemma phase_2_complete:
  assumes "sorted_wrt (\<lambda>p q. ordered Desc (snd p) (snd q)) t" "length t < 2 ^ 64" "p \<in> set t"
    "p \<notin> set (slave_tput_phase_2 Desc thr t)"
  shows "snd p < thr"
proof -
  define n where "n = length (takeWhile (\<lambda>p. thr \<le> snd p) t)"
  have "n < 2 ^ 64" using assms(2) length_takeWhile_le[of "\<lambda>p. thr \<le> snd p" t] by (simp add: n_def)
  then have u: "unat (of_nat n :: 64 word) = n" by (simp add: unat_of_nat take_bit_nat_eq_self)
  have "t \<noteq> []" using assms(3) by auto
  then have s: "slave_tput_phase_2 Desc thr t = sent_items (of_nat n) t"
    by (simp add: slave_tput_phase_2_def tput_phase_2_find_threshold_cnt_def threshold_loop_desc n_def)
  then have "slave_tput_phase_2 Desc thr t = take n t"
    using assms(3,4) u by (auto simp: sent_items_def)
  also have "take n t = takeWhile (\<lambda>p. thr \<le> snd p) t"
    unfolding n_def by (rule takeWhile_eq_take[symmetric])
  finally show ?thesis using desc_not_taken[OF assms(1,3)] assms(4) by simp
qed

lemma threshold_safe:
  assumes "unat B < 2 ^ 53" "0 < m" "m < 2 ^ 31" "v < unat (tput_threshold B m)"
  shows "v * m < unat B"
proof (rule ccontr)
  assume "\<not> v * m < unat B"
  then have "ceil_quotient (unat B) m \<le> v" using assms by (intro ceil_quotient_le) simp_all
  moreover have "unat (tput_threshold B m) \<le> ceil_quotient (unat B) m"
    unfolding tput_threshold_def by (simp add: unat_of_nat take_bit_nat_less_eq_self)
  ultimately show False using assms(4) by simp
qed

text \<open>The keys seen by the master after phase 2.\<close>

definition phase_2_keys :: "64 word \<Rightarrow> 'k item list list \<Rightarrow> 'k set" where
  "phase_2_keys thr ths = set (map fst (concat (map (slave_tput_phase_2 Desc thr) ths)))"

lemma phase_2_keys_sub: "phase_2_keys thr ths \<subseteq> all_keys ths"
  using sent_items_subset by (fastforce simp: phase_2_keys_def all_keys_def slave_tput_phase_2_def)

lemma input_parts:
  assumes "tput_input_ok Desc ths" "t \<in> set ths"
  shows "distinct (map fst t)" "sorted_wrt (\<lambda>p q. ordered Desc (snd p) (snd q)) t" "length t < 2 ^ 64"
proof -
  show "distinct (map fst t)" "sorted_wrt (\<lambda>p q. ordered Desc (snd p) (snd q)) t"
    using assms by (simp_all add: tput_input_ok_def)
  have "length t \<le> length (concat ths)" using assms(2) by (induction ths) auto
  then show "length t < 2 ^ 64" using assms(1) by (simp add: tput_input_ok_def)
qed

lemma sum_list_mult_less:
  fixes f :: "'x \<Rightarrow> nat"
  assumes "xs \<noteq> []" "\<And>x. x \<in> set xs \<Longrightarrow> f x * m < b"
  shows "(\<Sum>x\<leftarrow>xs. f x) * m < length xs * b"
  using assms
proof (induction xs)
  case (Cons x xs)
  have "f x * m < b" using Cons.prems(2) by simp
  moreover have "(\<Sum>x\<leftarrow>xs. f x) * m \<le> length xs * b"
    using Cons by (cases "xs = []") (auto intro: less_imp_le)
  ultimately show ?case by (simp add: add_mult_distrib)
qed simp

lemma missed_below_bottom:
  assumes ok: "tput_input_ok Desc ths" and B: "unat B < 2 ^ 53" and k: "k \<in> all_keys ths"
    and miss: "k \<notin> phase_2_keys (tput_threshold B (length ths)) ths"
  shows "total ths k < unat B"
proof -
  let ?m = "length ths" and ?thr = "tput_threshold B (length ths)"
  have m: "0 < ?m" "?m < 2 ^ 31" using ok by (simp_all add: tput_input_ok_def)
  have below: "snd p < ?thr" if "t \<in> set ths" "p \<in> set t" "fst p = k" for t p
  proof (rule phase_2_complete[OF _ _ that(2)])
    show "p \<notin> set (slave_tput_phase_2 Desc ?thr t)"
      using miss that(1,3) by (auto simp: phase_2_keys_def)
  qed (use input_parts[OF ok that(1)] in simp_all)
  have v: "unat (snd p) * ?m < unat B" if "t \<in> set ths" "p \<in> set t" "fst p = k" for t p
    using below[OF that] by (intro threshold_safe[OF B m]) (simp add: word_less_nat_alt)
  obtain t0 p0 where t0: "t0 \<in> set ths" "p0 \<in> set t0" "fst p0 = k"
    using k by (auto simp: all_keys_def)
  have "0 < unat B" using v[OF t0] by simp
  then have "nat_sum t k * ?m < unat B" if "t \<in> set ths" for t
    using v[OF that] input_parts(1)[OF ok that]
    by (auto simp: nat_sum_distinct split: option.splits dest: map_of_SomeD)
  then have "total ths k * ?m < ?m * unat B"
    unfolding total_concat using m(1) by (intro sum_list_mult_less) auto
  then show ?thesis by simp
qed

subsection \<open>Phase 3 and the result\<close>

lemma phase_3_keys: "set (map fst (slave_tput_phase_3 ks t)) = set ks \<inter> set (map fst t)"
proof (induction ks)
  case (Cons k ks)
  have "map_of t k = None \<longleftrightarrow> k \<notin> set (map fst t)" by (simp add: map_of_eq_None_iff)
  with Cons show ?case by (auto split: option.splits)
qed simp

lemma phase_3_sum:
  "distinct ks \<Longrightarrow> distinct (map fst t) \<Longrightarrow>
   nat_sum (slave_tput_phase_3 ks t) k = (if k \<in> set ks then nat_sum t k else 0)"
proof (induction ks)
  case (Cons a ks)
  then show ?case by (auto simp: nat_sum_distinct[of t] split: option.splits)
qed simp

lemma phase_3_table:
  assumes tbl: "table_ok Desc tbl" and ok: "tput_input_ok Desc ths" and ks: "distinct (map fst mem)"
    and sub: "set (map fst mem) \<subseteq> all_keys ths" and t: "t = master_tput_phase_3 tbl mem ths"
  shows "distinct (map fst t)" "set (map fst t) = set (map fst mem)"
    "sorted_wrt (\<lambda>p q. ordered Desc (snd p) (snd q)) t" "\<forall>p\<in>set t. unat (snd p) = total ths (fst p)"
proof -
  define xs where "xs = concat (map (slave_tput_phase_3 (map fst mem)) ths)"
  have tab: "table_of Desc xs t" using tbl by (simp add: table_ok_def t master_tput_phase_3_def xs_def)
  then show "distinct (map fst t)" "sorted_wrt (\<lambda>p q. ordered Desc (snd p) (snd q)) t"
    by (simp_all add: table_of_def)
  have "set (map fst xs) = set (map fst mem) \<inter> all_keys ths"
    unfolding xs_def all_keys_def using phase_3_keys[of "map fst mem"] by (induction ths) auto
  then show keys: "set (map fst t) = set (map fst mem)"
    using tab sub by (auto simp: table_of_def)
  have sum: "nat_sum xs k = total ths k" if "k \<in> set (map fst mem)" for k
  proof -
    have "nat_sum (concat (map (slave_tput_phase_3 (map fst mem)) us)) k = nat_sum (concat us) k"
      if "\<forall>u\<in>set us. distinct (map fst u)" for us
      using that by (induction us) (use \<open>k \<in> set (map fst mem)\<close> in \<open>auto simp: phase_3_sum[OF ks]\<close>)
    then show ?thesis using ok by (simp add: xs_def total_def tput_input_ok_def)
  qed
  show "\<forall>p\<in>set t. unat (snd p) = total ths (fst p)"
  proof
    fix p assume p: "p \<in> set t"
    then have "fst p \<in> set (map fst mem)" unfolding keys[symmetric] by simp
    then have "nat_sum xs (fst p) = total ths (fst p)" by (rule sum)
    moreover have "total ths (fst p) < 2 ^ 53" using ok by (rule total_small)
    ultimately show "unat (snd p) = total ths (fst p)" using table_value[OF tab p] by simp
  qed
qed

text \<open>
  Of a descending table whose keys contain enough keys that reach the bottom,
  the first records reach it too.
\<close>

lemma first_reach_bottom:
  assumes t: "distinct (map fst t)" "sorted_wrt (\<lambda>p q. ordered Desc (snd p) (snd q)) t"
    and K: "finite K" "card K = n" "K \<subseteq> fst ` {p \<in> set t. B \<le> unat (snd p)}"
    and p: "p \<in> set (take n t)"
  shows "B \<le> unat (snd p)"
proof (rule ccontr)
  assume low: "\<not> B \<le> unat (snd p)"
  obtain i where i: "i < n" "i < length t" "p = t ! i" using p by (auto simp: in_set_conv_nth)
  have "fst ` {q \<in> set t. B \<le> unat (snd q)} \<subseteq> set (map fst (take i t))"
  proof
    fix k assume "k \<in> fst ` {q \<in> set t. B \<le> unat (snd q)}"
    then obtain j where j: "j < length t" "k = fst (t ! j)" "B \<le> unat (snd (t ! j))"
      by (auto simp: in_set_conv_nth)
    have "j < i"
    proof (rule ccontr)
      assume "\<not> j < i"
      then have "snd (t ! j) \<le> snd (t ! i)" using j(1) by (intro desc_nth_le[OF t(2)]) simp_all
      with j(3) low i(3) show False by (simp add: word_le_nat_alt)
    qed
    then have "t ! j \<in> set (take i t)" using j(1) by (auto simp: in_set_conv_nth intro!: exI[of _ j])
    then show "k \<in> set (map fst (take i t))" using j(2) by simp
  qed
  then have "K \<subseteq> set (map fst (take i t))" using K(3) by blast
  then have "card K \<le> card (set (map fst (take i t)))" by (rule card_mono[rotated]) simp
  also have "\<dots> \<le> i" using card_length[of "map fst (take i t)"] by simp
  finally show False using K(2) i(1) by simp
qed

definition top_n :: "64 word \<Rightarrow> 'k item list list \<Rightarrow> 'k item list \<Rightarrow> bool" where
  "top_n lim ths res \<longleftrightarrow>
     distinct (map fst res) \<and> length res = min (unat lim) (card (all_keys ths))
   \<and> (\<forall>p\<in>set res. fst p \<in> all_keys ths \<and> unat (snd p) = total ths (fst p))
   \<and> sorted_wrt (\<lambda>p q. ordered Desc (snd p) (snd q)) res
   \<and> (\<forall>p\<in>set res. \<forall>k\<in>all_keys ths - set (map fst res). total ths k \<le> unat (snd p))"

lemma finite_all_keys: "finite (all_keys ths)"
  by (simp add: all_keys_def)

lemma top_n_of_table:
  assumes t: "distinct (map fst t)" "sorted_wrt (\<lambda>p q. ordered Desc (snd p) (snd q)) t"
    and val: "\<forall>p\<in>set t. unat (snd p) = total ths (fst p)"
    and sub: "set (map fst t) \<subseteq> all_keys ths"
    and K: "enough lim B ths K" and miss: "\<forall>k\<in>all_keys ths - set (map fst t). total ths k < B"
  shows "top_n lim ths (take (unat lim) t)"
proof -
  let ?n = "unat lim"
  have fin: "finite (all_keys ths)" by (rule finite_all_keys)
  have K': "K \<subseteq> all_keys ths" "K = all_keys ths \<or> card K = ?n" "\<forall>k\<in>K. B \<le> total ths k"
    using K by (simp_all add: enough_def)
  have Kt: "K \<subseteq> set (map fst t)"
  proof
    fix k assume "k \<in> K"
    then have "k \<in> all_keys ths" "\<not> total ths k < B" using K' by (auto simp: not_less)
    then show "k \<in> set (map fst t)" using miss by blast
  qed
  have len_t: "length t = card (set (map fst t))" using t(1) by (metis distinct_card length_map)
  have len: "length (take ?n t) = min ?n (card (all_keys ths))"
  proof (cases "K = all_keys ths")
    case True
    then have "set (map fst t) = all_keys ths" using Kt sub by blast
    then show ?thesis using len_t by simp
  next
    case False
    then have "?n \<le> length t" using K'(2) card_mono[OF _ Kt] len_t by simp
    moreover have "length t \<le> card (all_keys ths)" unfolding len_t by (rule card_mono[OF fin sub])
    ultimately show ?thesis by simp
  qed
  have in_t: "p \<in> set (take ?n t) \<Longrightarrow> p \<in> set t" for p by (rule in_set_takeD)
  have max: "total ths k \<le> unat (snd p)"
    if p: "p \<in> set (take ?n t)" and k: "k \<in> all_keys ths - set (map fst (take ?n t))" for p k
  proof (cases "k \<in> set (map fst t)")
    case True
    then obtain q where q: "q \<in> set t" "k = fst q" by auto
    have "q \<notin> set (take ?n t)" using k q(2) by auto
    then have "q \<in> set (drop ?n t)" using q(1) by (metis Un_iff append_take_drop_id set_append)
    moreover have "sorted_wrt (\<lambda>p q. ordered Desc (snd p) (snd q)) (take ?n t @ drop ?n t)"
      using t(2) by simp
    ultimately have "snd q \<le> snd p" using p by (auto simp only: sorted_wrt_append ordered_def direction.case)
    then show ?thesis using val q by (auto simp: word_le_nat_alt)
  next
    case False
    then have low: "total ths k < B" using miss k by blast
    then have "K \<noteq> all_keys ths" using K'(3) k by fastforce
    then have card: "card K = ?n" using K'(2) by blast
    have "K \<subseteq> fst ` {p \<in> set t. B \<le> unat (snd p)}"
    proof
      fix x assume x: "x \<in> K"
      then obtain q where "q \<in> set t" "x = fst q" using Kt by auto
      moreover have "B \<le> unat (snd q)" using val calculation K'(3) x by auto
      ultimately show "x \<in> fst ` {p \<in> set t. B \<le> unat (snd p)}" by blast
    qed
    from first_reach_bottom[OF t finite_subset[OF K'(1) fin] card this p] low show ?thesis by simp
  qed
  have "distinct (map fst (take ?n t))" using t(1) by (simp add: take_map[symmetric] distinct_take)
  moreover have "sorted_wrt (\<lambda>p q. ordered Desc (snd p) (snd q)) (take ?n t)"
    using t(2) by (rule sorted_wrt_take)
  moreover have "\<forall>p\<in>set (take ?n t). fst p \<in> all_keys ths \<and> unat (snd p) = total ths (fst p)"
    using in_t val sub by fastforce
  ultimately show ?thesis using len max unfolding top_n_def by blast
qed

lemma bottom_small:
  assumes "table_ok Desc tbl" "tput_input_ok Desc ths" "lim \<noteq> 0"
  shows "unat (master_tput_phase_1 tbl lim ths) < 2 ^ 53"
proof -
  obtain K where K: "enough lim (unat (master_tput_phase_1 tbl lim ths)) ths K"
    using phase_1_bottom[OF assms] by blast
  define mem where "mem = tbl (concat (map (slave_tput_phase_1 lim) ths))"
  show ?thesis
  proof (cases "K = {}")
    case False
    then obtain k where "unat (master_tput_phase_1 tbl lim ths) \<le> total ths k" using K by (auto simp: enough_def)
    then show ?thesis using total_small[OF assms(2), of k] by simp
  next
    case True
    have "0 < unat lim" using assms(3) by (simp add: unat_gt_0)
    then have "all_keys ths = {}" using K True by (auto simp: enough_def)
    then have "\<forall>t\<in>set ths. t = []" by (auto simp: all_keys_def)
    then have "concat (map (slave_tput_phase_1 lim) ths) = []"
      by (auto simp: slave_tput_phase_1_def sent_items_def)
    then have "set (map fst mem) = {}" using assms(1) by (auto simp: mem_def table_ok_def table_of_def)
    then have "mem = []" by simp
    then show ?thesis by (simp add: master_tput_phase_1_def mem_def tput_phase_1_find_bottom_def)
  qed
qed

text \<open>The three tables of the master may be any tables: the order of equal totals is libnf's.\<close>

lemma table_ok_upd: "table_of dir xs t \<Longrightarrow> table_ok dir tbl \<Longrightarrow> table_ok dir (tbl(xs := t))"
  by (simp add: table_ok_def)

lemma tput_tables:
  fixes tbl :: "'k item list \<Rightarrow> 'k item list" and ths :: "'k item list list"
  assumes "table_ok Desc tbl" and "tput_input_ok Desc ths" and "lim \<noteq> 0"
    and m1: "table_of Desc (concat (map (slave_tput_phase_1 lim) ths)) m1"
    and m2: "table_of Desc (concat (map (slave_tput_phase_2 Desc
        (tput_threshold (tput_phase_1_find_bottom lim m1) (length ths))) ths)) m2"
    and m3: "table_of Desc (concat (map (slave_tput_phase_3 (map fst m2)) ths)) m3"
  shows "top_n lim ths (take (unat lim) m3)"
proof -
  define B where "B = tput_phase_1_find_bottom lim m1"
  note tbl1 = table_ok_upd[OF m1 assms(1)]
  have B: "master_tput_phase_1 (tbl(concat (map (slave_tput_phase_1 lim) ths) := m1)) lim ths = B"
    by (simp add: master_tput_phase_1_def B_def)
  obtain K where K: "enough lim (unat B) ths K" using phase_1_bottom[OF tbl1 assms(2,3)] unfolding B by blast
  have mem: "distinct (map fst m2)" "set (map fst m2) = phase_2_keys (tput_threshold B (length ths)) ths"
    using m2 by (simp_all add: table_of_def phase_2_keys_def B_def)
  have sub: "set (map fst m2) \<subseteq> all_keys ths" unfolding mem(2) by (rule phase_2_keys_sub)
  have "m3 = master_tput_phase_3 (tbl(concat (map (slave_tput_phase_3 (map fst m2)) ths) := m3)) m2 ths"
    by (simp add: master_tput_phase_3_def)
  note tab = phase_3_table[OF table_ok_upd[OF m3 assms(1)] assms(2) mem(1) sub this]
  have "unat B < 2 ^ 53" using bottom_small[OF tbl1 assms(2,3)] unfolding B .
  then have "\<forall>k\<in>all_keys ths - set (map fst m3). total ths k < unat B"
    using missed_below_bottom[OF assms(2)] unfolding tab(2) mem(2) by blast
  moreover have "set (map fst m3) \<subseteq> all_keys ths" using sub by (simp only: tab(2))
  ultimately show ?thesis using tab(1,3,4) K by (intro top_n_of_table)
qed

text \<open>C7: TPUT is exact for descending order: whatever way the records are spread over the slave
  threads, the master prints the true Top-N: N different keys (all, when there are fewer) with
  their exact totals, in order, and no key left out has a larger total.  The totals have to be
  below \<open>2 ^ 53\<close>, where the threshold computed in double precision is not too large.\<close>

theorem tput_top_n:
  assumes "table_ok Desc tbl" and "tput_input_ok Desc ths" and "lim \<noteq> 0"
  shows "top_n lim ths (aggr_main tbl Desc True lim ths)"
proof -
  have t: "table_of Desc xs (tbl xs)" for xs using assms(1) by (simp add: table_ok_def)
  show ?thesis
    using tput_tables[OF assms t t t] assms(3)
    by (simp add: aggr_main_def sent_items_def master_tput_phase_1_def master_tput_phase_2_def master_tput_phase_3_def Let_def)
qed

text \<open>Without TPUT the master prints the true Top-N as well, from all records: the two
  strategies implement the same specification.\<close>

theorem naive_top_n:
  assumes "table_ok Desc tbl" and "tput_input_ok Desc ths" and "lim \<noteq> 0"
  shows "top_n lim ths (aggr_main tbl Desc False lim ths)"
proof -
  define t where "t = tbl (concat ths)"
  have tab: "table_of Desc (concat ths) t" using assms(1) by (simp add: t_def table_ok_def)
  then have t: "distinct (map fst t)" "sorted_wrt (\<lambda>p q. ordered Desc (snd p) (snd q)) t"
    "set (map fst t) = all_keys ths" by (simp_all add: table_of_def all_keys_def)
  have val: "\<forall>p\<in>set t. unat (snd p) = total ths (fst p)"
  proof
    fix p assume p: "p \<in> set t"
    have "nat_sum (concat ths) (fst p) < 2 ^ 53" using total_small[OF assms(2)] by (simp add: total_def)
    then show "unat (snd p) = total ths (fst p)" using table_value[OF tab p] by (simp add: total_def)
  qed
  have "enough lim 0 ths (all_keys ths)" by (simp add: enough_def)
  then have "top_n lim ths (take (unat lim) t)" using t val by (intro top_n_of_table) auto
  moreover have "aggr_main tbl Desc False lim ths = take (unat lim) t"
    using assms(3) by (simp add: aggr_main_def sent_items_def t_def map_idI)
  ultimately show ?thesis by simp
qed

subsection \<open>An instance of the aggregation memory\<close>

definition insert_item :: "direction \<Rightarrow> 'k item \<Rightarrow> 'k item list \<Rightarrow> 'k item list" where
  "insert_item dir p t =
     takeWhile (\<lambda>q. ordered dir (snd q) (snd p)) t @ p # dropWhile (\<lambda>q. ordered dir (snd q) (snd p)) t"

definition sample_table :: "direction \<Rightarrow> 'k item list \<Rightarrow> 'k item list" where
  "sample_table dir xs =
     foldr (insert_item dir) (map (\<lambda>k. (k, val_sum xs k)) (remdups (map fst xs))) []"

lemma set_insert_item: "set (insert_item dir p t) = insert p (set t)"
  by (metis Un_insert_right insert_item_def list.simps(15) set_append takeWhile_dropWhile_id)

lemma sorted_insert_item:
  assumes "sorted_wrt (\<lambda>p q. ordered dir (snd p) (snd q)) t"
  shows "sorted_wrt (\<lambda>p q. ordered dir (snd p) (snd q)) (insert_item dir p t)"
  using assms
proof (induction t)
  case (Cons q t)
  show ?case
  proof (cases "ordered dir (snd q) (snd p)")
    case True
    have "insert_item dir p (q # t) = q # insert_item dir p t" using True by (simp add: insert_item_def)
    then show ?thesis using Cons True by (auto simp: set_insert_item)
  next
    case False
    then have le: "ordered dir (snd p) (snd q)" by (cases dir) (simp_all add: ordered_def)
    have trans: "ordered dir a b \<Longrightarrow> ordered dir b c \<Longrightarrow> ordered dir a c" for a b c
      by (cases dir) (simp_all add: ordered_def)
    have "insert_item dir p (q # t) = p # q # t" using False by (simp add: insert_item_def)
    then show ?thesis using Cons.prems le by (auto intro: trans)
  qed
qed (simp add: insert_item_def)

lemma distinct_insert_item:
  "distinct (map fst t) \<Longrightarrow> fst p \<notin> set (map fst t) \<Longrightarrow> distinct (map fst (insert_item dir p t))"
proof -
  assume d: "distinct (map fst t)" "fst p \<notin> set (map fst t)"
  define A where "A = takeWhile (\<lambda>q. ordered dir (snd q) (snd p)) t"
  define B where "B = dropWhile (\<lambda>q. ordered dir (snd q) (snd p)) t"
  have "t = A @ B" by (simp add: A_def B_def)
  with d have "distinct (map fst (A @ B))" "fst p \<notin> set (map fst (A @ B))" by simp_all
  then show ?thesis unfolding insert_item_def A_def[symmetric] B_def[symmetric] by auto
qed

lemma sample_table_ok: "table_ok dir (sample_table dir :: 'k item list \<Rightarrow> 'k item list)"
proof -
  have fold: "distinct (map fst ys) \<Longrightarrow>
     distinct (map fst (foldr (insert_item dir) ys [])) \<and> set (foldr (insert_item dir) ys []) = set ys
     \<and> sorted_wrt (\<lambda>p q. ordered dir (snd p) (snd q)) (foldr (insert_item dir) ys [])" for ys :: "'k item list"
    by (induction ys) (auto simp: set_insert_item intro!: sorted_insert_item distinct_insert_item)
  have "table_of dir xs (sample_table dir xs)" for xs :: "'k item list"
  proof -
    let ?ys = "map (\<lambda>k. (k, val_sum xs k)) (remdups (map fst xs))"
    have "map fst ?ys = remdups (map fst xs)" by (simp add: comp_def)
    then have ys: "distinct (map fst ?ys)" "set (map fst ?ys) = set (map fst xs)"
      by (metis distinct_remdups) (metis \<open>map fst ?ys = remdups (map fst xs)\<close> set_remdups)
    note t = fold[OF ys(1), folded sample_table_def]
    have "set (map fst (sample_table dir xs)) = set (map fst ?ys)" using t by (simp only: set_map)
    moreover have "\<forall>p\<in>set ?ys. snd p = val_sum xs (fst p)" by auto
    ultimately show ?thesis using t ys(2) unfolding table_of_def by metis
  qed
  then show ?thesis by (simp add: table_ok_def)
qed

definition sample_threads :: "string item list list" where
  "sample_threads = [[(''a'', 9), (''b'', 4)], [(''b'', 7), (''c'', 2)]]"

lemma sample_threads_ok: "tput_input_ok Desc sample_threads"
  by (simp add: tput_input_ok_def sample_threads_def total_def ordered_def)

theorem tput_top_n_witness:
  "top_n 1 sample_threads (aggr_main (sample_table Desc) Desc True 1 sample_threads)"
  by (rule tput_top_n[OF sample_table_ok sample_threads_ok]) simp

theorem naive_top_n_witness:
  "top_n 1 sample_threads (aggr_main (sample_table Desc) Desc False 1 sample_threads)"
  by (rule naive_top_n[OF sample_table_ok sample_threads_ok]) simp

subsection \<open>Where TPUT is wrong\<close>

definition ascending_threads :: "string item list list" where
  "ascending_threads = [[(''a'', 1), (''b'', 10), (''c'', 200)], [(''c'', 1), (''b'', 10), (''a'', 100)]]"

lemma ceil_quotient_1_2: "ceil_quotient 1 2 = 1"
  by (simp add: ceil_quotient_def double_of_exact double_div_def up_exp.simps rne_def frac_ceil_def Let_def)

lemma ascending_threshold: "ceil_quotient (Suc 0) (Suc (Suc 0)) = 1"
  using ceil_quotient_1_2 by (simp only: numeral_2_eq_2 One_nat_def)

lemma ascending_phases:
  "master_tput_phase_1 (sample_table Asc) 1 ascending_threads = 1"
  "master_tput_phase_2 (sample_table Asc) Asc 1 ascending_threads = [(''c'', 1), (''a'', 1)]"
  "master_tput_phase_3 (sample_table Asc) [(''c'', 1), (''a'', 1)] ascending_threads = [(''a'', 101), (''c'', 201)]"
  by (simp_all add: master_tput_phase_1_def master_tput_phase_2_def master_tput_phase_3_def
      slave_tput_phase_1_def slave_tput_phase_2_def tput_phase_2_find_threshold_cnt_def
      tput_phase_1_find_bottom_def tput_threshold_def ascending_threshold sent_items_def
      sample_table_def ascending_threads_def val_sum_def insert_item_def ordered_def Let_def word_le_nat_alt)

text \<open>C35: for ascending order TPUT is wrong, although the code enables it: here the key with the
  smallest total is b (2 units), but the phases lead to a (101 units), because a partial sum is a
  lower bound of a total, and for ascending order an upper bound is needed.\<close>

theorem tput_ascending_wrong:
  "sample_table Asc (concat ascending_threads) = [(''b'', 20), (''a'', 101), (''c'', 201)]
   \<and> aggr_main (sample_table Asc) Asc False 1 ascending_threads = [(''b'', 20)]
   \<and> aggr_main (sample_table Asc) Asc True 1 ascending_threads = [(''a'', 101)]"
proof (intro conjI)
  show all: "sample_table Asc (concat ascending_threads) = [(''b'', 20), (''a'', 101), (''c'', 201)]"
    by (simp add: sample_table_def ascending_threads_def val_sum_def insert_item_def ordered_def)
  show "aggr_main (sample_table Asc) Asc False 1 ascending_threads = [(''b'', 20)]"
    using all by (simp add: aggr_main_def sent_items_def map_idI)
  show "aggr_main (sample_table Asc) Asc True 1 ascending_threads = [(''a'', 101)]"
    by (simp add: aggr_main_def ascending_phases sent_items_def Let_def)
qed

text \<open>Above \<open>2 ^ 53\<close> the conversion of the bottom to a double may round up: then the threshold
  exceeds the bottom even for a single slave thread, and phase 2 misses the record that defines it.\<close>

theorem tput_threshold_rounds_up:
  "tput_threshold (2 ^ 53 + 3) 1 = 2 ^ 53 + 4
   \<and> slave_tput_phase_2 Desc (tput_threshold (2 ^ 53 + 3) 1)
        [(''a'', 2 ^ 53 + 9), (''b'', 2 ^ 53 + 3)] = [(''a'', 2 ^ 53 + 9)]"
proof -
  have "ceil_quotient 9007199254740995 1 = 9007199254740996"
    by (simp add: ceil_quotient_def double_of_def down_exp.simps double_div_def up_exp.simps rne_def frac_ceil_def Let_def)
  then have thr: "tput_threshold (2 ^ 53 + 3) 1 = 2 ^ 53 + 4" by (simp add: tput_threshold_def)
  show ?thesis unfolding thr
    by (simp add: slave_tput_phase_2_def tput_phase_2_find_threshold_cnt_def sent_items_def)
qed

end
