(* ===== verification/Tput_Raw.thy ===== *)
theory Tput_Raw
  imports Recv Tput Cmdline_Args
begin

text \<open>
  The phases of TPUT over libnf's memories and MPI's messages: the slave's
  \<open>tput_phase_1\<close> to \<open>tput_phase_3\<close> (\<open>src/slave.c\<close>) and the master's
  (\<open>src/master.c\<close>).  \<open>Tput\<close> has the algorithm; here are the raw records, the
  buffers and the broadcasts.

  \<open>mem_ops\<close> is libnf's memory: \<open>mo_raw\<close> are its records in cursor order,
  \<open>mo_keys\<close> the values of the sort key in the same order, \<open>mo_lookup\<close> the position
  of the record that has the aggregation key of a raw record.
\<close>

record 'm mem_ops =
  mo_ok :: "mem_call \<Rightarrow> bool"
  mo_malloc :: "64 word \<Rightarrow> bool"
  mo_init :: "mem_call list \<Rightarrow> 'm"
  mo_write_raw :: "'m \<Rightarrow> byte list \<Rightarrow> 'm option"
  mo_sort :: "'m \<Rightarrow> 'm"
  mo_raw :: "'m \<Rightarrow> byte list list"
  mo_keys :: "'m \<Rightarrow> 64 word list"
  mo_lookup :: "'m \<Rightarrow> byte list \<Rightarrow> nat option"
  mo_read :: "byte list \<Rightarrow> int \<Rightarrow> raw_result"
  mo_max_raw_len :: nat

text \<open>What the master broadcasts: the threshold, the number and length of the records, the records.\<close>

record tput_bcast =
  tb_threshold :: "64 word"
  tb_rec_cnt :: "64 word"
  tb_rec_len :: "64 word"
  tb_rec_buff :: "byte list"

text \<open>A computation that may fail or not end, before one that may.\<close>

definition run_after :: "'a res \<Rightarrow> ('a \<Rightarrow> 'b res option) \<Rightarrow> 'b res option" where
  "run_after r k =
     (case r of
        Ret x \<Rightarrow> k x
      | Abort e \<Rightarrow> Some (Abort e)
      | Assert_Fail \<Rightarrow> Some Assert_Fail
      | Out_Of_Bounds \<Rightarrow> Some Out_Of_Bounds
      | Data_Race \<Rightarrow> Some Data_Race)"

definition run_then :: "'a res option \<Rightarrow> ('a \<Rightarrow> 'b res option) \<Rightarrow> 'b res option" where
  "run_then r k = (case r of None \<Rightarrow> None | Some r' \<Rightarrow> run_after r' k)"

lemma run_after_Ret [simp]: "run_after (Ret x) k = k x"
  by (simp add: run_after_def)

lemma run_then_Ret [simp]: "run_then (Some (Ret x)) k = k x" "run_then None k = None"
  by (simp_all add: run_then_def)

subsection \<open>The slave\<close>

definition send_mem :: "'m mem_ops \<Rightarrow> 'm \<Rightarrow> 64 word \<Rightarrow> mpi_tag \<Rightarrow> (bool \<Rightarrow> byte list) \<Rightarrow> message list res option" where
  "send_mem mo mem lim tag bufs =
     send_raw_mem (mo_read mo) (mo_max_raw_len mo) (mo_raw mo mem) lim tag bufs XCHG_BUFF_SIZE"

definition slave_raw_phase_1 :: "'m mem_ops \<Rightarrow> cmdline_args \<Rightarrow> (bool \<Rightarrow> byte list) \<Rightarrow> 'm \<Rightarrow> message list res option" where
  "slave_raw_phase_1 mo args bufs mem = send_mem mo mem (rec_limit args) TAG_TPUT1 bufs"

definition sort_direction :: "libnf \<Rightarrow> cmdline_args \<Rightarrow> direction" where
  "sort_direction L args = (if sk_direction (sort_key (ca_fields args)) = lnf L LNF_SORT_DESC then Desc else Asc)"

definition sort_direction_known :: "libnf \<Rightarrow> cmdline_args \<Rightarrow> bool" where
  "sort_direction_known L args \<longleftrightarrow>
     sk_direction (sort_key (ca_fields args)) = lnf L LNF_SORT_DESC
   \<or> sk_direction (sort_key (ca_fields args)) = lnf L LNF_SORT_ASC"

definition slave_raw_phase_2 ::
  "libnf \<Rightarrow> 'm mem_ops \<Rightarrow> cmdline_args \<Rightarrow> tput_bcast \<Rightarrow> (bool \<Rightarrow> byte list) \<Rightarrow> 'm \<Rightarrow> message list res option" where
  "slave_raw_phase_2 L mo args bc bufs mem =
     run_after (assert_then (sk_field (sort_key (ca_fields args)) \<noteq> None)
                 (assert_then (sort_direction_known L args)
                   (Ret (tput_phase_2_find_threshold_cnt (sort_direction L args) (tb_threshold bc)
                      (map (Pair ()) (mo_keys mo mem))))))
       (\<lambda>threshold_cnt. send_mem mo mem threshold_cnt TAG_TPUT2 bufs)"

text \<open>The record at index \<open>i\<close> of the broadcast buffer, whose size is a 64-bit product.\<close>

definition received_rec :: "tput_bcast \<Rightarrow> nat \<Rightarrow> byte list res" where
  "received_rec bc i =
     (let len = unat (tb_rec_len bc); buff_size = unat (tb_rec_cnt bc * tb_rec_len bc) in
      if i * len + len > buff_size then Out_Of_Bounds else Ret (take len (drop (i * len) (tb_rec_buff bc))))"

definition find_received :: "'m mem_ops \<Rightarrow> tput_bcast \<Rightarrow> 'm \<Rightarrow> nat \<Rightarrow> 'm \<Rightarrow> 'm res" where
  "find_received mo bc mem i found =
     res_bind (received_rec bc i) (\<lambda>rec.
     case mo_lookup mo mem rec of
       None \<Rightarrow> Ret found
     | Some c \<Rightarrow>
         assert_then (c < length (mo_raw mo mem))
          (case mo_write_raw mo found (mo_raw mo mem ! c) of
             None \<Rightarrow> Assert_Fail
           | Some found' \<Rightarrow> Ret found'))"

definition slave_raw_phase_3 ::
  "libnf \<Rightarrow> 'm mem_ops \<Rightarrow> cmdline_args \<Rightarrow> tput_bcast \<Rightarrow> (bool \<Rightarrow> byte list) \<Rightarrow> 'm \<Rightarrow> message list res option" where
  "slave_raw_phase_3 L mo args bc bufs mem =
     run_after (abort_if (\<not> mo_malloc mo (tb_rec_cnt bc * tb_rec_len bc)) E_MEM
                 (res_bind (libnf_mem_init_list L (mo_ok mo) (ca_fields args)) (\<lambda>calls.
                  each_res (find_received mo bc mem) [0..<unat (tb_rec_cnt bc)] (mo_init mo calls))))
       (\<lambda>found. send_mem mo found 0 TAG_TPUT3 bufs)"

definition slave_raw_tput ::
  "libnf \<Rightarrow> 'm mem_ops \<Rightarrow> cmdline_args \<Rightarrow> tput_bcast \<Rightarrow> (bool \<Rightarrow> byte list) \<Rightarrow> 'm \<Rightarrow> message list res option" where
  "slave_raw_tput L mo args bc bufs mem =
     run_then (slave_raw_phase_1 mo args bufs mem) (\<lambda>ms1.
     run_then (slave_raw_phase_2 L mo args bc bufs mem) (\<lambda>ms2.
     run_then (slave_raw_phase_3 L mo args bc bufs mem) (\<lambda>ms3. Some (Ret (ms1 @ ms2 @ ms3)))))"

subsection \<open>The master\<close>

record master_ctx =
  rec_buff :: "bool \<Rightarrow> byte list"
  slave_threads_cnt :: nat

text \<open>The messages arrive by tag.\<close>

type_synonym arrivals = "mpi_tag \<Rightarrow> message list"

definition recv_memory ::
  "'m mem_ops \<Rightarrow> master_ctx \<Rightarrow> mpi_tag \<Rightarrow> 'm \<Rightarrow> arrivals \<Rightarrow> 'm res option" where
  "recv_memory mo m_ctx tag mem msgs =
     recv_loop (rec_buff m_ctx) (slave_threads_cnt m_ctx) 0 tag
       (mem_write_raw_callback (mo_write_raw mo)) mem (msgs tag)"

definition master_raw_phase_1 ::
  "'m mem_ops \<Rightarrow> cmdline_args \<Rightarrow> master_ctx \<Rightarrow> 'm \<Rightarrow> arrivals \<Rightarrow> 64 word res option" where
  "master_raw_phase_1 mo args m_ctx mem msgs =
     run_then (recv_memory mo m_ctx TAG_TPUT1 mem msgs) (\<lambda>mem1.
       Some (assert_then (rec_limit args \<noteq> 0)
         (Ret (tput_phase_1_find_bottom (rec_limit args) (map (Pair ()) (mo_keys mo mem1))))))"

text \<open>The threshold broadcast, and the new memory.\<close>

definition master_raw_phase_2 ::
  "libnf \<Rightarrow> 'm mem_ops \<Rightarrow> cmdline_args \<Rightarrow> master_ctx \<Rightarrow> 64 word \<Rightarrow> arrivals \<Rightarrow> (64 word \<times> 'm) res option" where
  "master_raw_phase_2 L mo args m_ctx phase_1_bottom msgs =
     run_after (libnf_mem_init_ht L (mo_ok mo) (ca_fields args)) (\<lambda>calls.
     run_then (recv_memory mo m_ctx TAG_TPUT2 (mo_init mo calls) msgs) (\<lambda>mem.
       Some (Ret (tput_threshold phase_1_bottom (slave_threads_cnt m_ctx), mem))))"

text \<open>The records are stored one after the other; all have the length of the first.\<close>

fun store_records :: "64 word \<Rightarrow> (byte list \<Rightarrow> int \<Rightarrow> raw_result) \<Rightarrow> nat \<Rightarrow> byte list list \<Rightarrow> byte list \<Rightarrow> byte list res" where
  "store_records len rd room [] buff = Ret buff"
| "store_records len rd room (r # rs) buff =
     (case rd r (int (room - length buff)) of
        Raw_OK r' \<Rightarrow>
          assert_then (r' \<noteq> [] \<and> of_nat (length r') = len) (store_records len rd room rs (buff @ r'))
      | _ \<Rightarrow> Assert_Fail)"

text \<open>What is broadcast: the threshold, and the records of the memory of phase 2 in one buffer.\<close>

definition tput_records :: "'m mem_ops \<Rightarrow> 64 word \<Rightarrow> 'm \<Rightarrow> tput_bcast res" where
  "tput_records mo threshold mem =
     (let recs = mo_raw mo mem; cnt = libnf_mem_rec_cnt recs in
      res_bind (libnf_mem_rec_len recs) (\<lambda>len.
      abort_if (\<not> mo_malloc mo (cnt * len)) E_MEM
       (res_bind (store_records len (mo_read mo) (unat (cnt * len)) (take (unat cnt) recs) []) (\<lambda>buff.
        Ret \<lparr>tb_threshold = threshold, tb_rec_cnt = cnt, tb_rec_len = len, tb_rec_buff = buff\<rparr>))))"

definition master_raw_phase_3 ::
  "libnf \<Rightarrow> 'm mem_ops \<Rightarrow> cmdline_args \<Rightarrow> master_ctx \<Rightarrow> 64 word \<Rightarrow> 'm \<Rightarrow> arrivals \<Rightarrow> (tput_bcast \<times> 'm) res option" where
  "master_raw_phase_3 L mo args m_ctx threshold mem msgs =
     run_after (tput_records mo threshold mem) (\<lambda>bc.
     run_after (libnf_mem_init_ht L (mo_ok mo) (ca_fields args)) (\<lambda>calls.
     run_then (recv_memory mo m_ctx TAG_TPUT3 (mo_init mo calls) msgs) (\<lambda>mem2. Some (Ret (bc, mem2)))))"

definition master_raw_tput ::
  "libnf \<Rightarrow> 'm mem_ops \<Rightarrow> cmdline_args \<Rightarrow> master_ctx \<Rightarrow> 'm \<Rightarrow> arrivals \<Rightarrow> (tput_bcast \<times> 'm) res option" where
  "master_raw_tput L mo args m_ctx mem msgs =
     run_then (master_raw_phase_1 mo args m_ctx mem msgs) (\<lambda>bottom.
     run_then (master_raw_phase_2 L mo args m_ctx bottom msgs) (\<lambda>(threshold, mem2).
     master_raw_phase_3 L mo args m_ctx threshold mem2 msgs))"

subsection \<open>What libnf provides\<close>

text \<open>
  No allocation fails, a memory takes every raw record and reads it back, and a lookup
  finds a record of the memory.
\<close>

definition mem_ops_ok :: "'m mem_ops \<Rightarrow> bool" where
  "mem_ops_ok mo \<longleftrightarrow>
     mo_ok mo = (\<lambda>_. True) \<and> mo_malloc mo = (\<lambda>_. True) \<and> raw_read_ok (mo_read mo)
   \<and> (\<forall>m r. mo_write_raw mo m r \<noteq> None)
   \<and> (\<forall>m. send_params_ok (mo_max_raw_len mo) XCHG_BUFF_SIZE (mo_raw mo m))
   \<and> (\<forall>m r c. mo_lookup mo m r = Some c \<longrightarrow> c < length (mo_raw mo m))"

text \<open>The size of the broadcast buffer does not wrap.\<close>

definition bcast_ok :: "tput_bcast \<Rightarrow> bool" where
  "bcast_ok bc \<longleftrightarrow> unat (tb_rec_cnt bc) * unat (tb_rec_len bc) < 2 ^ 64"

lemma send_mem_Ret:
  assumes "mem_ops_ok mo" "\<forall>i. length (bufs i) = XCHG_BUFF_SIZE"
  shows "\<exists>gs. send_mem mo mem lim tag bufs = Some (Ret (sender_msgs tag gs))
    \<and> concat gs = sent_items lim (mo_raw mo mem) \<and> (\<forall>g\<in>set gs. g \<noteq> [] \<and> length (pack g) \<le> XCHG_BUFF_SIZE)"
  unfolding send_mem_def sent_items_def
  using assms by (intro send_raw_mem_Ret) (simp_all add: mem_ops_ok_def)

text \<open>The loop over the received records, as a fold.\<close>

definition found_one :: "'m mem_ops \<Rightarrow> tput_bcast \<Rightarrow> 'm \<Rightarrow> nat \<Rightarrow> 'm \<Rightarrow> 'm" where
  "found_one mo bc mem i found =
     (case mo_lookup mo mem (take (unat (tb_rec_len bc)) (drop (i * unat (tb_rec_len bc)) (tb_rec_buff bc))) of
        None \<Rightarrow> found
      | Some c \<Rightarrow> the (mo_write_raw mo found (mo_raw mo mem ! c)))"

lemma received_rec_Ret:
  assumes "bcast_ok bc" "i < unat (tb_rec_cnt bc)"
  shows "received_rec bc i = Ret (take (unat (tb_rec_len bc)) (drop (i * unat (tb_rec_len bc)) (tb_rec_buff bc)))"
proof -
  have "unat (tb_rec_cnt bc * tb_rec_len bc) = unat (tb_rec_cnt bc) * unat (tb_rec_len bc)"
    using assms(1) unfolding bcast_ok_def by (intro unat_mult_lem[THEN iffD1]) simp
  moreover have "Suc i * unat (tb_rec_len bc) \<le> unat (tb_rec_cnt bc) * unat (tb_rec_len bc)"
    using assms(2) by (intro mult_le_mono1) simp
  ultimately show ?thesis by (simp add: received_rec_def Let_def add.commute)
qed

lemma find_received_Ret:
  assumes "mem_ops_ok mo" "bcast_ok bc" "i < unat (tb_rec_cnt bc)"
  shows "find_received mo bc mem i found = Ret (found_one mo bc mem i found)"
proof -
  have "(case mo_write_raw mo found r of None \<Rightarrow> Assert_Fail | Some m \<Rightarrow> Ret m) = Ret (the (mo_write_raw mo found r))" for r
    using assms(1) by (auto simp: mem_ops_ok_def split: option.split)
  moreover have "mo_lookup mo mem r = Some c \<Longrightarrow> c < length (mo_raw mo mem)" for r c
    using assms(1) by (simp add: mem_ops_ok_def)
  ultimately show ?thesis
    by (cases "mo_lookup mo mem (take (unat (tb_rec_len bc)) (drop (i * unat (tb_rec_len bc)) (tb_rec_buff bc)))")
      (auto simp: find_received_def found_one_def received_rec_Ret[OF assms(2,3)])
qed

lemma find_loop_Ret:
  assumes "mem_ops_ok mo" "bcast_ok bc"
  shows "\<forall>i\<in>set is. i < unat (tb_rec_cnt bc) \<Longrightarrow>
    each_res (find_received mo bc mem) is found = Ret (fold (found_one mo bc mem) is found)"
  by (induction "is" arbitrary: found) (simp_all add: find_received_Ret[OF assms])

lemma slave_raw_tput_Ret:
  assumes "mem_ops_ok mo" "bcast_ok bc" "\<forall>i. length (bufs i) = XCHG_BUFF_SIZE"
    and "libnf_ok L" "fields_inv L (ca_fields args)"
    and "sk_field (sort_key (ca_fields args)) \<noteq> None" "sort_direction_known L args"
  shows "\<exists>calls gs1 gs2 gs3. slave_raw_tput L mo args bc bufs mem
      = Some (Ret (sender_msgs TAG_TPUT1 gs1 @ sender_msgs TAG_TPUT2 gs2 @ sender_msgs TAG_TPUT3 gs3))
    \<and> concat gs1 = sent_items (rec_limit args) (mo_raw mo mem)
    \<and> concat gs2 = sent_items (tput_phase_2_find_threshold_cnt (sort_direction L args) (tb_threshold bc)
                      (map (Pair ()) (mo_keys mo mem))) (mo_raw mo mem)
    \<and> libnf_mem_init_list L (\<lambda>_. True) (ca_fields args) = Ret calls
    \<and> concat gs3 = mo_raw mo (fold (found_one mo bc mem) [0..<unat (tb_rec_cnt bc)] (mo_init mo calls))
    \<and> (\<forall>g\<in>set (gs1 @ gs2 @ gs3). g \<noteq> [] \<and> length (pack g) \<le> XCHG_BUFF_SIZE)"
proof -
  obtain calls where c: "libnf_mem_init_list L (\<lambda>_. True) (ca_fields args) = Ret calls"
    using init_list_exact[OF assms(4-6)] by blast
  have ok: "mo_ok mo = (\<lambda>_. True)" "mo_malloc mo = (\<lambda>_. True)" using assms(1) by (simp_all add: mem_ops_ok_def)
  note s = send_mem_Ret[OF assms(1,3)]
  let ?cnt = "tput_phase_2_find_threshold_cnt (sort_direction L args) (tb_threshold bc) (map (Pair ()) (mo_keys mo mem))"
  let ?found = "fold (found_one mo bc mem) [0..<unat (tb_rec_cnt bc)] (mo_init mo calls)"
  obtain gs1 where g1: "send_mem mo mem (rec_limit args) TAG_TPUT1 bufs = Some (Ret (sender_msgs TAG_TPUT1 gs1))"
    "concat gs1 = sent_items (rec_limit args) (mo_raw mo mem)" "\<forall>g\<in>set gs1. g \<noteq> [] \<and> length (pack g) \<le> XCHG_BUFF_SIZE"
    using s by blast
  obtain gs2 where g2: "send_mem mo mem ?cnt TAG_TPUT2 bufs = Some (Ret (sender_msgs TAG_TPUT2 gs2))"
    "concat gs2 = sent_items ?cnt (mo_raw mo mem)" "\<forall>g\<in>set gs2. g \<noteq> [] \<and> length (pack g) \<le> XCHG_BUFF_SIZE"
    using s by blast
  obtain gs3 where g3: "send_mem mo ?found 0 TAG_TPUT3 bufs = Some (Ret (sender_msgs TAG_TPUT3 gs3))"
    "concat gs3 = sent_items 0 (mo_raw mo ?found)" "\<forall>g\<in>set gs3. g \<noteq> [] \<and> length (pack g) \<le> XCHG_BUFF_SIZE"
    using s by blast
  have "each_res (find_received mo bc mem) [0..<unat (tb_rec_cnt bc)] (mo_init mo calls) = Ret ?found"
    by (rule find_loop_Ret[OF assms(1,2)]) simp
  then have "slave_raw_tput L mo args bc bufs mem
      = Some (Ret (sender_msgs TAG_TPUT1 gs1 @ sender_msgs TAG_TPUT2 gs2 @ sender_msgs TAG_TPUT3 gs3))"
    using g1(1) g2(1) g3(1) c ok assms(6,7)
    by (simp add: slave_raw_tput_def slave_raw_phase_1_def slave_raw_phase_2_def slave_raw_phase_3_def)
  moreover have "concat gs3 = mo_raw mo ?found" using g3(2) by (simp add: sent_items_def)
  moreover have "\<forall>g\<in>set (gs1 @ gs2 @ gs3). g \<noteq> [] \<and> length (pack g) \<le> XCHG_BUFF_SIZE"
    using g1(3) g2(3) g3(3) by (simp only: set_append ball_Un simp_thms)
  ultimately show ?thesis using g1(2) g2(2) c by blast
qed

end
