(* ===== verification/Slave.thy ===== *)
theory Slave
  imports List_Mode Recv Bfindex Libnf_Mem Path_Array Tput_Raw
begin

text \<open>
  A slave process: \<open>thread_ctx_init\<close>, \<open>process_file_mt\<close>, \<open>postprocess_mt\<close>
  and \<open>slave_main\<close> of \<open>src/slave.c\<close>.

  The environment \<open>slave_env\<close> has what libnf and the file system give: the records
  of a flow file, its metadata, its index, the compiled filter, the memories.  The
  distribution of the files to the threads (\<open>schedule(dynamic)\<close>) is a parameter,
  and so is, for each thread, what the others do to the shared context; the histories
  of the threads of one process are those of one interleaving of atomic accesses
  (\<open>interleaved\<close> of \<open>Slave_List\<close>).
\<close>

record ('r, 'm) slave_env =
  se_open :: "string \<Rightarrow> 'r list option"
  se_info :: "string \<Rightarrow> info_key \<Rightarrow> 64 word option"
  se_index :: "string \<Rightarrow> (ip_data \<Rightarrow> bool) option"
  se_path_malloc :: "string \<Rightarrow> bool"
  se_filter_init :: "string \<Rightarrow> ff_node option"
  se_filter_match :: "ff_node \<Rightarrow> 'r \<Rightarrow> bool"
  se_rec_init :: bool
  se_malloc :: bool
  se_rec_fget :: "'r \<Rightarrow> int \<Rightarrow> byte list"
  se_rec_u64 :: "'r \<Rightarrow> lnf_const \<Rightarrow> 64 word"
  se_lnf_mem :: "'m mem_ops"
  se_mem_write :: "'r \<Rightarrow> 'm \<Rightarrow> 'm option"
  se_bcast :: tput_bcast

record 'm thread_ctx =
  tc_filter :: "ff_node option"
  tc_bfindex_root :: "bfindex_node option"
  tc_mem :: "'m option"
  tc_ff :: ff_state
  tc_ms :: metadata_summ

subsection \<open>The context of a thread\<close>

definition init_filter :: "('r, 'm) slave_env \<Rightarrow> string \<Rightarrow> ff_node res" where
  "init_filter E flt =
     assert_then (flt \<noteq> [])
      (case se_filter_init E flt of None \<Rightarrow> Abort E_LNF | Some root \<Rightarrow> Ret root)"

definition init_filter_and_index ::
  "('r, 'm) slave_env \<Rightarrow> cmdline_args \<Rightarrow> bf_state \<Rightarrow> (ff_node option \<times> bfindex_node option \<times> bf_state) res" where
  "init_filter_and_index E args bf =
     (case filter_str args of
        None \<Rightarrow> Ret (None, None, bf)
      | Some flt \<Rightarrow>
          res_bind (init_filter E flt) (\<lambda>root.
          if use_bfindex args
          then res_bind (bfindex_init bf (Some root)) (\<lambda>(bfroot, bf'). Ret (Some root, bfroot, bf'))
          else Ret (Some root, None, bf)))"

definition init_mem :: "libnf \<Rightarrow> ('r, 'm) slave_env \<Rightarrow> cmdline_args \<Rightarrow> 'm option res" where
  "init_mem L E args =
     (case working_mode args of
        MODE_LIST \<Rightarrow> Ret None
      | MODE_SORT \<Rightarrow>
          res_bind (libnf_mem_init_list L (mo_ok (se_lnf_mem E)) (ca_fields args)) (\<lambda>calls. Ret (Some (mo_init (se_lnf_mem E) calls)))
      | MODE_AGGR \<Rightarrow>
          res_bind (libnf_mem_init_ht L (mo_ok (se_lnf_mem E)) (ca_fields args)) (\<lambda>calls. Ret (Some (mo_init (se_lnf_mem E) calls)))
      | MODE_META \<Rightarrow> Ret None
      | MODE_UNSET \<Rightarrow> Abort E_INTERNAL)"

definition ff_start :: "(bool \<Rightarrow> byte list) \<Rightarrow> ff_state" where
  "ff_start bufs = \<lparr>ff_send = send_init [] bufs, ff_proc = 0, ff_reached = False, ff_summ = zero_ps, ff_hist = []\<rparr>"

definition thread_ctx_init ::
  "libnf \<Rightarrow> ('r, 'm) slave_env \<Rightarrow> cmdline_args \<Rightarrow> (bool \<Rightarrow> byte list) \<Rightarrow> bf_state \<Rightarrow> ('m thread_ctx \<times> bf_state) res" where
  "thread_ctx_init L E args bufs bf =
     res_bind (init_filter_and_index E args bf) (\<lambda>(flt, root, bf').
     abort_if (\<not> se_rec_init E) E_LNF
      (abort_if (\<not> se_malloc E) E_MEM
        (res_bind (init_mem L E args) (\<lambda>mem.
         Ret (\<lparr>tc_filter = flt, tc_bfindex_root = root, tc_mem = mem, tc_ff = ff_start bufs, tc_ms = zero_ms\<rparr>, bf')))))"

subsection \<open>One file\<close>

definition thread_cfg ::
  "('r, 'm) slave_env \<Rightarrow> cmdline_args \<Rightarrow> (nat \<Rightarrow> shared \<Rightarrow> shared) \<Rightarrow> ff_node option \<Rightarrow> 'r ff_cfg" where
  "thread_cfg E args others flt =
     \<lparr>fc_fields = ca_fields args,
      fc_match = (\<lambda>r. case flt of None \<Rightarrow> True | Some f \<Rightarrow> se_filter_match E f r),
      fc_get = se_rec_fget E, fc_u64 = se_rec_u64 E, fc_limit = rec_limit args, fc_tag = TAG_LIST,
      fc_others = others\<rparr>"

text \<open>The query of the index; a path whose index name cannot be built is read.\<close>

definition file_may_match :: "('r, 'm) slave_env \<Rightarrow> bfindex_node option \<Rightarrow> string \<Rightarrow> bool res" where
  "file_may_match E root path =
     (case root of
        None \<Rightarrow> Ret True
      | Some node \<Rightarrow>
          res_bind (bfindex_flow_to_index_path (se_path_malloc E path) path) (\<lambda>index_path.
          case index_path of None \<Rightarrow> Ret True | Some p \<Rightarrow> bfindex_contains (se_index E) node p))"

definition store_file ::
  "('r, 'm) slave_env \<Rightarrow> 'r ff_cfg \<Rightarrow> 'r list \<Rightarrow> 'm thread_ctx \<Rightarrow> 'm thread_ctx res" where
  "store_file E C rs t =
     (case tc_mem t of
        None \<Rightarrow> Out_Of_Bounds
      | Some mem \<Rightarrow>
          res_bind (ff_read_and_store C (se_mem_write E) rs (ff_summ (tc_ff t), mem)) (\<lambda>(ps, mem').
          Ret (t\<lparr>tc_ff := (tc_ff t)\<lparr>ff_summ := ps\<rparr>, tc_mem := Some mem'\<rparr>)))"

definition list_file :: "'r ff_cfg \<Rightarrow> 'r list \<Rightarrow> 'm thread_ctx \<Rightarrow> 'm thread_ctx res" where
  "list_file C rs t =
     (let st = access C id (tc_ff t) in
      if ff_reached st then Ret (t\<lparr>tc_ff := st\<rparr>)
      else res_bind (ff_read_and_send C (s_bufs (ff_send st)) rs st) (\<lambda>st'. Ret (t\<lparr>tc_ff := st'\<rparr>)))"

definition process_file_mt ::
  "('r, 'm) slave_env \<Rightarrow> cmdline_args \<Rightarrow> 'r ff_cfg \<Rightarrow> string \<Rightarrow> 'm thread_ctx \<Rightarrow> 'm thread_ctx res" where
  "process_file_mt E args C ff_path t =
     (case se_open E ff_path of
        None \<Rightarrow> Ret t
      | Some rs \<Rightarrow>
          res_bind (metadata_summ_update (se_info E ff_path) (tc_ms t)) (\<lambda>ms.
          res_bind (file_may_match E (tc_bfindex_root t) ff_path) (\<lambda>contains.
          let t1 = t\<lparr>tc_ms := ms\<rparr> in
          if \<not> contains then Ret t1
          else case working_mode args of
                 MODE_LIST \<Rightarrow> list_file C rs t1
               | MODE_SORT \<Rightarrow> store_file E C rs t1
               | MODE_AGGR \<Rightarrow> store_file E C rs t1
               | MODE_META \<Rightarrow> Ret t1
               | MODE_UNSET \<Rightarrow> Abort E_INTERNAL)))"

subsection \<open>After the files\<close>

text \<open>What a thread sends after its files; TPUT answers what the master broadcasts.\<close>

definition send_memory ::
  "('r, 'm) slave_env \<Rightarrow> 'm \<Rightarrow> 64 word \<Rightarrow> mpi_tag \<Rightarrow> ff_state \<Rightarrow> message list res option" where
  "send_memory E mem lim tag st = send_mem (se_lnf_mem E) mem lim tag (s_bufs (ff_send st))"

definition postprocess_mt ::
  "libnf \<Rightarrow> ('r, 'm) slave_env \<Rightarrow> cmdline_args \<Rightarrow> 'm thread_ctx \<Rightarrow> message list res option" where
  "postprocess_mt L E args t =
     (case (working_mode args, tc_mem t) of
        (MODE_LIST, _) \<Rightarrow> Some (Ret [send_terminator TAG_LIST])
      | (MODE_SORT, Some mem) \<Rightarrow> send_memory E (mo_sort (se_lnf_mem E) mem) (rec_limit args) TAG_SORT (tc_ff t)
      | (MODE_AGGR, Some mem) \<Rightarrow>
          if use_tput args
          then run_after (assert_then (rec_limit args \<noteq> 0) (Ret ()))
                 (\<lambda>_. slave_raw_tput L (se_lnf_mem E) args (se_bcast E) (s_bufs (ff_send (tc_ff t))) mem)
          else send_memory E mem 0 TAG_AGGR (tc_ff t)
      | (MODE_META, _) \<Rightarrow> Some (Ret [])
      | (MODE_UNSET, _) \<Rightarrow> Some (Abort E_INTERNAL)
      | _ \<Rightarrow> Some Out_Of_Bounds)"

subsection \<open>The process\<close>

record thread_result =
  tr_messages :: "message list"
  tr_reports :: nat
  tr_ps :: processed_summ
  tr_ms :: metadata_summ
  tr_hist :: "(shared \<times> shared) list"

text \<open>The files the schedule gives to one thread; each is reported to the master.\<close>

definition thread_run ::
  "libnf \<Rightarrow> ('r, 'm) slave_env \<Rightarrow> cmdline_args \<Rightarrow> (nat \<Rightarrow> shared \<Rightarrow> shared) \<Rightarrow> string list \<Rightarrow> 'm thread_ctx
    \<Rightarrow> thread_result res option" where
  "thread_run L E args others files t =
     run_after (each_res (process_file_mt E args (thread_cfg E args others (tc_filter t))) files t) (\<lambda>t1.
       map_option (\<lambda>r. res_bind r (\<lambda>out.
           Ret \<lparr>tr_messages = s_sent (ff_send (tc_ff t1)) @ out, tr_reports = length files, tr_ps = ff_summ (tc_ff t1), tr_ms = tc_ms t1,
                tr_hist = ff_hist (tc_ff t1)\<rparr>))
         (postprocess_mt L E args t1))"

text \<open>A thread of the team: what the others do to the shared context, its buffers, its files.\<close>

type_synonym thread = "(nat \<Rightarrow> shared \<Rightarrow> shared) \<times> (bool \<Rightarrow> byte list) \<times> string list"

fun slave_threads ::
  "libnf \<Rightarrow> ('r, 'm) slave_env \<Rightarrow> cmdline_args \<Rightarrow> thread list \<Rightarrow> bf_state \<Rightarrow> thread_result list res option" where
  "slave_threads L E args [] bf = Some (Ret [])"
| "slave_threads L E args ((others, bufs, files) # ths) bf =
     run_after (thread_ctx_init L E args bufs bf) (\<lambda>(t, bf').
       case thread_run L E args others files t of
         None \<Rightarrow> None
       | Some r \<Rightarrow> run_after r (\<lambda>tr.
           map_option (\<lambda>r. res_bind r (\<lambda>trs. Ret (tr # trs))) (slave_threads L E args ths bf')))"

text \<open>
  At most one thread per file.  With no file the request is for zero threads, which
  OpenMP leaves undefined; \<open>omp_zero\<close> is what the implementation makes of it.
\<close>

definition threads_used :: "nat \<Rightarrow> nat \<Rightarrow> nat \<Rightarrow> nat" where
  "threads_used omp_zero ff_paths_cnt num_threads_max =
     (if ff_paths_cnt < num_threads_max then (if ff_paths_cnt = 0 then omp_zero else ff_paths_cnt)
      else num_threads_max)"

record slave_result =
  sr_goal :: nat
  sr_threads :: nat
  sr_results :: "thread_result list"
  sr_ps :: processed_summ
  sr_ms :: metadata_summ

definition slave_main ::
  "libnf \<Rightarrow> ('r, 'm) slave_env \<Rightarrow> filesys \<Rightarrow> tz_env \<Rightarrow> cmdline_args \<Rightarrow> nat \<Rightarrow> nat \<Rightarrow> thread list
    \<Rightarrow> slave_result res option" where
  "slave_main L E F e args omp_zero num_threads_max ths =
     (case path_array_gen F e (ca_paths args) (time_begin args) (time_end args) of
        None \<Rightarrow> None
      | Some r \<Rightarrow> run_after (res_bind r (\<lambda>pa. case pa of None \<Rightarrow> Assert_Fail | Some pa \<Rightarrow> Ret (pa_used pa))) (\<lambda>ff_paths.
          if num_threads_max = 0 then Some Assert_Fail
          else map_option (\<lambda>r. res_bind r (\<lambda>trs.
             Ret \<lparr>sr_goal = length ff_paths,
                  sr_threads = threads_used omp_zero (length ff_paths) num_threads_max, sr_results = trs,
                  sr_ps = fold (\<lambda>tr shared. processed_summ_share shared (tr_ps tr)) trs zero_ps,
                  sr_ms = fold (\<lambda>tr shared. metadata_summ_share shared (tr_ms tr)) trs zero_ms\<rparr>))
             (slave_threads L E args ths init_bf_state)))"

subsection \<open>What the environment provides\<close>

text \<open>
  Documented behaviour of libnf and the operating system: no allocation fails, an open
  file has its metadata, a memory takes every record and reads it back raw.
\<close>

definition slave_env_ok :: "('r, 'm) slave_env \<Rightarrow> bool" where
  "slave_env_ok E \<longleftrightarrow>
     se_rec_init E \<and> se_malloc E \<and> mem_ops_ok (se_lnf_mem E) \<and> bcast_ok (se_bcast E)
   \<and> (\<forall>r m. se_mem_write E r m \<noteq> None)
   \<and> (\<forall>p k. se_open E p \<noteq> None \<longrightarrow> se_info E p k \<noteq> None)"

definition filter_ok :: "('r, 'm) slave_env \<Rightarrow> cmdline_args \<Rightarrow> bool" where
  "filter_ok E args \<longleftrightarrow>
     (\<forall>flt. filter_str args = Some flt \<longrightarrow>
        flt \<noteq> [] \<and> (\<exists>root. se_filter_init E flt = Some root \<and> wf_ff root))"

definition flow_path_ok :: "string \<Rightarrow> bool" where
  "flow_path_ok p \<longleftrightarrow> p \<noteq> [] \<and> last p \<noteq> CHR ''/''"

text \<open>What \<open>arg_parse\<close> ensures (\<open>args_ready\<close>), and a sort key in sort mode.\<close>

definition slave_args_ok :: "libnf \<Rightarrow> cmdline_args \<Rightarrow> bool" where
  "slave_args_ok L args \<longleftrightarrow>
     libnf_ok L \<and> fast_params_ok L \<and> fields_inv L (ca_fields args) \<and> working_mode args \<noteq> MODE_UNSET
   \<and> (working_mode args = MODE_AGGR \<longrightarrow> 0 < aggr_keys_cnt (ca_fields args))
   \<and> (working_mode args = MODE_SORT \<longrightarrow> sk_field (sort_key (ca_fields args)) \<noteq> None)
   \<and> (use_tput args \<longrightarrow> rec_limit args \<noteq> 0 \<and> sk_field (sort_key (ca_fields args)) \<noteq> None \<and> sort_direction_known L args)
   \<and> all_sizes_sum (ca_fields args) + 4 \<le> XCHG_BUFF_SIZE"

definition get_sizes_ok :: "('r, 'm) slave_env \<Rightarrow> cmdline_args \<Rightarrow> bool" where
  "get_sizes_ok E args \<longleftrightarrow>
     (\<forall>r. \<forall>i<all_cnt (ca_fields args).
        length (se_rec_fget E r (fld_id (all_flds (ca_fields args) ! i))) = fld_size (all_flds (ca_fields args) ! i))"

lemma thread_cfg_ok: "slave_args_ok L args \<Longrightarrow> get_sizes_ok E args \<Longrightarrow> ff_cfg_ok L (thread_cfg E args others flt)"
  by (simp add: slave_args_ok_def get_sizes_ok_def ff_cfg_ok_def thread_cfg_def fields_inv_def)

subsection \<open>A thread never fails\<close>

definition bufs_ok :: "ff_state \<Rightarrow> bool" where
  "bufs_ok st \<longleftrightarrow> (\<forall>i. length (s_bufs (ff_send st) i) = XCHG_BUFF_SIZE)"

text \<open>The context after the initialisation: only these parts matter for the outcome.\<close>

definition ctx_ok :: "cmdline_args \<Rightarrow> 'm thread_ctx \<Rightarrow> bool" where
  "ctx_ok args t \<longleftrightarrow>
     (\<forall>root. tc_bfindex_root t = Some root \<longrightarrow> wf_bf root)
   \<and> (working_mode args \<in> {MODE_SORT, MODE_AGGR} \<longrightarrow> tc_mem t \<noteq> None)
   \<and> bufs_ok (tc_ff t)"

lemma init_filter_and_index_Ret:
  assumes "filter_ok E args"
  shows "\<exists>flt root bf'. init_filter_and_index E args bf = Ret (flt, root, bf')
    \<and> (\<forall>t. root = Some t \<longrightarrow> wf_bf t)
    \<and> flt = (case filter_str args of None \<Rightarrow> None | Some f \<Rightarrow> se_filter_init E f)"
proof (cases "filter_str args")
  case None
  then show ?thesis by (simp add: init_filter_and_index_def)
next
  case (Some f)
  then obtain r where r: "se_filter_init E f = Some r" "wf_ff r" "f \<noteq> []"
    using assms by (auto simp: filter_ok_def)
  obtain t bf' where t: "bfindex_init bf (Some r) = Ret (t, bf')" using bfindex_init_Ret[OF r(2)] by blast
  then show ?thesis
    using Some r bfindex_init_wf[of bf "Some r"] by (auto simp: init_filter_and_index_def init_filter_def)
qed

lemma init_mem_Ret:
  assumes "slave_args_ok L args" "slave_env_ok E"
  shows "\<exists>mem. init_mem L E args = Ret mem \<and> (working_mode args \<in> {MODE_SORT, MODE_AGGR} \<longrightarrow> mem \<noteq> None)"
proof -
  have a: "libnf_ok L" "fields_inv L (ca_fields args)" "fast_params_ok L" "working_mode args \<noteq> MODE_UNSET"
    "working_mode args = MODE_AGGR \<longrightarrow> 0 < aggr_keys_cnt (ca_fields args)"
    "working_mode args = MODE_SORT \<longrightarrow> sk_field (sort_key (ca_fields args)) \<noteq> None"
    using assms(1) by (auto simp: slave_args_ok_def)
  have ok: "mo_ok (se_lnf_mem E) = (\<lambda>_. True)" using assms(2) by (simp add: slave_env_ok_def mem_ops_ok_def)
  show ?thesis
  proof (cases "working_mode args")
    case MODE_SORT
    then show ?thesis
      using init_list_exact[OF a(1,2)] a(6) by (auto simp: init_mem_def ok)
  next
    case MODE_AGGR
    then show ?thesis
      using init_ht_exact[OF a(1,2) _ can_use_fast_aggr_eq[OF a(1,3,2)]] a(5) by (auto simp: init_mem_def ok)
  qed (use a(4) in \<open>simp_all add: init_mem_def\<close>)
qed

lemma thread_ctx_init_Ret:
  assumes "slave_args_ok L args" "slave_env_ok E" "filter_ok E args" "\<forall>i. length (bufs i) = XCHG_BUFF_SIZE"
  shows "\<exists>t bf'. thread_ctx_init L E args bufs bf = Ret (t, bf') \<and> ctx_ok args t \<and> tc_ff t = ff_start bufs
    \<and> tc_ms t = zero_ms \<and> tc_filter t = (case filter_str args of None \<Rightarrow> None | Some f \<Rightarrow> se_filter_init E f)"
proof -
  obtain flt root bf' where f: "init_filter_and_index E args bf = Ret (flt, root, bf')"
    "\<forall>t. root = Some t \<longrightarrow> wf_bf t" "flt = (case filter_str args of None \<Rightarrow> None | Some f \<Rightarrow> se_filter_init E f)"
    using init_filter_and_index_Ret[OF assms(3)] by blast
  obtain mem where m: "init_mem L E args = Ret mem" "working_mode args \<in> {MODE_SORT, MODE_AGGR} \<longrightarrow> mem \<noteq> None"
    using init_mem_Ret[OF assms(1,2)] by blast
  have "se_rec_init E" "se_malloc E" using assms(2) by (simp_all add: slave_env_ok_def)
  then show ?thesis
    using f m assms(4)
    by (auto simp: thread_ctx_init_def ctx_ok_def bufs_ok_def ff_start_def send_init_def)
qed

lemma file_may_match_Ret:
  assumes "\<And>t. root = Some t \<Longrightarrow> wf_bf t" "flow_path_ok path"
  shows "\<exists>b. file_may_match E root path = Ret b"
  using assms bfindex_contains_Ret
  by (auto simp: file_may_match_def bfindex_flow_to_index_path_def flow_path_ok_def split: option.split)

lemma metadata_update_Ret:
  "(\<And>k. info k \<noteq> None) \<Longrightarrow> \<exists>ms'. metadata_summ_update info ms = Ret ms'"
  by (simp add: metadata_summ_update_def read_info_def Let_def)

lemma read_and_store_Ret:
  "(\<And>r m. wr r m \<noteq> None) \<Longrightarrow> \<exists>ps' m'. ff_read_and_store C wr rs (ps, m) = Ret (ps', m')"
proof (induction rs arbitrary: ps m)
  case (Cons r rs)
  then show ?case using Cons.prems[of r m] by (cases "wr r m") auto
qed simp

lemma bufs_access [simp]: "bufs_ok (access C f st) = bufs_ok st"
  by (simp add: bufs_ok_def)

lemma list_file_Ret:
  assumes "ff_cfg_ok L C" "bufs_ok (tc_ff t)"
  shows "\<exists>st. list_file C rs t = Ret (t\<lparr>tc_ff := st\<rparr>) \<and> bufs_ok st"
proof -
  define st where "st = access C id (tc_ff t)"
  have b: "\<forall>i. length (s_bufs (ff_send st) i) = XCHG_BUFF_SIZE" using assms(2) by (simp add: st_def bufs_ok_def)
  obtain st' where "ff_read_and_send C (s_bufs (ff_send st)) rs st = Ret st'" "bufs_ok st'"
    using ff_read_and_send_Ret[OF assms(1) b, of rs st] by (auto simp: groups_sent_def bufs_ok_def)
  then show ?thesis using assms(2) by (auto simp: list_file_def Let_def st_def[symmetric] bufs_ok_def b)
qed

text \<open>One file: the filter, the index and the kind of memory stay, whatever the outcome.\<close>

lemma process_file_Ret:
  assumes "slave_env_ok E" "working_mode args \<noteq> MODE_UNSET" "ff_cfg_ok L C" "flow_path_ok path" "ctx_ok args t"
  shows "\<exists>t'. process_file_mt E args C path t = Ret t' \<and> ctx_ok args t'
    \<and> tc_filter t' = tc_filter t \<and> tc_bfindex_root t' = tc_bfindex_root t"
proof (cases "se_open E path")
  case None
  then show ?thesis using assms(5) by (simp add: process_file_mt_def)
next
  case (Some rs)
  have "\<And>k. se_info E path k \<noteq> None" using assms(1) Some by (simp add: slave_env_ok_def)
  then obtain ms where ms: "metadata_summ_update (se_info E path) (tc_ms t) = Ret ms"
    using metadata_update_Ret by blast
  obtain b where b: "file_may_match E (tc_bfindex_root t) path = Ret b"
    using file_may_match_Ret assms(4,5) by (metis ctx_ok_def)
  define t1 where "t1 = t\<lparr>tc_ms := ms\<rparr>"
  have t1: "ctx_ok args t1" "tc_filter t1 = tc_filter t" "tc_bfindex_root t1 = tc_bfindex_root t"
    using assms(5) by (simp_all add: t1_def ctx_ok_def)
  have list: "\<exists>t'. list_file C rs t1 = Ret t' \<and> ctx_ok args t'
      \<and> tc_filter t' = tc_filter t \<and> tc_bfindex_root t' = tc_bfindex_root t"
    using list_file_Ret[OF assms(3), of t1 rs] t1 by (auto simp: ctx_ok_def)
  have store: "\<exists>t'. store_file E C rs t1 = Ret t' \<and> ctx_ok args t'
      \<and> tc_filter t' = tc_filter t \<and> tc_bfindex_root t' = tc_bfindex_root t"
    if md: "working_mode args \<in> {MODE_SORT, MODE_AGGR}"
  proof -
    obtain m where m: "tc_mem t1 = Some m" using t1(1) md unfolding ctx_ok_def by blast
    obtain ps m' where "ff_read_and_store C (se_mem_write E) rs (ff_summ (tc_ff t1), m) = Ret (ps, m')"
      using read_and_store_Ret[of "se_mem_write E" C rs "ff_summ (tc_ff t1)" m] assms(1) unfolding slave_env_ok_def by blast
    then show ?thesis using t1 m by (auto simp: store_file_def ctx_ok_def bufs_ok_def)
  qed
  show ?thesis
    using Some ms b assms(2) list store t1
    by (cases "working_mode args"; cases b) (simp_all add: process_file_mt_def t1_def[symmetric])
qed

lemma files_Ret:
  assumes "slave_env_ok E" "working_mode args \<noteq> MODE_UNSET" "ff_cfg_ok L C"
  shows "\<forall>p\<in>set files. flow_path_ok p \<Longrightarrow> ctx_ok args t \<Longrightarrow>
    \<exists>t'. each_res (process_file_mt E args C) files t = Ret t' \<and> ctx_ok args t'"
proof (induction files arbitrary: t)
  case (Cons p ps)
  then obtain t1 where "process_file_mt E args C p t = Ret t1" "ctx_ok args t1"
    using process_file_Ret[OF assms, of p t] by auto
  then show ?case using Cons by auto
qed simp

lemma postprocess_Ret:
  assumes "slave_env_ok E" "slave_args_ok L args" "ctx_ok args t"
  shows "\<exists>out. postprocess_mt L E args t = Some (Ret out)"
proof -
  have b: "\<forall>i. length (s_bufs (ff_send (tc_ff t)) i) = XCHG_BUFF_SIZE"
    using assms(3) by (simp add: ctx_ok_def bufs_ok_def)
  have e: "mem_ops_ok (se_lnf_mem E)" "bcast_ok (se_bcast E)" using assms(1) by (simp_all add: slave_env_ok_def)
  have a: "libnf_ok L" "fields_inv L (ca_fields args)" "working_mode args \<noteq> MODE_UNSET"
    "use_tput args \<Longrightarrow> rec_limit args \<noteq> 0 \<and> sk_field (sort_key (ca_fields args)) \<noteq> None \<and> sort_direction_known L args"
    using assms(2) by (simp_all add: slave_args_ok_def)
  have s: "\<exists>out. send_memory E mem lim tag (tc_ff t) = Some (Ret out)" for mem lim tag
    using send_mem_Ret[OF e(1) b] unfolding send_memory_def by blast
  have p: "\<exists>out. slave_raw_tput L (se_lnf_mem E) args (se_bcast E) (s_bufs (ff_send (tc_ff t))) mem = Some (Ret out)"
    if "use_tput args" for mem
    using slave_raw_tput_Ret[OF e b a(1,2)] a(4)[OF that] by blast
  show ?thesis
    using assms(3) a(3,4) s p by (cases "working_mode args") (auto simp: postprocess_mt_def ctx_ok_def)
qed

lemma thread_run_Ret:
  assumes "slave_env_ok E" "slave_args_ok L args" "get_sizes_ok E args" "ctx_ok args t" "\<forall>p\<in>set files. flow_path_ok p"
  shows "\<exists>tr. thread_run L E args others files t = Some (Ret tr) \<and> tr_reports tr = length files"
proof -
  have a: "working_mode args \<noteq> MODE_UNSET" using assms(2) by (simp add: slave_args_ok_def)
  obtain t1 where t1: "each_res (process_file_mt E args (thread_cfg E args others (tc_filter t))) files t = Ret t1"
    "ctx_ok args t1"
    using files_Ret[OF assms(1) a thread_cfg_ok[OF assms(2,3)] assms(5,4)] by blast
  obtain out where "postprocess_mt L E args t1 = Some (Ret out)"
    using postprocess_Ret[OF assms(1,2) t1(2)] by blast
  with t1(1) show ?thesis by (simp add: thread_run_def)
qed

lemma slave_threads_Ret:
  assumes "slave_env_ok E" "slave_args_ok L args" "get_sizes_ok E args" "filter_ok E args"
  shows "\<forall>(others, bufs, files)\<in>set ths. (\<forall>i. length (bufs i) = XCHG_BUFF_SIZE) \<and> (\<forall>p\<in>set files. flow_path_ok p) \<Longrightarrow>
    \<exists>trs. slave_threads L E args ths bf = Some (Ret trs) \<and> length trs = length ths
      \<and> sum_list (map tr_reports trs) = length (concat (map (snd \<circ> snd) ths))"
proof (induction ths arbitrary: bf)
  case (Cons th ths)
  obtain others bufs files where th: "th = (others, bufs, files)" by (cases th)
  have p: "\<forall>i. length (bufs i) = XCHG_BUFF_SIZE" "\<forall>p\<in>set files. flow_path_ok p" using Cons.prems th by auto
  obtain t bf' where t: "thread_ctx_init L E args bufs bf = Ret (t, bf')" "ctx_ok args t"
    using thread_ctx_init_Ret[OF assms(2,1,4) p(1)] by blast
  obtain tr where "thread_run L E args others files t = Some (Ret tr)" "tr_reports tr = length files"
    using thread_run_Ret[OF assms(1-3) t(2) p(2)] by blast
  moreover obtain trs where "slave_threads L E args ths bf' = Some (Ret trs)" "length trs = length ths"
      "sum_list (map tr_reports trs) = length (concat (map (snd \<circ> snd) ths))"
  proof -
    have "\<forall>(others, bufs, files)\<in>set ths. (\<forall>i. length (bufs i) = XCHG_BUFF_SIZE) \<and> (\<forall>p\<in>set files. flow_path_ok p)"
      using Cons.prems by simp
    then show ?thesis using Cons.IH[of bf'] that by blast
  qed
  ultimately show ?case using t th by (simp add: comp_def)
qed simp

text \<open>The schedule: every file is given to one thread, and the team has the size that is announced.\<close>

definition team_ok :: "nat \<Rightarrow> nat \<Rightarrow> string list \<Rightarrow> thread list \<Rightarrow> bool" where
  "team_ok omp_zero num_threads_max ff_paths ths \<longleftrightarrow>
     length ths = threads_used omp_zero (length ff_paths) num_threads_max
   \<and> mset (concat (map (snd \<circ> snd) ths)) = mset ff_paths
   \<and> (\<forall>(others, bufs, files)\<in>set ths. \<forall>i. length (bufs i) = XCHG_BUFF_SIZE)"

lemma team_files:
  assumes "team_ok z n ff_paths ths" "\<forall>p\<in>set ff_paths. flow_path_ok p"
  shows "\<forall>(others, bufs, files)\<in>set ths. (\<forall>i. length (bufs i) = XCHG_BUFF_SIZE) \<and> (\<forall>p\<in>set files. flow_path_ok p)"
    "length (concat (map (snd \<circ> snd) ths)) = length ff_paths"
proof -
  have m: "mset (concat (map (snd \<circ> snd) ths)) = mset ff_paths" using assms(1) by (simp add: team_ok_def)
  have "set (concat (map (snd \<circ> snd) ths)) = set ff_paths" using m by (rule mset_eq_setD)
  then have "set files \<subseteq> set ff_paths" if "(others, bufs, files) \<in> set ths" for others bufs files
    using that by force
  then show "\<forall>(others, bufs, files)\<in>set ths. (\<forall>i. length (bufs i) = XCHG_BUFF_SIZE) \<and> (\<forall>p\<in>set files. flow_path_ok p)"
    using assms unfolding team_ok_def by blast
  show "length (concat (map (snd \<circ> snd) ths)) = length ff_paths" using m by (rule mset_eq_length)
qed

definition slave_ok :: "libnf \<Rightarrow> ('r, 'm) slave_env \<Rightarrow> cmdline_args \<Rightarrow> bool" where
  "slave_ok L E args \<longleftrightarrow> slave_args_ok L args \<and> slave_env_ok E \<and> filter_ok E args \<and> get_sizes_ok E args"

lemma slave_main_Ret:
  assumes "slave_ok L E args"
    and "path_array_gen F e (ca_paths args) (time_begin args) (time_end args) = Some (Ret (Some pa))"
    and "\<forall>p\<in>set (pa_used pa). flow_path_ok p" and "0 < num_threads_max"
    and "team_ok omp_zero num_threads_max (pa_used pa) ths"
  shows "\<exists>sr. slave_main L E F e args omp_zero num_threads_max ths = Some (Ret sr)
    \<and> length (sr_results sr) = sr_threads sr
    \<and> sr_goal sr = length (pa_used pa) \<and> sum_list (map tr_reports (sr_results sr)) = sr_goal sr"
proof -
  note t = team_files[OF assms(5,3)]
  obtain trs where "slave_threads L E args ths init_bf_state = Some (Ret trs)" "length trs = length ths"
    "sum_list (map tr_reports trs) = length (concat (map (snd \<circ> snd) ths))"
    using slave_threads_Ret[OF _ _ _ _ t(1)] assms(1) unfolding slave_ok_def by blast
  then show ?thesis
    using assms(2,4,5) t(2) by (simp add: slave_main_def team_ok_def)
qed

lemma files_named_ok: "files_named pa \<Longrightarrow> \<forall>p\<in>set (pa_used pa). flow_path_ok p"
  by (simp add: files_named_def flow_path_ok_def)

text \<open>C11: a slave process never fails.  The hypotheses are: the arguments are the ones of an accepted
  command line, with a sort key in sort mode; the filter, if there is one, is not empty and libnf
  compiles it; the records fit the exchange buffer and libnf returns as many bytes of a field as it
  announces; no allocation fails, an open file has its metadata, a directory entry has a name
  and is none of the paths of exactly \<open>PATH_MAX\<close> characters that overflow the buffer; the paths and
  the names of the slots fit \<open>PATH_MAX\<close>, and a time range is normalised and below 68 years
  (\<open>filesys_ok\<close>, \<open>env_ok\<close>, \<open>paths_fit\<close>).  Then the generation of the paths ends with an array of
  files, and for every distribution of these files to the threads and any behaviour of the other
  threads: all files are processed, no assertion fails, nothing aborts, no buffer is overrun; the
  number of threads is the one announced to the master, and as many progress reports are sent as
  were announced.\<close>

theorem slave_main_returns:
  assumes "slave_ok L E args"
    and "filesys_ok F" and "env_ok e" and "paths_fit F (ca_paths args) (time_begin args) (time_end args)"
    and "0 < num_threads_max"
  shows "\<exists>pa. path_array_gen F e (ca_paths args) (time_begin args) (time_end args) = Some (Ret (Some pa))
    \<and> (\<forall>ths. team_ok omp_zero num_threads_max (pa_used pa) ths \<longrightarrow>
        (\<exists>sr. slave_main L E F e args omp_zero num_threads_max ths = Some (Ret sr)
          \<and> length (sr_results sr) = sr_threads sr
          \<and> sr_goal sr = length (pa_used pa) \<and> sum_list (map tr_reports (sr_results sr)) = sr_goal sr))"
proof -
  obtain pa where pa: "path_array_gen F e (ca_paths args) (time_begin args) (time_end args) = Some (Ret (Some pa))"
      "files_named pa"
    using path_array_gen_Ret[OF assms(2-4)] by blast
  then show ?thesis using slave_main_Ret[OF assms(1) pa(1) files_named_ok[OF pa(2)] assms(5)] by blast
qed

subsection \<open>Instances\<close>

text \<open>One process with one thread and one flow file of three records.\<close>

definition one_file_fs :: filesys where
  "one_file_fs = sample_fs\<lparr>fs_stat := (\<lambda>p. if p = ''f'' then Some False else None)\<rparr>"

definition one_file_args :: cmdline_args where
  "one_file_args = zero_args\<lparr>working_mode := MODE_LIST, ca_paths := [''f''], rec_limit := 2,
     ca_fields := sample_sort_fields, output_params := csv_params\<rparr>"

definition one_mem_ops :: "byte list list mem_ops" where
  "one_mem_ops = \<lparr>mo_ok = (\<lambda>c. True), mo_malloc = (\<lambda>n. True), mo_init = (\<lambda>cs. []),
     mo_write_raw = (\<lambda>m r. Some m), mo_sort = (\<lambda>m. m), mo_raw = (\<lambda>m. []), mo_keys = (\<lambda>m. []),
     mo_lookup = (\<lambda>m r. None), mo_read = sample_read, mo_max_raw_len = 56\<rparr>"

definition one_file_env :: "(byte, byte list list) slave_env" where
  "one_file_env =
     \<lparr>se_open = (\<lambda>p. Some [1, 2, 3]), se_info = (\<lambda>p k. Some 1), se_index = (\<lambda>p. None),
      se_path_malloc = (\<lambda>p. True), se_filter_init = (\<lambda>s. None), se_filter_match = (\<lambda>n r. True),
      se_rec_init = True, se_malloc = True,
      se_rec_fget = (\<lambda>r i. replicate (if i = 16 then 16 else if i \<in> {13, 14} then 1 else 8) r), se_rec_u64 = (\<lambda>r c. 1),
      se_lnf_mem = one_mem_ops, se_mem_write = (\<lambda>r m. Some m),
      se_bcast = \<lparr>tb_threshold = 0, tb_rec_cnt = 0, tb_rec_len = 0, tb_rec_buff = []\<rparr>\<rparr>"

definition one_file_team :: "thread list" where
  "one_file_team = [(\<lambda>k sh. sh, sample_bufs, [''f''])]"

lemma one_file_paths:
  "\<exists>pa. path_array_gen one_file_fs tz [''f''] b e = Some (Ret (Some pa)) \<and> pa_used pa = [''f'']"
proof -
  have m: "mem_always one_file_fs" by (simp add: mem_always_def one_file_fs_def sample_fs_def)
  obtain pa where pa: "add_path one_file_fs ''f'' empty_pa = Ret pa" "pa_used pa = pa_used empty_pa @ [''f'']"
    using add_path_Ret[OF empty_pa_inv _ m, of "''f''"] by auto
  have "path_preprocessor one_file_fs ''f'' = Ret (True, ''f'')"
    by (simp add: path_preprocessor_def PATH_MAX_def rank_directive_def expand_directives.simps strcat_path_def)
  then have "path_array_one one_file_fs tz b e ''f'' empty_pa = Some (Ret pa)"
    using pa(1) by (simp add: path_array_one_def one_file_fs_def PATH_MAX_def numeral_eq_Suc)
  then show ?thesis
    using pa(2) by (simp add: path_array_gen_def empty_pa_def[symmetric] one_file_fs_def sample_fs_def)
      (simp add: empty_pa_def pa_used_def)
qed

lemma one_file_slave_ok: "slave_ok sample_libnf one_file_env one_file_args"
proof -
  have f: "fields_inv sample_libnf (ca_fields one_file_args)"
    by (simp add: one_file_args_def sample_fields_inv)
  have "slave_args_ok sample_libnf one_file_args"
    using f by (simp add: slave_args_ok_def sample_libnf_ok sample_fast)
      (simp add: one_file_args_def zero_args_def sample_fields_defs XCHG_BUFF_SIZE_def)
  moreover have "slave_env_ok one_file_env"
    by (simp add: slave_env_ok_def one_file_env_def mem_ops_ok_def bcast_ok_def one_mem_ops_def sample_read_ok send_params_ok_def XCHG_BUFF_SIZE_def)
  moreover have "filter_ok one_file_env one_file_args" by (simp add: filter_ok_def one_file_args_def zero_args_def)
  moreover have "get_sizes_ok one_file_env one_file_args"
    by (simp add: get_sizes_ok_def one_file_env_def one_file_args_def sample_fields_defs all_less_upt upt_rec)
  ultimately show ?thesis by (simp add: slave_ok_def)
qed

lemma one_file_team_ok: "team_ok z 4 [''f''] one_file_team"
  by (simp add: team_ok_def one_file_team_def threads_used_def sample_bufs_length)

lemma one_file_fs_ok: "filesys_ok one_file_fs" "\<not> tm_diff e b > 0 \<Longrightarrow> paths_fit one_file_fs [''f''] b e"
  by (auto simp: filesys_ok_def one_file_fs_def sample_fs_def mem_always_def entries_ok_def PATH_MAX_def
      paths_fit_def expanded_room_def split: if_splits)

theorem slave_main_returns_witness:
  "\<exists>sr. slave_main sample_libnf one_file_env one_file_fs sample_env one_file_args 1 4 one_file_team = Some (Ret sr)
    \<and> length (sr_results sr) = sr_threads sr
    \<and> sr_goal sr = length [''f''] \<and> sum_list (map tr_reports (sr_results sr)) = sr_goal sr"
proof -
  have paths: "ca_paths one_file_args = [''f'']" by (simp add: one_file_args_def)
  have "\<not> tm_diff (time_end one_file_args) (time_begin one_file_args) > 0"
    by (simp add: one_file_args_def zero_args_def tm_diff_def c_int_def)
  from slave_main_returns[OF one_file_slave_ok one_file_fs_ok(1) sample_env_ok one_file_fs_ok(2)[OF this, folded paths], of 4 1]
  obtain pa where pa: "path_array_gen one_file_fs sample_env (ca_paths one_file_args)
      (time_begin one_file_args) (time_end one_file_args) = Some (Ret (Some pa))"
    and run: "team_ok 1 4 (pa_used pa) one_file_team \<longrightarrow>
        (\<exists>sr. slave_main sample_libnf one_file_env one_file_fs sample_env one_file_args 1 4 one_file_team = Some (Ret sr)
          \<and> length (sr_results sr) = sr_threads sr
          \<and> sr_goal sr = length (pa_used pa) \<and> sum_list (map tr_reports (sr_results sr)) = sr_goal sr)" by auto
  have "pa_used pa = [''f'']"
    using one_file_paths[of sample_env "time_begin one_file_args" "time_end one_file_args"] pa by (auto simp: paths)
  then show ?thesis using run by (simp add: one_file_team_ok)
qed

end
