(* ===== verification/Slave_List.thy ===== *)
theory Slave_List
  imports Slave
begin

text \<open>
  List mode: what the threads of one slave process send together.  A thread keeps the
  invariant \<open>list_inv\<close> from file to file; the histories of the accesses of all
  threads to the shared counter and flag are put together (\<open>interleaved\<close>), and under the condition
  \<open>index_safe\<close> the index does not hide a matching record.
\<close>

subsection \<open>The list mode of one thread\<close>

definition matching :: "('r, 'm) slave_env \<Rightarrow> 'r ff_cfg \<Rightarrow> string \<Rightarrow> 'r list" where
  "matching E C path = (case se_open E path of None \<Rightarrow> [] | Some rs \<Rightarrow> filter (fc_match C) rs)"

text \<open>A file the index excludes has no matching record.\<close>

definition index_sound :: "('r, 'm) slave_env \<Rightarrow> 'r ff_cfg \<Rightarrow> bfindex_node option \<Rightarrow> bool" where
  "index_sound E C root \<longleftrightarrow> (\<forall>path. file_may_match E root path = Ret False \<longrightarrow> matching E C path = [])"

definition list_inv :: "'r ff_cfg \<Rightarrow> 'r multiset \<Rightarrow> ff_state \<Rightarrow> bool" where
  "list_inv C ms st \<longleftrightarrow>
     (\<exists>gs rest. groups_sent C [] gs (ff_send st) \<and> counted C 0 [] gs st
        \<and> mset (concat gs) + rest = ms \<and> (rest \<noteq> {#} \<longrightarrow> flagged [] st))"

lemma counted_trans:
  assumes "counted C p0 h0 gs st" "counted C (ff_proc st) (ff_hist st) gs' st'"
  shows "counted C p0 h0 (gs @ gs') st'"
proof -
  obtain evs evs' where e: "ff_hist st = h0 @ evs" "\<forall>e\<in>set evs. ev_ok (fc_limit C) e"
    "sum_list (map ev_inc evs) = length (concat gs)" "ff_hist st' = ff_hist st @ evs'"
    "\<forall>e\<in>set evs'. ev_ok (fc_limit C) e" "sum_list (map ev_inc evs') = length (concat gs')"
    using assms by (auto simp: counted_def)
  then have "ff_hist st' = h0 @ (evs @ evs')" "\<forall>e\<in>set (evs @ evs'). ev_ok (fc_limit C) e"
    "sum_list (map ev_inc (evs @ evs')) = length (concat (gs @ gs'))" by auto
  moreover have "ff_proc st' = p0 + of_nat (length (concat (gs @ gs')))" if "alone C"
    using assms that by (simp add: counted_def add.assoc)
  ultimately show ?thesis unfolding counted_def by blast
qed

lemma groups_trans:
  "groups_sent C pre gs s \<Longrightarrow> groups_sent C (s_sent s) gs' s' \<Longrightarrow> groups_sent C pre (gs @ gs') s'"
  by (auto simp: groups_sent_def)

lemma flagged_extend:
  assumes "counted C p h gs st'" "h = ff_hist st" "flagged [] st \<or> flagged h st'"
  shows "flagged [] st'"
  using assms by (auto simp: flagged_def counted_def)

lemma list_file_inv:
  assumes ok: "ff_cfg_ok L C" and inv: "list_inv C ms (tc_ff t)"
  shows "\<exists>st. list_file C rs t = Ret (t\<lparr>tc_ff := st\<rparr>) \<and> list_inv C (ms + mset (filter (fc_match C) rs)) st"
proof -
  define st where "st = access C id (tc_ff t)"
  obtain gs rest where g: "groups_sent C [] gs (ff_send (tc_ff t))" "counted C 0 [] gs (tc_ff t)"
    "mset (concat gs) + rest = ms" "rest \<noteq> {#} \<longrightarrow> flagged [] (tc_ff t)" using inv by (auto simp: list_inv_def)
  have c: "counted C 0 [] gs st" unfolding st_def by (rule counted_read[OF g(2)])
  have fl: "rest \<noteq> {#} \<longrightarrow> flagged [] st" using g(4) flagged_stays[of "[]" "tc_ff t" C id] by (auto simp: st_def)
  show ?thesis
  proof (cases "ff_reached st")
    case True
    then have "flagged [] st" using flagged_access[OF g(2)] by (simp add: st_def)
    then have "list_inv C (ms + mset (filter (fc_match C) rs)) st"
      using g(1,3) c unfolding list_inv_def
      by (intro exI[of _ gs] exI[of _ "rest + mset (filter (fc_match C) rs)"]) (auto simp: st_def)
    then show ?thesis using True by (auto simp: list_file_def st_def Let_def)
  next
    case False
    have b: "\<forall>i. length (s_bufs (ff_send st) i) = XCHG_BUFF_SIZE" using g(1) by (simp add: st_def groups_sent_def)
    obtain st' gs' rest' where r: "ff_read_and_send C (s_bufs (ff_send st)) rs st = Ret st'"
      "groups_sent C (s_sent (ff_send st)) gs' (ff_send st')" "concat gs' @ rest' = filter (fc_match C) rs"
      "counted C (ff_proc st) (ff_hist st) gs' st'" "rest' \<noteq> [] \<longrightarrow> flagged (ff_hist st) st'"
      using ff_read_and_send_Ret[OF ok b, of rs st] by blast
    have "groups_sent C [] (gs @ gs') (ff_send st')" using groups_trans[OF g(1)] r(2) by (simp add: st_def)
    moreover have "flagged [] st'" if "rest + mset rest' \<noteq> {#}"
      using flagged_extend[OF r(4) refl] fl r(5) that by auto
    moreover have "mset (concat (gs @ gs')) + (rest + mset rest') = ms + mset (filter (fc_match C) rs)"
      unfolding r(3)[symmetric] g(3)[symmetric] by (simp add: ac_simps)
    ultimately have "list_inv C (ms + mset (filter (fc_match C) rs)) st'"
      using counted_trans[OF c r(4)] unfolding list_inv_def by blast
    then show ?thesis using False r(1) by (auto simp: list_file_def st_def[symmetric] Let_def)
  qed
qed

lemma process_file_list:
  assumes "slave_env_ok E" "working_mode args = MODE_LIST" "ff_cfg_ok L C" "index_sound E C (tc_bfindex_root t)"
    and "flow_path_ok path" "ctx_ok args t" "list_inv C ms (tc_ff t)"
    and "process_file_mt E args C path t = Ret t'"
  shows "list_inv C (ms + mset (matching E C path)) (tc_ff t')"
proof (cases "se_open E path")
  case None
  then show ?thesis using assms(7,8) by (simp add: process_file_mt_def matching_def)
next
  case (Some rs)
  obtain ms' b where p: "metadata_summ_update (se_info E path) (tc_ms t) = Ret ms'"
    "file_may_match E (tc_bfindex_root t) path = Ret b"
    "(if b then list_file C rs (t\<lparr>tc_ms := ms'\<rparr>) else Ret (t\<lparr>tc_ms := ms'\<rparr>)) = Ret t'"
    using assms(2,8) Some by (auto simp: process_file_mt_def res_simps Let_def split: if_splits)
  show ?thesis
  proof (cases b)
    case False
    then have "matching E C path = []" using p(2) assms(4) by (simp add: index_sound_def)
    then show ?thesis using p(3) False assms(7) by auto
  next
    case True
    have "list_inv C ms (tc_ff (t\<lparr>tc_ms := ms'\<rparr>))" using assms(7) by simp
    from list_file_inv[OF assms(3) this, of rs] show ?thesis
      using p(3) True Some by (auto simp: matching_def)
  qed
qed

lemma files_list:
  assumes "slave_env_ok E" "working_mode args = MODE_LIST" "ff_cfg_ok L C"
  shows "\<forall>p\<in>set files. flow_path_ok p \<Longrightarrow> ctx_ok args t \<Longrightarrow> index_sound E C (tc_bfindex_root t)
    \<Longrightarrow> list_inv C ms (tc_ff t) \<Longrightarrow> each_res (process_file_mt E args C) files t = Ret t'
    \<Longrightarrow> list_inv C (ms + mset (concat (map (matching E C) files))) (tc_ff t')"
proof (induction files arbitrary: t ms)
  case (Cons p ps)
  have md: "working_mode args \<noteq> MODE_UNSET" using assms(2) by simp
  have p: "flow_path_ok p" using Cons.prems(1) by simp
  obtain t1 where t1: "process_file_mt E args C p t = Ret t1" "ctx_ok args t1"
    "tc_bfindex_root t1 = tc_bfindex_root t"
    using process_file_Ret[OF assms(1) md assms(3) p Cons.prems(2)] by blast
  have i: "list_inv C (ms + mset (matching E C p)) (tc_ff t1)"
    by (rule process_file_list[OF assms Cons.prems(3) p Cons.prems(2,4) t1(1)])
  show ?case
    using Cons.IH[OF _ t1(2) _ i] Cons.prems t1 by (simp add: add.assoc)
qed simp

subsection \<open>One interleaving of the threads of a process\<close>

text \<open>Each access finds what the previous access left.\<close>

fun chain :: "shared \<Rightarrow> (shared \<times> shared) list \<Rightarrow> bool" where
  "chain v [] \<longleftrightarrow> True"
| "chain v (e # es) \<longleftrightarrow> fst e = v \<and> chain (snd e) es"

text \<open>
  The histories of the threads are those of one execution: their accesses happen in
  some order, each thread's in its own, starting from the zero-initialised context.
\<close>

definition interleaved :: "(shared \<times> shared) list list \<Rightarrow> bool" where
  "interleaved hists \<longleftrightarrow> (\<exists>log. arrives hists log \<and> chain (0, False) log)"

lemma chain_flag:
  "chain v log \<Longrightarrow> \<forall>e\<in>set log. ev_ok lim e \<Longrightarrow> unat (fst v) + sum_list (map ev_inc log) < 2 ^ 64
    \<Longrightarrow> (snd v \<longrightarrow> limit_reached lim v) \<Longrightarrow> e \<in> set log \<Longrightarrow> snd (snd e)
    \<Longrightarrow> lim \<noteq> 0 \<and> unat lim \<le> unat (fst v) + sum_list (map ev_inc log)"
proof (induction log arbitrary: v)
  case (Cons a log)
  obtain f l where a: "a = (f, l)" by (cases a)
  have f: "f = v" "chain l log" using Cons.prems(1) a by simp_all
  have "unat (fst v) + unat (fst l - fst v) < 2 ^ 64"
    using Cons.prems(3) a f by (simp add: ev_inc_def)
  then have u: "unat (fst l) = unat (fst v) + ev_inc a"
    using unat_add_lem[of "fst v" "fst l - fst v"] a f by (simp add: ev_inc_def)
  have ok: "ev_ok lim (v, l)" using Cons.prems(2) a f by simp
  have lim: "limit_reached lim l" if "snd l"
    using ok Cons.prems(4) that u by (auto simp: ev_ok_def limit_reached_def word_le_nat_alt)
  show ?case
  proof (cases "snd l")
    case True
    then show ?thesis using lim u by (auto simp: limit_reached_def word_le_nat_alt)
  next
    case False
    have "e \<in> set log" using Cons.prems(5,6) False a by auto
    then show ?thesis using Cons.IH[OF f(2)] Cons.prems(2,3,6) u lim by auto
  qed
qed simp

lemma arrives_sum:
  assumes "arrives hs out"
  shows "sum_list (map f out) = (sum_list (map (\<lambda>h. sum_list (map f h)) hs) :: nat)"
    "set out = (\<Union>h\<in>set hs. set h)"
proof -
  have m: "mset out = mset (concat hs)" using arrives_mset[OF assms] by (simp add: mset_concat)
  have c: "sum_list (map f (concat hs)) = sum_list (map (\<lambda>h. sum_list (map f h)) hs)" by (induction hs) simp_all
  have "mset (map f out) = mset (map f (concat hs))" using m by simp
  then have "sum_list (map f out) = sum_list (map f (concat hs))" by (metis sum_mset_sum_list)
  then show "sum_list (map f out) = sum_list (map (\<lambda>h. sum_list (map f h)) hs)" by (simp only: c)
  show "set out = (\<Union>h\<in>set hs. set h)" using mset_eq_setD[OF m] by simp
qed

subsection \<open>What the threads of a process send\<close>

text \<open>The raw record of the query's fields, and the raw records of a file that the query wants.\<close>

definition raw_of :: "('r, 'm) slave_env \<Rightarrow> cmdline_args \<Rightarrow> 'r \<Rightarrow> byte list" where
  "raw_of E args r =
     concat (map (\<lambda>i. se_rec_fget E r (fld_id (all_flds (ca_fields args) ! i))) [0..<all_cnt (ca_fields args)])"

definition query_filter :: "('r, 'm) slave_env \<Rightarrow> cmdline_args \<Rightarrow> ff_node option" where
  "query_filter E args = (case filter_str args of None \<Rightarrow> None | Some f \<Rightarrow> se_filter_init E f)"

definition wanted :: "('r, 'm) slave_env \<Rightarrow> cmdline_args \<Rightarrow> string \<Rightarrow> byte list list" where
  "wanted E args path =
     (case se_open E path of
        None \<Rightarrow> []
      | Some rs \<Rightarrow> map (raw_of E args)
          (filter (\<lambda>r. case query_filter E args of None \<Rightarrow> True | Some f \<Rightarrow> se_filter_match E f r) rs))"

text \<open>Messages of list mode: all wanted records, unless enough of them for the limit.\<close>

definition sent_for :: "64 word \<Rightarrow> byte list multiset \<Rightarrow> message list list \<Rightarrow> bool" where
  "sent_for lim want outs \<longleftrightarrow>
     (\<exists>gss rest. outs = map (sender_msgs TAG_LIST) gss \<and> (\<forall>gs\<in>set gss. flight_ok (Some gs))
        \<and> mset (concat (map concat gss)) + rest = want
        \<and> (rest \<noteq> {#} \<longrightarrow> lim \<noteq> 0 \<and> unat lim \<le> length (concat (map concat gss))))"

lemma sent_for_Nil: "sent_for lim {#} []"
  by (simp add: sent_for_def)

lemma sent_for_append:
  assumes "sent_for lim w1 o1" "sent_for lim w2 o2"
  shows "sent_for lim (w1 + w2) (o1 @ o2)"
proof -
  obtain g1 r1 g2 r2 where g: "o1 = map (sender_msgs TAG_LIST) g1" "\<forall>gs\<in>set g1. flight_ok (Some gs)"
    "mset (concat (map concat g1)) + r1 = w1" "r1 \<noteq> {#} \<longrightarrow> lim \<noteq> 0 \<and> unat lim \<le> length (concat (map concat g1))"
    "o2 = map (sender_msgs TAG_LIST) g2" "\<forall>gs\<in>set g2. flight_ok (Some gs)"
    "mset (concat (map concat g2)) + r2 = w2" "r2 \<noteq> {#} \<longrightarrow> lim \<noteq> 0 \<and> unat lim \<le> length (concat (map concat g2))"
    using assms unfolding sent_for_def by blast
  show ?thesis
    unfolding sent_for_def using g(4,8)
    by (intro exI[of _ "g1 @ g2"] exI[of _ "r1 + r2"])
      (auto simp: g(1,2,5,6) g(3)[symmetric] g(7)[symmetric] ac_simps)
qed

text \<open>One thread, before the histories are put together.\<close>

definition thread_sent :: "64 word \<Rightarrow> byte list multiset \<Rightarrow> thread_result \<Rightarrow> bool" where
  "thread_sent lim want tr \<longleftrightarrow>
     (\<exists>gs rest. tr_messages tr = sender_msgs TAG_LIST gs \<and> flight_ok (Some gs)
        \<and> (\<forall>e\<in>set (tr_hist tr). ev_ok lim e) \<and> sum_list (map ev_inc (tr_hist tr)) = length (concat gs)
        \<and> mset (concat gs) + rest = want \<and> (rest \<noteq> {#} \<longrightarrow> (\<exists>e\<in>set (tr_hist tr). snd (snd e))))"

lemma threads_sent:
  assumes "list_all2 (thread_sent lim) wants trs" "interleaved (map tr_hist trs)" "size (sum_list wants) < 2 ^ 64"
  shows "sent_for lim (sum_list wants) (map tr_messages trs)"
proof -
  have "\<exists>gss rest. map tr_messages trs = map (sender_msgs TAG_LIST) gss
      \<and> (\<forall>gs\<in>set gss. flight_ok (Some gs))
      \<and> (\<forall>h\<in>set (map tr_hist trs). \<forall>e\<in>set h. ev_ok lim e)
      \<and> sum_list (map (\<lambda>h. sum_list (map ev_inc h)) (map tr_hist trs)) = length (concat (map concat gss))
      \<and> mset (concat (map concat gss)) + rest = sum_list wants
      \<and> (rest \<noteq> {#} \<longrightarrow> (\<exists>h\<in>set (map tr_hist trs). \<exists>e\<in>set h. snd (snd e)))"
    using assms(1)
  proof (induction rule: list_all2_induct)
    case Nil
    show ?case by (intro exI[of _ "[]"] exI[of _ "{#}"]) simp
  next
    case (Cons w ws tr trs)
    obtain gs r where g: "tr_messages tr = sender_msgs TAG_LIST gs" "flight_ok (Some gs)"
      "\<forall>e\<in>set (tr_hist tr). ev_ok lim e" "sum_list (map ev_inc (tr_hist tr)) = length (concat gs)"
      "mset (concat gs) + r = w" "r \<noteq> {#} \<longrightarrow> (\<exists>e\<in>set (tr_hist tr). snd (snd e))"
      using Cons.hyps(1) unfolding thread_sent_def by blast
    obtain gss rest where h: "map tr_messages trs = map (sender_msgs TAG_LIST) gss"
      "\<forall>gs\<in>set gss. flight_ok (Some gs)" "\<forall>h\<in>set (map tr_hist trs). \<forall>e\<in>set h. ev_ok lim e"
      "sum_list (map (\<lambda>h. sum_list (map ev_inc h)) (map tr_hist trs)) = length (concat (map concat gss))"
      "mset (concat (map concat gss)) + rest = sum_list ws"
      "rest \<noteq> {#} \<longrightarrow> (\<exists>h\<in>set (map tr_hist trs). \<exists>e\<in>set h. snd (snd e))" using Cons.IH by blast
    show ?case
      using g(2-4,6) h(1-4,6)
      by (intro exI[of _ "gs # gss"] exI[of _ "r + rest"])
        (simp add: g(1) g(5)[symmetric] h(5)[symmetric] ac_simps comp_def, blast)
  qed
  then obtain gss rest where g: "map tr_messages trs = map (sender_msgs TAG_LIST) gss"
      "\<forall>gs\<in>set gss. flight_ok (Some gs)" "\<forall>h\<in>set (map tr_hist trs). \<forall>e\<in>set h. ev_ok lim e"
      "sum_list (map (\<lambda>h. sum_list (map ev_inc h)) (map tr_hist trs)) = length (concat (map concat gss))"
      "mset (concat (map concat gss)) + rest = sum_list wants"
      "rest \<noteq> {#} \<longrightarrow> (\<exists>h\<in>set (map tr_hist trs). \<exists>e\<in>set h. snd (snd e))" by blast
  obtain log where log: "arrives (map tr_hist trs) log" "chain (0, False) log"
    using assms(2) by (auto simp: interleaved_def)
  have sum: "sum_list (map ev_inc log) = length (concat (map concat gss))"
    using arrives_sum(1)[OF log(1), of ev_inc] g(4) by simp
  have "size (sum_list wants) = length (concat (map concat gss)) + size rest"
    using arg_cong[OF g(5), of size] by simp
  then have small: "unat (fst (0 :: 64 word, False)) + sum_list (map ev_inc log) < 2 ^ 64"
    using assms(3) sum by simp
  have "lim \<noteq> 0 \<and> unat lim \<le> length (concat (map concat gss))" if ne: "rest \<noteq> {#}"
  proof -
    have "\<exists>e\<in>set log. snd (snd e)" using g(6) ne arrives_sum(2)[OF log(1)] by blast
    then obtain e where "e \<in> set log" "snd (snd e)" by blast
    moreover have "\<forall>e\<in>set log. ev_ok lim e" using g(3) arrives_sum(2)[OF log(1)] by auto
    ultimately show ?thesis using chain_flag[OF log(2) _ small, of lim e] sum by simp
  qed
  then show ?thesis unfolding sent_for_def using g(1,2,5) by blast
qed


lemma raw_record_thread [simp]: "raw_record (thread_cfg E args others flt) r = raw_of E args r"
  by (simp add: raw_record_def raw_of_def thread_cfg_def)

lemma wanted_matching:
  "wanted E args path = map (raw_of E args) (matching E (thread_cfg E args others (query_filter E args)) path)"
  by (simp add: wanted_def matching_def thread_cfg_def split: option.split)

lemma raw_ok:
  assumes "slave_args_ok L args" "get_sizes_ok E args"
  shows "rec_ok (raw_of E args r)"
proof -
  have "length (raw_of E args r) = all_sizes_sum (ca_fields args)"
    using length_raw_record[OF thread_cfg_ok[OF assms, of undefined undefined], of r]
    unfolding raw_record_thread by (simp add: thread_cfg_def)
  then show ?thesis using assms(1) by (simp add: slave_args_ok_def XCHG_BUFF_SIZE_def rec_ok_def)
qed

lemma thread_run_list:
  assumes "slave_ok L E args" "working_mode args = MODE_LIST" "\<forall>i. length (bufs i) = XCHG_BUFF_SIZE"
    and "thread_ctx_init L E args bufs bf = Ret (t, bf')"
    and "index_sound E (thread_cfg E args others (tc_filter t)) (tc_bfindex_root t)"
    and "\<forall>p\<in>set files. flow_path_ok p" "thread_run L E args others files t = Some (Ret tr)"
  shows "thread_sent (rec_limit args) (mset (concat (map (wanted E args) files))) tr"
proof -
  have ok: "slave_args_ok L args" "slave_env_ok E" "filter_ok E args" "get_sizes_ok E args"
    using assms(1) by (simp_all add: slave_ok_def)
  have t: "ctx_ok args t" "tc_ff t = ff_start bufs" "tc_filter t = query_filter E args"
    using thread_ctx_init_Ret[OF ok(1-3) assms(3), of bf] assms(4) by (auto simp: query_filter_def)
  define C where "C = thread_cfg E args others (tc_filter t)"
  note cfg = thread_cfg_ok[OF ok(1,4), of others "tc_filter t", folded C_def]
  have lim: "fc_limit C = rec_limit args" "fc_tag C = TAG_LIST" by (simp_all add: C_def thread_cfg_def)
  have start: "list_inv C {#} (tc_ff t)"
    using assms(3)
    by (auto simp: t(2) list_inv_def groups_sent_def counted_def ff_start_def send_init_def intro!: exI[of _ "[]"])
  have md: "working_mode args \<noteq> MODE_UNSET" using assms(2) by simp
  obtain t1 where t1: "each_res (process_file_mt E args C) files t = Ret t1"
    using files_Ret[OF ok(2) md cfg assms(6) t(1)] by blast
  have "list_inv C ({#} + mset (concat (map (matching E C) files))) (tc_ff t1)"
    by (rule files_list[OF ok(2) assms(2) cfg assms(6) t(1) _ start t1]) (use assms(5) in \<open>simp add: C_def\<close>)
  then obtain gs rest where g: "groups_sent C [] gs (ff_send (tc_ff t1))" "counted C 0 [] gs (tc_ff t1)"
    "mset (concat gs) + rest = mset (concat (map (matching E C) files))" "rest \<noteq> {#} \<longrightarrow> flagged [] (tc_ff t1)"
    by (auto simp: list_inv_def)
  define raw where "raw = raw_of E args"
  have rec: "raw_record C = raw" by (simp add: fun_eq_iff C_def raw_def)
  have tr: "tr_messages tr = s_sent (ff_send (tc_ff t1)) @ [send_terminator TAG_LIST]"
    "tr_hist tr = ff_hist (tc_ff t1)"
    using assms(2,7) t1 by (auto simp: thread_run_def C_def postprocess_mt_def)
  have "s_sent (ff_send (tc_ff t1)) = map (\<lambda>g. (TAG_LIST, pack g)) (map (map raw) gs)"
    using g(1) lim(2) by (simp add: groups_sent_def rec)
  then have out: "tr_messages tr = sender_msgs TAG_LIST (map (map raw) gs)"
    by (simp add: tr(1) sender_msgs_def)
  have fl: "flight_ok (Some (map (map raw) gs))"
    using g(1) raw_ok[OF ok(1,4)] by (auto simp: flight_ok_def groups_sent_def rec raw_def)
  have cnt: "(\<forall>e\<in>set (tr_hist tr). ev_ok (rec_limit args) e)"
    "sum_list (map ev_inc (tr_hist tr)) = length (concat (map (map raw) gs))"
    using g(2) lim(1) by (auto simp: counted_def tr(2) length_concat comp_def)
  have "image_mset raw (mset (concat gs)) + image_mset raw rest
      = image_mset raw (mset (concat (map (matching E C) files)))" unfolding g(3)[symmetric] by simp
  moreover have w: "wanted E args = (\<lambda>p. map raw (matching E C p))"
    by (rule ext) (simp add: wanted_matching[of E args _ others] C_def t(3) raw_def)
  have "image_mset raw (mset (concat (map (matching E C) files))) = mset (concat (map (wanted E args) files))"
    unfolding w by (simp add: mset_map[symmetric] map_concat comp_def del: mset_map)
  moreover have "image_mset raw (mset (concat gs)) = mset (concat (map (map raw) gs))"
    by (simp add: mset_map[symmetric] map_concat del: mset_map)
  ultimately have ms: "mset (concat (map (map raw) gs)) + image_mset raw rest
      = mset (concat (map (wanted E args) files))" by simp
  have "\<exists>e\<in>set (tr_hist tr). snd (snd e)" if "image_mset raw rest \<noteq> {#}"
    using g(4) that by (auto simp: flagged_def tr(2))
  then show ?thesis
    unfolding thread_sent_def using out fl cnt ms by blast
qed

subsection \<open>When the index hides no matching record\<close>

text \<open>
  The condition under which a query loses no record to the index.  Without a filter or with
  \<open>--no-bfindex\<close> it always holds (\<open>index_safe_unused\<close>).  With an index, which is the default:
  the addresses of the filter times the number of threads of the process are at most 20, every \<open>or\<close>
  of the filter has two indexable sides or none, ffilter has its documented semantics, and an
  index file holds the addresses of all records of its flow file.  Beyond the first two the program
  does skip files with matching records: C34 shows it for the \<open>or\<close>, and the limit error of
  \<open>build_addr_node\<close> is overwritten by the next node.
\<close>

definition filter_addrs :: "('r, 'm) slave_env \<Rightarrow> cmdline_args \<Rightarrow> nat" where
  "filter_addrs E args = (if use_bfindex args then case query_filter E args of None \<Rightarrow> 0 | Some n \<Rightarrow> count_addr n else 0)"

definition index_complete :: "('r, 'm) slave_env \<Rightarrow> ('r \<Rightarrow> ip_data set) \<Rightarrow> bool" where
  "index_complete E addrs \<longleftrightarrow>
     (\<forall>path rs r p stored. se_open E path = Some rs \<longrightarrow> r \<in> set rs \<longrightarrow>
        bfindex_flow_to_index_path (se_path_malloc E path) path = Ret (Some p) \<longrightarrow> se_index E p = Some stored \<longrightarrow>
        (\<forall>a\<in>addrs r. stored a))"

definition index_safe :: "('r, 'm) slave_env \<Rightarrow> ('r \<Rightarrow> ip_data set) \<Rightarrow> cmdline_args \<Rightarrow> nat \<Rightarrow> bool" where
  "index_safe E addrs args threads \<longleftrightarrow>
     threads * filter_addrs E args \<le> 20
   \<and> (\<forall>n. use_bfindex args \<longrightarrow> query_filter E args = Some n \<longrightarrow>
        or_complete n \<and> ff_semantics (se_filter_match E) addrs \<and> index_complete E addrs)"

lemma index_safe_unused: "\<not> use_bfindex args \<or> filter_str args = None \<Longrightarrow> index_safe E addrs args threads"
  by (auto simp: index_safe_def filter_addrs_def query_filter_def)

lemma bfindex_init_built:
  assumes "ff_semantics matches addrs" "wf_ff n" "malloc_outcomes s = []" "unat (ip_cnt s) + count_addr n \<le> 20"
    and "bfindex_init s (Some n) = Ret (r, s')"
  shows "malloc_outcomes s' = []" "unat (ip_cnt s') = unat (ip_cnt s) + count_addr n"
    "r = Some t \<Longrightarrow> or_complete n \<Longrightarrow> matches n x \<Longrightarrow> \<forall>a\<in>addrs x. stored a \<Longrightarrow> bf_eval stored t"
proof -
  obtain r0 s0 where b: "build_node s (Some n) = Ret (r0, s0)" "built matches addrs n s r0 s0"
    using build_spec[OF assms(1-4)] by blast
  have s: "s' = s0" "r = Some t \<Longrightarrow> r0 = Some t"
    using assms(5) b(1) by (auto simp: bfindex_init_def split: if_splits)
  show "malloc_outcomes s' = []" "unat (ip_cnt s') = unat (ip_cnt s) + count_addr n"
    using b(2) s(1) by (simp_all add: built_def)
  show "r = Some t \<Longrightarrow> or_complete n \<Longrightarrow> matches n x \<Longrightarrow> \<forall>a\<in>addrs x. stored a \<Longrightarrow> bf_eval stored t"
    using b(2) s(2) by (simp add: built_def)
qed

lemma file_may_match_False:
  assumes "file_may_match E (Some root) path = Ret False" "wf_bf root"
  obtains p stored where "bfindex_flow_to_index_path (se_path_malloc E path) path = Ret (Some p)"
    "se_index E p = Some stored" "\<not> bf_eval stored root"
  using assms
  by (auto simp: file_may_match_def res_simps bfindex_contains_def tree_contains_eval split: option.splits)

lemma index_thread:
  assumes "slave_ok L E args" "index_safe E addrs args threads" "\<forall>i. length (bufs i) = XCHG_BUFF_SIZE"
    and "malloc_outcomes bf = []" "unat (ip_cnt bf) + filter_addrs E args \<le> 20"
    and "thread_ctx_init L E args bufs bf = Ret (t, bf')"
  shows "index_sound E (thread_cfg E args others (tc_filter t)) (tc_bfindex_root t)
    \<and> malloc_outcomes bf' = [] \<and> unat (ip_cnt bf') = unat (ip_cnt bf) + filter_addrs E args"
proof -
  have ok: "slave_args_ok L args" "slave_env_ok E" "filter_ok E args"
    using assms(1) by (simp_all add: slave_ok_def)
  have flt: "tc_filter t = query_filter E args"
    using thread_ctx_init_Ret[OF ok assms(3), of bf] assms(6) by (auto simp: query_filter_def)
  obtain root where init: "init_filter_and_index E args bf = Ret (tc_filter t, root, bf')" "tc_bfindex_root t = root"
    using assms(6) by (auto simp: thread_ctx_init_def res_simps)
  show ?thesis
  proof (cases "use_bfindex args \<and> filter_str args \<noteq> None")
    case False
    then have "root = None" "bf' = bf"
      using init(1) by (auto simp: init_filter_and_index_def res_simps split: option.splits if_splits)
    moreover have "filter_addrs E args = 0" using False by (auto simp: filter_addrs_def query_filter_def)
    ultimately show ?thesis using init(2) assms(4) by (simp add: index_sound_def file_may_match_def)
  next
    case True
    then obtain f where f: "filter_str args = Some f" by blast
    obtain n where n: "se_filter_init E f = Some n" "wf_ff n" using ok(3) f by (auto simp: filter_ok_def)
    have q: "query_filter E args = Some n" using f n by (simp add: query_filter_def)
    have sem: "or_complete n" "ff_semantics (se_filter_match E) addrs" and complete: "index_complete E addrs"
      using assms(2) True q by (auto simp: index_safe_def)
    have cnt: "filter_addrs E args = count_addr n" using True q by (simp add: filter_addrs_def)
    have b: "bfindex_init bf (Some n) = Ret (root, bf')"
      using init(1) True f n by (auto simp: init_filter_and_index_def init_filter_def res_simps)
    have le: "unat (ip_cnt bf) + count_addr n \<le> 20" using assms(5) cnt by simp
    note built = bfindex_init_built[OF sem(2) n(2) assms(4) le b]
    have "matching E (thread_cfg E args others (tc_filter t)) path = []"
      if no: "file_may_match E root path = Ret False" for path
    proof (cases root)
      case None
      then show ?thesis using no by (simp add: file_may_match_def)
    next
      case (Some tree)
      obtain p stored where p: "bfindex_flow_to_index_path (se_path_malloc E path) path = Ret (Some p)"
        "se_index E p = Some stored" "\<not> bf_eval stored tree"
        by (rule file_may_match_False[OF no[unfolded Some] bfindex_init_wf[OF b[unfolded Some]]])
      have "\<not> se_filter_match E n r" if r: "se_open E path = Some rs" "r \<in> set rs" for rs r
      proof
        assume "se_filter_match E n r"
        moreover have "\<forall>a\<in>addrs r. stored a" using complete r p(1,2) unfolding index_complete_def by blast
        ultimately have "bf_eval stored tree" using built(3)[OF Some sem(1)] by blast
        with p(3) show False by contradiction
      qed
      then show ?thesis
        by (auto simp: matching_def thread_cfg_def flt q filter_empty_conv split: option.split)
    qed
    then show ?thesis using built(1,2) init(2) cnt by (auto simp: index_sound_def)
  qed
qed

text \<open>What holds of every thread that runs with a sound index holds of the threads of a process.\<close>

lemma slave_threads_each:
  assumes "slave_ok L E args"
    and step: "\<And>others bufs files bf t bf' tr. \<lbrakk>\<forall>i. length (bufs i) = XCHG_BUFF_SIZE;
      thread_ctx_init L E args bufs bf = Ret (t, bf');
      index_sound E (thread_cfg E args others (tc_filter t)) (tc_bfindex_root t);
      \<forall>p\<in>set files. flow_path_ok p; thread_run L E args others files t = Some (Ret tr)\<rbrakk> \<Longrightarrow> P files tr"
  shows "index_safe E addrs args n \<Longrightarrow> malloc_outcomes bf = [] \<Longrightarrow> unat (ip_cnt bf) + length ths * filter_addrs E args \<le> 20 \<Longrightarrow>
    \<forall>(others, bufs, files)\<in>set ths. (\<forall>i. length (bufs i) = XCHG_BUFF_SIZE) \<and> (\<forall>p\<in>set files. flow_path_ok p) \<Longrightarrow>
    slave_threads L E args ths bf = Some (Ret trs) \<Longrightarrow> list_all2 (\<lambda>th. P (snd (snd th))) ths trs"
proof (induction ths arbitrary: bf trs)
  case Nil
  then show ?case by simp
next
  case (Cons th ths)
  obtain others bufs files where th: "th = (others, bufs, files)" by (cases th)
  have p: "\<forall>i. length (bufs i) = XCHG_BUFF_SIZE" "\<forall>p\<in>set files. flow_path_ok p" using Cons.prems(4) th by auto
  have ok: "slave_args_ok L args" "slave_env_ok E" "filter_ok E args" "get_sizes_ok E args"
    using assms(1) by (simp_all add: slave_ok_def)
  obtain t bf' where t: "thread_ctx_init L E args bufs bf = Ret (t, bf')" "ctx_ok args t"
    using thread_ctx_init_Ret[OF ok(1-3) p(1)] by blast
  obtain tr where tr: "thread_run L E args others files t = Some (Ret tr)"
    using thread_run_Ret[OF ok(2,1,4) t(2) p(2)] by blast
  obtain trs' where trs: "slave_threads L E args ths bf' = Some (Ret trs')" "trs = tr # trs'"
    using Cons.prems(5) th t(1) tr by (auto simp: res_simps)
  have le: "unat (ip_cnt bf) + filter_addrs E args \<le> 20" using Cons.prems(3) by simp
  note ix = index_thread[OF assms(1) Cons.prems(1) p(1) Cons.prems(2) le t(1), of others]
  have "P files tr" using step[OF p(1) t(1) _ p(2) tr] ix by blast
  moreover have "list_all2 (\<lambda>th. P (snd (snd th))) ths trs'"
    using Cons.IH[OF Cons.prems(1) _ _ _ trs(1)] Cons.prems(3,4) ix by simp
  ultimately show ?case by (simp add: th trs(2))
qed

lemma slave_main_each:
  assumes "slave_ok L E args"
    and "path_array_gen F e (ca_paths args) (time_begin args) (time_end args) = Some (Ret (Some pa))"
    and "\<forall>p\<in>set (pa_used pa). flow_path_ok p" "team_ok omp_zero num_threads_max (pa_used pa) ths"
    and "index_safe E addrs args (length ths)"
    and "slave_main L E F e args omp_zero num_threads_max ths = Some (Ret sr)"
    and step: "\<And>others bufs files bf t bf' tr. \<lbrakk>\<forall>i. length (bufs i) = XCHG_BUFF_SIZE;
      thread_ctx_init L E args bufs bf = Ret (t, bf');
      index_sound E (thread_cfg E args others (tc_filter t)) (tc_bfindex_root t);
      \<forall>p\<in>set files. flow_path_ok p; thread_run L E args others files t = Some (Ret tr)\<rbrakk> \<Longrightarrow> P files tr"
  shows "list_all2 (\<lambda>th. P (snd (snd th))) ths (sr_results sr)"
proof -
  have nz: "num_threads_max \<noteq> 0" using assms(2,6) by (cases "num_threads_max = 0") (simp_all add: slave_main_def)
  have trs: "slave_threads L E args ths init_bf_state = Some (Ret (sr_results sr))"
    using assms(2,6) nz by (auto simp: slave_main_def res_simps)
  show ?thesis
  proof (rule slave_threads_each[where P = P, OF assms(1) step assms(5) _ _ team_files(1)[OF assms(4,3)] trs])
    show "unat (ip_cnt init_bf_state) + length ths * filter_addrs E args \<le> 20"
      using assms(5) by (simp add: index_safe_def init_bf_state_def)
  qed (simp_all add: init_bf_state_def)
qed

text \<open>The files of the threads are those of the process.\<close>

lemma team_records:
  assumes "team_ok omp_zero num_threads_max paths ths"
  shows "sum_list (map (\<lambda>th. mset (concat (map f (snd (snd th))))) ths) = mset (concat (map f paths))"
proof -
  have sum: "sum_list (map (\<lambda>th. mset (concat (map f (snd (snd th))))) ths) = mset (concat (map f (concat (map (snd \<circ> snd) ths))))"
    by (induction ths) simp_all
  have w: "mset (concat (map f files)) = sum_mset (image_mset (\<lambda>p. mset (f p)) (mset files))" for files
    by (induction files) simp_all
  have "mset (concat (map (snd \<circ> snd) ths)) = mset paths" using assms by (simp only: team_ok_def)
  then have "mset (concat (map f (concat (map (snd \<circ> snd) ths)))) = mset (concat (map f paths))" by (simp only: w)
  with sum show ?thesis by (rule trans)
qed

text \<open>The whole process in list mode.\<close>

lemma slave_main_list:
  assumes "slave_ok L E args" "working_mode args = MODE_LIST"
    and "path_array_gen F e (ca_paths args) (time_begin args) (time_end args) = Some (Ret (Some pa))"
    and "\<forall>p\<in>set (pa_used pa). flow_path_ok p" "team_ok omp_zero num_threads_max (pa_used pa) ths"
    and "index_safe E addrs args (length ths)"
    and "slave_main L E F e args omp_zero num_threads_max ths = Some (Ret sr)"
    and "interleaved (map tr_hist (sr_results sr))"
    and "length (concat (map (wanted E args) (pa_used pa))) < 2 ^ 64"
  shows "sent_for (rec_limit args) (mset (concat (map (wanted E args) (pa_used pa))))
    (map tr_messages (sr_results sr))"
    "length (sr_results sr) = length ths"
proof -
  let ?w = "\<lambda>files. mset (concat (map (wanted E args) files))"
  have "list_all2 (\<lambda>th. thread_sent (rec_limit args) (?w (snd (snd th)))) ths (sr_results sr)"
    using slave_main_each[where P = "\<lambda>files. thread_sent (rec_limit args) (?w files)", OF assms(1,3-7)]
      thread_run_list[OF assms(1,2)] by blast
  then have all: "list_all2 (thread_sent (rec_limit args)) (map (\<lambda>th. ?w (snd (snd th))) ths) (sr_results sr)"
    by (simp add: list.rel_map)
  have total: "sum_list (map (\<lambda>th. ?w (snd (snd th))) ths) = ?w (pa_used pa)" by (rule team_records[OF assms(5)])
  have "size (sum_list (map (\<lambda>th. ?w (snd (snd th))) ths)) < 2 ^ 64"
    unfolding total using assms(9) by (simp only: size_mset)
  from threads_sent[OF all assms(8) this] show "sent_for (rec_limit args) (?w (pa_used pa))
    (map tr_messages (sr_results sr))" by (simp only: total)
  show "length (sr_results sr) = length ths" using list_all2_lengthD[OF all] by simp
qed

end
