(* ===== verification/Progress_Bar.thy ===== *)
theory Progress_Bar
  imports Double Decimal Cmdline_Args "HOL-Library.Word"
begin

text \<open>
  The progress bar of \<open>src/master.c\<close> (\<open>progress_bar_print\<close>,
  \<open>progress_bar_thread\<close>) and the reports the slaves send
  (\<open>src/slave.c\<close>, \<open>progress_report_init\<close> and \<open>progress_report_next\<close>).

  The numbers gathered from the slaves and the sources of the messages that
  arrive, in their order, are parameters; a message that the polling wait loses to
  a signal is \<open>None\<close>.  The text of each print is kept.
\<close>

datatype out_stream = Out_Stderr | Out_Stdout | Out_File string

record progress_bar_ctx =
  pb_type :: progress_bar_type
  pb_sources_cnt :: nat
  pb_files_cnt :: "64 word list"
  pb_files_cnt_goal :: "64 word list"
  pb_files_cnt_sum :: "64 word"
  pb_files_cnt_goal_sum :: "64 word"
  pb_out_stream :: "out_stream option"
  pb_printed :: "string list"

subsection \<open>Percentages\<close>

text \<open>\<open>(double)cnt / goal * 100.0\<close>, converted to an integer.\<close>

definition percent_of :: "nat \<Rightarrow> nat \<Rightarrow> nat" where
  "percent_of cnt goal =
     (case double_div (double_of cnt) (double_of goal) of (p, k) \<Rightarrow>
      case double_div (p * 100) (2 ^ k) of (q, j) \<Rightarrow> q div 2 ^ j)"

definition percentage :: "64 word \<Rightarrow> 64 word \<Rightarrow> nat" where
  "percentage cnt goal = (if goal = 0 then 100 else percent_of (unat cnt) (unat goal))"

subsection \<open>One print\<close>

definition progress_bar_fmt :: "64 word \<Rightarrow> 64 word \<Rightarrow> nat \<Rightarrow> string" where
  "progress_bar_fmt cnt goal percent =
     dec (unat cnt) @ ''/'' @ dec (unat goal) @ '' ('' @ dec percent @ '' %)''"

definition source_percentage :: "progress_bar_ctx \<Rightarrow> nat \<Rightarrow> nat" where
  "source_percentage pb i = percentage (pb_files_cnt pb ! i) (pb_files_cnt_goal pb ! i)"

definition total_percentage :: "progress_bar_ctx \<Rightarrow> nat" where
  "total_percentage pb = percentage (pb_files_cnt_sum pb) (pb_files_cnt_goal_sum pb)"

definition total_text :: "progress_bar_ctx \<Rightarrow> string" where
  "total_text pb = progress_bar_fmt (pb_files_cnt_sum pb) (pb_files_cnt_goal_sum pb) (total_percentage pb)"

definition progress_bar_text :: "progress_bar_ctx \<Rightarrow> string res" where
  "progress_bar_text pb =
     (case pb_type pb of
        PROGRESS_BAR_TOTAL \<Rightarrow> Ret (''reading files: '' @ total_text pb)
      | PROGRESS_BAR_PERSLAVE \<Rightarrow>
          Ret (''reading files: total: '' @ total_text pb
            @ concat (map (\<lambda>i. '' | '' @ dec (i + 1) @ '': ''
                @ progress_bar_fmt (pb_files_cnt pb ! i) (pb_files_cnt_goal pb ! i) (source_percentage pb i))
              [0..<pb_sources_cnt pb]))
      | PROGRESS_BAR_JSON \<Rightarrow>
          Ret (''{\"total\":'' @ dec (total_percentage pb)
            @ concat (map (\<lambda>i. '',\"slave'' @ dec (i + 1) @ ''\":'' @ dec (source_percentage pb i))
              [0..<pb_sources_cnt pb]) @ ''}'')
      | PROGRESS_BAR_NONE \<Rightarrow> Abort E_INTERNAL
      | PROGRESS_BAR_UNSET \<Rightarrow> Abort E_INTERNAL)"

text \<open>A stream gets the line's state and stays on the line; a file is rewound after each line.\<close>

definition progress_bar_ending :: "progress_bar_ctx \<Rightarrow> string" where
  "progress_bar_ending pb =
     (case pb_out_stream pb of
        Some (Out_File _) \<Rightarrow> [CHR 0x0A]
      | _ \<Rightarrow> if pb_files_cnt_sum pb = pb_files_cnt_goal_sum pb then '' DONE'' @ [CHR 0x0A]
             else '' ...'' @ [CHR 0x0D])"

definition progress_bar_print :: "progress_bar_ctx \<Rightarrow> progress_bar_ctx res" where
  "progress_bar_print pb =
     assert_then (pb_files_cnt_sum pb \<le> pb_files_cnt_goal_sum pb)
      (assert_then (\<forall>i<pb_sources_cnt pb. pb_files_cnt pb ! i \<le> pb_files_cnt_goal pb ! i)
        (res_bind (progress_bar_text pb) (\<lambda>text.
         Ret (pb\<lparr>pb_printed := pb_printed pb @ [text @ progress_bar_ending pb]\<rparr>))))"

subsection \<open>The thread\<close>

definition print_if_on :: "progress_bar_ctx \<Rightarrow> progress_bar_ctx res" where
  "print_if_on pb = (if pb_type pb \<noteq> PROGRESS_BAR_NONE then progress_bar_print pb else Ret pb)"

definition progress_bar_stream ::
  "(string \<Rightarrow> bool) \<Rightarrow> progress_bar_type \<Rightarrow> string option \<Rightarrow> out_stream option \<times> progress_bar_type" where
  "progress_bar_stream fopen_ok type dest =
     (case dest of
        None \<Rightarrow> (Some Out_Stderr, type)
      | Some d \<Rightarrow>
          if d = ''stderr'' then (Some Out_Stderr, type)
          else if d = ''stdout'' then (Some Out_Stdout, type)
          else if fopen_ok d then (Some (Out_File d), type) else (None, PROGRESS_BAR_NONE))"

text \<open>\<open>gathered\<close> is the receive buffer of \<open>MPI_Gather\<close>: the master's zero, then one number per slave.\<close>

definition progress_bar_init ::
  "bool \<Rightarrow> (string \<Rightarrow> bool) \<Rightarrow> progress_bar_type \<Rightarrow> string option \<Rightarrow> 64 word list \<Rightarrow> progress_bar_ctx res" where
  "progress_bar_init calloc_ok fopen_ok type dest gathered =
     assert_then (length gathered > 0)
      (abort_if (\<not> calloc_ok) E_MEM
        (Ret \<lparr>pb_type = snd (progress_bar_stream fopen_ok type dest),
              pb_sources_cnt = length gathered - 1,
              pb_files_cnt = replicate (length gathered - 1) 0,
              pb_files_cnt_goal = map (\<lambda>i. gathered ! (i + 1)) [0..<length gathered - 1],
              pb_files_cnt_sum = 0,
              pb_files_cnt_goal_sum = sum_list (map (\<lambda>i. gathered ! (i + 1)) [0..<length gathered - 1]),
              pb_out_stream = fst (progress_bar_stream fopen_ok type dest), pb_printed = []\<rparr>))"

definition progress_bar_step :: "int option \<Rightarrow> progress_bar_ctx \<Rightarrow> progress_bar_ctx res" where
  "progress_bar_step event pb =
     (case event of
        None \<Rightarrow> Out_Of_Bounds
      | Some mpi_source \<Rightarrow>
          assert_then (mpi_source > 0)
           (let source = nat (mpi_source - 1) in
            if \<not> source < pb_sources_cnt pb then Out_Of_Bounds
            else print_if_on (pb\<lparr>pb_files_cnt := (pb_files_cnt pb)[source := pb_files_cnt pb ! source + 1],
                                 pb_files_cnt_sum := pb_files_cnt_sum pb + 1\<rparr>)))"

text \<open>\<open>None\<close>: the thread waits for a message that never comes.\<close>

fun progress_bar_loop :: "nat \<Rightarrow> int option list \<Rightarrow> progress_bar_ctx \<Rightarrow> progress_bar_ctx res option" where
  "progress_bar_loop 0 events pb = Some (Ret pb)"
| "progress_bar_loop (Suc n) [] pb = None"
| "progress_bar_loop (Suc n) (event # events) pb =
     (case progress_bar_step event pb of
        Ret pb' \<Rightarrow> progress_bar_loop n events pb'
      | r \<Rightarrow> Some r)"

definition progress_bar_thread ::
  "bool \<Rightarrow> (string \<Rightarrow> bool) \<Rightarrow> progress_bar_type \<Rightarrow> string option \<Rightarrow> 64 word list \<Rightarrow> int option list
    \<Rightarrow> progress_bar_ctx res option" where
  "progress_bar_thread calloc_ok fopen_ok type dest gathered events =
     (case res_bind (progress_bar_init calloc_ok fopen_ok type dest gathered) print_if_on of
        Ret pb \<Rightarrow> progress_bar_loop (unat (pb_files_cnt_goal_sum pb)) events pb
      | r \<Rightarrow> Some r)"

subsection \<open>What the slaves report\<close>

text \<open>A slave of rank \<open>r\<close> reports its number of files once and then one message per file.\<close>

definition progress_report_init :: "nat \<Rightarrow> 64 word" where
  "progress_report_init files_cnt = of_nat files_cnt"

definition progress_report_next :: "int \<Rightarrow> int option" where
  "progress_report_next rank = Some rank"

subsection \<open>The percentage\<close>

lemma rne_ge: "n \<le> rne n d * d + d div 2 \<or> d = 0"
proof (cases "d = 0")
  case False
  define q where "q = n div d"
  define r where "r = n mod d"
  have n: "n = q * d + r" "r < d" using False by (simp_all add: q_def r_def)
  have "rne n d = (if 2 * r < d \<or> (2 * r = d \<and> even q) then q else q + 1)"
    by (simp add: rne_def q_def r_def Let_def)
  then show ?thesis using n by (auto split: if_splits)
qed simp

lemma rne_mult: "0 < d \<Longrightarrow> rne (c * d) d = c"
  by (simp add: rne_def)

lemma rne_half: "0 < d \<Longrightarrow> 2 * (rne n d * d) \<le> 2 * n + d"
proof -
  assume d: "0 < d"
  define q where "q = n div d"
  define r where "r = n mod d"
  have n: "n = q * d + r" "r < d" using d by (simp_all add: q_def r_def)
  have "rne n d = (if 2 * r < d \<or> (2 * r = d \<and> even q) then q else q + 1)"
    by (simp add: rne_def q_def r_def Let_def)
  then show ?thesis using n by (auto split: if_splits simp: algebra_simps)
qed

text \<open>\<open>up_exp\<close> normalises: it reaches \<open>2 ^ 52\<close> and not further than needed.\<close>

lemma up_exp_reaches: "0 < n \<Longrightarrow> 2 ^ 52 * d \<le> n * 2 ^ up_exp n d"
proof (induction n d rule: up_exp.induct)
  case (1 n d)
  show ?case
  proof (cases "2 ^ 52 * d \<le> n")
    case True
    then show ?thesis by (simp add: up_exp.simps[of n d])
  next
    case False
    then have "2 ^ 52 * d \<le> 2 * n * 2 ^ up_exp (2 * n) d" using 1 by simp
    with False 1(2) show ?thesis by (simp add: up_exp.simps[of n d] mult.commute mult.left_commute)
  qed
qed

lemma percent_of_full: "0 < g \<Longrightarrow> g < 2 ^ 53 \<Longrightarrow> percent_of g g = 100"
proof -
  assume g: "0 < g" "g < 2 ^ 53"
  have lt: "\<not> 2 ^ 53 * g \<le> g" using g(1) by simp
  define k where "k = up_exp g g"
  have p: "double_div (double_of g) (double_of g) = (2 ^ k, k)"
    using lt g rne_mult[of g "2 ^ k"] by (simp add: double_of_exact double_div_def k_def[symmetric] Let_def mult.commute)
  define j where "j = up_exp (2 ^ k * 100) (2 ^ k)"
  have "double_div (2 ^ k * 100) (2 ^ k) = (100 * 2 ^ j, j)"
    using rne_mult[of "2 ^ k" "100 * 2 ^ j"]
    by (simp add: double_div_def j_def[symmetric] Let_def mult.commute mult.left_commute)
  then show ?thesis using p by (simp add: percent_of_def)
qed

text \<open>Below the goal the rounding errors of the quotient and of the product never reach 100.\<close>

lemma percent_of_less:
  assumes "a < g" "g \<le> 2 ^ 40"
  shows "percent_of a g < 100"
proof (cases "a = 0")
  case True
  then have "percent_of a g = 0"
    using assms by (simp add: percent_of_def double_of_exact double_div_def up_exp.simps rne_def Let_def)
  then show ?thesis by simp
next
  case False
  have lt: "\<not> 2 ^ 53 * g \<le> a" using assms(1) by simp
  define k where "k = up_exp a g"
  define p where "p = rne (a * 2 ^ k) g"
  have fits: "a < 2 ^ 53" "g < 2 ^ 53" using assms by simp_all
  have pk: "double_div (double_of a) (double_of g) = (p, k)"
    using lt by (simp add: double_of_exact[OF fits(1)] double_of_exact[OF fits(2)] double_div_def k_def[symmetric] p_def Let_def)
  have "2 ^ 52 * g \<le> a * 2 ^ k" using up_exp_reaches[of a g] False by (simp add: k_def)
  also have "\<dots> \<le> g * 2 ^ k" using assms(1) by simp
  finally have "2 ^ 52 * g \<le> 2 ^ k * g" by (simp only: mult.commute)
  then have k: "(2 :: nat) ^ 52 \<le> 2 ^ k" using assms(1) by simp
  have half: "2 * (p * g) \<le> 2 * (a * 2 ^ k) + g" using rne_half[of g "a * 2 ^ k"] assms(1) by (simp add: p_def)
  have "(a + 1) * 2 ^ k \<le> g * 2 ^ k" using assms(1) by (intro mult_le_mono1) simp
  then have "2 * (p * g) + 2 ^ k \<le> 2 * (g * 2 ^ k)"
    using half assms(2) k by (simp add: distrib_right)
  then have gap: "2 ^ k \<le> 2 * g * (2 ^ k - p)" by (simp add: diff_mult_distrib2 mult.commute mult.left_commute)
  define d where "d = 2 ^ k - p"
  have "p < 2 ^ k"
  proof (rule ccontr)
    assume "\<not> p < 2 ^ k"
    then have "2 ^ k - p = 0" by simp
    with gap show False by (simp only: mult_0_right) simp
  qed
  then have d: "0 < d" "p = 2 ^ k - d" "d \<le> 2 ^ k" by (simp_all add: d_def)
  show ?thesis
  proof (cases "2 ^ 53 * 2 ^ k \<le> p * 100 \<or> p = 0")
    case True
    have "p * 100 < 2 ^ 53 * 2 ^ k" using d(2) k by simp
    with True have "p = 0" by simp
    then show ?thesis using pk by (simp add: percent_of_def double_div_def up_exp.simps rne_def)
  next
    case False
    define j where "j = up_exp (p * 100) (2 ^ k)"
    have dd: "double_div (p * 100) (2 ^ k) = (rne (p * 100 * 2 ^ j) (2 ^ k), j)"
      using False by (simp add: double_div_def j_def[symmetric] Let_def)
    have "2 ^ 52 * 2 ^ k \<le> p * 100 * 2 ^ j" using up_exp_reaches[of "p * 100" "2 ^ k"] False by (simp add: j_def)
    also have "\<dots> \<le> 2 ^ k * 100 * 2 ^ j" using d(2) by (intro mult_le_mono1) simp
    finally have "2 ^ 52 * 2 ^ k \<le> (100 * 2 ^ j) * (2 :: nat) ^ k" by (simp only: mult.commute mult.left_commute)
    then have j: "(2 :: nat) ^ 52 \<le> 100 * 2 ^ j" by simp
    have "(2 :: nat) ^ k \<le> 2 * 2 ^ 40 * d"
      using gap assms(2) unfolding d_def[symmetric] by (meson le_trans mult_le_mono le_refl)
    also have "\<dots> \<le> (100 * 2 ^ j) * d" using j by (intro mult_le_mono1) simp
    finally have step: "2 ^ k \<le> 100 * 2 ^ j * d" .
    have "p * 100 * 2 ^ j + 100 * 2 ^ j * d = 100 * 2 ^ j * 2 ^ k"
      using d(2,3) by (simp add: diff_mult_distrib2 algebra_simps)
    then have "p * 100 * 2 ^ j \<le> (100 * 2 ^ j - 1) * 2 ^ k" using step by (simp add: diff_mult_distrib)
    then have "rne (p * 100 * 2 ^ j) (2 ^ k) \<le> 100 * 2 ^ j - 1" by (rule rne_le[rotated]) simp
    then have "rne (p * 100 * 2 ^ j) (2 ^ k) < 100 * 2 ^ j"
      by (metis One_nat_def diff_less le_less_trans lessI less_le_trans nat_0_less_mult_iff zero_less_numeral zero_less_power)
    then have "rne (p * 100 * 2 ^ j) (2 ^ k) div 2 ^ j < 100" by (simp add: less_mult_imp_div_less)
    then show ?thesis using pk dd by (simp add: percent_of_def)
  qed
qed

text \<open>The percentage is at most 100, and it is 100 exactly when all files are done (for up to
  \<open>2 ^ 40\<close> files); the rounding of the double arithmetic never shows 100 too early.\<close>

theorem percentage_complete:
  assumes "cnt \<le> goal" and "unat goal \<le> 2 ^ 40"
  shows "percentage cnt goal \<le> 100 \<and> (percentage cnt goal = 100 \<longleftrightarrow> cnt = goal)"
proof (cases "goal = 0")
  case True
  then show ?thesis using assms(1) by (simp add: percentage_def)
next
  case False
  then have g: "0 < unat goal" "unat goal < 2 ^ 53" using assms(2) by (simp_all add: unat_gt_0)
  show ?thesis
  proof (cases "cnt = goal")
    case True
    then show ?thesis using False percent_of_full[OF g] by (simp add: percentage_def)
  next
    case ne: False
    then have "unat cnt < unat goal" using assms(1) by (simp add: word_less_nat_alt[symmetric])
    then have "percentage cnt goal < 100" using False percent_of_less[OF _ assms(2)] by (simp add: percentage_def)
    then show ?thesis using ne by simp
  qed
qed

theorem percentage_complete_witness:
  "percentage 2 3 \<le> 100 \<and> (percentage 2 3 = 100 \<longleftrightarrow> (2 :: 64 word) = 3)"
  by (rule percentage_complete) simp_all

text \<open>The percentage is not the integer part of the exact quotient: 29 of 50 files are 58 percent,
  but the rounded quotient times 100 is just below 58 and 57 is shown.\<close>

theorem percentage_truncates_low: "percentage 29 50 = 57 \<and> 29 * 100 = 58 * (50 :: nat)"
  by (simp add: percentage_def percent_of_def double_of_exact double_div_def up_exp.simps rne_def Let_def)

subsection \<open>The thread ends with everything counted\<close>

definition pb_inv :: "nat list \<Rightarrow> int list \<Rightarrow> progress_bar_ctx \<Rightarrow> bool" where
  "pb_inv counts seen pb \<longleftrightarrow>
     pb_sources_cnt pb = length counts
   \<and> pb_files_cnt pb = map (\<lambda>i. of_nat (count_list seen (int i + 1))) [0..<length counts]
   \<and> pb_files_cnt_goal pb = map of_nat counts
   \<and> pb_files_cnt_sum pb = of_nat (length seen)
   \<and> pb_files_cnt_goal_sum pb = of_nat (sum_list counts)
   \<and> pb_type pb \<noteq> PROGRESS_BAR_UNSET"

definition within_goals :: "nat list \<Rightarrow> int list \<Rightarrow> bool" where
  "within_goals counts seen \<longleftrightarrow>
     length seen \<le> sum_list counts \<and> (\<forall>i<length counts. count_list seen (int i + 1) \<le> counts ! i)"

lemma of_nat_le: "m \<le> n \<Longrightarrow> n < 2 ^ 64 \<Longrightarrow> (of_nat m :: 64 word) \<le> of_nat n"
  by (simp add: word_le_nat_alt unat_of_nat)

lemma pb_inv_asserts:
  assumes "pb_inv counts seen pb" "within_goals counts seen" "sum_list counts < 2 ^ 64"
  shows "pb_files_cnt_sum pb \<le> pb_files_cnt_goal_sum pb"
    "\<forall>i<pb_sources_cnt pb. pb_files_cnt pb ! i \<le> pb_files_cnt_goal pb ! i"
proof -
  show "pb_files_cnt_sum pb \<le> pb_files_cnt_goal_sum pb"
    using assms by (simp add: pb_inv_def within_goals_def of_nat_le)
  have "counts ! i < 2 ^ 64" if "i < length counts" for i
    using assms(3) member_le_sum_list[of "counts ! i" counts] that by simp
  then show "\<forall>i<pb_sources_cnt pb. pb_files_cnt pb ! i \<le> pb_files_cnt_goal pb ! i"
    using assms by (simp add: pb_inv_def within_goals_def of_nat_le)
qed

lemma print_if_on_inv:
  assumes "pb_inv counts seen pb" "within_goals counts seen" "sum_list counts < 2 ^ 64"
  shows "\<exists>pb'. print_if_on pb = Ret pb' \<and> pb_inv counts seen pb'
    \<and> length (pb_printed pb') = length (pb_printed pb) + (if pb_type pb = PROGRESS_BAR_NONE then 0 else 1)
    \<and> pb_type pb' = pb_type pb"
proof -
  note a = pb_inv_asserts[OF assms]
  have t: "pb_type pb \<noteq> PROGRESS_BAR_UNSET" using assms(1) by (simp add: pb_inv_def)
  have keep: "pb_inv counts seen (pb\<lparr>pb_printed := ps\<rparr>)" for ps using assms(1) by (simp add: pb_inv_def)
  show ?thesis
  proof (cases "pb_type pb = PROGRESS_BAR_NONE")
    case True
    then show ?thesis using assms(1) by (simp add: print_if_on_def)
  next
    case False
    have "\<exists>line. progress_bar_print pb = Ret (pb\<lparr>pb_printed := pb_printed pb @ [line]\<rparr>)"
    proof -
      obtain line where "progress_bar_text pb = Ret line"
        using t False by (cases "pb_type pb") (simp_all add: progress_bar_text_def)
      then show ?thesis using a by (auto simp: progress_bar_print_def)
    qed
    then show ?thesis using False keep by (auto simp: print_if_on_def)
  qed
qed

lemma count_list_snoc: "count_list (xs @ [y]) x = count_list xs x + (if x = y then 1 else 0)"
  by (induction xs) auto

lemma step_inv:
  assumes "pb_inv counts seen pb" "within_goals counts (seen @ [s])" "sum_list counts < 2 ^ 64"
    and s: "0 < s" "s \<le> int (length counts)"
  shows "\<exists>pb'. progress_bar_step (Some s) pb = Ret pb' \<and> pb_inv counts (seen @ [s]) pb'
    \<and> length (pb_printed pb') = length (pb_printed pb) + (if pb_type pb = PROGRESS_BAR_NONE then 0 else 1)
    \<and> pb_type pb' = pb_type pb"
proof -
  define i where "i = nat (s - 1)"
  have i: "i < length counts" "int i + 1 = s" using s by (auto simp: i_def)
  define pb1 where "pb1 = pb\<lparr>pb_files_cnt := (pb_files_cnt pb)[i := pb_files_cnt pb ! i + 1],
      pb_files_cnt_sum := pb_files_cnt_sum pb + 1\<rparr>"
  have "pb_inv counts (seen @ [s]) pb1"
    using assms(1) i
    by (auto simp: pb_inv_def pb1_def count_list_snoc nth_list_update intro!: nth_equalityI)
  from print_if_on_inv[OF this assms(2,3)] show ?thesis
    using assms(1) i s by (auto simp: progress_bar_step_def i_def[symmetric] pb1_def pb_inv_def)
qed

lemma loop_inv:
  assumes "sum_list counts < 2 ^ 64"
  shows "pb_inv counts seen pb \<Longrightarrow> within_goals counts (seen @ srcs) \<Longrightarrow> \<forall>s\<in>set srcs. 0 < s \<and> s \<le> int (length counts)
    \<Longrightarrow> \<exists>pb'. progress_bar_loop (length srcs) (map Some srcs) pb = Some (Ret pb') \<and> pb_inv counts (seen @ srcs) pb'
      \<and> length (pb_printed pb') = length (pb_printed pb) + (if pb_type pb = PROGRESS_BAR_NONE then 0 else length srcs)
      \<and> pb_type pb' = pb_type pb"
proof (induction srcs arbitrary: seen pb)
  case (Cons s srcs)
  have "within_goals counts (seen @ [s])"
    using Cons.prems(2) by (fastforce simp: within_goals_def)
  then obtain pb1 where pb1: "progress_bar_step (Some s) pb = Ret pb1" "pb_inv counts (seen @ [s]) pb1"
    "length (pb_printed pb1) = length (pb_printed pb) + (if pb_type pb = PROGRESS_BAR_NONE then 0 else 1)"
    "pb_type pb1 = pb_type pb"
    using step_inv[OF Cons.prems(1) _ assms, of s] Cons.prems(3) by auto
  show ?case using Cons.IH[OF pb1(2)] Cons.prems(2,3) pb1 by auto
qed simp

lemma count_sources:
  "\<forall>s\<in>set srcs. 0 < s \<and> s \<le> int n \<Longrightarrow> length srcs = (\<Sum>i<n. count_list srcs (int i + 1))"
proof (induction srcs)
  case (Cons s srcs)
  have "int (nat (s - 1)) + 1 = s" "nat (s - 1) < n" using Cons.prems by auto
  then have "(\<Sum>i<n. if s = int i + 1 then 1 else 0 :: nat) = (\<Sum>i<n. if i = nat (s - 1) then 1 else 0)"
    by (intro sum.cong) auto
  also have "\<dots> = 1" using \<open>nat (s - 1) < n\<close> by simp
  finally have one: "(\<Sum>i<n. if s = int i + 1 then 1 else 0 :: nat) = 1" .
  have "(\<Sum>i<n. count_list (s # srcs) (int i + 1))
      = (\<Sum>i<n. count_list srcs (int i + 1)) + (\<Sum>i<n. if s = int i + 1 then 1 else 0)"
    unfolding sum.distrib[symmetric] by (intro sum.cong) auto
  then show ?case using Cons one by simp
qed simp

text \<open>C31: whatever the order in which the slaves report their files, the progress thread ends: no
  assertion fails, every file of every slave is counted, the total equals the goal, and one line is
  printed at the start and one for each file, unless the bar is off.\<close>

theorem progress_bar_counts_all:
  assumes "sum_list counts < 2 ^ 64"
    and "\<forall>i<length counts. count_list srcs (int i + 1) = counts ! i"
    and "\<forall>s\<in>set srcs. 0 < s \<and> s \<le> int (length counts)"
    and "type \<noteq> PROGRESS_BAR_UNSET"
  shows "\<exists>pb. progress_bar_thread True fopen_ok type dest (0 # map progress_report_init counts)
                (map progress_report_next srcs) = Some (Ret pb)
    \<and> pb_files_cnt pb = map of_nat counts \<and> pb_files_cnt_sum pb = pb_files_cnt_goal_sum pb
    \<and> length (pb_printed pb) = (if pb_type pb = PROGRESS_BAR_NONE then 0 else Suc (length srcs))"
proof -
  have len: "length srcs = sum_list counts"
    using count_sources[OF assms(3)] assms(2) by (simp add: sum_list_sum_nth atLeast0LessThan)
  have goals: "map (\<lambda>i. (0 # map progress_report_init counts) ! (i + 1)) [0..<length counts] = map of_nat counts"
    by (auto simp: progress_report_init_def intro!: nth_equalityI)
  have total: "sum_list (map (of_nat :: nat \<Rightarrow> 64 word) counts) = of_nat (sum_list counts)"
    by (induction counts) simp_all
  have type: "snd (progress_bar_stream fopen_ok type dest) \<noteq> PROGRESS_BAR_UNSET"
    using assms(4) by (simp add: progress_bar_stream_def split: option.splits)
  obtain pb0 where pb0: "progress_bar_init True fopen_ok type dest (0 # map progress_report_init counts) = Ret pb0"
    "pb_inv counts [] pb0" "pb_printed pb0 = []"
    using goals total type by (simp add: progress_bar_init_def pb_inv_def map_replicate_const)
  have all: "within_goals counts srcs" using len assms(2) by (simp add: within_goals_def)
  have none: "within_goals counts []" by (simp add: within_goals_def)
  obtain pb1 where pb1: "print_if_on pb0 = Ret pb1" "pb_inv counts [] pb1"
    "length (pb_printed pb1) = (if pb_type pb0 = PROGRESS_BAR_NONE then 0 else 1)" "pb_type pb1 = pb_type pb0"
    using print_if_on_inv[OF pb0(2) none assms(1)] pb0(3) by auto
  obtain pb where pb: "progress_bar_loop (length srcs) (map Some srcs) pb1 = Some (Ret pb)" "pb_inv counts srcs pb"
    "length (pb_printed pb) = length (pb_printed pb1) + (if pb_type pb1 = PROGRESS_BAR_NONE then 0 else length srcs)" "pb_type pb = pb_type pb1"
    using loop_inv[OF assms(1) pb1(2), of srcs] all assms(3) by auto
  have "unat (pb_files_cnt_goal_sum pb1) = length srcs"
    using pb1(2) assms(1) len by (simp add: pb_inv_def unat_of_nat)
  then have "progress_bar_thread True fopen_ok type dest (0 # map progress_report_init counts)
      (map progress_report_next srcs) = Some (Ret pb)"
    using pb0(1) pb1(1) pb(1) by (simp add: progress_bar_thread_def progress_report_next_def[abs_def])
  moreover have "pb_files_cnt pb = map of_nat counts"
    using pb(2) assms(2) by (auto simp: pb_inv_def intro!: nth_equalityI)
  moreover have "pb_files_cnt_sum pb = pb_files_cnt_goal_sum pb" using pb(2) len by (simp add: pb_inv_def)
  ultimately show ?thesis using pb(3,4) pb1(3,4) by auto
qed

theorem progress_bar_counts_all_witness:
  "\<exists>pb. progress_bar_thread True (\<lambda>_. True) PROGRESS_BAR_TOTAL None (0 # map progress_report_init [2, 1])
            (map progress_report_next [1, 2, 1]) = Some (Ret pb)
    \<and> pb_files_cnt pb = map of_nat [2, 1] \<and> pb_files_cnt_sum pb = pb_files_cnt_goal_sum pb
    \<and> length (pb_printed pb) = (if pb_type pb = PROGRESS_BAR_NONE then 0 else Suc (length [1, 2, 1 :: int]))"
  by (rule progress_bar_counts_all) (auto simp: less_Suc_eq)

end
