(* ===== verification/Master.thy ===== *)
theory Master
  imports Slave_List Progress_Bar
begin

text \<open>
  The master process: \<open>list_main\<close>, \<open>sort_main\<close>, \<open>aggr_main\<close> and
  \<open>master_main\<close> of \<open>src/master.c\<close>, and the whole query: what the master
  prints of what the slaves have read.

  \<open>master_env\<close> has what libnf's memories do and what \<open>output.c\<close> prints (the
  type \<open>'o\<close> is the state of the output).
\<close>

record ('m, 'o) master_env =
  me_malloc :: bool
  me_lnf_mem :: "'m mem_ops"
  me_output_init :: "'o \<Rightarrow> 'o res"
  me_print_names :: "'o \<Rightarrow> 'o"
  me_print_next :: "byte list \<Rightarrow> 'o \<Rightarrow> 'o"
  me_print_batch :: "'m \<Rightarrow> 64 word \<Rightarrow> 'o \<Rightarrow> 'o"
  me_print_processed :: "processed_summ \<Rightarrow> 'o \<Rightarrow> 'o"
  me_print_metadata :: "metadata_summ \<Rightarrow> 'o \<Rightarrow> 'o"

text \<open>\<open>malloc\<close> leaves the contents of the buffers undefined: \<open>junk\<close>.\<close>

definition master_ctx_init :: "bool \<Rightarrow> (bool \<Rightarrow> byte list) \<Rightarrow> nat \<Rightarrow> master_ctx res" where
  "master_ctx_init malloc_ok junk threads =
     assert_then (threads > 0)
      (abort_if (\<not> malloc_ok) E_MEM (Ret \<lparr>rec_buff = junk, slave_threads_cnt = threads\<rparr>))"

subsection \<open>The working modes\<close>

definition list_main :: "('m, 'o) master_env \<Rightarrow> cmdline_args \<Rightarrow> master_ctx \<Rightarrow> arrivals \<Rightarrow> 'o \<Rightarrow> 'o res option" where
  "list_main M args m_ctx msgs out =
     recv_loop (rec_buff m_ctx) (slave_threads_cnt m_ctx) (rec_limit args) TAG_LIST
       (print_stream_next_callback (me_print_next M)) (me_print_names M out) (msgs TAG_LIST)"

definition sort_main ::
  "libnf \<Rightarrow> ('m, 'o) master_env \<Rightarrow> cmdline_args \<Rightarrow> master_ctx \<Rightarrow> arrivals \<Rightarrow> 'o \<Rightarrow> 'o res option" where
  "sort_main L M args m_ctx msgs out =
     (let mo = me_lnf_mem M in
      run_after (libnf_mem_init_list L (mo_ok mo) (ca_fields args)) (\<lambda>calls.
      run_then (recv_memory mo m_ctx TAG_SORT (mo_init mo calls) msgs) (\<lambda>mem.
        Some (Ret (me_print_batch M (mo_sort mo mem) (rec_limit args) out)))))"

definition aggr_main_raw ::
  "libnf \<Rightarrow> ('m, 'o) master_env \<Rightarrow> cmdline_args \<Rightarrow> master_ctx \<Rightarrow> arrivals \<Rightarrow> 'o \<Rightarrow> 'o res option" where
  "aggr_main_raw L M args m_ctx msgs out =
     (let mo = me_lnf_mem M in
      run_after (libnf_mem_init_ht L (mo_ok mo) (ca_fields args)) (\<lambda>calls.
      run_then (if use_tput args
                then run_then (master_raw_tput L mo args m_ctx (mo_init mo calls) msgs) (\<lambda>(bc, mem). Some (Ret mem))
                else recv_memory mo m_ctx TAG_AGGR (mo_init mo calls) msgs)
        (\<lambda>mem. Some (Ret (me_print_batch M mem (rec_limit args) out)))))"

definition master_main_thread ::
  "libnf \<Rightarrow> ('m, 'o) master_env \<Rightarrow> cmdline_args \<Rightarrow> (bool \<Rightarrow> byte list) \<Rightarrow> nat \<Rightarrow> arrivals \<Rightarrow> 'o \<Rightarrow> 'o res option" where
  "master_main_thread L M args junk threads msgs out =
     run_after (assert_then (threads > 0) (master_ctx_init (me_malloc M) junk threads)) (\<lambda>m_ctx.
     run_after (me_output_init M out) (\<lambda>out1.
       case working_mode args of
         MODE_LIST \<Rightarrow> list_main M args m_ctx msgs out1
       | MODE_SORT \<Rightarrow> sort_main L M args m_ctx msgs out1
       | MODE_AGGR \<Rightarrow> aggr_main_raw L M args m_ctx msgs out1
       | MODE_META \<Rightarrow> Some (Ret out1)
       | MODE_UNSET \<Rightarrow> Some (Abort E_INTERNAL)))"

text \<open>
  The two threads of the master, then the reduction of the statistics with
  \<open>MPI_SUM\<close>, which are printed last: the output, the progress bar and the sums.
\<close>

definition master_main ::
  "libnf \<Rightarrow> ('m, 'o) master_env \<Rightarrow> cmdline_args \<Rightarrow> (bool \<Rightarrow> byte list) \<Rightarrow> (string \<Rightarrow> bool)
    \<Rightarrow> nat \<Rightarrow> arrivals \<Rightarrow> 64 word list \<Rightarrow> int option list
    \<Rightarrow> processed_summ list \<Rightarrow> metadata_summ list \<Rightarrow> 'o
    \<Rightarrow> ('o \<times> progress_bar_ctx \<times> processed_summ \<times> metadata_summ) res option" where
  "master_main L M args junk fopen_ok threads msgs goals reports pss mss out =
     run_then (master_main_thread L M args junk threads msgs out) (\<lambda>out1.
     run_then (progress_bar_thread (me_malloc M) fopen_ok (progress_bar_type args) (progress_bar_dest args) goals reports) (\<lambda>pb.
       let ps = fold (\<lambda>ps sum. processed_summ_share sum ps) pss zero_ps;
           ms = fold (\<lambda>ms sum. metadata_summ_share sum ms) mss zero_ms in
       Some (Ret (me_print_metadata M ms (me_print_processed M ps out1), pb, ps, ms))))"

subsection \<open>A query\<close>

text \<open>A slave process: its environment, its file system and time zone, its threads.\<close>

record ('r, 'm) site =
  st_env :: "('r, 'm) slave_env"
  st_fs :: filesys
  st_tz :: tz_env
  st_omp_zero :: nat
  st_max_threads :: nat
  st_team :: "thread list"

definition site_paths :: "cmdline_args \<Rightarrow> ('r, 'm) site \<Rightarrow> string list" where
  "site_paths args s =
     (case path_array_gen (st_fs s) (st_tz s) (ca_paths args) (time_begin args) (time_end args) of
        Some (Ret (Some pa)) \<Rightarrow> pa_used pa
      | _ \<Rightarrow> [])"

definition site_main :: "libnf \<Rightarrow> cmdline_args \<Rightarrow> ('r, 'm) site \<Rightarrow> slave_result res option" where
  "site_main L args s = slave_main L (st_env s) (st_fs s) (st_tz s) args (st_omp_zero s) (st_max_threads s) (st_team s)"

definition site_ok :: "libnf \<Rightarrow> cmdline_args \<Rightarrow> ('r, 'm) site \<Rightarrow> bool" where
  "site_ok L args s \<longleftrightarrow>
     slave_ok L (st_env s) args
   \<and> (\<exists>pa. path_array_gen (st_fs s) (st_tz s) (ca_paths args) (time_begin args) (time_end args) = Some (Ret (Some pa)))
   \<and> (\<forall>p\<in>set (site_paths args s). flow_path_ok p)
   \<and> 0 < st_max_threads s \<and> team_ok (st_omp_zero s) (st_max_threads s) (site_paths args s) (st_team s)"

abbreviation site_safe :: "libnf \<Rightarrow> cmdline_args \<Rightarrow> ('r \<Rightarrow> ip_data set) \<Rightarrow> ('r, 'm) site \<Rightarrow> bool" where
  "site_safe L args addrs s \<equiv> site_ok L args s \<and> index_safe (st_env s) addrs args (length (st_team s))"

text \<open>One run of a process, with one interleaving of its threads.\<close>

definition site_run :: "libnf \<Rightarrow> cmdline_args \<Rightarrow> ('r, 'm) site \<Rightarrow> slave_result \<Rightarrow> bool" where
  "site_run L args s sr \<longleftrightarrow> site_main L args s = Some (Ret sr) \<and> interleaved (map tr_hist (sr_results sr))"

definition site_messages :: "slave_result \<Rightarrow> message list list" where
  "site_messages sr = map tr_messages (sr_results sr)"

text \<open>The raw records the query wants, of all files of all processes.\<close>

definition query_records :: "cmdline_args \<Rightarrow> ('r, 'm) site list \<Rightarrow> byte list list" where
  "query_records args sites = concat (map (\<lambda>s. concat (map (wanted (st_env s) args) (site_paths args s))) sites)"

definition total_threads :: "slave_result list \<Rightarrow> nat" where
  "total_threads srs = sum_list (map sr_threads srs)"

lemma site_threads:
  assumes "site_safe L args addrs s" "site_run L args s sr"
  shows "length (sr_results sr) = sr_threads sr"
proof -
  obtain pa where pa: "path_array_gen (st_fs s) (st_tz s) (ca_paths args) (time_begin args) (time_end args) = Some (Ret (Some pa))"
    using assms(1) by (auto simp: site_ok_def)
  have p: "site_paths args s = pa_used pa" using pa by (simp add: site_paths_def)
  have "slave_ok L (st_env s) args" "\<forall>p\<in>set (pa_used pa). flow_path_ok p" "0 < st_max_threads s"
    "team_ok (st_omp_zero s) (st_max_threads s) (pa_used pa) (st_team s)"
    using assms(1) p by (simp_all add: site_ok_def)
  then obtain sr' where "site_main L args s = Some (Ret sr')" "length (sr_results sr') = sr_threads sr'"
    using slave_main_Ret[OF _ pa] unfolding site_main_def by blast
  then show ?thesis using assms(2) by (simp add: site_run_def)
qed

lemma site_sent:
  assumes "site_safe L args addrs s" "site_run L args s sr" "working_mode args = MODE_LIST"
    and "length (query_records args [s]) < 2 ^ 64"
  shows "sent_for (rec_limit args) (mset (query_records args [s])) (site_messages sr)"
proof -
  obtain pa where pa: "path_array_gen (st_fs s) (st_tz s) (ca_paths args) (time_begin args) (time_end args) = Some (Ret (Some pa))"
    using assms(1) by (auto simp: site_ok_def)
  have p: "site_paths args s = pa_used pa" using pa by (simp add: site_paths_def)
  have s: "slave_ok L (st_env s) args" "\<forall>p\<in>set (pa_used pa). flow_path_ok p"
    "team_ok (st_omp_zero s) (st_max_threads s) (pa_used pa) (st_team s)"
    "index_safe (st_env s) addrs args (length (st_team s))"
    using assms(1) p by (simp_all add: site_ok_def)
  have r: "slave_main L (st_env s) (st_fs s) (st_tz s) args (st_omp_zero s) (st_max_threads s) (st_team s) = Some (Ret sr)"
    "interleaved (map tr_hist (sr_results sr))"
    using assms(2) by (simp_all add: site_run_def site_main_def)
  have "length (concat (map (wanted (st_env s) args) (pa_used pa))) < 2 ^ 64"
    using assms(4) p by (simp add: query_records_def)
  from slave_main_list(1)[OF s(1) assms(3) pa s(2-4) r this] show ?thesis
    by (simp add: query_records_def site_messages_def p)
qed

lemma query_records_Cons: "query_records args (s # ss) = query_records args [s] @ query_records args ss"
  by (simp add: query_records_def)

lemma sites_sent:
  assumes "working_mode args = MODE_LIST"
  shows "list_all2 (\<lambda>s sr. site_safe L args addrs s \<and> site_run L args s sr) sites srs \<Longrightarrow>
    length (query_records args sites) < 2 ^ 64 \<Longrightarrow>
    sent_for (rec_limit args) (mset (query_records args sites)) (concat (map site_messages srs))
    \<and> length (concat (map site_messages srs)) = total_threads srs"
proof (induction rule: list_all2_induct)
  case Nil
  show ?case by (simp add: query_records_def sent_for_Nil total_threads_def)
next
  case (Cons s ss sr srs)
  have small: "length (query_records args [s]) < 2 ^ 64" "length (query_records args ss) < 2 ^ 64"
    using Cons.prems query_records_Cons[of args s ss] by simp_all
  have "sent_for (rec_limit args) (mset (query_records args [s])) (site_messages sr)"
    using site_sent[OF _ _ assms small(1)] Cons.hyps(1) by blast
  moreover have "length (site_messages sr) = sr_threads sr"
    using site_threads Cons.hyps(1) unfolding site_messages_def by (metis length_map)
  ultimately show ?case
    using Cons.IH[OF small(2)] unfolding query_records_Cons[of args s ss]
    by (simp add: sent_for_append total_threads_def)
qed

lemma mset_take_sub: "mset (take n xs) \<subseteq># mset xs"
  by (metis append_take_drop_id mset_append mset_subset_eq_add_left)

lemma deliver_print:
  "deliver (print_stream_next_callback f) rs u = fold f rs u"
  by (induction rs arbitrary: u) (simp_all add: print_stream_next_callback_def)

lemma sent_for_received:
  assumes "sent_for lim want outs" "arrives outs ms" "outs \<noteq> []" "size want < 2 ^ 64"
  shows "\<exists>printed. recv_loop bufs (length outs) lim TAG_LIST (print_stream_next_callback f) u ms
        = Some (Ret (fold f printed u))
    \<and> mset printed \<subseteq># want \<and> length printed = (if lim = 0 then size want else min (unat lim) (size want))"
proof -
  obtain gss rest where g: "outs = map (sender_msgs TAG_LIST) gss" "\<forall>gs\<in>set gss. flight_ok (Some gs)"
    "mset (concat (map concat gss)) + rest = want"
    "rest \<noteq> {#} \<longrightarrow> lim \<noteq> 0 \<and> unat lim \<le> length (concat (map concat gss))"
    using assms(1) unfolding sent_for_def by blast
  define ps where "ps = map Some gss"
  have ps: "outs = map (in_flight TAG_LIST) ps" "\<forall>p\<in>set ps. flight_ok p \<and> p \<noteq> None" "ps \<noteq> []"
    "map flight_recs ps = map concat gss" "length ps = length outs"
    using g(1,2) assms(3) by (auto simp: ps_def in_flight_def flight_recs_def)
  have sz: "size want = length (concat (map concat gss)) + size rest"
    using arg_cong[OF g(3), of size] by simp
  have "cb_total (print_stream_next_callback f)" by (simp add: cb_total_def print_stream_next_callback_def)
  moreover have "length (concat (map flight_recs ps)) < 2 ^ 64" using assms(4) sz unfolding ps(4) by linarith
  moreover have "arrives (map (in_flight TAG_LIST) ps) ms" using assms(2) by (simp only: ps(1))
  ultimately obtain d where d: "arrives (map concat gss) d"
    "recv_loop bufs (length outs) lim TAG_LIST (print_stream_next_callback f) u ms
      = Some (Ret (deliver (print_stream_next_callback f) (if lim = 0 then d else take (unat lim) d) u))"
    using recv_loop_arrives[of "print_stream_next_callback f" TAG_LIST ps ms bufs lim u] ps(2,3)
    unfolding ps(4,5) by blast
  have md: "mset d = mset (concat (map concat gss))" using arrives_mset[OF d(1)] by (simp add: mset_concat)
  then have len: "length d = length (concat (map concat gss))" by (rule mset_eq_length)
  define printed where "printed = (if lim = 0 then d else take (unat lim) d)"
  have "mset printed \<subseteq># mset d" by (simp add: printed_def mset_take_sub)
  then have "mset printed \<subseteq># want" unfolding g(3)[symmetric] md by (metis mset_subset_eq_add_left subset_mset.order_trans)
  moreover have "length printed = (if lim = 0 then size want else min (unat lim) (size want))"
    using g(4) sz len by (cases "rest = {#}") (auto simp: printed_def)
  ultimately show ?thesis using d(2) by (auto simp: deliver_print printed_def)
qed

lemma list_query_Ret:
  assumes "working_mode args = MODE_LIST"
    and "list_all2 (\<lambda>s sr. site_safe L args addrs s \<and> site_run L args s sr) sites srs"
    and "arrives (concat (map site_messages srs)) (msgs TAG_LIST)" and "0 < total_threads srs"
    and "length (query_records args sites) < 2 ^ 64"
    and "me_malloc M" and "me_output_init M out = Ret out1"
  shows "\<exists>printed. master_main_thread L M args junk (total_threads srs) msgs out
      = Some (Ret (fold (me_print_next M) printed (me_print_names M out1)))
    \<and> mset printed \<subseteq># mset (query_records args sites)
    \<and> length printed = (if rec_limit args = 0 then length (query_records args sites)
                        else min (unat (rec_limit args)) (length (query_records args sites)))"
proof -
  have sent: "sent_for (rec_limit args) (mset (query_records args sites)) (concat (map site_messages srs))"
    "length (concat (map site_messages srs)) = total_threads srs"
    using sites_sent[OF assms(1,2,5)] by simp_all
  have "length (concat (map site_messages srs)) \<noteq> 0" using sent(2) assms(4) by (simp only: neq0_conv)
  then have ne: "concat (map site_messages srs) \<noteq> []" by (simp only: length_0_conv) simp
  have small: "size (mset (query_records args sites)) < 2 ^ 64" using assms(5) by simp
  show ?thesis
    using sent_for_received[OF sent(1) assms(3) ne small, of junk "me_print_next M" "me_print_names M out1"]
      assms(1,4,6,7) sent(2)
    by (auto simp: master_main_thread_def master_ctx_init_def list_main_def)
qed

text \<open>C3: a list query is answered exactly.  For every number of slave processes and threads within the
  condition on the index below, every schedule of the files, interleaving of the threads' accesses to the shared counter and flag
  and order in which the messages arrive: the master returns, and what it prints, after the
  names, are records that match the filter, each at most as often as it occurs in the flow files,
  and as many of them as the limit allows: all of them without a limit.  The query must not lose
  files to the index (\<open>index_safe\<close>): this is so without a filter or with \<open>--no-bfindex\<close>; with the
  index, which is the default, the addresses of the filter times the threads of a process must be
  at most 20, every \<open>or\<close> of the filter must have two indexable sides or none, and an index file must
  hold all addresses of its flow file.  Beyond that the program drops matching records (C34).  The
  processes find their paths and do not fail (C11 says when).\<close>

theorem list_query_exact:
  assumes "working_mode args = MODE_LIST"
    and "list_all2 (\<lambda>s sr. (site_ok L args s \<and> index_safe (st_env s) addrs args (length (st_team s))) \<and> site_run L args s sr) sites srs"
    and "arrives (concat (map site_messages srs)) (msgs TAG_LIST)" and "0 < total_threads srs"
    and "length (query_records args sites) < 2 ^ 64"
    and "me_malloc M" and "me_output_init M out = Ret out1"
  shows "\<exists>printed. master_main_thread L M args junk (total_threads srs) msgs out
      = Some (Ret (fold (me_print_next M) printed (me_print_names M out1)))
    \<and> mset printed \<subseteq># mset (query_records args sites)
    \<and> length printed = (if rec_limit args = 0 then length (query_records args sites)
                        else min (unat (rec_limit args)) (length (query_records args sites)))"
  by (rule list_query_Ret[where msgs = msgs, OF assms])

subsection \<open>A thread that works alone\<close>

text \<open>Its accesses are one execution: each finds what the last one left.\<close>

definition alone_inv :: "ff_state \<Rightarrow> bool" where
  "alone_inv st \<longleftrightarrow> chain (0, False) (ff_hist st)
     \<and> (ff_proc st, ff_reached st) = (if ff_hist st = [] then (0, False) else snd (last (ff_hist st)))"

lemma chain_snoc:
  "chain v (es @ [e]) \<longleftrightarrow> chain v es \<and> fst e = (if es = [] then v else snd (last es))"
  by (induction es arbitrary: v) auto

lemma alone_access:
  assumes "alone C" "alone_inv st"
  shows "alone_inv (access C f st)"
proof -
  have h: "ff_hist (access C f st) = ff_hist st @ [((ff_proc st, ff_reached st), f (ff_proc st, ff_reached st))]"
    "(ff_proc (access C f st), ff_reached (access C f st)) = f (ff_proc st, ff_reached st)"
    using assms(1) by (simp_all add: alone_def access_def Let_def)
  show ?thesis
    using assms(2) unfolding alone_inv_def h(1) h(2) chain_snoc by simp
qed

lemma alone_send [simp]: "alone_inv (st\<lparr>ff_send := s\<rparr>) = alone_inv st" "alone_inv (st\<lparr>ff_summ := x\<rparr>) = alone_inv st"
  by (simp_all add: alone_inv_def)

lemma alone_flush: "alone C \<Longrightarrow> alone_inv st \<Longrightarrow> alone_inv (snd (flush_buffer C st))"
  by (simp add: flush_buffer_def Let_def alone_access)

lemma alone_write: "write_record C r st = Ret st' \<Longrightarrow> alone_inv st \<Longrightarrow> alone_inv st'"
  by (auto simp: write_record_def Let_def res_simps)

lemma alone_loop: "alone C \<Longrightarrow> ff_send_loop C rs st = Ret st' \<Longrightarrow> alone_inv st \<Longrightarrow> alone_inv st'"
proof (induction C rs st rule: ff_send_loop.induct)
  case (2 C r rs st)
  show ?case
  proof (cases "fc_match C r")
    case False
    then show ?thesis using 2 by simp
  next
    case True
    let ?x = "if s_off (ff_send st) + unat (of_nat (all_sizes_sum (fc_fields C)) :: 32 word) + 4 > XCHG_BUFF_SIZE
      then flush_buffer C st else (False, st)"
    obtain stop st1 where x: "?x = (stop, st1)" by (cases ?x)
    have i: "alone_inv st1" using alone_flush[OF "2.prems"(1,3)] "2.prems"(3) x by (auto split: if_splits)
    have run: "(if stop then Ret st1 else res_bind (write_record C r st1) (ff_send_loop C rs)) = Ret st'"
      using "2.prems"(2) True x by (simp add: Let_def)
    show ?thesis
    proof (cases stop)
      case True
      then show ?thesis using run i by simp
    next
      case False
      then obtain st2 where st2: "write_record C r st1 = Ret st2" "ff_send_loop C rs st2 = Ret st'"
        using run by (auto simp: res_simps)
      have "\<not> \<not> fc_match C r" using True by simp
      from "2.IH"(2)[OF this refl x[symmetric] refl False "2.prems"(1) st2(2) alone_write[OF st2(1) i]]
      show ?thesis .
    qed
  qed
qed simp

lemma alone_rest: "alone C \<Longrightarrow> alone_inv st \<Longrightarrow> alone_inv (ff_send_rest C st)"
  by (simp add: ff_send_rest_def Let_def alone_access)

lemma alone_read_and_send:
  assumes "alone C" "ff_read_and_send C bufs rs st = Ret st'" "alone_inv st"
  shows "alone_inv st'"
proof -
  obtain s st1 where st1: "ff_send_loop C rs (st\<lparr>ff_send := s\<rparr>) = Ret st1"
    "st' = (ff_send_rest C st1)\<lparr>ff_send := (ff_send (ff_send_rest C st1))\<lparr>s_request := None\<rparr>\<rparr>"
    using assms(2) by (auto simp: ff_read_and_send_def Let_def res_simps)
  have "alone_inv st1" by (rule alone_loop[OF assms(1) st1(1)]) (simp add: assms(3))
  then show ?thesis unfolding st1(2) by (simp add: alone_rest[OF assms(1)])
qed

lemma alone_process:
  assumes "alone C" "process_file_mt E args C path t = Ret t'" "alone_inv (tc_ff t)"
  shows "alone_inv (tc_ff t')"
  using assms alone_read_and_send[OF assms(1)]
  by (auto simp: process_file_mt_def list_file_def store_file_def res_simps Let_def alone_access
      split: option.splits if_splits working_mode.splits)

lemma alone_files:
  "alone C \<Longrightarrow> each_res (process_file_mt E args C) files t = Ret t' \<Longrightarrow> alone_inv (tc_ff t) \<Longrightarrow> alone_inv (tc_ff t')"
  by (induction files arbitrary: t) (auto simp: res_simps dest: alone_process)

lemma alone_interleaved:
  assumes "thread_run L E args (\<lambda>_ x. x) files t = Some (Ret tr)" "tc_ff t = ff_start bufs"
  shows "interleaved [tr_hist tr]"
proof -
  have a: "alone (thread_cfg E args (\<lambda>_ x. x) (tc_filter t))" by (simp add: alone_def thread_cfg_def)
  obtain t1 where t1: "each_res (process_file_mt E args (thread_cfg E args (\<lambda>_ x. x) (tc_filter t))) files t = Ret t1"
    "tr_hist tr = ff_hist (tc_ff t1)"
    using assms(1) by (auto simp: thread_run_def run_after_def res_simps split: res.splits)
  have "alone_inv (tc_ff t)" by (simp add: assms(2) alone_inv_def ff_start_def)
  then have "chain (0, False) (tr_hist tr)" using alone_files[OF a t1(1)] t1(2) by (simp add: alone_inv_def)
  moreover have "arrives [tr_hist tr] (tr_hist tr @ [])"
    by (rule arrives_prefix[of 0 _ _ "[]"]) (auto intro: arrives_done)
  ultimately show ?thesis unfolding interleaved_def by auto
qed

text \<open>The query of that process: its only thread works alone.\<close>

definition one_site :: "(byte, byte list list) site" where
  "one_site = \<lparr>st_env = one_file_env, st_fs = one_file_fs, st_tz = sample_env, st_omp_zero = 1,
     st_max_threads = 4, st_team = one_file_team\<rparr>"

definition one_master :: "(byte list list, byte list list) master_env" where
  "one_master = \<lparr>me_malloc = True, me_lnf_mem = one_mem_ops, me_output_init = Ret, me_print_names = (\<lambda>out. out),
     me_print_next = (\<lambda>r out. out @ [r]), me_print_batch = (\<lambda>m n out. out @ m),
     me_print_processed = (\<lambda>ps out. out), me_print_metadata = (\<lambda>ms out. out)\<rparr>"

lemma one_site_ok: "site_safe sample_libnf one_file_args (\<lambda>r. {}) one_site"
proof -
  have "ca_paths one_file_args = [''f'']" by (simp add: one_file_args_def)
  then obtain pa where pa: "path_array_gen (st_fs one_site) (st_tz one_site) (ca_paths one_file_args)
      (time_begin one_file_args) (time_end one_file_args) = Some (Ret (Some pa))" "pa_used pa = [''f'']"
    using one_file_paths by (metis one_site_def site.simps(2,3))
  have "index_safe one_file_env (\<lambda>r. {}) one_file_args n" for n
    by (simp add: index_safe_def filter_addrs_def index_complete_def one_file_args_def zero_args_def)
  moreover have "site_paths one_file_args one_site = [''f'']" using pa by (simp add: site_paths_def)
  ultimately show ?thesis
    using pa(1) one_file_slave_ok one_file_team_ok
    by (auto simp: site_ok_def flow_path_ok_def) (auto simp: one_site_def)
qed

lemma one_site_run: "\<exists>sr. site_run sample_libnf one_file_args one_site sr \<and> length (sr_results sr) = 1"
proof -
  have ok: "slave_args_ok sample_libnf one_file_args" "slave_env_ok one_file_env"
    "filter_ok one_file_env one_file_args" "get_sizes_ok one_file_env one_file_args"
    using one_file_slave_ok by (simp_all add: slave_ok_def)
  obtain t bf where t: "thread_ctx_init sample_libnf one_file_env one_file_args sample_bufs init_bf_state = Ret (t, bf)"
    "ctx_ok one_file_args t" "tc_ff t = ff_start sample_bufs"
    using thread_ctx_init_Ret[OF ok(1-3) sample_bufs_length] by blast
  obtain tr where tr: "thread_run sample_libnf one_file_env one_file_args (\<lambda>k sh. sh) [''f''] t = Some (Ret tr)"
    using thread_run_Ret[OF ok(2,1,4) t(2)] by (force simp: flow_path_ok_def)
  obtain pa where pa: "path_array_gen one_file_fs sample_env [''f'']
      (time_begin one_file_args) (time_end one_file_args) = Some (Ret (Some pa))" "pa_used pa = [''f'']"
    using one_file_paths by blast
  have "ca_paths one_file_args = [''f'']" by (simp add: one_file_args_def)
  then obtain sr where sr: "site_main sample_libnf one_file_args one_site = Some (Ret sr)" "sr_results sr = [tr]"
    using pa t(1) tr by (simp add: site_main_def slave_main_def one_site_def one_file_team_def)
  moreover have "interleaved [tr_hist tr]" by (rule alone_interleaved[OF tr t(3)])
  ultimately show ?thesis by (auto simp: site_run_def)
qed

lemma one_site_records: "length (query_records one_file_args [one_site]) = 3"
proof -
  have "ca_paths one_file_args = [''f'']" by (simp add: one_file_args_def)
  then obtain pa where "path_array_gen (st_fs one_site) (st_tz one_site) (ca_paths one_file_args)
      (time_begin one_file_args) (time_end one_file_args) = Some (Ret (Some pa))" "pa_used pa = [''f'']"
    using one_file_paths by (metis one_site_def site.simps(2,3))
  then have "site_paths one_file_args one_site = [''f'']" by (simp add: site_paths_def)
  then show ?thesis
    by (simp add: query_records_def wanted_def one_site_def one_file_env_def query_filter_def
        one_file_args_def zero_args_def)
qed

theorem list_query_exact_witness:
  "\<exists>sr msgs printed. master_main_thread sample_libnf one_master one_file_args sample_bufs 1 msgs []
      = Some (Ret (fold (me_print_next one_master) printed (me_print_names one_master [])))
    \<and> mset printed \<subseteq># mset (query_records one_file_args [one_site])
    \<and> length printed = (if rec_limit one_file_args = 0 then length (query_records one_file_args [one_site])
         else min (unat (rec_limit one_file_args)) (length (query_records one_file_args [one_site])))
    \<and> site_run sample_libnf one_file_args one_site sr \<and> arrives (concat (map site_messages [sr])) (msgs TAG_LIST)"
proof -
  obtain sr where sr: "site_run sample_libnf one_file_args one_site sr" "length (sr_results sr) = 1"
    using one_site_run by blast
  obtain ms where ms: "site_messages sr = [ms]"
    using sr(2) by (cases "sr_results sr") (auto simp: site_messages_def)
  have "arrives [ms] (ms @ [])" by (rule arrives_prefix[of 0 _ _ "[]"]) (auto intro: arrives_done)
  then have a: "arrives (concat (map site_messages [sr])) ((\<lambda>tag. ms) TAG_LIST)" by (simp add: ms)
  have th: "total_threads [sr] = 1"
    using site_threads[OF one_site_ok sr(1)] sr(2) by (simp add: total_threads_def)
  have q: "length (query_records one_file_args [one_site]) < 2 ^ 64" by (simp add: one_site_records)
  have all: "list_all2 (\<lambda>s sr. site_safe sample_libnf one_file_args (\<lambda>r. {}) s \<and> site_run sample_libnf one_file_args s sr)
      [one_site] [sr]" using sr(1) one_site_ok by simp
  have md: "working_mode one_file_args = MODE_LIST" "me_malloc one_master" "me_output_init one_master [] = Ret []"
    by (simp_all add: one_file_args_def one_master_def)
  have "0 < total_threads [sr]" by (simp add: th)
  from list_query_exact[OF md(1) all a this q md(2,3), of sample_bufs]
  show ?thesis using a sr(1) unfolding th by blast
qed

end
