(* ===== verification/Mem_Query.thy ===== *)
theory Mem_Query
  imports Master
begin

text \<open>
  The modes that keep records in libnf's memories: the order mode, and the aggregation mode without
  TPUT.  Every thread fills a memory and sends it, the master writes what it receives into a memory
  of its own and prints that.

  libnf's memories are parameters: \<open>holds m W\<close> says that the records \<open>W\<close> have been written into
  the memory \<open>m\<close>.  A list memory keeps them and sorts them by the key it is configured with, a
  hash table aggregates them.
\<close>

subsection \<open>What libnf's memories do\<close>

text \<open>A new memory holds nothing, and a raw record is written into it; up to \<open>2 ^ 63\<close> records.\<close>

definition write_law :: "'m mem_ops \<Rightarrow> ('m \<Rightarrow> byte list multiset \<Rightarrow> bool) \<Rightarrow> mem_call list \<Rightarrow> bool" where
  "write_law mo holds calls \<longleftrightarrow>
     holds (mo_init mo calls) {#}
   \<and> (\<forall>m W r m'. holds m W \<longrightarrow> size W < 2 ^ 63 \<longrightarrow> length r + 4 \<le> XCHG_BUFF_SIZE \<longrightarrow> mo_write_raw mo m r = Some m' \<longrightarrow>
        holds m' (add_mset r W))"

text \<open>\<open>lnf_mem_write\<close> stores the raw form of a record.\<close>

definition store_law :: "('r, 'm) slave_env \<Rightarrow> ('m \<Rightarrow> byte list multiset \<Rightarrow> bool) \<Rightarrow> ('r \<Rightarrow> byte list) \<Rightarrow> bool" where
  "store_law E holds enc \<longleftrightarrow>
     (\<forall>m W r m'. holds m W \<longrightarrow> size W < 2 ^ 63 \<longrightarrow> se_mem_write E r m = Some m' \<longrightarrow> holds m' (add_mset (enc r) W))"

text \<open>The list memory: the records stay as they are; \<open>key\<close> is the sort key in the direction of the query.\<close>

definition list_law :: "'m mem_ops \<Rightarrow> ('m \<Rightarrow> byte list multiset \<Rightarrow> bool) \<Rightarrow> (byte list \<Rightarrow> 'k :: linorder) \<Rightarrow> bool" where
  "list_law mo holds key \<longleftrightarrow>
     (\<forall>m W. holds m W \<longrightarrow> mset (mo_raw mo (mo_sort mo m)) = W \<and> sorted (map key (mo_raw mo (mo_sort mo m))))"

text \<open>The hash table: its records are the aggregates \<open>aggr W\<close>, in the order of the sort key.\<close>

definition hash_law ::
  "'m mem_ops \<Rightarrow> ('m \<Rightarrow> byte list multiset \<Rightarrow> bool) \<Rightarrow> (byte list multiset \<Rightarrow> byte list multiset)
    \<Rightarrow> (byte list \<Rightarrow> 'k :: linorder) \<Rightarrow> bool" where
  "hash_law mo holds aggr key \<longleftrightarrow>
     (\<forall>m W. holds m W \<longrightarrow> mset (mo_raw mo m) = aggr W \<and> sorted (map key (mo_raw mo m)))"

text \<open>Aggregation merges records, in any grouping.\<close>

definition aggr_law :: "(byte list multiset \<Rightarrow> byte list multiset) \<Rightarrow> bool" where
  "aggr_law aggr \<longleftrightarrow> aggr {#} = {#} \<and> (\<forall>V W. aggr (aggr V + W) = aggr (V + W)) \<and> (\<forall>W. size (aggr W) \<le> size W)"

subsection \<open>The memory of a thread\<close>

text \<open>The records of a file in their raw form.\<close>

definition stored :: "('r \<Rightarrow> byte list) \<Rightarrow> ('r, 'm) slave_env \<Rightarrow> cmdline_args \<Rightarrow> string \<Rightarrow> byte list list" where
  "stored enc E args path = map enc (matching E (thread_cfg E args (\<lambda>_. id) (query_filter E args)) path)"

lemma stored_matching: "stored enc E args path = map enc (matching E (thread_cfg E args others (query_filter E args)) path)"
  by (simp add: stored_def matching_def thread_cfg_def split: option.split)

lemma read_and_store_holds:
  assumes "store_law E holds enc"
  shows "ff_read_and_store C (se_mem_write E) rs (ps, m) = Ret (ps', m') \<Longrightarrow> holds m W
    \<Longrightarrow> size W + length (filter (fc_match C) rs) \<le> 2 ^ 63
    \<Longrightarrow> holds m' (W + mset (map enc (filter (fc_match C) rs)))"
proof (induction rs arbitrary: ps m W)
  case (Cons r rs)
  show ?case
  proof (cases "fc_match C r")
    case True
    then obtain m1 where m1: "se_mem_write E r m = Some m1"
      "ff_read_and_store C (se_mem_write E) rs (processed_summ_update (fc_u64 C r) ps, m1) = Ret (ps', m')"
      using Cons.prems(1) by (auto split: option.splits)
    have "holds m1 (add_mset (enc r) W)"
      using assms Cons.prems(2,3) True m1(1) by (simp add: store_law_def)
    from Cons.IH[OF m1(2) this] show ?thesis using Cons.prems(3) True by simp
  qed (use Cons in simp)
qed simp

definition mem_inv :: "('m \<Rightarrow> byte list multiset \<Rightarrow> bool) \<Rightarrow> byte list multiset \<Rightarrow> 'm thread_ctx \<Rightarrow> bool" where
  "mem_inv holds W t \<longleftrightarrow> (\<exists>m. tc_mem t = Some m \<and> holds m W) \<and> s_sent (ff_send (tc_ff t)) = []"

lemma process_file_mem:
  assumes "store_law E holds enc" "working_mode args \<in> {MODE_SORT, MODE_AGGR}" "index_sound E C (tc_bfindex_root t)"
    and "mem_inv holds W t" "size W + length (matching E C path) \<le> 2 ^ 63" "process_file_mt E args C path t = Ret t'"
  shows "mem_inv holds (W + mset (map enc (matching E C path))) t'"
proof (cases "se_open E path")
  case None
  then show ?thesis using assms(4,6) by (simp add: process_file_mt_def matching_def)
next
  case (Some rs)
  obtain ms' b where p: "file_may_match E (tc_bfindex_root t) path = Ret b"
    "(if b then store_file E C rs (t\<lparr>tc_ms := ms'\<rparr>) else Ret (t\<lparr>tc_ms := ms'\<rparr>)) = Ret t'"
    using assms(2,6) Some by (auto simp: process_file_mt_def res_simps Let_def split: if_splits)
  obtain m where m: "tc_mem t = Some m" "holds m W" "s_sent (ff_send (tc_ff t)) = []"
    using assms(4) by (auto simp: mem_inv_def)
  show ?thesis
  proof (cases b)
    case False
    then have "matching E C path = []" using p(1) assms(3) by (simp add: index_sound_def)
    then show ?thesis using p(2) False m by (auto simp: mem_inv_def)
  next
    case True
    obtain ps m' where r: "ff_read_and_store C (se_mem_write E) rs (ff_summ (tc_ff t), m) = Ret (ps, m')"
      "t' = t\<lparr>tc_ms := ms', tc_ff := (tc_ff t)\<lparr>ff_summ := ps\<rparr>, tc_mem := Some m'\<rparr>"
      using p(2) True m(1) by (auto simp: store_file_def res_simps)
    have "holds m' (W + mset (map enc (filter (fc_match C) rs)))"
      using read_and_store_holds[OF assms(1) r(1) m(2)] assms(5) Some by (simp add: matching_def)
    then show ?thesis using Some m(3) by (simp add: r(2) mem_inv_def matching_def)
  qed
qed

lemma files_mem:
  assumes "slave_env_ok E" "store_law E holds enc" "working_mode args \<in> {MODE_SORT, MODE_AGGR}" "ff_cfg_ok L C"
  shows "\<forall>p\<in>set files. flow_path_ok p \<Longrightarrow> ctx_ok args t \<Longrightarrow> index_sound E C (tc_bfindex_root t)
    \<Longrightarrow> mem_inv holds W t \<Longrightarrow> size W + length (concat (map (matching E C) files)) \<le> 2 ^ 63
    \<Longrightarrow> each_res (process_file_mt E args C) files t = Ret t'
    \<Longrightarrow> mem_inv holds (W + mset (map enc (concat (map (matching E C) files)))) t' \<and> ctx_ok args t'"
proof (induction files arbitrary: t W)
  case (Cons p ps)
  have md: "working_mode args \<noteq> MODE_UNSET" using assms(3) by auto
  have p: "flow_path_ok p" using Cons.prems(1) by simp
  obtain t1 where t1: "process_file_mt E args C p t = Ret t1" "ctx_ok args t1"
    "tc_bfindex_root t1 = tc_bfindex_root t"
    using process_file_Ret[OF assms(1) md assms(4) p Cons.prems(2)] by blast
  have "size W + length (matching E C p) \<le> 2 ^ 63" using Cons.prems(5) by simp
  note i = process_file_mem[OF assms(2,3) Cons.prems(3,4) this t1(1)]
  show ?case
    using Cons.IH[OF _ t1(2) _ i] Cons.prems t1 by (simp add: add.assoc)
qed simp

subsection \<open>What the threads send\<close>

definition memory_mode :: "cmdline_args \<Rightarrow> bool" where
  "memory_mode args \<longleftrightarrow> working_mode args = MODE_SORT \<or> working_mode args = MODE_AGGR \<and> \<not> use_tput args"

definition mode_tag :: "cmdline_args \<Rightarrow> mpi_tag" where
  "mode_tag args = (if working_mode args = MODE_SORT then TAG_SORT else TAG_AGGR)"

text \<open>The configuration of the memories: every process makes the same calls.\<close>

definition query_mem_init :: "libnf \<Rightarrow> cmdline_args \<Rightarrow> mem_call list res" where
  "query_mem_init L args =
     (if working_mode args = MODE_SORT then libnf_mem_init_list L (\<lambda>_. True) (ca_fields args)
      else libnf_mem_init_ht L (\<lambda>_. True) (ca_fields args))"

definition mem_items :: "'m mem_ops \<Rightarrow> cmdline_args \<Rightarrow> 'm \<Rightarrow> byte list list" where
  "mem_items mo args m =
     (if working_mode args = MODE_SORT then sent_items (rec_limit args) (mo_raw mo (mo_sort mo m)) else mo_raw mo m)"

text \<open>The messages of some threads: their records stand for \<open>W\<close> in the sense of \<open>R\<close>.\<close>

definition mem_sent ::
  "mpi_tag \<Rightarrow> (byte list multiset \<Rightarrow> byte list multiset \<Rightarrow> bool) \<Rightarrow> byte list multiset \<Rightarrow> message list list \<Rightarrow> bool" where
  "mem_sent tag R W outs \<longleftrightarrow>
     (\<exists>gss. outs = map (sender_msgs tag) gss \<and> (\<forall>gs\<in>set gss. flight_ok (Some gs)) \<and> R W (mset (concat (map concat gss))))"

definition additive :: "(byte list multiset \<Rightarrow> byte list multiset \<Rightarrow> bool) \<Rightarrow> bool" where
  "additive R \<longleftrightarrow> R {#} {#} \<and> (\<forall>V W S T. R V S \<longrightarrow> R W T \<longrightarrow> R (V + W) (S + T))"

lemma mem_sent_Nil: "additive R \<Longrightarrow> mem_sent tag R {#} []"
  by (simp add: mem_sent_def additive_def)

lemma mem_sent_append:
  assumes "additive R" "mem_sent tag R V o1" "mem_sent tag R W o2"
  shows "mem_sent tag R (V + W) (o1 @ o2)"
proof -
  obtain g1 g2 where g: "o1 = map (sender_msgs tag) g1" "\<forall>gs\<in>set g1. flight_ok (Some gs)" "R V (mset (concat (map concat g1)))"
    "o2 = map (sender_msgs tag) g2" "\<forall>gs\<in>set g2. flight_ok (Some gs)" "R W (mset (concat (map concat g2)))"
    using assms(2,3) unfolding mem_sent_def by blast
  have "R (V + W) (mset (concat (map concat g1)) + mset (concat (map concat g2)))"
    using assms(1) g(3,6) unfolding additive_def by blast
  then show ?thesis unfolding mem_sent_def using g(2,5) by (intro exI[of _ "g1 @ g2"]) (auto simp: g(1,4))
qed

lemma groups_flight:
  assumes "\<forall>g\<in>set gs. g \<noteq> [] \<and> length (pack g) \<le> XCHG_BUFF_SIZE"
  shows "flight_ok (Some gs)"
proof -
  have "rec_ok r" if "g \<in> set gs" "r \<in> set g" for g r
  proof -
    have "4 + length r \<le> XCHG_BUFF_SIZE" using length_pack_le[OF that(2)] assms that(1) by (meson order_trans)
    then show ?thesis by (simp add: rec_ok_def XCHG_BUFF_SIZE_def)
  qed
  then show ?thesis using assms by (simp add: flight_ok_def)
qed

text \<open>After its files a thread has their records in its memory, and has sent nothing yet.\<close>

lemma thread_run_memory:
  assumes "slave_ok L E args" "working_mode args \<in> {MODE_SORT, MODE_AGGR}" "query_mem_init L args = Ret calls"
    and "write_law (se_lnf_mem E) holds calls" "store_law E holds enc"
    and "\<forall>i. length (bufs i) = XCHG_BUFF_SIZE" "thread_ctx_init L E args bufs bf = Ret (t, bf')"
    and "index_sound E (thread_cfg E args others (tc_filter t)) (tc_bfindex_root t)"
    and "\<forall>p\<in>set files. flow_path_ok p" "thread_run L E args others files t = Some (Ret tr)"
    and "length (concat (map (stored enc E args) files)) \<le> 2 ^ 63"
  shows "\<exists>t1 m. tc_mem t1 = Some m \<and> holds m (mset (concat (map (stored enc E args) files)))
    \<and> postprocess_mt L E args t1 = Some (Ret (tr_messages tr)) \<and> bufs_ok (tc_ff t1)"
proof -
  have ok: "slave_args_ok L args" "slave_env_ok E" "filter_ok E args" "get_sizes_ok E args"
    using assms(1) by (simp_all add: slave_ok_def)
  have mo: "mo_ok (se_lnf_mem E) = (\<lambda>_. True)" using ok(2) by (simp add: slave_env_ok_def mem_ops_ok_def)
  have t: "ctx_ok args t" "tc_ff t = ff_start bufs" "tc_filter t = query_filter E args"
    using thread_ctx_init_Ret[OF ok(1-3) assms(6), of bf] assms(7) by (auto simp: query_filter_def)
  define C where "C = thread_cfg E args others (tc_filter t)"
  have st: "stored enc E args = (\<lambda>p. map enc (matching E C p))"
    by (rule ext) (simp add: stored_matching[of enc E args _ others] C_def t(3))
  have "init_mem L E args = Ret (tc_mem t)" using assms(7) by (auto simp: thread_ctx_init_def res_simps)
  then have "tc_mem t = Some (mo_init (se_lnf_mem E) calls)"
    using assms(2,3) by (auto simp: init_mem_def query_mem_init_def mo)
  then have start: "mem_inv holds {#} t"
    using assms(4) t(2) by (simp add: mem_inv_def write_law_def ff_start_def send_init_def)
  have small: "size {#} + length (concat (map (matching E C) files)) \<le> 2 ^ 63"
    using assms(11) by (simp add: st length_concat comp_def)
  have ix: "index_sound E C (tc_bfindex_root t)" using assms(8) by (simp add: C_def)
  obtain t1 out where t1: "each_res (process_file_mt E args C) files t = Ret t1"
    "postprocess_mt L E args t1 = Some (Ret out)" "tr_messages tr = s_sent (ff_send (tc_ff t1)) @ out"
    using assms(10) by (auto simp: thread_run_def C_def run_after_def res_simps split: res.splits)
  note f = files_mem[OF ok(2) assms(5,2) thread_cfg_ok[OF ok(1,4), of others "tc_filter t", folded C_def] assms(9) t(1) ix start small t1(1)]
  then obtain m where m: "tc_mem t1 = Some m" "holds m (mset (map enc (concat (map (matching E C) files))))"
    "s_sent (ff_send (tc_ff t1)) = []" by (auto simp: mem_inv_def)
  have "mset (map enc (concat (map (matching E C) files))) = mset (concat (map (stored enc E args) files))"
    by (simp add: st map_concat comp_def)
  then show ?thesis using m t1(2,3) f by (auto simp: ctx_ok_def)
qed

lemma thread_run_mem:
  assumes "slave_ok L E args" "memory_mode args" "query_mem_init L args = Ret calls"
    and "write_law (se_lnf_mem E) holds calls" "store_law E holds enc"
    and R: "\<And>m W. holds m W \<Longrightarrow> R W (mset (mem_items (se_lnf_mem E) args m))"
    and run: "\<forall>i. length (bufs i) = XCHG_BUFF_SIZE" "thread_ctx_init L E args bufs bf = Ret (t, bf')"
      "index_sound E (thread_cfg E args others (tc_filter t)) (tc_bfindex_root t)"
      "\<forall>p\<in>set files. flow_path_ok p" "thread_run L E args others files t = Some (Ret tr)"
      "length (concat (map (stored enc E args) files)) \<le> 2 ^ 63"
  shows "mem_sent (mode_tag args) R (mset (concat (map (stored enc E args) files))) [tr_messages tr]"
proof -
  have md: "working_mode args \<in> {MODE_SORT, MODE_AGGR}" using assms(2) by (auto simp: memory_mode_def)
  have mo: "mem_ops_ok (se_lnf_mem E)" using assms(1) by (simp add: slave_ok_def slave_env_ok_def)
  obtain t1 m where m: "tc_mem t1 = Some m" "holds m (mset (concat (map (stored enc E args) files)))"
    "postprocess_mt L E args t1 = Some (Ret (tr_messages tr))" "bufs_ok (tc_ff t1)"
    using thread_run_memory[OF assms(1) md assms(3-5) run] by blast
  have b: "\<forall>i. length (s_bufs (ff_send (tc_ff t1)) i) = XCHG_BUFF_SIZE" using m(4) by (simp add: bufs_ok_def)
  define out where "out = tr_messages tr"
  obtain gs where gs: "out = sender_msgs (mode_tag args) gs" "concat gs = mem_items (se_lnf_mem E) args m"
    "\<forall>g\<in>set gs. g \<noteq> [] \<and> length (pack g) \<le> XCHG_BUFF_SIZE"
    using m(1) m(3)[folded out_def] assms(2) send_mem_Ret[OF mo b, where lim = "rec_limit args" and tag = TAG_SORT and mem = "mo_sort (se_lnf_mem E) m"]
      send_mem_Ret[OF mo b, where lim = 0 and tag = TAG_AGGR and mem = m]
    by (auto simp: memory_mode_def postprocess_mt_def send_memory_def mode_tag_def mem_items_def sent_items_def)
  have "R (mset (concat (map (stored enc E args) files))) (mset (concat gs))" using R[OF m(2)] by (simp only: gs(2))
  then show ?thesis
    unfolding mem_sent_def using groups_flight[OF gs(3)] by (intro exI[of _ "[gs]"]) (simp add: gs(1)[unfolded out_def])
qed

subsection \<open>All processes\<close>

definition stored_records :: "('r \<Rightarrow> byte list) \<Rightarrow> cmdline_args \<Rightarrow> ('r, 'm) site list \<Rightarrow> byte list list" where
  "stored_records enc args sites = concat (map (\<lambda>s. concat (map (stored enc (st_env s) args) (site_paths args s))) sites)"

definition site_mem_ok ::
  "('m \<Rightarrow> byte list multiset \<Rightarrow> bool) \<Rightarrow> ('r \<Rightarrow> byte list) \<Rightarrow> mem_call list \<Rightarrow> ('r, 'm) site \<Rightarrow> bool" where
  "site_mem_ok holds enc calls s \<longleftrightarrow> write_law (se_lnf_mem (st_env s)) holds calls \<and> store_law (st_env s) holds enc"

text \<open>What is sent for some records is put together from what is sent for parts of them.\<close>

definition joins :: "(byte list multiset \<Rightarrow> message list list \<Rightarrow> bool) \<Rightarrow> bool" where
  "joins S \<longleftrightarrow> S {#} [] \<and> (\<forall>V W o1 o2. S V o1 \<longrightarrow> S W o2 \<longrightarrow> S (V + W) (o1 @ o2))"

lemma mem_sent_joins: "additive R \<Longrightarrow> joins (mem_sent tag R)"
  using mem_sent_Nil mem_sent_append unfolding joins_def by blast

lemma threads_join:
  assumes "joins S"
  shows "list_all2 (\<lambda>th tr. S (w th) [tr_messages tr]) ths trs \<Longrightarrow> S (sum_list (map w ths)) (map tr_messages trs)"
proof (induction rule: list_all2_induct)
  case Nil
  show ?case using assms by (simp add: joins_def)
next
  case (Cons th ths tr trs)
  have "S (w th + sum_list (map w ths)) ([tr_messages tr] @ map tr_messages trs)"
    using assms Cons.hyps(1) Cons.IH unfolding joins_def by blast
  then show ?case by simp
qed

lemma size_sum_list: "size (sum_list ws) = sum_list (map size (ws :: 'a multiset list))"
  by (induction ws) simp_all

text \<open>Every run of a thread with a sound index sends what \<open>S\<close> says for the records of its files.\<close>

definition thread_sends ::
  "libnf \<Rightarrow> cmdline_args \<Rightarrow> (byte list multiset \<Rightarrow> message list list \<Rightarrow> bool) \<Rightarrow> ('r \<Rightarrow> byte list) \<Rightarrow> ('r, 'm) slave_env \<Rightarrow> bool" where
  "thread_sends L args S enc E \<longleftrightarrow>
     (\<forall>others bufs files bf t bf' tr.
        (\<forall>i. length (bufs i) = XCHG_BUFF_SIZE) \<longrightarrow> thread_ctx_init L E args bufs bf = Ret (t, bf') \<longrightarrow>
        index_sound E (thread_cfg E args others (tc_filter t)) (tc_bfindex_root t) \<longrightarrow>
        (\<forall>p\<in>set files. flow_path_ok p) \<longrightarrow> thread_run L E args others files t = Some (Ret tr) \<longrightarrow>
        length (concat (map (stored enc E args) files)) \<le> 2 ^ 63 \<longrightarrow>
        S (mset (concat (map (stored enc E args) files))) [tr_messages tr])"

lemma site_sends:
  assumes "site_safe L args addrs s" "site_main L args s = Some (Ret sr)" "joins S" "thread_sends L args S enc (st_env s)"
    and "length (stored_records enc args [s]) \<le> 2 ^ 63"
  shows "S (mset (stored_records enc args [s])) (site_messages sr)" "length (site_messages sr) = sr_threads sr"
proof -
  obtain pa where pa: "path_array_gen (st_fs s) (st_tz s) (ca_paths args) (time_begin args) (time_end args) = Some (Ret (Some pa))"
    using assms(1) by (auto simp: site_ok_def)
  have p: "site_paths args s = pa_used pa" using pa by (simp add: site_paths_def)
  have s: "slave_ok L (st_env s) args" "\<forall>p\<in>set (pa_used pa). flow_path_ok p" "0 < st_max_threads s"
    "team_ok (st_omp_zero s) (st_max_threads s) (pa_used pa) (st_team s)"
    "index_safe (st_env s) addrs args (length (st_team s))"
    using assms(1) p by (simp_all add: site_ok_def)
  let ?w = "\<lambda>files. mset (concat (map (stored enc (st_env s) args) files))"
  have total: "sum_list (map (\<lambda>th. ?w (snd (snd th))) (st_team s)) = ?w (pa_used pa)" by (rule team_records[OF s(4)])
  have w: "?w (pa_used pa) = mset (stored_records enc args [s])" by (simp add: stored_records_def p)
  let ?P = "\<lambda>files tr. size (?w files) \<le> 2 ^ 63 \<longrightarrow> S (?w files) [tr_messages tr]"
  have main: "slave_main L (st_env s) (st_fs s) (st_tz s) args (st_omp_zero s) (st_max_threads s) (st_team s) = Some (Ret sr)"
    using assms(2) by (simp add: site_main_def)
  have each: "list_all2 (\<lambda>th. ?P (snd (snd th))) (st_team s) (sr_results sr)"
    by (rule slave_main_each[where P = ?P, OF s(1) pa s(2,4,5) main])
      (use assms(4) in \<open>unfold thread_sends_def size_mset, blast\<close>)
  have "size (?w (snd (snd th))) \<le> 2 ^ 63" if "th \<in> set (st_team s)" for th
  proof -
    have "size (?w (snd (snd th))) \<le> size (sum_list (map (\<lambda>th. ?w (snd (snd th))) (st_team s)))"
      unfolding size_sum_list map_map comp_def by (rule member_le_sum_list) (use that in simp_all)
    then show ?thesis unfolding total w using assms(5) by simp
  qed
  then have "list_all2 (\<lambda>th tr. S (?w (snd (snd th))) [tr_messages tr]) (st_team s) (sr_results sr)"
    using each by (auto simp: list_all2_conv_all_nth)
  from threads_join[OF assms(3) this] show "S (mset (stored_records enc args [s])) (site_messages sr)"
    unfolding total w site_messages_def .
  show "length (site_messages sr) = sr_threads sr"
    using slave_main_Ret[OF s(1) pa s(2,3,4)] main by (auto simp: site_messages_def)
qed

lemma stored_records_Cons: "stored_records enc args (s # ss) = stored_records enc args [s] @ stored_records enc args ss"
  by (simp add: stored_records_def)

lemma sites_send:
  assumes "joins S"
  shows "list_all2 (\<lambda>s sr. site_safe L args addrs s \<and> site_main L args s = Some (Ret sr)) sites srs \<Longrightarrow>
    \<forall>s\<in>set sites. thread_sends L args S enc (st_env s) \<Longrightarrow> length (stored_records enc args sites) \<le> 2 ^ 63 \<Longrightarrow>
    S (mset (stored_records enc args sites)) (concat (map site_messages srs))
    \<and> length (concat (map site_messages srs)) = total_threads srs"
proof (induction rule: list_all2_induct)
  case Nil
  show ?case using assms by (simp add: joins_def stored_records_def total_threads_def)
next
  case (Cons s ss sr srs)
  have small: "length (stored_records enc args [s]) \<le> 2 ^ 63" "length (stored_records enc args ss) \<le> 2 ^ 63"
    using Cons.prems stored_records_Cons[of enc args s ss] by simp_all
  have ok: "site_safe L args addrs s" "site_main L args s = Some (Ret sr)" "thread_sends L args S enc (st_env s)"
    using Cons.hyps(1) Cons.prems(1) by simp_all
  note one = site_sends[OF ok(1,2) assms ok(3) small(1)]
  have rest: "S (mset (stored_records enc args ss)) (concat (map site_messages srs))"
    "length (concat (map site_messages srs)) = total_threads srs"
    using Cons.IH Cons.prems(1) small(2) by simp_all
  have "S (mset (stored_records enc args [s]) + mset (stored_records enc args ss)) (site_messages sr @ concat (map site_messages srs))"
    using assms one(1) rest(1) unfolding joins_def by blast
  then show ?case using one(2) rest(2) unfolding stored_records_Cons[of enc args s ss] by (simp add: total_threads_def)
qed

lemma sites_mem_sent:
  assumes "memory_mode args" "query_mem_init L args = Ret calls" "additive R"
    and sites: "list_all2 (\<lambda>s sr. site_safe L args addrs s \<and> site_main L args s = Some (Ret sr)) sites srs"
    and laws: "\<forall>s\<in>set sites. site_mem_ok holds enc calls s
      \<and> (\<forall>m W. holds m W \<longrightarrow> R W (mset (mem_items (se_lnf_mem (st_env s)) args m)))"
    and "length (stored_records enc args sites) \<le> 2 ^ 63"
  shows "mem_sent (mode_tag args) R (mset (stored_records enc args sites)) (concat (map site_messages srs))
    \<and> length (concat (map site_messages srs)) = total_threads srs"
proof (rule sites_send[OF mem_sent_joins[OF assms(3)] sites _ assms(6)])
  show "\<forall>s\<in>set sites. thread_sends L args (mem_sent (mode_tag args) R) enc (st_env s)"
  proof
    fix s assume s: "s \<in> set sites"
    then have "slave_ok L (st_env s) args" using sites by (auto simp: list_all2_conv_all_nth in_set_conv_nth site_ok_def)
    moreover have "write_law (se_lnf_mem (st_env s)) holds calls" "store_law (st_env s) holds enc"
      "\<And>m W. holds m W \<Longrightarrow> R W (mset (mem_items (se_lnf_mem (st_env s)) args m))"
      using laws s by (auto simp: site_mem_ok_def)
    ultimately show "thread_sends L args (mem_sent (mode_tag args) R) enc (st_env s)"
      using thread_run_mem[where R = R and E = "st_env s", OF _ assms(1,2)] unfolding thread_sends_def by blast
  qed
qed

subsection \<open>The memory of the master\<close>

lemma deliver_holds:
  assumes "mem_ops_ok mo" "write_law mo holds calls"
  shows "holds m V \<Longrightarrow> \<forall>r\<in>set d. length r + 4 \<le> XCHG_BUFF_SIZE \<Longrightarrow> size V + length d \<le> 2 ^ 63
    \<Longrightarrow> holds (deliver (mem_write_raw_callback (mo_write_raw mo)) d m) (V + mset d)"
proof (induction d arbitrary: m V)
  case (Cons r d)
  obtain m' where m': "mo_write_raw mo m r = Some m'" using assms(1) unfolding mem_ops_ok_def by blast
  have "holds m' (add_mset r V)"
    using assms(2) Cons.prems m' by (simp add: write_law_def)
  from Cons.IH[OF this] show ?case using Cons.prems m' by (simp add: mem_write_raw_callback_def)
qed simp

lemma mem_received:
  assumes "mem_ops_ok mo" "write_law mo holds calls" "mem_sent tag R W outs" "arrives outs (msgs tag)" "outs \<noteq> []"
    and "\<And>S. R W S \<Longrightarrow> size S \<le> size W" "size W \<le> 2 ^ 63"
  shows "\<exists>mem S. recv_memory mo \<lparr>rec_buff = junk, slave_threads_cnt = length outs\<rparr> tag (mo_init mo calls) msgs = Some (Ret mem)
    \<and> holds mem S \<and> R W S"
proof -
  obtain gss where g: "outs = map (sender_msgs tag) gss" "\<forall>gs\<in>set gss. flight_ok (Some gs)" "R W (mset (concat (map concat gss)))"
    using assms(3) unfolding mem_sent_def by blast
  define ps where "ps = map Some gss"
  have ps: "outs = map (in_flight tag) ps" "\<forall>p\<in>set ps. flight_ok p \<and> p \<noteq> None" "ps \<noteq> []"
    "map flight_recs ps = map concat gss" "length ps = length outs"
    using g(1,2) assms(5) by (auto simp: ps_def in_flight_def flight_recs_def)
  have sz: "length (concat (map concat gss)) \<le> 2 ^ 63" using assms(6)[OF g(3)] assms(7) by simp
  have "cb_total (mem_write_raw_callback (mo_write_raw mo))"
    using assms(1) by (auto simp: cb_total_def mem_write_raw_callback_def mem_ops_ok_def split: option.split)
  moreover have "length (concat (map flight_recs ps)) < 2 ^ 64" using sz unfolding ps(4) by (rule le_less_trans) simp
  moreover have "arrives (map (in_flight tag) ps) (msgs tag)" using assms(4) by (simp only: ps(1))
  ultimately obtain d where d: "arrives (map concat gss) d"
    "recv_memory mo \<lparr>rec_buff = junk, slave_threads_cnt = length outs\<rparr> tag (mo_init mo calls) msgs
      = Some (Ret (deliver (mem_write_raw_callback (mo_write_raw mo)) d (mo_init mo calls)))"
    using recv_loop_arrives[of "mem_write_raw_callback (mo_write_raw mo)" tag ps "msgs tag" junk 0 "mo_init mo calls"] ps(2,3)
    unfolding ps(4,5) recv_memory_def by auto
  have md: "mset d = mset (concat (map concat gss))" using arrives_mset[OF d(1)] by (simp add: mset_concat)
  have len: "length d \<le> 2 ^ 63" using mset_eq_length[OF md] sz by simp
  have "length r + 4 \<le> XCHG_BUFF_SIZE" if "r \<in> set d" for r
  proof -
    have "r \<in> set (concat (map concat gss))" using that mset_eq_setD[OF md] by simp
    then obtain gs x where "gs \<in> set gss" "x \<in> set gs" "r \<in> set x" by auto
    then show ?thesis using g(2) length_pack_le[of r x] by (fastforce simp: flight_ok_def)
  qed
  moreover have "holds (mo_init mo calls) {#}" using assms(2) by (simp add: write_law_def)
  ultimately have "holds (deliver (mem_write_raw_callback (mo_write_raw mo)) d (mo_init mo calls)) (mset d)"
    using deliver_holds[OF assms(1,2), of "mo_init mo calls" "{#}" d] len by simp
  then show ?thesis using d(2) g(3) unfolding md by blast
qed

subsection \<open>The first records in the order of the query\<close>

text \<open>
  The records \<open>S\<close> are enough of \<open>W\<close>: a record that is left out has a limit's worth of others that
  come before it.
\<close>

definition keeps :: "('a \<Rightarrow> 'k :: linorder) \<Rightarrow> 64 word \<Rightarrow> 'a multiset \<Rightarrow> 'a multiset \<Rightarrow> bool" where
  "keeps key lim W S \<longleftrightarrow>
     S \<subseteq># W \<and> (\<forall>y\<in>#W - S. lim \<noteq> 0 \<and> unat lim \<le> size {#x \<in># S. key x \<le> key y#})"

lemma diff_add_parts:
  assumes "S \<subseteq># V" "T \<subseteq># W"
  shows "V + W - (S + T) = (V - S) + (W - T)"
proof -
  obtain A B where "V = S + A" "W = T + B" using assms by (meson subset_mset.le_iff_add)
  then show ?thesis by (simp add: ac_simps)
qed

lemma keeps_add:
  assumes "keeps key lim V S" "keeps key lim W T"
  shows "keeps key lim (V + W) (S + T)"
proof -
  have sub: "S \<subseteq># V" "T \<subseteq># W" using assms by (simp_all add: keeps_def)
  have "lim \<noteq> 0 \<and> unat lim \<le> size {#x \<in># S + T. key x \<le> key y#}" if "y \<in># (V - S) + (W - T)" for y
  proof -
    have "y \<in># V - S \<or> y \<in># W - T" using that by (simp only: union_iff)
    then have "lim \<noteq> 0 \<and> (unat lim \<le> size {#x \<in># S. key x \<le> key y#} \<or> unat lim \<le> size {#x \<in># T. key x \<le> key y#})"
      using assms unfolding keeps_def by blast
    then show ?thesis by auto
  qed
  then show ?thesis
    unfolding keeps_def diff_add_parts[OF sub] using sub by (auto intro: subset_mset.add_mono)
qed

lemma keeps_take:
  assumes "sorted (map key xs)"
  shows "keeps key lim (mset xs) (mset (sent_items lim xs))"
proof (cases "lim = 0")
  case True
  then show ?thesis by (simp add: keeps_def sent_items_def)
next
  case False
  let ?n = "unat lim"
  have split: "mset xs = mset (take ?n xs) + mset (drop ?n xs)" by (metis append_take_drop_id mset_append)
  have "?n \<le> size {#x \<in># mset (take ?n xs). key x \<le> key y#}" if y: "y \<in> set (drop ?n xs)" for y
  proof -
    have "sorted (map key (take ?n xs @ drop ?n xs))" using assms by (simp only: append_take_drop_id)
    then have "\<forall>x\<in>set (take ?n xs). key x \<le> key y" using y by (simp add: sorted_append del: append_take_drop_id)
    then have "filter (\<lambda>x. key x \<le> key y) (take ?n xs) = take ?n xs" by (simp add: filter_True)
    moreover have "?n \<le> length xs" using y by (cases "?n \<le> length xs") simp_all
    ultimately show ?thesis by (simp add: mset_filter[symmetric] del: mset_filter)
  qed
  then show ?thesis using False unfolding keeps_def split by (simp add: sent_items_def)
qed

text \<open>The first of enough records are the first of all of them.\<close>

lemma keeps_first:
  assumes "keeps key lim W (mset xs)" "sorted (map key xs)"
  shows "\<exists>ys. mset ys = W \<and> sorted (map key ys) \<and> sent_items lim ys = sent_items lim xs"
proof (cases "lim = 0")
  case True
  then have "W - mset xs = {#}" using assms(1) by (auto simp: keeps_def)
  then have "mset xs = W" using assms(1) by (metis keeps_def add.right_neutral subset_mset.add_diff_inverse)
  then show ?thesis using assms(2) by blast
next
  case False
  define n where "n = unat lim"
  define T where "T = take n xs"
  obtain zs where zs: "mset zs = W - mset xs" using ex_mset by blast
  have W: "W = mset xs + mset zs" using assms(1) zs by (simp add: keeps_def)
  define rest where "rest = linorder_class.sort_key key (drop n xs @ zs)"
  have split: "xs = T @ drop n xs" by (simp add: T_def)
  have le: "key x \<le> key y" if x: "x \<in> set T" and y: "y \<in> set rest" for x y
  proof -
    have s: "sorted (map key (T @ drop n xs))" using assms(2) split by simp
    consider "y \<in> set (drop n xs)" | "y \<in> set zs" using y by (auto simp: rest_def)
    then show ?thesis
    proof cases
      case 1
      then show ?thesis using s x by (simp add: sorted_append)
    next
      case 2
      then have many: "n \<le> length (filter (\<lambda>x. key x \<le> key y) xs)"
        using assms(1) zs unfolding keeps_def n_def
        by (metis in_multiset_in_set mset_filter size_mset)
      show ?thesis
      proof (rule ccontr)
        assume no: "\<not> key x \<le> key y"
        obtain i where i: "i < length T" "T ! i = x" using x by (auto simp: in_set_conv_nth)
        have "\<not> key (xs ! j) \<le> key y" if "i \<le> j" "j < length xs" for j
        proof -
          have "key (xs ! i) \<le> key (xs ! j)" using sorted_nth_mono[OF assms(2), of i j] that by simp
          moreover have "xs ! i = x" using i by (simp add: T_def)
          ultimately show ?thesis using no by simp
        qed
        then have "{j. j < length xs \<and> key (xs ! j) \<le> key y} \<subseteq> {..<i}" by (auto simp: not_less[symmetric])
        then have "length (filter (\<lambda>x. key x \<le> key y) xs) \<le> i"
          unfolding length_filter_conv_card using card_mono[of "{..<i}"] by fastforce
        then show False using many i(1) by (simp add: T_def)
      qed
    qed
  qed
  have "sorted (map key T)" using assms(2) by (simp add: T_def take_map[symmetric] sorted_wrt_take)
  then have "sorted (map key (T @ rest))" using le by (auto simp: sorted_append rest_def)
  moreover have "mset (T @ rest) = W" unfolding W by (subst split) (simp add: rest_def)
  moreover have "sent_items lim (T @ rest) = sent_items lim xs"
  proof (cases "n \<le> length xs")
    case True
    then show ?thesis using False by (simp add: sent_items_def n_def[symmetric] T_def)
  next
    case False': False
    have "zs = []"
    proof (rule ccontr)
      assume "zs \<noteq> []"
      then have "hd zs \<in># W - mset xs" by (simp add: zs[symmetric])
      then have "n \<le> size {#x \<in># mset xs. key x \<le> key (hd zs)#}" using assms(1) by (simp add: keeps_def n_def)
      also have "\<dots> \<le> length xs" by (metis size_filter_mset_lesseq size_mset)
      finally show False using False' by simp
    qed
    then show ?thesis using False' by (simp add: rest_def T_def)
  qed
  ultimately show ?thesis by blast
qed

subsection \<open>The order mode\<close>

lemma list_keeps:
  assumes "list_law mo holds key" "working_mode args = MODE_SORT" "holds m W"
  shows "keeps key (rec_limit args) W (mset (mem_items mo args m))"
proof -
  have xs: "mset (mo_raw mo (mo_sort mo m)) = W" "sorted (map key (mo_raw mo (mo_sort mo m)))"
    using assms(1,3) by (simp_all add: list_law_def)
  from keeps_take[OF xs(2), of "rec_limit args"] show ?thesis by (simp add: xs(1) mem_items_def assms(2))
qed

lemma sort_query_Ret:
  assumes "working_mode args = MODE_SORT" and "libnf_mem_init_list L (\<lambda>_. True) (ca_fields args) = Ret calls"
    and "list_all2 (\<lambda>s sr. site_safe L args addrs s \<and> site_main L args s = Some (Ret sr)) sites srs"
    and "\<forall>s\<in>set sites. site_mem_ok holds enc calls s \<and> list_law (se_lnf_mem (st_env s)) holds key"
    and "me_malloc M" and "me_output_init M out = Ret out1"
    and "mem_ops_ok (me_lnf_mem M)" and "write_law (me_lnf_mem M) holds calls" and "list_law (me_lnf_mem M) holds key"
    and "arrives (concat (map site_messages srs)) (msgs TAG_SORT)" and "0 < total_threads srs"
    and "length (stored_records enc args sites) \<le> 2 ^ 63"
  shows "\<exists>mem all. master_main_thread L M args junk (total_threads srs) msgs out
      = Some (Ret (me_print_batch M mem (rec_limit args) out1))
    \<and> mset all = mset (stored_records enc args sites) \<and> sorted (map key all)
    \<and> (if rec_limit args = 0 then mo_raw (me_lnf_mem M) mem = all
       else take (unat (rec_limit args)) (mo_raw (me_lnf_mem M) mem) = take (unat (rec_limit args)) all)"
proof -
  let ?R = "keeps key (rec_limit args)"
  have "?R {#} {#}" by (simp add: keeps_def)
  then have R: "additive ?R" unfolding additive_def using keeps_add by blast
  have md: "memory_mode args" "query_mem_init L args = Ret calls" "mode_tag args = TAG_SORT"
    using assms(1,2) by (simp_all add: memory_mode_def query_mem_init_def mode_tag_def)
  have "\<forall>s\<in>set sites. site_mem_ok holds enc calls s
      \<and> (\<forall>m W. holds m W \<longrightarrow> ?R W (mset (mem_items (se_lnf_mem (st_env s)) args m)))"
    using assms(4) list_keeps[OF _ assms(1), where holds = holds and key = key] by blast
  note sent = sites_mem_sent[OF md(1,2) R assms(3) this assms(12), unfolded md(3)]
  have ne: "concat (map site_messages srs) \<noteq> []" using sent assms(11) by (metis less_irrefl list.size(3))
  have size: "size S \<le> size (mset (stored_records enc args sites))" if "?R (mset (stored_records enc args sites)) S" for S
    using that size_mset_mono unfolding keeps_def by blast
  have small: "size (mset (stored_records enc args sites)) \<le> 2 ^ 63" using assms(12) by simp
  obtain mem S where mem: "recv_memory (me_lnf_mem M) \<lparr>rec_buff = junk, slave_threads_cnt = length (concat (map site_messages srs))\<rparr>
      TAG_SORT (mo_init (me_lnf_mem M) calls) msgs = Some (Ret mem)"
    "holds mem S" "?R (mset (stored_records enc args sites)) S"
    using mem_received[where R = ?R and msgs = msgs, OF assms(7,8) _ assms(10) ne size small] sent by blast
  let ?mem = "mo_sort (me_lnf_mem M) mem"
  have raw: "mset (mo_raw (me_lnf_mem M) ?mem) = S" "sorted (map key (mo_raw (me_lnf_mem M) ?mem))"
    using assms(9) mem(2) by (simp_all add: list_law_def)
  obtain all where all: "mset all = mset (stored_records enc args sites)" "sorted (map key all)"
    "sent_items (rec_limit args) all = sent_items (rec_limit args) (mo_raw (me_lnf_mem M) ?mem)"
    using keeps_first[OF _ raw(2)] mem(3) unfolding raw(1) by blast
  have ok: "mo_ok (me_lnf_mem M) = (\<lambda>_. True)" using assms(7) by (simp add: mem_ops_ok_def)
  have "master_main_thread L M args junk (total_threads srs) msgs out = Some (Ret (me_print_batch M ?mem (rec_limit args) out1))"
    using mem(1) sent assms(1,2,5,6,11)
    by (simp add: master_main_thread_def master_ctx_init_def sort_main_def ok Let_def)
  then show ?thesis using all by (intro exI[of _ ?mem] exI[of _ all]) (simp add: sent_items_def split: if_splits)
qed

text \<open>C4: an order query is answered exactly.  For every number of slave processes and threads within the
  condition on the index below, every distribution of the files and order in which the messages arrive, and although every
  thread sends the first records of its own memory only: what the master prints are the first
  records, up to the limit, of all the records of the query sorted by the key of the query.  The query must not lose
  files to the index (\<open>index_safe\<close>): this is so without a filter or with \<open>--no-bfindex\<close>; with the
  index, which is the default, the addresses of the filter times the threads of a process must be
  at most 20, every \<open>or\<close> of the filter must have two indexable sides or none, and an index file must
  hold all addresses of its flow file.  Beyond that the program drops matching records (C34).  The
  processes find their paths and do not fail (C11 says when).
  The query has a sort key.\<close>

theorem sort_query_exact:
  assumes "working_mode args = MODE_SORT" and "libnf_mem_init_list L (\<lambda>_. True) (ca_fields args) = Ret calls"
    and "list_all2 (\<lambda>s sr. (site_ok L args s \<and> index_safe (st_env s) addrs args (length (st_team s))) \<and> site_main L args s = Some (Ret sr)) sites srs"
    and "\<forall>s\<in>set sites. site_mem_ok holds enc calls s \<and> list_law (se_lnf_mem (st_env s)) holds key"
    and "me_malloc M" and "me_output_init M out = Ret out1"
    and "mem_ops_ok (me_lnf_mem M)" and "write_law (me_lnf_mem M) holds calls" and "list_law (me_lnf_mem M) holds key"
    and "arrives (concat (map site_messages srs)) (msgs TAG_SORT)" and "0 < total_threads srs"
    and "length (stored_records enc args sites) \<le> 2 ^ 63"
  shows "\<exists>mem all. master_main_thread L M args junk (total_threads srs) msgs out
      = Some (Ret (me_print_batch M mem (rec_limit args) out1))
    \<and> mset all = mset (stored_records enc args sites) \<and> sorted (map key all)
    \<and> (if rec_limit args = 0 then mo_raw (me_lnf_mem M) mem = all
       else take (unat (rec_limit args)) (mo_raw (me_lnf_mem M) mem) = take (unat (rec_limit args)) all)"
  by (rule sort_query_Ret[where msgs = msgs and M = M and addrs = addrs, OF assms])

subsection \<open>The aggregation mode\<close>

text \<open>Partial aggregates that stand for \<open>W\<close>.\<close>

definition aggregates :: "(byte list multiset \<Rightarrow> byte list multiset) \<Rightarrow> byte list multiset \<Rightarrow> byte list multiset \<Rightarrow> bool" where
  "aggregates aggr W S \<longleftrightarrow> aggr S = aggr W \<and> size S \<le> size W"

lemma aggregates_additive:
  assumes "aggr_law aggr"
  shows "additive (aggregates aggr)"
proof -
  have law: "aggr (aggr V + W) = aggr (V + W)" for V W using assms by (simp add: aggr_law_def)
  have eq: "aggr (S + T) = aggr (V + W)" if "aggr S = aggr V" "aggr T = aggr W" for S T V W
    by (metis that law add.commute)
  have "aggregates aggr (V + W) (S + T)" if a: "aggregates aggr V S" "aggregates aggr W T" for S T V W
  proof -
    have "aggr S = aggr V" "aggr T = aggr W" "size S \<le> size V" "size T \<le> size W" using a unfolding aggregates_def by blast+
    then show ?thesis using eq[of S V T W] unfolding aggregates_def size_union by (intro conjI add_mono)
  qed
  moreover have "aggregates aggr {#} {#}" by (simp add: aggregates_def)
  ultimately show ?thesis unfolding additive_def by blast
qed

lemma hash_aggregates:
  assumes "aggr_law aggr" "hash_law mo holds aggr key" "working_mode args = MODE_AGGR" "holds m W"
  shows "aggregates aggr W (mset (mem_items mo args m))"
proof -
  have "aggr (aggr W + {#}) = aggr (W + {#})" "size (aggr W) \<le> size W" using assms(1) by (simp_all only: aggr_law_def)
  then show ?thesis using assms(2-4) by (simp add: hash_law_def aggregates_def mem_items_def)
qed

text \<open>C5: an aggregation query without TPUT is answered exactly: the memory the master prints has the
  aggregates of all the records of the query, in the order of the sort key, for every number of
  slave processes and threads within the condition on the index below, every distribution of the files and order of the
  messages.  The query must not lose
  files to the index (\<open>index_safe\<close>): this is so without a filter or with \<open>--no-bfindex\<close>; with the
  index, which is the default, the addresses of the filter times the threads of a process must be
  at most 20, every \<open>or\<close> of the filter must have two indexable sides or none, and an index file must
  hold all addresses of its flow file.  Beyond that the program drops matching records (C34).  The
  processes find their paths and do not fail (C11 says when).\<close>

theorem aggr_query_exact:
  assumes "working_mode args = MODE_AGGR" and "\<not> use_tput args" and "libnf_mem_init_ht L (\<lambda>_. True) (ca_fields args) = Ret calls"
    and "list_all2 (\<lambda>s sr. (site_ok L args s \<and> index_safe (st_env s) addrs args (length (st_team s))) \<and> site_main L args s = Some (Ret sr)) sites srs"
    and "aggr_law aggr"
    and "\<forall>s\<in>set sites. site_mem_ok holds enc calls s \<and> hash_law (se_lnf_mem (st_env s)) holds aggr key"
    and "me_malloc M" and "me_output_init M out = Ret out1"
    and "mem_ops_ok (me_lnf_mem M)" and "write_law (me_lnf_mem M) holds calls" and "hash_law (me_lnf_mem M) holds aggr key"
    and "arrives (concat (map site_messages srs)) (msgs TAG_AGGR)" and "0 < total_threads srs"
    and "length (stored_records enc args sites) \<le> 2 ^ 63"
  shows "\<exists>mem. master_main_thread L M args junk (total_threads srs) msgs out
      = Some (Ret (me_print_batch M mem (rec_limit args) out1))
    \<and> mset (mo_raw (me_lnf_mem M) mem) = aggr (mset (stored_records enc args sites))
    \<and> sorted (map key (mo_raw (me_lnf_mem M) mem))"
proof -
  let ?R = "aggregates aggr"
  have md: "memory_mode args" "query_mem_init L args = Ret calls" "mode_tag args = TAG_AGGR"
    using assms(1-3) by (simp_all add: memory_mode_def query_mem_init_def mode_tag_def)
  have "?R W (mset (mem_items (se_lnf_mem (st_env s)) args m))" if "s \<in> set sites" "holds m W" for s m W
    using hash_aggregates[OF assms(5) _ assms(1), where holds = holds and key = key and W = W and m = m] assms(6) that by blast
  then have "\<forall>s\<in>set sites. site_mem_ok holds enc calls s
      \<and> (\<forall>m W. holds m W \<longrightarrow> ?R W (mset (mem_items (se_lnf_mem (st_env s)) args m)))"
    using assms(6) by blast
  note sent = sites_mem_sent[OF md(1,2) aggregates_additive[OF assms(5)] assms(4) this assms(14), unfolded md(3)]
  have ne: "concat (map site_messages srs) \<noteq> []" using sent assms(13) by (metis less_irrefl list.size(3))
  have size: "size S \<le> size (mset (stored_records enc args sites))" if "?R (mset (stored_records enc args sites)) S" for S
    using that by (simp add: aggregates_def)
  have small: "size (mset (stored_records enc args sites)) \<le> 2 ^ 63" using assms(14) by simp
  obtain mem S where mem: "recv_memory (me_lnf_mem M) \<lparr>rec_buff = junk, slave_threads_cnt = length (concat (map site_messages srs))\<rparr>
      TAG_AGGR (mo_init (me_lnf_mem M) calls) msgs = Some (Ret mem)"
    "holds mem S" "?R (mset (stored_records enc args sites)) S"
    using mem_received[where R = ?R and msgs = msgs, OF assms(9,10) _ assms(12) ne size small] sent by blast
  have ok: "mo_ok (me_lnf_mem M) = (\<lambda>_. True)" using assms(9) by (simp add: mem_ops_ok_def)
  have "master_main_thread L M args junk (total_threads srs) msgs out = Some (Ret (me_print_batch M mem (rec_limit args) out1))"
    using mem(1) sent assms(1-3,7,8,13)
    by (simp add: master_main_thread_def master_ctx_init_def aggr_main_raw_def ok Let_def)
  moreover have "mset (mo_raw (me_lnf_mem M) mem) = aggr S" "sorted (map key (mo_raw (me_lnf_mem M) mem))"
    using assms(11) mem(2) by (simp_all add: hash_law_def)
  ultimately show ?thesis using mem(3) by (auto simp: aggregates_def)
qed

subsection \<open>Instances\<close>

text \<open>Memories as lists: one keeps the records, one each record once.  The process has one file of three records.\<close>

definition mem_fits :: "byte list list \<Rightarrow> bool" where
  "mem_fits m \<longleftrightarrow> length m \<le> 2 ^ 63 \<and> (\<forall>r\<in>set m. length r + 4 \<le> XCHG_BUFF_SIZE)"

definition first_byte :: "byte list \<Rightarrow> nat" where
  "first_byte r = unat (hd r)"

definition sample_list_ops :: "byte list list mem_ops" where
  "sample_list_ops = one_mem_ops\<lparr>mo_write_raw := (\<lambda>m r. Some (r # m)), mo_sort := linorder_class.sort_key first_byte,
     mo_raw := (\<lambda>m. if mem_fits m then m else []), mo_max_raw_len := XCHG_BUFF_SIZE - 4\<rparr>"

definition sample_hash_ops :: "byte list list mem_ops" where
  "sample_hash_ops = one_mem_ops\<lparr>mo_write_raw := (\<lambda>m r. Some (List.insert r m)),
     mo_raw := (\<lambda>m. if mem_fits m then linorder_class.sort_key first_byte m else []), mo_max_raw_len := XCHG_BUFF_SIZE - 4\<rparr>"

definition list_holds :: "byte list list \<Rightarrow> byte list multiset \<Rightarrow> bool" where
  "list_holds m W \<longleftrightarrow> mset m = W \<and> mem_fits m"

definition hash_holds :: "byte list list \<Rightarrow> byte list multiset \<Rightarrow> bool" where
  "hash_holds m W \<longleftrightarrow> set m = set_mset W \<and> distinct m \<and> mem_fits m"

definition once :: "byte list multiset \<Rightarrow> byte list multiset" where
  "once W = mset_set (set_mset W)"

definition mem_env :: "byte list list mem_ops \<Rightarrow> (byte, byte list list) slave_env" where
  "mem_env mo = one_file_env\<lparr>se_lnf_mem := mo, se_mem_write := (\<lambda>r m. mo_write_raw mo m [r])\<rparr>"

definition mem_site :: "byte list list mem_ops \<Rightarrow> (byte, byte list list) site" where
  "mem_site mo = one_site\<lparr>st_env := mem_env mo\<rparr>"

definition mem_args :: "working_mode \<Rightarrow> cmdline_args" where
  "mem_args md = one_file_args\<lparr>working_mode := md, ca_fields := sample_key_fields, output_params := pretty_params\<rparr>"

definition mem_master :: "byte list list mem_ops \<Rightarrow> (byte list list, byte list list) master_env" where
  "mem_master mo = one_master\<lparr>me_lnf_mem := mo\<rparr>"

lemma sample_ops_ok: "mem_ops_ok sample_list_ops" "mem_ops_ok sample_hash_ops"
  by (auto simp: mem_ops_ok_def sample_list_ops_def sample_hash_ops_def one_mem_ops_def sample_read_ok send_params_ok_def
      mem_fits_def XCHG_BUFF_SIZE_def)

lemma mem_fits_Cons: "mem_fits m \<Longrightarrow> length m < 2 ^ 63 \<Longrightarrow> length r + 4 \<le> XCHG_BUFF_SIZE \<Longrightarrow> mem_fits (r # m)"
  by (simp add: mem_fits_def)

lemma hash_holds_size:
  assumes "hash_holds m W"
  shows "length m \<le> size W"
proof -
  have "length m = card (set_mset W)" using assms by (metis distinct_card hash_holds_def)
  also have "\<dots> = size (mset_set (set_mset W))" by simp
  also have "\<dots> \<le> size W" by (rule size_mset_mono) (rule mset_set_set_mset_msubset)
  finally show ?thesis .
qed

lemma list_holds_write:
  "list_holds m W \<Longrightarrow> size W < 2 ^ 63 \<Longrightarrow> length r + 4 \<le> XCHG_BUFF_SIZE \<Longrightarrow> list_holds (r # m) (add_mset r W)"
  using mem_fits_Cons by (auto simp: list_holds_def)

lemma hash_holds_write:
  assumes "hash_holds m W" "size W < 2 ^ 63" "length r + 4 \<le> XCHG_BUFF_SIZE"
  shows "hash_holds (List.insert r m) (add_mset r W)"
  using assms mem_fits_Cons[of m r] hash_holds_size[OF assms(1)] by (auto simp: hash_holds_def List.insert_def)

lemma sample_list_laws:
  "write_law sample_list_ops list_holds calls" "store_law (mem_env sample_list_ops) list_holds (\<lambda>r. [r])"
  "list_law sample_list_ops list_holds first_byte"
proof -
  have "list_holds [] {#}" by (simp add: list_holds_def mem_fits_def)
  then show "write_law sample_list_ops list_holds calls"
    using list_holds_write by (simp add: write_law_def sample_list_ops_def one_mem_ops_def)
  show "store_law (mem_env sample_list_ops) list_holds (\<lambda>r. [r])"
    using list_holds_write by (simp add: store_law_def mem_env_def sample_list_ops_def XCHG_BUFF_SIZE_def)
  have "mem_fits (linorder_class.sort_key first_byte m) = mem_fits m" for m by (simp add: mem_fits_def)
  then show "list_law sample_list_ops list_holds first_byte"
    by (simp add: list_law_def list_holds_def sample_list_ops_def)
qed

lemma sample_hash_laws:
  "write_law sample_hash_ops hash_holds calls" "store_law (mem_env sample_hash_ops) hash_holds (\<lambda>r. [r])"
  "hash_law sample_hash_ops hash_holds once first_byte" "aggr_law once"
proof -
  have "hash_holds [] {#}" by (simp add: hash_holds_def mem_fits_def)
  then show "write_law sample_hash_ops hash_holds calls"
    using hash_holds_write by (simp add: write_law_def sample_hash_ops_def one_mem_ops_def)
  show "store_law (mem_env sample_hash_ops) hash_holds (\<lambda>r. [r])"
    using hash_holds_write by (simp add: store_law_def mem_env_def sample_hash_ops_def XCHG_BUFF_SIZE_def)
  show "hash_law sample_hash_ops hash_holds once first_byte"
    by (auto simp: hash_law_def hash_holds_def sample_hash_ops_def once_def mset_set_set[symmetric])
  have "size (once W) \<le> size W" for W unfolding once_def by (rule size_mset_mono) (rule mset_set_set_mset_msubset)
  then show "aggr_law once" by (simp add: aggr_law_def once_def)
qed

text \<open>A process with one file and one thread, in any environment that reads fields like \<open>one_file_env\<close>.\<close>

lemma env_args_ok:
  assumes "slave_env_ok E" "se_rec_fget E = se_rec_fget one_file_env" "md \<in> {MODE_SORT, MODE_AGGR}"
    and a: "a = (mem_args md)\<lparr>use_tput := b\<rparr>"
  shows "site_safe sample_libnf a (\<lambda>r. {}) (one_site\<lparr>st_env := E\<rparr>)" "site_paths a (one_site\<lparr>st_env := E\<rparr>) = [''f'']"
proof -
  have one: "slave_args_ok sample_libnf one_file_args" "get_sizes_ok one_file_env one_file_args"
    using one_file_slave_ok by (simp_all add: slave_ok_def)
  have args: "ca_fields a = sample_key_fields" "use_tput a = b" "rec_limit a = 2" "filter_str a = None" "working_mode a = md"
    "use_bfindex a = False" "ca_paths a = [''f'']"
    by (simp_all add: a mem_args_def one_file_args_def zero_args_def)
  have keys: "0 < aggr_keys_cnt sample_key_fields" "sk_field (fields.sort_key sample_key_fields) \<noteq> None"
    "sk_direction (fields.sort_key sample_key_fields) = lnf sample_libnf LNF_SORT_DESC"
    by (simp_all add: sample_key_fields_def sample_fields_defs sample_libnf_def)
  have same: "all_flds sample_key_fields = all_flds (ca_fields one_file_args)" "all_cnt sample_key_fields = all_cnt (ca_fields one_file_args)"
    "all_sizes_sum sample_key_fields = all_sizes_sum (ca_fields one_file_args)"
    by (simp_all add: sample_key_fields_def one_file_args_def sample_sort_fields_def)
  have "slave_args_ok sample_libnf a"
    using one(1) keys assms(3) sample_key_fields_inv unfolding slave_args_ok_def args same sort_direction_known_def by auto
  moreover have "get_sizes_ok E a" using one(2) by (simp add: get_sizes_ok_def args same assms(2))
  ultimately have ok: "slave_ok sample_libnf E a" using assms(1) by (simp add: slave_ok_def filter_ok_def args)
  obtain pa where pa: "path_array_gen (st_fs (one_site\<lparr>st_env := E\<rparr>)) (st_tz (one_site\<lparr>st_env := E\<rparr>)) (ca_paths a)
      (time_begin a) (time_end a) = Some (Ret (Some pa))" "pa_used pa = [''f'']"
    using one_file_paths[of "st_tz one_site"] by (auto simp: args(7) one_site_def)
  show paths: "site_paths a (one_site\<lparr>st_env := E\<rparr>) = [''f'']" using pa by (simp add: site_paths_def)
  have "index_safe E (\<lambda>r. {}) a n" for n
    by (simp add: index_safe_def filter_addrs_def index_complete_def args)
  then show "site_safe sample_libnf a (\<lambda>r. {}) (one_site\<lparr>st_env := E\<rparr>)"
    using ok pa(1) unfolding site_ok_def paths
    by (simp add: flow_path_ok_def one_site_def one_file_team_ok)
qed

lemma env_site_run:
  assumes "slave_env_ok E" "se_rec_fget E = se_rec_fget one_file_env" "md \<in> {MODE_SORT, MODE_AGGR}"
    and "a = (mem_args md)\<lparr>use_tput := b\<rparr>"
  shows "\<exists>sr out. list_all2 (\<lambda>s sr. site_safe sample_libnf a (\<lambda>r. {}) s \<and> site_main sample_libnf a s = Some (Ret sr))
      [one_site\<lparr>st_env := E\<rparr>] [sr] \<and> concat (map site_messages [sr]) = [out] \<and> total_threads [sr] = 1"
proof -
  let ?s = "one_site\<lparr>st_env := E\<rparr>"
  have ok: "site_safe sample_libnf a (\<lambda>r. {}) ?s" by (rule env_args_ok[OF assms])
  obtain pa where pa: "path_array_gen (st_fs ?s) (st_tz ?s) (ca_paths a) (time_begin a) (time_end a) = Some (Ret (Some pa))"
    using ok by (auto simp: site_ok_def)
  have p: "site_paths a ?s = pa_used pa" using pa by (simp add: site_paths_def)
  have s: "slave_ok sample_libnf (st_env ?s) a" "\<forall>p\<in>set (pa_used pa). flow_path_ok p" "0 < st_max_threads ?s"
    "team_ok (st_omp_zero ?s) (st_max_threads ?s) (pa_used pa) (st_team ?s)"
    "index_safe (st_env ?s) (\<lambda>r. {}) a (length (st_team ?s))"
    using ok p by (simp_all add: site_ok_def)
  obtain sr where main: "slave_main sample_libnf (st_env ?s) (st_fs ?s) (st_tz ?s) a (st_omp_zero ?s) (st_max_threads ?s) (st_team ?s)
      = Some (Ret sr)" "length (sr_results sr) = sr_threads sr" using slave_main_Ret[OF s(1) pa s(2-4)] by blast
  have "list_all2 (\<lambda>th tr. True) (st_team ?s) (sr_results sr)"
    by (rule slave_main_each[where P = "\<lambda>files tr. True", OF s(1) pa s(2,4,5) main(1)]) simp
  from list_all2_lengthD[OF this] have one: "length (sr_results sr) = 1" by (simp add: one_site_def one_file_team_def)
  then obtain out where "concat (map site_messages [sr]) = [out]" by (cases "sr_results sr") (auto simp: site_messages_def)
  moreover have "site_main sample_libnf a ?s = Some (Ret sr)" using main(1) by (simp add: site_main_def)
  ultimately show ?thesis using ok main(2) one by (auto simp: total_threads_def)
qed

lemma arrives_one: "arrives [ms] ms"
proof -
  have "arrives [[] :: 'a list] []" by (rule arrives_done) simp
  then have "arrives [ms] (ms @ [])" by (intro arrives_prefix[of 0 "[ms]" ms "[]" "[]"]) simp_all
  then show ?thesis by simp
qed

lemma mem_env_parts:
  assumes "mem_ops_ok mo"
  shows "slave_env_ok (mem_env mo)" "se_rec_fget (mem_env mo) = se_rec_fget one_file_env"
    "mem_args md = (mem_args md)\<lparr>use_tput := False\<rparr>"
proof -
  have "slave_env_ok one_file_env" using one_file_slave_ok by (simp add: slave_ok_def)
  then show "slave_env_ok (mem_env mo)"
    using assms by (simp add: slave_env_ok_def mem_env_def mem_ops_ok_def)
qed (simp_all add: mem_env_def mem_args_def one_file_args_def zero_args_def)

lemma mem_args_ok:
  assumes "mem_ops_ok mo" "md \<in> {MODE_SORT, MODE_AGGR}"
  shows "site_safe sample_libnf (mem_args md) (\<lambda>r. {}) (mem_site mo)" "site_paths (mem_args md) (mem_site mo) = [''f'']"
  using env_args_ok[OF mem_env_parts(1,2)[OF assms(1)] assms(2) mem_env_parts(3)[OF assms(1)]] unfolding mem_site_def by simp_all

lemma mem_site_run:
  assumes "mem_ops_ok mo" "md \<in> {MODE_SORT, MODE_AGGR}"
  shows "\<exists>sr ms. list_all2 (\<lambda>s sr. site_safe sample_libnf (mem_args md) (\<lambda>r. {}) s
        \<and> site_main sample_libnf (mem_args md) s = Some (Ret sr)) [mem_site mo] [sr]
    \<and> arrives (concat (map site_messages [sr])) ms \<and> 0 < total_threads [sr]"
proof -
  obtain sr out where "list_all2 (\<lambda>s sr. site_safe sample_libnf (mem_args md) (\<lambda>r. {}) s
      \<and> site_main sample_libnf (mem_args md) s = Some (Ret sr)) [mem_site mo] [sr]"
    "concat (map site_messages [sr]) = [out]" "total_threads [sr] = 1"
    using env_site_run[OF mem_env_parts(1,2)[OF assms(1)] assms(2) mem_env_parts(3)[OF assms(1)]]
    unfolding mem_site_def by blast
  then show ?thesis using arrives_one[of out] by (intro exI[of _ sr] exI[of _ out]) simp
qed

lemma mem_site_records:
  assumes "mem_ops_ok mo" "md \<in> {MODE_SORT, MODE_AGGR}"
  shows "stored_records (\<lambda>r. [r]) (mem_args md) [mem_site mo] = [[1], [2], [3]]"
  by (simp add: stored_records_def mem_args_ok(2)[OF assms])
    (simp add: stored_def matching_def thread_cfg_def mem_site_def mem_env_def one_file_env_def query_filter_def
      mem_args_def one_file_args_def zero_args_def)

lemma sample_mem_calls:
  "\<exists>calls. libnf_mem_init_list sample_libnf (\<lambda>_. True) (ca_fields (mem_args md)) = Ret calls"
  "\<exists>calls. libnf_mem_init_ht sample_libnf (\<lambda>_. True) (ca_fields (mem_args md)) = Ret calls"
proof -
  have f: "ca_fields (mem_args md) = sample_key_fields" by (simp add: mem_args_def)
  have k: "0 < aggr_keys_cnt sample_key_fields" "sk_field (fields.sort_key sample_key_fields) \<noteq> None"
    by (simp_all add: sample_key_fields_def sample_fields_defs)
  show "\<exists>calls. libnf_mem_init_list sample_libnf (\<lambda>_. True) (ca_fields (mem_args md)) = Ret calls"
    using init_list_exact[OF sample_libnf_ok sample_key_fields_inv k(2)] unfolding f by blast
  show "\<exists>calls. libnf_mem_init_ht sample_libnf (\<lambda>_. True) (ca_fields (mem_args md)) = Ret calls"
    using init_ht_exact[OF sample_libnf_ok sample_key_fields_inv k(1)
        can_use_fast_aggr_eq[OF sample_libnf_ok sample_fast sample_key_fields_inv]] unfolding f by blast
qed

lemma mem_master_parts:
  "me_malloc (mem_master mo)" "me_output_init (mem_master mo) [] = Ret []" "me_lnf_mem (mem_master mo) = mo"
  by (simp_all add: mem_master_def one_master_def)

theorem sort_query_exact_witness:
  "\<exists>sr ms mem all. site_main sample_libnf (mem_args MODE_SORT) (mem_site sample_list_ops) = Some (Ret sr)
    \<and> arrives (concat (map site_messages [sr])) ms
    \<and> master_main_thread sample_libnf (mem_master sample_list_ops) (mem_args MODE_SORT) sample_bufs (total_threads [sr]) (\<lambda>tag. ms) []
        = Some (Ret (me_print_batch (mem_master sample_list_ops) mem 2 []))
    \<and> mset all = {#[1], [2], [3]#} \<and> sorted (map first_byte all)
    \<and> take 2 (mo_raw sample_list_ops mem) = take 2 all"
proof -
  obtain calls where calls: "libnf_mem_init_list sample_libnf (\<lambda>_. True) (ca_fields (mem_args MODE_SORT)) = Ret calls"
    using sample_mem_calls(1) by blast
  obtain sr ms where run: "list_all2 (\<lambda>s sr. site_safe sample_libnf (mem_args MODE_SORT) (\<lambda>r. {}) s
        \<and> site_main sample_libnf (mem_args MODE_SORT) s = Some (Ret sr)) [mem_site sample_list_ops] [sr]"
    "arrives (concat (map site_messages [sr])) ((\<lambda>tag. ms) TAG_SORT)" "0 < total_threads [sr]"
    using mem_site_run[OF sample_ops_ok(1), of MODE_SORT] by auto
  have sites: "\<forall>s\<in>set [mem_site sample_list_ops]. site_mem_ok list_holds (\<lambda>r. [r]) calls s
      \<and> list_law (se_lnf_mem (st_env s)) list_holds first_byte"
    using sample_list_laws by (simp add: site_mem_ok_def mem_site_def mem_env_def)
  have recs: "stored_records (\<lambda>r. [r]) (mem_args MODE_SORT) [mem_site sample_list_ops] = [[1], [2], [3]]"
    by (rule mem_site_records[OF sample_ops_ok(1)]) simp
  have small: "length (stored_records (\<lambda>r. [r]) (mem_args MODE_SORT) [mem_site sample_list_ops]) \<le> 2 ^ 63" by (simp add: recs)
  have args: "working_mode (mem_args MODE_SORT) = MODE_SORT" "rec_limit (mem_args MODE_SORT) = 2"
    by (simp_all add: mem_args_def one_file_args_def)
  note m = mem_master_parts[of sample_list_ops]
  have master: "mem_ops_ok (me_lnf_mem (mem_master sample_list_ops))"
    "write_law (me_lnf_mem (mem_master sample_list_ops)) list_holds calls"
    "list_law (me_lnf_mem (mem_master sample_list_ops)) list_holds first_byte"
    unfolding m(3) by (rule sample_ops_ok sample_list_laws)+
  from sort_query_exact[where addrs = "\<lambda>r. {}" and sites = "[mem_site sample_list_ops]" and srs = "[sr]" and holds = list_holds
      and enc = "\<lambda>r. [r]" and key = first_byte and M = "mem_master sample_list_ops" and out = "[]" and msgs = "\<lambda>tag. ms"
      and junk = sample_bufs, OF args(1) calls run(1) sites m(1,2) master run(2,3) small]
  show ?thesis using run(1,2) unfolding recs args(2) m(3) by auto
qed

theorem aggr_query_exact_witness:
  "\<exists>sr ms mem. site_main sample_libnf (mem_args MODE_AGGR) (mem_site sample_hash_ops) = Some (Ret sr)
    \<and> arrives (concat (map site_messages [sr])) ms
    \<and> master_main_thread sample_libnf (mem_master sample_hash_ops) (mem_args MODE_AGGR) sample_bufs (total_threads [sr]) (\<lambda>tag. ms) []
        = Some (Ret (me_print_batch (mem_master sample_hash_ops) mem 2 []))
    \<and> mset (mo_raw sample_hash_ops mem) = {#[1], [2], [3]#} \<and> sorted (map first_byte (mo_raw sample_hash_ops mem))"
proof -
  obtain calls where calls: "libnf_mem_init_ht sample_libnf (\<lambda>_. True) (ca_fields (mem_args MODE_AGGR)) = Ret calls"
    using sample_mem_calls(2) by blast
  obtain sr ms where run: "list_all2 (\<lambda>s sr. site_safe sample_libnf (mem_args MODE_AGGR) (\<lambda>r. {}) s
        \<and> site_main sample_libnf (mem_args MODE_AGGR) s = Some (Ret sr)) [mem_site sample_hash_ops] [sr]"
    "arrives (concat (map site_messages [sr])) ((\<lambda>tag. ms) TAG_AGGR)" "0 < total_threads [sr]"
    using mem_site_run[OF sample_ops_ok(2), of MODE_AGGR] by auto
  have sites: "\<forall>s\<in>set [mem_site sample_hash_ops]. site_mem_ok hash_holds (\<lambda>r. [r]) calls s
      \<and> hash_law (se_lnf_mem (st_env s)) hash_holds once first_byte"
    using sample_hash_laws by (simp add: site_mem_ok_def mem_site_def mem_env_def)
  have recs: "stored_records (\<lambda>r. [r]) (mem_args MODE_AGGR) [mem_site sample_hash_ops] = [[1], [2], [3]]"
    by (rule mem_site_records[OF sample_ops_ok(2)]) simp
  have small: "length (stored_records (\<lambda>r. [r]) (mem_args MODE_AGGR) [mem_site sample_hash_ops]) \<le> 2 ^ 63" by (simp add: recs)
  have args: "working_mode (mem_args MODE_AGGR) = MODE_AGGR" "\<not> use_tput (mem_args MODE_AGGR)" "rec_limit (mem_args MODE_AGGR) = 2"
    by (simp_all add: mem_args_def one_file_args_def zero_args_def)
  have o: "once {#[1], [2], [3]#} = {#[1], [2], [3 :: byte]#}" by (simp add: once_def)
  note m = mem_master_parts[of sample_hash_ops]
  have master: "mem_ops_ok (me_lnf_mem (mem_master sample_hash_ops))"
    "write_law (me_lnf_mem (mem_master sample_hash_ops)) hash_holds calls"
    "hash_law (me_lnf_mem (mem_master sample_hash_ops)) hash_holds once first_byte"
    unfolding m(3) by (rule sample_ops_ok sample_hash_laws)+
  from aggr_query_exact[where addrs = "\<lambda>r. {}" and sites = "[mem_site sample_hash_ops]" and srs = "[sr]" and holds = hash_holds
      and enc = "\<lambda>r. [r]" and aggr = once and key = first_byte and M = "mem_master sample_hash_ops" and out = "[]"
      and msgs = "\<lambda>tag. ms" and junk = sample_bufs, OF args(1,2) calls run(1) sample_hash_laws(4) sites m(1,2) master run(2,3) small]
  show ?thesis using run(1,2) o unfolding recs args(3) m(3) by auto
qed

end
