(* ===== verification/Output_Str.thy ===== *)
theory Output_Str
  imports Cmdline_Args Decimal Double Wire
begin

text \<open>
  Field values as text: the \<open>to_str\<close> functions of \<open>src/output.c\<close> and the
  widths they are expected to need.

  A function reads a value from the bytes of a field, in host (little-endian) order;
  reading past them is \<open>Out_Of_Bounds\<close>.  A double is a fraction \<open>p / 2 ^ k\<close> with a sign,
  an infinity or no number.  The time zone (\<open>localtime_r\<close>) and the layout of libnf's basic
  record are parameters.
\<close>

definition MAX_STR_LEN :: nat where "MAX_STR_LEN = 1024"
definition CSV_SEP :: char where "CSV_SEP = CHR '',''"
definition TCP_FLAG_UNSET_CHAR :: char where "TCP_FLAG_UNSET_CHAR = CHR ''.''"
definition METRIC_PREFIX_THRESHOLD :: nat where "METRIC_PREFIX_THRESHOLD = 1000"
definition BINARY_PREFIX_THRESHOLD :: nat where "BINARY_PREFIX_THRESHOLD = 1024"

definition ip_proto_str_table :: "string list" where
  "ip_proto_str_table =
    [''HOPOPT'', ''ICMP'', ''IGMP'', ''GGP'', ''IPv4'', ''ST'', ''TCP'', ''CBT'', ''EGP'', ''IGP'',
      ''BBN-RCC-MON'', ''NVP-II'', ''PUP'', ''ARGUS'', ''EMCON'', ''XNET'', ''CHAOS'', ''UDP'', ''MUX'',
      ''DCN-MEAS'', ''HMP'', ''PRM'', ''XNS-IDP'', ''TRUNK-1'', ''TRUNK-2'', ''LEAF-1'', ''LEAF-2'',
      ''RDP'', ''IRTP'', ''ISO-TP4'', ''NETBLT'', ''MFE-NSP'', ''MERIT-INP'', ''DCCP'', ''3PC'',
      ''IDPR'', ''XTP'', ''DDP'', ''IDPR-CMTP'', ''TP++'', ''IL'', ''IPv6'', ''SDRP'', ''IPv6-Route'',
      ''IPv6-Frag'', ''IDRP'', ''RSVP'', ''GRE'', ''DSR'', ''BNA'', ''ESP'', ''AH'', ''I-NLSP'',
      ''SWIPE'', ''NARP'', ''MOBILE'', ''TLSP'', ''SKIP'', ''IPv6-ICMP'', ''IPv6-NoNxt'', ''IPv6-Opts'',
      ''any host internal protocol'', ''CFTP'', ''any local network'', ''SAT-EXPAK'', ''KRYPTOLAN'',
      ''RVD'', ''IPPC'', ''any distributed file system'', ''SAT-MON'', ''VISA'', ''IPCV'', ''CPNX'',
      ''CPHB'', ''WSN'', ''PVP'', ''BR-SAT-MON'', ''SUN-ND'', ''WB-MON'', ''WB-EXPAK'', ''ISO-IP'',
      ''VMTP'', ''SECURE-VMTP'', ''VINES'', ''TTP/IPTM'', ''NSFNET-IGP'', ''DGP'', ''TCF'', ''EIGRP'',
      ''OSPFIGP'', ''Sprite-RPC'', ''LARP'', ''MTP'', ''AX.25'', ''IPIP'', ''MICP'', ''SCC-SP'',
      ''ETHERIP'', ''ENCAP'', ''any private encryption'', ''GMTP'', ''IFMP'', ''PNNI'', ''PIM'',
      ''ARIS'', ''SCPS'', ''QNX'', ''A/N'', ''IPComp'', ''SNP'', ''Compaq-Peer'', ''IPX-in-IP'',
      ''VRRP'', ''PGM'', ''any 0-hop protocol'', ''L2TP'', ''DDX'', ''IATP'', ''STP'', ''SRP'', ''UTI'',
      ''SMP'', ''SM'', ''PTP'', ''ISIS over IPv4'', ''FIRE'', ''CRTP'', ''CRUDP'', ''SSCOPMCE'',
      ''IPLT'', ''SPS'', ''PIPE'', ''SCTP'', ''FC'', ''RSVP-E2E-IGNORE'', ''Mobility Header'',
      ''UDPLite'', ''MPLS-in-IP'', ''manet'', ''HIP'', ''Shim6'', ''WESP'', ''ROHC'']"

text \<open>The table by number, with the entries behind its gap.\<close>

definition ip_proto_entry :: "nat \<Rightarrow> string option" where
  "ip_proto_entry n =
     (if n < length ip_proto_str_table then Some (ip_proto_str_table ! n)
      else if n = 253 \<or> n = 254 then Some ''experimentation and testing''
      else if n = 255 then Some ''Reserved''
      else None)"

definition decimal_unit_table :: "string list" where
  "decimal_unit_table = ['' '', ''k'', ''M'', ''G'', ''T'', ''P'', ''E'', ''Z'', ''Y'']"

definition binary_unit_table :: "string list" where
  "binary_unit_table = [''  '', ''Ki'', ''Mi'', ''Gi'', ''Ti'', ''Pi'', ''Ei'', ''Zi'', ''Yi'']"

definition tcp_flags_table :: "char list" where
  "tcp_flags_table = [CHR ''C'', CHR ''E'', CHR ''U'', CHR ''A'', CHR ''P'', CHR ''R'', CHR ''S'', CHR ''F'']"

subsection \<open>Reading values\<close>

fun le_nat :: "byte list \<Rightarrow> nat" where
  "le_nat [] = 0"
| "le_nat (b # bs) = unat b + 256 * le_nat bs"

definition read_uint :: "nat \<Rightarrow> byte list \<Rightarrow> nat res" where
  "read_uint n bs = (if length bs < n then Out_Of_Bounds else Ret (le_nat (take n bs)))"

text \<open>A number in network order, as \<open>ntohl\<close> gives it.\<close>

definition be_nat :: "byte list \<Rightarrow> nat" where
  "be_nat bs = le_nat (rev bs)"

datatype cdouble = D_Fin bool nat nat | D_Inf bool | D_NaN bool

definition double_bits :: "nat \<Rightarrow> cdouble" where
  "double_bits n =
     (let s = n div 2 ^ 63 mod 2 = 1; e = n div 2 ^ 52 mod 2048; m = n mod 2 ^ 52 in
      if e = 2047 then (if m = 0 then D_Inf s else D_NaN s)
      else if e = 0 then D_Fin s m 1074
      else if e \<le> 1075 then D_Fin s (2 ^ 52 + m) (1075 - e)
      else D_Fin s ((2 ^ 52 + m) * 2 ^ (e - 1075)) 0)"

text \<open>\<open>%.<d>f\<close>: a number of units of the last decimal, and a double.\<close>

definition fixed_text :: "nat \<Rightarrow> nat \<Rightarrow> string" where
  "fixed_text d t = dec (t div 10 ^ d) @ ''.'' @ zpad d (dec (t mod 10 ^ d))"

fun fmt_fixed :: "nat \<Rightarrow> cdouble \<Rightarrow> string" where
  "fmt_fixed d (D_Fin s p k) =
     (if s then ''-'' else []) @ fixed_text d (rne (p * 10 ^ d) (2 ^ k))"
| "fmt_fixed d (D_Inf s) = (if s then ''-inf'' else ''inf'')"
| "fmt_fixed d (D_NaN s) = (if s then ''-nan'' else ''nan'')"

fun exceeds :: "nat \<Rightarrow> cdouble \<Rightarrow> bool" where
  "exceeds t (D_Fin s p k) \<longleftrightarrow> \<not> s \<and> t * 2 ^ k < p"
| "exceeds t (D_Inf s) \<longleftrightarrow> \<not> s"
| "exceeds t (D_NaN s) \<longleftrightarrow> False"

fun double_scale :: "nat \<Rightarrow> cdouble \<Rightarrow> cdouble" where
  "double_scale t (D_Fin s p k) = (case double_div p (t * 2 ^ k) of (p', k') \<Rightarrow> D_Fin s p' k')"
| "double_scale t x = x"

text \<open>\<open>snprintf\<close> into \<open>global_str\<close>.\<close>

definition global_str :: "string \<Rightarrow> string res" where
  "global_str s = Ret (take (MAX_STR_LEN - 1) s)"

text \<open>\<open>SNPRINTF_APPEND\<close>: the text so far and the bytes that remain.\<close>

definition snprintf_append :: "string \<Rightarrow> string \<times> nat \<Rightarrow> string \<times> nat" where
  "snprintf_append s st =
     (case st of (str, remaining) \<Rightarrow>
        if length s \<ge> remaining then (str @ take (remaining - 1) s, 0) else (str @ s, remaining - length s))"

subsection \<open>Timestamps\<close>

definition date_time :: "tm \<Rightarrow> string" where
  "date_time t = dec_int (tm_year t + 1900) @ ''-'' @ zpad 2 (dec_int (tm_mon t + 1)) @ ''-'' @ zpad 2 (dec_int (tm_mday t))
     @ '' '' @ zpad 2 (dec_int (tm_hour t)) @ '':'' @ zpad 2 (dec_int (tm_min t)) @ '':'' @ zpad 2 (dec_int (tm_sec t))"

definition timestamp_to_str :: "(int \<Rightarrow> tm option) \<Rightarrow> output_params \<Rightarrow> byte list \<Rightarrow> string res" where
  "timestamp_to_str localtime_r P data =
     res_bind (read_uint 8 data) (\<lambda>ts.
     case ts_conv P of
       OUTPUT_TS_CONV_NONE \<Rightarrow> global_str (dec ts)
     | OUTPUT_TS_CONV_PRETTY \<Rightarrow>
         (case localtime_r (int (ts div 1000)) of
            None \<Rightarrow> Abort E_INTERNAL
          | Some broken_down_time \<Rightarrow>
              (let s = date_time broken_down_time in
               assert_then (length s < MAX_STR_LEN) (global_str (s @ ''.'' @ zpad 3 (dec (ts mod 1000))))))
     | OUTPUT_TS_CONV_UNSET \<Rightarrow> Abort E_INTERNAL)"

definition timestamp_to_str_strlen :: "output_params \<Rightarrow> nat res" where
  "timestamp_to_str_strlen P =
     (case ts_conv P of
        OUTPUT_TS_CONV_NONE \<Rightarrow> Ret (length (dec (2 ^ 64 - 1)))
      | OUTPUT_TS_CONV_PRETTY \<Rightarrow> Ret (length ''YYYY-MM-DD HH:mm:ss.mls'')
      | OUTPUT_TS_CONV_UNSET \<Rightarrow> Abort E_INTERNAL)"

subsection \<open>Volumes\<close>

function scale_volume :: "nat \<Rightarrow> nat \<Rightarrow> cdouble \<Rightarrow> nat \<Rightarrow> cdouble \<times> nat" where
  "scale_volume threshold table_size volume unit_table_idx =
     (if exceeds threshold volume \<and> unit_table_idx + 1 < table_size
      then scale_volume threshold table_size (double_scale threshold volume) (unit_table_idx + 1)
      else (volume, unit_table_idx))"
  by pat_completeness auto
termination
  by (relation "measure (\<lambda>(t, n, v, i). n - i)") auto

declare scale_volume.simps [simp del]

definition prefixed_volume :: "nat \<Rightarrow> string list \<Rightarrow> cdouble \<Rightarrow> string" where
  "prefixed_volume threshold unit_table volume =
     (case scale_volume threshold (length unit_table) volume 0 of
        (v, idx) \<Rightarrow> fmt_fixed 1 v @ '' '' @ unit_table ! idx)"

definition double_volume_conv :: "output_params \<Rightarrow> cdouble \<Rightarrow> string res" where
  "double_volume_conv P volume =
     (case volume_conv P of
        OUTPUT_VOLUME_CONV_NONE \<Rightarrow> global_str (fmt_fixed 1 volume)
      | OUTPUT_VOLUME_CONV_METRIC_PREFIX \<Rightarrow> global_str (prefixed_volume METRIC_PREFIX_THRESHOLD decimal_unit_table volume)
      | OUTPUT_VOLUME_CONV_BINARY_PREFIX \<Rightarrow> global_str (prefixed_volume BINARY_PREFIX_THRESHOLD binary_unit_table volume)
      | OUTPUT_VOLUME_CONV_UNSET \<Rightarrow> Abort E_INTERNAL)"

definition double_volume_to_str :: "output_params \<Rightarrow> byte list \<Rightarrow> string res" where
  "double_volume_to_str P data = res_bind (read_uint 8 data) (\<lambda>bits. double_volume_conv P (double_bits bits))"

text \<open>One unit of the first decimal below the threshold, \<open>999.9\<close> or \<open>1023.9\<close>, and the first prefix.\<close>

definition volume_width :: "nat \<Rightarrow> string list \<Rightarrow> nat" where
  "volume_width threshold unit_table = length (fixed_text 1 (threshold * 10 - 1) @ '' '' @ unit_table ! 0)"

definition double_volume_to_str_strlen :: "output_params \<Rightarrow> nat res" where
  "double_volume_to_str_strlen P =
     (case volume_conv P of
        OUTPUT_VOLUME_CONV_NONE \<Rightarrow> Ret (length (fixed_text 1 99999999990))
      | OUTPUT_VOLUME_CONV_METRIC_PREFIX \<Rightarrow> Ret (volume_width METRIC_PREFIX_THRESHOLD decimal_unit_table)
      | OUTPUT_VOLUME_CONV_BINARY_PREFIX \<Rightarrow> Ret (volume_width BINARY_PREFIX_THRESHOLD binary_unit_table)
      | OUTPUT_VOLUME_CONV_UNSET \<Rightarrow> Abort E_INTERNAL)"

definition volume_to_str_num :: "output_params \<Rightarrow> nat \<Rightarrow> string res" where
  "volume_to_str_num P volume =
     (case volume_conv P of
        OUTPUT_VOLUME_CONV_NONE \<Rightarrow> global_str (dec volume)
      | OUTPUT_VOLUME_CONV_METRIC_PREFIX \<Rightarrow>
          global_str (prefixed_volume METRIC_PREFIX_THRESHOLD decimal_unit_table (D_Fin False (double_of volume) 0))
      | OUTPUT_VOLUME_CONV_BINARY_PREFIX \<Rightarrow>
          global_str (prefixed_volume BINARY_PREFIX_THRESHOLD binary_unit_table (D_Fin False (double_of volume) 0))
      | OUTPUT_VOLUME_CONV_UNSET \<Rightarrow> Abort E_INTERNAL)"

definition volume_to_str :: "output_params \<Rightarrow> byte list \<Rightarrow> string res" where
  "volume_to_str P data = res_bind (read_uint 8 data) (volume_to_str_num P)"

definition volume_to_str_strlen :: "output_params \<Rightarrow> nat res" where
  "volume_to_str_strlen P =
     (case volume_conv P of
        OUTPUT_VOLUME_CONV_NONE \<Rightarrow> Ret (length (dec (2 ^ 64 - 1)))
      | OUTPUT_VOLUME_CONV_METRIC_PREFIX \<Rightarrow> Ret (volume_width METRIC_PREFIX_THRESHOLD decimal_unit_table)
      | OUTPUT_VOLUME_CONV_BINARY_PREFIX \<Rightarrow> Ret (volume_width BINARY_PREFIX_THRESHOLD binary_unit_table)
      | OUTPUT_VOLUME_CONV_UNSET \<Rightarrow> Abort E_INTERNAL)"

subsection \<open>Flags, protocols, durations\<close>

text \<open>The masks from 128 down to 1, each with the table entry of its index.\<close>

fun flags_loop :: "8 word \<Rightarrow> 8 word \<Rightarrow> char list \<Rightarrow> string" where
  "flags_loop flags i [] = []"
| "flags_loop flags i (c # cs) =
     (if and flags i = i then c else TCP_FLAG_UNSET_CHAR) # flags_loop flags (drop_bit 1 i) cs"

definition tcp_flags_to_str :: "output_params \<Rightarrow> byte list \<Rightarrow> string res" where
  "tcp_flags_to_str P data =
     (if data = [] then Out_Of_Bounds
      else case tcp_flags_conv P of
             OUTPUT_TCP_FLAGS_CONV_NONE \<Rightarrow> global_str (dec (unat (hd data)))
           | OUTPUT_TCP_FLAGS_CONV_STR \<Rightarrow> Ret (flags_loop (hd data) 128 tcp_flags_table)
           | OUTPUT_TCP_FLAGS_CONV_UNSET \<Rightarrow> Abort E_INTERNAL)"

definition tcp_flags_to_str_strlen :: "output_params \<Rightarrow> nat res" where
  "tcp_flags_to_str_strlen P =
     (case tcp_flags_conv P of
        OUTPUT_TCP_FLAGS_CONV_NONE \<Rightarrow> Ret (length (dec 255))
      | OUTPUT_TCP_FLAGS_CONV_STR \<Rightarrow> Ret (length tcp_flags_table)
      | OUTPUT_TCP_FLAGS_CONV_UNSET \<Rightarrow> Abort E_INTERNAL)"

definition ip_proto_to_str :: "output_params \<Rightarrow> byte list \<Rightarrow> string res" where
  "ip_proto_to_str P data =
     res_bind (read_uint 1 data) (\<lambda>proto.
     case ip_proto_conv P of
       OUTPUT_IP_PROTO_CONV_NONE \<Rightarrow> global_str (dec proto)
     | OUTPUT_IP_PROTO_CONV_STR \<Rightarrow>
         Ret (case ip_proto_entry proto of None \<Rightarrow> ''Unassigned'' | Some s \<Rightarrow> s)
     | OUTPUT_IP_PROTO_CONV_UNSET \<Rightarrow> Abort E_INTERNAL)"

definition ip_proto_to_str_strlen :: "output_params \<Rightarrow> nat res" where
  "ip_proto_to_str_strlen P =
     (case ip_proto_conv P of
        OUTPUT_IP_PROTO_CONV_NONE \<Rightarrow> Ret (length (dec 255))
      | OUTPUT_IP_PROTO_CONV_STR \<Rightarrow> Ret 9
      | OUTPUT_IP_PROTO_CONV_UNSET \<Rightarrow> Abort E_INTERNAL)"

definition duration_text :: "nat \<Rightarrow> string" where
  "duration_text duration =
     (let msec = duration mod 1000; dur1 = duration div 1000;
          sec = dur1 mod 60; dur2 = dur1 div 60;
          min = dur2 mod 60; dur3 = dur2 div 60
      in zpad 2 (dec dur3) @ '':'' @ zpad 2 (dec min) @ '':'' @ zpad 2 (dec sec) @ ''.'' @ zpad 3 (dec msec))"

definition duration_to_str :: "output_params \<Rightarrow> byte list \<Rightarrow> string res" where
  "duration_to_str P data =
     res_bind (read_uint 8 data) (\<lambda>duration.
     case duration_conv P of
       OUTPUT_DURATION_CONV_NONE \<Rightarrow> global_str (dec duration)
     | OUTPUT_DURATION_CONV_STR \<Rightarrow> global_str (duration_text duration)
     | OUTPUT_DURATION_CONV_UNSET \<Rightarrow> Abort E_INTERNAL)"

definition duration_to_str_strlen :: "output_params \<Rightarrow> nat res" where
  "duration_to_str_strlen P =
     (case duration_conv P of
        OUTPUT_DURATION_CONV_NONE \<Rightarrow> Ret (length (dec (2 ^ 64 - 1)))
      | OUTPUT_DURATION_CONV_STR \<Rightarrow> Ret (length ''00:00:00.000'')
      | OUTPUT_DURATION_CONV_UNSET \<Rightarrow> Abort E_INTERNAL)"

subsection \<open>Addresses\<close>

definition hex_char :: "nat \<Rightarrow> char" where
  "hex_char d = (if d < 10 then digit_char d else char_of (87 + d))"

fun hex :: "nat \<Rightarrow> string" where
  "hex n = (if n < 16 then [hex_char n] else hex (n div 16) @ [hex_char (n mod 16)])"

declare hex.simps [simp del]

fun join :: "string \<Rightarrow> string list \<Rightarrow> string" where
  "join sep [] = []"
| "join sep [s] = s"
| "join sep (s # t # ss) = s @ sep @ join sep (t # ss)"

text \<open>
  \<open>inet_ntop\<close>: a dotted quad, and groups of hexadecimal digits in which the first of
  the longest runs of two or more zero groups becomes \<open>::\<close>.  \<open>zero_run n\<close> are the
  run's first index and length.
\<close>

definition dotted_quad :: "byte list \<Rightarrow> string" where
  "dotted_quad bs = join ''.'' (map (\<lambda>b. dec (unat b)) bs)"

definition zero_prefix :: "nat list \<Rightarrow> nat" where
  "zero_prefix ws = length (takeWhile (\<lambda>w. w = 0) ws)"

fun best_zero_run :: "nat \<Rightarrow> nat list \<Rightarrow> nat \<times> nat" where
  "best_zero_run i [] = (i, 0)"
| "best_zero_run i (w # ws) =
     (let here = zero_prefix (w # ws); (j, len) = best_zero_run (i + 1) ws in
      if len \<le> here then (i, here) else (j, len))"

definition ipv6_groups :: "byte list \<Rightarrow> nat list" where
  "ipv6_groups bs = map (\<lambda>i. be_nat (take 2 (drop (2 * i) bs))) [0..<8]"

definition inet_ntop6 :: "byte list \<Rightarrow> string" where
  "inet_ntop6 bs =
     (let ws = ipv6_groups bs; (base, len) = best_zero_run 0 ws; quad = dotted_quad (drop 12 bs) in
      if len < 2 then join '':'' (map hex ws)
      else if base = 0 \<and> len = 6 then ''::'' @ quad
      else if base = 0 \<and> len = 5 \<and> ws ! 5 = 65535 then ''::ffff:'' @ quad
      else join '':'' (map hex (take base ws)) @ ''::'' @ join '':'' (map hex (drop (base + len) ws)))"

definition addr_word :: "byte list \<Rightarrow> nat \<Rightarrow> nat" where
  "addr_word bs i = be_nat (take 4 (drop (4 * i) bs))"

definition IN6_IS_ADDR_V4COMPAT :: "byte list \<Rightarrow> bool" where
  "IN6_IS_ADDR_V4COMPAT bs \<longleftrightarrow> addr_word bs 0 = 0 \<and> addr_word bs 1 = 0 \<and> addr_word bs 2 = 0 \<and> addr_word bs 3 > 1"

definition libnf_addr_to_str :: "output_params \<Rightarrow> byte list \<Rightarrow> string res" where
  "libnf_addr_to_str P data =
     (if length data < 16 then Out_Of_Bounds
      else let addr = take 16 data in
           case ip_addr_conv P of
             OUTPUT_IP_ADDR_CONV_NONE \<Rightarrow> global_str (join '':'' (map (\<lambda>i. dec (addr_word addr i)) [0..<4]))
           | OUTPUT_IP_ADDR_CONV_STR \<Rightarrow>
               Ret (if IN6_IS_ADDR_V4COMPAT addr then dotted_quad (drop 12 addr) else inet_ntop6 addr)
           | OUTPUT_IP_ADDR_CONV_UNSET \<Rightarrow> Abort E_INTERNAL)"

definition libnf_addr_to_str_strlen :: "output_params \<Rightarrow> nat res" where
  "libnf_addr_to_str_strlen P =
     (case ip_addr_conv P of
        OUTPUT_IP_ADDR_CONV_NONE \<Rightarrow> Ret (length (join '':'' (replicate 4 (dec (2 ^ 32 - 1)))))
      | OUTPUT_IP_ADDR_CONV_STR \<Rightarrow> Ret (length ''255.255.255.255'')
      | OUTPUT_IP_ADDR_CONV_UNSET \<Rightarrow> Abort E_INTERNAL)"

definition libnf_mac_to_str :: "byte list \<Rightarrow> string res" where
  "libnf_mac_to_str data =
     (if length data < 6 then Out_Of_Bounds
      else Ret (take 17 (join '':'' (map (\<lambda>b. zpad 2 (hex (unat b))) (take 6 data)))))"

definition libnf_mac_to_str_strlen :: nat where
  "libnf_mac_to_str_strlen = length ''00:00:00:00:00:00''"

subsection \<open>Numbers and strings\<close>

definition uint_to_str :: "nat \<Rightarrow> byte list \<Rightarrow> string res" where
  "uint_to_str bytes data = res_bind (read_uint bytes data) (\<lambda>u. global_str (dec u))"

definition uint_to_str_strlen :: "nat \<Rightarrow> nat" where
  "uint_to_str_strlen bytes = length (dec (256 ^ bytes - 1))"

definition uint8_t_to_str :: "byte list \<Rightarrow> string res" where "uint8_t_to_str = uint_to_str 1"
definition uint16_t_to_str :: "byte list \<Rightarrow> string res" where "uint16_t_to_str = uint_to_str 2"
definition uint32_t_to_str :: "byte list \<Rightarrow> string res" where "uint32_t_to_str = uint_to_str 4"
definition uint64_t_to_str :: "byte list \<Rightarrow> string res" where "uint64_t_to_str = uint_to_str 8"

definition uint8_t_to_str_strlen :: nat where "uint8_t_to_str_strlen = uint_to_str_strlen 1"
definition uint16_t_to_str_strlen :: nat where "uint16_t_to_str_strlen = uint_to_str_strlen 2"
definition uint32_t_to_str_strlen :: nat where "uint32_t_to_str_strlen = uint_to_str_strlen 4"
definition uint64_t_to_str_strlen :: nat where "uint64_t_to_str_strlen = uint_to_str_strlen 8"

definition double_to_str :: "byte list \<Rightarrow> string res" where
  "double_to_str data = res_bind (read_uint 8 data) (\<lambda>bits. global_str (fmt_fixed 1 (double_bits bits)))"

definition double_to_str_strlen :: nat where
  "double_to_str_strlen = length (fixed_text 1 99999999990)"

definition string_to_str :: "byte list \<Rightarrow> string res" where
  "string_to_str data =
     (if 0 \<in> set data then global_str (map (\<lambda>b. char_of (unat b)) (takeWhile (\<lambda>b. b \<noteq> 0) data))
      else Out_Of_Bounds)"

definition string_to_str_strlen :: nat where
  "string_to_str_strlen = 10"

subsection \<open>Texts that can be split again\<close>

fun split_on :: "char \<Rightarrow> string \<Rightarrow> string list" where
  "split_on c [] = [[]]"
| "split_on c (x # xs) = (if x = c then [] # split_on c xs else (case split_on c xs of [] \<Rightarrow> [[x]] | w # ws \<Rightarrow> (x # w) # ws))"

lemma split_on_not_Nil [simp]: "split_on c s \<noteq> []"
  by (induction s) (auto split: list.split)

lemma split_on_single: "c \<notin> set s \<Longrightarrow> split_on c s = [s]"
  by (induction s) auto

lemma split_on_append: "c \<notin> set s \<Longrightarrow> split_on c (s @ c # t) = s # split_on c t"
  by (induction s) auto

lemma split_on_join: "ss \<noteq> [] \<Longrightarrow> \<forall>s\<in>set ss. c \<notin> set s \<Longrightarrow> split_on c (join [c] ss) = ss"
  by (induction "[c]" ss rule: join.induct) (simp_all add: split_on_single split_on_append)

lemma dec_set: "x \<in> set (dec n) \<Longrightarrow> is_digit x"
  using dec_digits[of n] by (auto simp: list_all_iff)

lemma zpad_set: "x \<in> set (zpad k (dec n)) \<Longrightarrow> is_digit x"
  using dec_set by (auto simp: zpad_def is_digit_def)

lemma digits_val_zpad [simp]: "digits_val (zpad k s) = digits_val s"
proof -
  have "digits_val (replicate m (CHR ''0'') @ s) = digits_val s" for m
    by (induction m) (simp_all add: digits_val_def digit_val_def)
  then show ?thesis by (simp add: zpad_def)
qed

subsection \<open>Durations and flags read back\<close>

definition duration_of_text :: "string \<Rightarrow> nat option" where
  "duration_of_text s =
     (case split_on (CHR '':'') s of
        [h, m, rest] \<Rightarrow>
          (case split_on (CHR ''.'') rest of
             [sec, msec] \<Rightarrow> Some (((digits_val h * 60 + digits_val m) * 60 + digits_val sec) * 1000 + digits_val msec)
           | _ \<Rightarrow> None)
      | _ \<Rightarrow> None)"

lemma digit_no_sep: "is_digit x \<Longrightarrow> x \<noteq> CHR '':'' \<and> x \<noteq> CHR ''.'' \<and> x \<noteq> CHR '',''"
  by (auto simp: is_digit_def)

lemma duration_of_duration_text: "duration_of_text (duration_text d) = Some d"
proof -
  let ?z = "\<lambda>k n. zpad k (dec n)"
  have c: "CHR '':'' \<notin> set (?z k n)" "CHR ''.'' \<notin> set (?z k n)" for k n
    using zpad_set digit_no_sep by blast+
  let ?rest = "?z 2 (d div 1000 mod 60) @ ''.'' @ ?z 3 (d mod 1000)"
  have "CHR '':'' \<notin> set ?rest" using c by simp
  then have s: "split_on (CHR '':'') (duration_text d) = [?z 2 (d div 1000 div 60 div 60), ?z 2 (d div 1000 div 60 mod 60), ?rest]"
    using c by (simp add: duration_text_def Let_def split_on_append split_on_single)
  have r: "split_on (CHR ''.'') ?rest = [?z 2 (d div 1000 mod 60), ?z 3 (d mod 1000)]"
    using c by (simp add: split_on_append split_on_single)
  show ?thesis unfolding duration_of_text_def s using r by simp
qed

lemma length_duration_text: "d < 2 ^ 64 \<Longrightarrow> length (duration_text d) < MAX_STR_LEN"
proof -
  assume d: "d < 2 ^ 64"
  have "d div 1000 div 60 div 60 < 10 ^ 20" using d by (simp add: div_mult2_eq[symmetric])
  then have "length (dec (d div 1000 div 60 div 60)) \<le> 20" by (rule length_dec_le) simp
  moreover have "length (dec n) \<le> 2" if "n < 60" for n using that by (intro length_dec_2) simp
  then have "length (dec (d div 1000 div 60 mod 60)) \<le> 2" "length (dec (d div 1000 mod 60)) \<le> 2" by simp_all
  moreover have "length (dec (d mod 1000)) \<le> 3" by (intro length_dec_le) simp_all
  ultimately show ?thesis by (simp add: duration_text_def Let_def MAX_STR_LEN_def)
qed

lemma le_nat_bound: "le_nat bs < 256 ^ length bs"
proof (induction bs)
  case (Cons b bs)
  have "unat b < 256" using unsigned_less[of b] by simp
  moreover have "256 * le_nat bs + 256 \<le> 256 * 256 ^ length bs" using Cons by simp
  ultimately show ?case unfolding le_nat.simps length_Cons power_Suc by linarith
qed simp

text \<open>C29: a duration printed in the pretty form can be read back: the hours, minutes, seconds and
  milliseconds of the text are the milliseconds of the field, for every 64-bit duration.\<close>

theorem duration_roundtrip:
  assumes "duration_conv P = OUTPUT_DURATION_CONV_STR" and "length data = 8"
  shows "\<exists>s. duration_to_str P data = Ret s \<and> duration_of_text s = Some (le_nat data)"
proof -
  have "le_nat data < 2 ^ 64" using le_nat_bound[of data] assms(2) by simp
  from length_duration_text[OF this] have "take (MAX_STR_LEN - 1) (duration_text (le_nat data)) = duration_text (le_nat data)"
    by simp
  then show ?thesis
    using assms duration_of_duration_text by (simp add: duration_to_str_def read_uint_def global_str_def)
qed

theorem duration_roundtrip_witness:
  "\<exists>s. duration_to_str (zero_output_params\<lparr>duration_conv := OUTPUT_DURATION_CONV_STR\<rparr>) [18, 3, 4, 5, 0, 0, 0, 0] = Ret s
    \<and> duration_of_text s = Some (le_nat [18, 3, 4, 5, 0, 0, 0, 0])"
  by (rule duration_roundtrip) simp_all

definition flags_of_text :: "string \<Rightarrow> 8 word" where
  "flags_of_text s = foldl (\<lambda>w c. or (push_bit 1 w) (if c = TCP_FLAG_UNSET_CHAR then 0 else 1)) 0 s"

lemma bit_push_one: "bit (push_bit 1 w) n \<longleftrightarrow> n < 8 \<and> 1 \<le> n \<and> bit w (n - 1)" for w :: "8 word"
  unfolding bit_push_bit_iff by (cases "n < 8") (simp_all add: not_less)

lemma bit_flags_of_text:
  "bit (flags_of_text s) n \<longleftrightarrow> n < 8 \<and> n < length s \<and> s ! (length s - 1 - n) \<noteq> TCP_FLAG_UNSET_CHAR"
proof (induction s arbitrary: n rule: rev_induct)
  case Nil
  then show ?case by (simp add: flags_of_text_def)
next
  case (snoc c s)
  have step: "flags_of_text (s @ [c]) = or (push_bit 1 (flags_of_text s)) (if c = TCP_FLAG_UNSET_CHAR then 0 else 1)"
    by (simp add: flags_of_text_def)
  show ?case
  proof (cases n)
    case 0
    then show ?thesis unfolding step bit_or_iff bit_push_one by simp
  next
    case (Suc m)
    have "bit (flags_of_text (s @ [c])) n \<longleftrightarrow> n < 8 \<and> bit (flags_of_text s) m"
      unfolding step bit_or_iff bit_push_one Suc by (simp add: bit_1_iff)
    also have "\<dots> \<longleftrightarrow> n < 8 \<and> m < length s \<and> s ! (length s - 1 - m) \<noteq> TCP_FLAG_UNSET_CHAR"
      unfolding snoc.IH using Suc by auto
    finally show ?thesis using Suc by (auto simp: nth_append)
  qed
qed

lemma mask_bit: "and (w :: 8 word) (push_bit n 1) = push_bit n 1 \<longleftrightarrow> bit w n" if "n < 8" for n
proof
  assume "and w (push_bit n 1) = push_bit n 1"
  then have "bit (and w (push_bit n 1)) n = bit (push_bit n 1 :: 8 word) n" by simp
  then show "bit w n" using that by (simp add: bit_simps)
next
  assume "bit w n"
  then show "and w (push_bit n 1) = push_bit n 1"
    by (intro bit_word_eqI) (auto simp: bit_simps)
qed

text \<open>The text of the TCP flags, one character per flag, determines the flags: it has eight
  characters, and reading a point as zero and a letter as one gives the byte back.\<close>

theorem tcp_flags_roundtrip:
  assumes "tcp_flags_conv P = OUTPUT_TCP_FLAGS_CONV_STR"
  shows "\<exists>s. tcp_flags_to_str P (f # data) = Ret s \<and> length s = 8 \<and> flags_of_text s = f"
proof -
  have p: "(128 :: 8 word) = push_bit 7 1" "(64 :: 8 word) = push_bit 6 1" "(32 :: 8 word) = push_bit 5 1"
    "(16 :: 8 word) = push_bit 4 1" "(8 :: 8 word) = push_bit 3 1" "(4 :: 8 word) = push_bit 2 1"
    "(2 :: 8 word) = push_bit 1 1" "(1 :: 8 word) = push_bit 0 1" by simp_all
  let ?c = "\<lambda>n c. if bit f n then c else TCP_FLAG_UNSET_CHAR"
  have t: "flags_loop f 128 tcp_flags_table =
    [?c 7 (CHR ''C''), ?c 6 (CHR ''E''), ?c 5 (CHR ''U''), ?c 4 (CHR ''A''), ?c 3 (CHR ''P''), ?c 2 (CHR ''R''),
     ?c 1 (CHR ''S''), ?c 0 (CHR ''F'')]"
    using mask_bit[of 7 f] mask_bit[of 6 f] mask_bit[of 5 f] mask_bit[of 4 f] mask_bit[of 3 f] mask_bit[of 2 f]
      mask_bit[of 1 f] mask_bit[of 0 f]
    by (simp add: tcp_flags_table_def)
  have "flags_of_text (flags_loop f 128 tcp_flags_table) = f"
  proof (rule bit_word_eqI)
    fix n assume "n < LENGTH(8)"
    then have "n = 0 \<or> n = 1 \<or> n = 2 \<or> n = 3 \<or> n = 4 \<or> n = 5 \<or> n = 6 \<or> n = 7" by auto
    then show "bit (flags_of_text (flags_loop f 128 tcp_flags_table)) n = bit f n"
      unfolding t bit_flags_of_text by (elim disjE) (simp_all add: TCP_FLAG_UNSET_CHAR_def)
  qed
  then show ?thesis using assms by (simp add: tcp_flags_to_str_def t)
qed

theorem tcp_flags_roundtrip_witness:
  "\<exists>s. tcp_flags_to_str (zero_output_params\<lparr>tcp_flags_conv := OUTPUT_TCP_FLAGS_CONV_STR\<rparr>) [18] = Ret s
    \<and> length s = 8 \<and> flags_of_text s = 18"
  by (rule tcp_flags_roundtrip) simp

subsection \<open>The width of a volume\<close>

text \<open>A quotient below a power of two stays there when it is rounded.\<close>

lemma down_exp_le: "0 < b \<Longrightarrow> a < 2 ^ 53 * (b * 2 ^ j) \<Longrightarrow> down_exp a b \<le> j"
proof (induction j arbitrary: b)
  case 0
  then show ?case by (subst down_exp.simps) simp
next
  case (Suc j)
  have "down_exp a (2 * b) \<le> j" using Suc.prems by (intro Suc.IH) (simp_all add: ac_simps)
  then show ?case by (subst down_exp.simps) simp
qed

lemma rne_down:
  assumes "0 < b" "a \<le> 2 ^ m * b" "2 ^ 53 * b \<le> a"
  shows "rne a (b * 2 ^ down_exp a b) * 2 ^ down_exp a b \<le> 2 ^ m"
proof -
  let ?e = "down_exp a b"
  have "2 ^ 53 * b \<le> 2 ^ m * b" using assms by linarith
  then have "(2 :: nat) ^ 53 \<le> 2 ^ m" using assms(1) by simp
  then have m: "53 \<le> m" by (rule power_le_imp_le_exp[rotated]) simp
  define r where "r = m - 52"
  have r: "m = r + 52" using m by (simp add: r_def)
  have "a < 2 ^ 53 * (b * 2 ^ r)"
  proof -
    have "0 < b * 2 ^ r" using assms(1) by simp
    then have "2 ^ 52 * (b * 2 ^ r) < 2 ^ 53 * (b * 2 ^ r)" by (intro mult_strict_right_mono) simp_all
    moreover have "2 ^ m * b = 2 ^ 52 * (b * 2 ^ r)" by (simp add: r power_add ac_simps)
    ultimately show ?thesis using assms(2) by linarith
  qed
  then have e: "?e \<le> m" using down_exp_le[OF assms(1)] r by fastforce
  then have "a \<le> 2 ^ (m - ?e) * (b * 2 ^ ?e)" using assms(2) by (simp add: ac_simps power_add[symmetric])
  then have "rne a (b * 2 ^ ?e) \<le> 2 ^ (m - ?e)" using assms(1) by (intro rne_le) simp_all
  then have "rne a (b * 2 ^ ?e) * 2 ^ ?e \<le> 2 ^ (m - ?e) * 2 ^ ?e" by (rule mult_le_mono1)
  then show ?thesis using e by (simp add: power_add[symmetric])
qed

lemma double_div_bound:
  assumes "0 < b" "a \<le> 2 ^ m * b" "double_div a b = (p, k)"
  shows "p \<le> 2 ^ m * 2 ^ k"
proof (cases "2 ^ 53 * b \<le> a")
  case True
  then show ?thesis using rne_down[OF assms(1,2) True] assms(3) by (auto simp: double_div_def Let_def)
next
  case False
  have "a * 2 ^ k \<le> 2 ^ m * 2 ^ k * b" using assms(2) by (simp add: ac_simps)
  then have "rne (a * 2 ^ k) b \<le> 2 ^ m * 2 ^ k" by (rule rne_le[OF assms(1)])
  then show ?thesis using False assms(3) by (auto simp: double_div_def Let_def)
qed

lemma double_of_bound: "n \<le> 2 ^ m \<Longrightarrow> double_of n \<le> 2 ^ m"
proof (cases "2 ^ 53 \<le> n")
  case True
  assume "n \<le> 2 ^ m"
  then show ?thesis using rne_down[of 1 n m] True by (simp add: double_of_def Let_def)
next
  case False
  assume "n \<le> 2 ^ m"
  then show ?thesis using False by (simp add: double_of_exact)
qed

lemma scale_volume_bound:
  assumes "512 \<le> T"
  shows "p \<le> 2 ^ (9 * j + 1) * 2 ^ k \<Longrightarrow> idx + j < n \<Longrightarrow>
    \<exists>p' k' i. scale_volume T n (D_Fin False p k) idx = (D_Fin False p' k', i) \<and> p' \<le> T * 2 ^ k' \<and> i < n"
proof (induction j arbitrary: p k idx)
  case 0
  have "2 * 2 ^ k \<le> T * 2 ^ k" using assms by (intro mult_le_mono1) simp
  then have "p \<le> T * 2 ^ k" using "0.prems"(1) by (metis add_0 mult_0_right order_trans power_one_right)
  then show ?case using "0.prems"(2) by (subst scale_volume.simps) simp
next
  case (Suc j)
  show ?case
  proof (cases "exceeds T (D_Fin False p k)")
    case False
    then show ?thesis using Suc.prems(2) by (subst scale_volume.simps) (simp add: not_less)
  next
    case True
    obtain p' k' where d: "double_div p (T * 2 ^ k) = (p', k')" by (cases "double_div p (T * 2 ^ k)")
    have "(2 :: nat) ^ (9 * Suc j + 1) = 2 ^ (9 * j + 1) * 512" by (simp add: power_add)
    then have "p \<le> 2 ^ (9 * j + 1) * (512 * 2 ^ k)" using Suc.prems(1) by (simp add: ac_simps)
    also have "\<dots> \<le> 2 ^ (9 * j + 1) * (T * 2 ^ k)" using assms by simp
    finally have "p' \<le> 2 ^ (9 * j + 1) * 2 ^ k'"
      using assms by (intro double_div_bound[OF _ _ d]) simp_all
    then obtain p2 k2 i where "scale_volume T n (D_Fin False p' k') (idx + 1) = (D_Fin False p2 k2, i)"
      "p2 \<le> T * 2 ^ k2" "i < n" using Suc.IH[of p' k' "idx + 1"] Suc.prems(2) by auto
    then show ?thesis using True Suc.prems(2) d by (subst scale_volume.simps) simp
  qed
qed

lemma length_fixed_text [simp]: "length (fixed_text (Suc 0) t) = length (dec (t div 10)) + 2"
proof -
  have "length (dec (t mod 10)) \<le> 1" by (intro length_dec_le) simp_all
  then show ?thesis by (simp add: fixed_text_def)
qed

lemma prefixed_volume_length:
  assumes "512 \<le> T" "T < 10000" "v \<le> 2 ^ 64" "\<forall>i<9. length (units ! i) = u" "length units = 9"
  shows "length (prefixed_volume T units (D_Fin False (double_of v) 0)) \<le> 7 + u"
proof -
  have "double_of v \<le> 2 ^ (9 * 7 + 1) * 2 ^ 0" using double_of_bound[of v 64] assms(3) by simp
  then obtain p k i where s: "scale_volume T 9 (D_Fin False (double_of v) 0) 0 = (D_Fin False p k, i)"
    "p \<le> T * 2 ^ k" "i < 9" using scale_volume_bound[OF assms(1), of "double_of v" 7 0 0 9] by auto
  have "rne (p * 10 ^ 1) (2 ^ k) \<le> T * 10" using s(2) by (intro rne_le) simp_all
  then have "rne (p * 10 ^ 1) (2 ^ k) div 10 < 10 ^ 4" using assms(2) by simp
  then have "length (dec (rne (p * 10 ^ 1) (2 ^ k) div 10)) \<le> 4" by (rule length_dec_le) simp
  then show ?thesis using s(1,3) assms(4,5) by (simp add: prefixed_volume_def)
qed

lemma unit_lengths:
  "length decimal_unit_table = 9" "\<forall>i<9. length (decimal_unit_table ! i) = 1"
  "length binary_unit_table = 9" "\<forall>i<9. length (binary_unit_table ! i) = 2"
  by (auto simp: decimal_unit_table_def binary_unit_table_def less_Suc_eq_0_disj numeral_eq_Suc)

lemma dec_max: "length (dec (2 ^ 64 - 1)) = 20" "length (dec 999) = 3" "length (dec 1023) = 4"
  by (simp_all add: dec.simps)

lemma volume_widths:
  "volume_width METRIC_PREFIX_THRESHOLD decimal_unit_table = 7"
  "volume_width BINARY_PREFIX_THRESHOLD binary_unit_table = 9"
  by (simp_all add: volume_width_def METRIC_PREFIX_THRESHOLD_def BINARY_PREFIX_THRESHOLD_def
      decimal_unit_table_def binary_unit_table_def dec_max)

text \<open>C30: the text of a volume and the width of its column: with the metric prefixes a 64-bit volume
  takes at most one character more than the column, otherwise it always fits.\<close>

theorem volume_width_sufficient:
  assumes "volume_conv P \<noteq> OUTPUT_VOLUME_CONV_UNSET" and "v < 2 ^ 64"
  shows "\<exists>s w. volume_to_str_num P v = Ret s \<and> volume_to_str_strlen P = Ret w
    \<and> length s \<le> w + (if volume_conv P = OUTPUT_VOLUME_CONV_METRIC_PREFIX then 1 else 0)"
proof (cases "volume_conv P")
  case OUTPUT_VOLUME_CONV_NONE
  have "v < 10 ^ 20" using assms(2) by simp
  then have "length (dec v) \<le> 20" by (rule length_dec_le) simp
  then show ?thesis
    using OUTPUT_VOLUME_CONV_NONE dec_max(1) by (simp add: volume_to_str_num_def volume_to_str_strlen_def global_str_def)
next
  case OUTPUT_VOLUME_CONV_METRIC_PREFIX
  have "length (prefixed_volume METRIC_PREFIX_THRESHOLD decimal_unit_table (D_Fin False (double_of v) 0)) \<le> 7 + 1"
    using assms(2) unit_lengths by (intro prefixed_volume_length) (simp_all add: METRIC_PREFIX_THRESHOLD_def)
  then show ?thesis
    using OUTPUT_VOLUME_CONV_METRIC_PREFIX
    by (simp add: volume_to_str_num_def volume_to_str_strlen_def global_str_def volume_widths)
next
  case OUTPUT_VOLUME_CONV_BINARY_PREFIX
  have "length (prefixed_volume BINARY_PREFIX_THRESHOLD binary_unit_table (D_Fin False (double_of v) 0)) \<le> 7 + 2"
    using assms(2) unit_lengths by (intro prefixed_volume_length) (simp_all add: BINARY_PREFIX_THRESHOLD_def)
  then show ?thesis
    using OUTPUT_VOLUME_CONV_BINARY_PREFIX
    by (simp add: volume_to_str_num_def volume_to_str_strlen_def global_str_def volume_widths)
qed (use assms(1) in simp)

theorem volume_width_sufficient_witness:
  "\<exists>s w. volume_to_str_num (zero_output_params\<lparr>volume_conv := OUTPUT_VOLUME_CONV_METRIC_PREFIX\<rparr>) 999950 = Ret s
    \<and> volume_to_str_strlen (zero_output_params\<lparr>volume_conv := OUTPUT_VOLUME_CONV_METRIC_PREFIX\<rparr>) = Ret w
    \<and> length s \<le> w + (if volume_conv (zero_output_params\<lparr>volume_conv := OUTPUT_VOLUME_CONV_METRIC_PREFIX\<rparr>)
         = OUTPUT_VOLUME_CONV_METRIC_PREFIX then 1 else 0)"
  by (rule volume_width_sufficient) simp_all

end
