(* ===== verification/Output.thy ===== *)
theory Output
  imports Output_Str Summary
begin

text \<open>
  The output of a query (\<open>src/output.c\<close>): the context \<open>o_ctx\<close>, the columns, the
  records one by one or in a batch, the summaries.  What has been written to standard
  output is \<open>oc_out\<close>.

  \<open>print_field\<close> composes a column in an array of \<open>col_width + 4\<close> bytes and writes past
  its end; \<open>oc_overrun\<close> counts these bytes, and the text is what is printed when they
  were not in use.
\<close>

definition PROTECTIVE_PADDING :: nat where "PROTECTIVE_PADDING = 4"
definition ELLIPSIS :: string where "ELLIPSIS = ''...''"

datatype alignment = ALIGNMENT_LEFT | ALIGNMENT_RIGHT

text \<open>The functions a column can be printed with.\<close>

datatype to_str =
    To_Timestamp | To_Volume | To_Double_Volume | To_Tcp_Flags | To_Ip_Proto | To_Duration | To_Addr | To_Mac
  | To_Uint8 | To_Uint16 | To_Uint32 | To_Uint64 | To_Double | To_String | To_Brec

record brec =
  br_first :: "byte list"
  br_last :: "byte list"
  br_prot :: "byte list"
  br_srcaddr :: "byte list"
  br_srcport :: "byte list"
  br_dstaddr :: "byte list"
  br_dstport :: "byte list"
  br_bytes :: "byte list"
  br_pkts :: "byte list"
  br_flows :: "byte list"

text \<open>libnf's layout of the basic record, the time zone, the outcome of the allocations.\<close>

record out_env =
  oe_localtime :: "int \<Rightarrow> tm option"
  oe_brec :: "byte list \<Rightarrow> brec"
  oe_malloc :: bool

subsection \<open>The function of a field\<close>

definition field_to_str_func_table :: "libnf \<Rightarrow> (int \<times> to_str) list" where
  "field_to_str_func_table L =
     [(lnf L LNF_FLD_FIRST, To_Timestamp), (lnf L LNF_FLD_LAST, To_Timestamp), (lnf L LNF_FLD_RECEIVED, To_Timestamp),
      (lnf L LNF_FLD_DOCTETS, To_Volume), (lnf L LNF_FLD_DPKTS, To_Volume), (lnf L LNF_FLD_OUT_BYTES, To_Volume),
      (lnf L LNF_FLD_OUT_PKTS, To_Volume), (lnf L LNF_FLD_AGGR_FLOWS, To_Volume),
      (lnf L LNF_FLD_TCP_FLAGS, To_Tcp_Flags), (lnf L LNF_FLD_PROT, To_Ip_Proto),
      (lnf L LNF_FLD_CALC_DURATION, To_Duration), (lnf L LNF_FLD_CALC_BPS, To_Double_Volume),
      (lnf L LNF_FLD_CALC_PPS, To_Double_Volume), (lnf L LNF_FLD_CALC_BPP, To_Double_Volume)]"

definition type_to_str_table :: "libnf \<Rightarrow> (int \<times> to_str) list" where
  "type_to_str_table L =
     [(lnf L LNF_TYPE_UINT8, To_Uint8), (lnf L LNF_TYPE_UINT16, To_Uint16), (lnf L LNF_TYPE_UINT32, To_Uint32),
      (lnf L LNF_TYPE_UINT64, To_Uint64), (lnf L LNF_TYPE_DOUBLE, To_Double), (lnf L LNF_TYPE_ADDR, To_Addr),
      (lnf L LNF_TYPE_MAC, To_Mac), (lnf L LNF_TYPE_BASIC_RECORD1, To_Brec), (lnf L LNF_TYPE_STRING, To_String)]"

definition get_field_to_str_callback :: "libnf \<Rightarrow> int \<Rightarrow> to_str res" where
  "get_field_to_str_callback L field_id =
     res_bind (field_get_type L field_id) (\<lambda>type.
     case map_of (field_to_str_func_table L) field_id of
       Some f \<Rightarrow> Ret f
     | None \<Rightarrow>
         (case map_of (type_to_str_table L) type of
            Some f \<Rightarrow> Ret f
          | None \<Rightarrow> Abort E_INTERNAL))"

text \<open>All functions but the one for basic records, which calls them; as one of its own columns it would recurse for ever.\<close>

definition plain_to_str :: "out_env \<Rightarrow> output_params \<Rightarrow> to_str \<Rightarrow> byte list \<Rightarrow> string res" where
  "plain_to_str E P f data =
     (case f of
        To_Timestamp \<Rightarrow> timestamp_to_str (oe_localtime E) P data
      | To_Volume \<Rightarrow> volume_to_str P data
      | To_Double_Volume \<Rightarrow> double_volume_to_str P data
      | To_Tcp_Flags \<Rightarrow> tcp_flags_to_str P data
      | To_Ip_Proto \<Rightarrow> ip_proto_to_str P data
      | To_Duration \<Rightarrow> duration_to_str P data
      | To_Addr \<Rightarrow> libnf_addr_to_str P data
      | To_Mac \<Rightarrow> libnf_mac_to_str data
      | To_Uint8 \<Rightarrow> uint8_t_to_str data
      | To_Uint16 \<Rightarrow> uint16_t_to_str data
      | To_Uint32 \<Rightarrow> uint32_t_to_str data
      | To_Uint64 \<Rightarrow> uint64_t_to_str data
      | To_Double \<Rightarrow> double_to_str data
      | To_String \<Rightarrow> string_to_str data
      | To_Brec \<Rightarrow> Out_Of_Bounds)"

subsection \<open>Basic records\<close>

definition pad_right :: "nat \<Rightarrow> string \<Rightarrow> string" where
  "pad_right n s = s @ replicate (n - length s) (CHR 0x20)"

definition pad_left :: "nat \<Rightarrow> string \<Rightarrow> string" where
  "pad_left n s = replicate (n - length s) (CHR 0x20) @ s"

text \<open>The columns of a basic record: format, field and data.\<close>

definition brec_pretty :: "brec \<Rightarrow> ((string \<Rightarrow> string) \<times> lnf_const \<times> byte list) list" where
  "brec_pretty b =
     [(pad_right 27, LNF_FLD_FIRST, br_first b), (pad_right 27, LNF_FLD_LAST, br_last b),
      (pad_right 6, LNF_FLD_PROT, br_prot b),
      (\<lambda>s. pad_left 17 s @ '':'', LNF_FLD_SRCADDR, br_srcaddr b), (pad_right 7, LNF_FLD_SRCPORT, br_srcport b),
      (\<lambda>s. pad_left 17 s @ '':'', LNF_FLD_DSTADDR, br_dstaddr b), (pad_right 7, LNF_FLD_DSTPORT, br_dstport b),
      (pad_left 13, LNF_FLD_DOCTETS, br_bytes b), (pad_left 13, LNF_FLD_DPKTS, br_pkts b),
      (pad_left 13, LNF_FLD_AGGR_FLOWS, br_flows b)]"

definition brec_csv :: "brec \<Rightarrow> ((string \<Rightarrow> string) \<times> lnf_const \<times> byte list) list" where
  "brec_csv b =
     map (\<lambda>(fld, data). (\<lambda>s. s @ [CSV_SEP], fld, data))
      [(LNF_FLD_FIRST, br_first b), (LNF_FLD_LAST, br_last b), (LNF_FLD_PROT, br_prot b),
       (LNF_FLD_SRCADDR, br_srcaddr b), (LNF_FLD_SRCPORT, br_srcport b),
       (LNF_FLD_DSTADDR, br_dstaddr b), (LNF_FLD_DSTPORT, br_dstport b),
       (LNF_FLD_DOCTETS, br_bytes b), (LNF_FLD_DPKTS, br_pkts b)]
     @ [(\<lambda>s. s, LNF_FLD_AGGR_FLOWS, br_flows b)]"

definition brec_column ::
  "libnf \<Rightarrow> out_env \<Rightarrow> output_params \<Rightarrow> (string \<Rightarrow> string) \<times> lnf_const \<times> byte list \<Rightarrow> string \<times> nat \<Rightarrow> (string \<times> nat) res" where
  "brec_column L E P col st =
     (case col of (fmt, fld, data) \<Rightarrow>
        res_bind (get_field_to_str_callback L (lnf L fld)) (\<lambda>f.
        res_bind (plain_to_str E P f data) (\<lambda>s. Ret (snprintf_append (fmt s) st))))"

definition brec_to_str :: "libnf \<Rightarrow> out_env \<Rightarrow> output_params \<Rightarrow> brec \<Rightarrow> string res" where
  "brec_to_str L E P b =
     (case op_format P of
        OUTPUT_FORMAT_PRETTY \<Rightarrow> map_res fst (each_res (brec_column L E P) (brec_pretty b) ([], MAX_STR_LEN))
      | OUTPUT_FORMAT_CSV \<Rightarrow> map_res fst (each_res (brec_column L E P) (brec_csv b) ([], MAX_STR_LEN))
      | OUTPUT_FORMAT_UNSET \<Rightarrow> Abort E_INTERNAL)"

definition libnf_brec_to_str :: "libnf \<Rightarrow> out_env \<Rightarrow> output_params \<Rightarrow> byte list \<Rightarrow> string res" where
  "libnf_brec_to_str L E P data = brec_to_str L E P (oe_brec E data)"

text \<open>The width is the length of the text of the zero record.\<close>

definition zero_brec :: brec where
  "zero_brec =
     \<lparr>br_first = replicate 8 0, br_last = replicate 8 0, br_prot = [0], br_srcaddr = replicate 16 0,
      br_srcport = replicate 2 0, br_dstaddr = replicate 16 0, br_dstport = replicate 2 0,
      br_bytes = replicate 8 0, br_pkts = replicate 8 0, br_flows = replicate 8 0\<rparr>"

definition libnf_brec_to_str_strlen :: "libnf \<Rightarrow> out_env \<Rightarrow> output_params \<Rightarrow> nat res" where
  "libnf_brec_to_str_strlen L E P = map_res length (brec_to_str L E P zero_brec)"

definition run_to_str :: "libnf \<Rightarrow> out_env \<Rightarrow> output_params \<Rightarrow> to_str \<Rightarrow> byte list \<Rightarrow> string res" where
  "run_to_str L E P f data = (if f = To_Brec then libnf_brec_to_str L E P data else plain_to_str E P f data)"

definition field_to_str :: "libnf \<Rightarrow> out_env \<Rightarrow> output_params \<Rightarrow> int \<Rightarrow> byte list \<Rightarrow> string res" where
  "field_to_str L E P field_id data =
     res_bind (get_field_to_str_callback L field_id) (\<lambda>f. run_to_str L E P f data)"

subsection \<open>Columns\<close>

definition get_column_width_estimate :: "libnf \<Rightarrow> out_env \<Rightarrow> output_params \<Rightarrow> to_str \<Rightarrow> nat res" where
  "get_column_width_estimate L E P f =
     (case f of
        To_Timestamp \<Rightarrow> timestamp_to_str_strlen P
      | To_Double_Volume \<Rightarrow> double_volume_to_str_strlen P
      | To_Volume \<Rightarrow> volume_to_str_strlen P
      | To_Tcp_Flags \<Rightarrow> tcp_flags_to_str_strlen P
      | To_Ip_Proto \<Rightarrow> ip_proto_to_str_strlen P
      | To_Duration \<Rightarrow> duration_to_str_strlen P
      | To_Addr \<Rightarrow> libnf_addr_to_str_strlen P
      | To_Mac \<Rightarrow> Ret libnf_mac_to_str_strlen
      | To_Uint8 \<Rightarrow> Ret uint8_t_to_str_strlen
      | To_Uint16 \<Rightarrow> Ret uint16_t_to_str_strlen
      | To_Uint32 \<Rightarrow> Ret uint32_t_to_str_strlen
      | To_Uint64 \<Rightarrow> Ret uint64_t_to_str_strlen
      | To_Double \<Rightarrow> Ret double_to_str_strlen
      | To_String \<Rightarrow> Ret string_to_str_strlen
      | To_Brec \<Rightarrow> libnf_brec_to_str_strlen L E P)"

definition get_column_alignment :: "to_str \<Rightarrow> alignment" where
  "get_column_alignment f =
     (case f of
        To_Timestamp \<Rightarrow> ALIGNMENT_LEFT
      | To_Double_Volume \<Rightarrow> ALIGNMENT_RIGHT
      | To_Volume \<Rightarrow> ALIGNMENT_RIGHT
      | To_Tcp_Flags \<Rightarrow> ALIGNMENT_LEFT
      | To_Ip_Proto \<Rightarrow> ALIGNMENT_LEFT
      | To_Duration \<Rightarrow> ALIGNMENT_LEFT
      | To_Addr \<Rightarrow> ALIGNMENT_LEFT
      | To_Mac \<Rightarrow> ALIGNMENT_LEFT
      | To_Uint8 \<Rightarrow> ALIGNMENT_RIGHT
      | To_Uint16 \<Rightarrow> ALIGNMENT_RIGHT
      | To_Uint32 \<Rightarrow> ALIGNMENT_RIGHT
      | To_Uint64 \<Rightarrow> ALIGNMENT_RIGHT
      | To_Double \<Rightarrow> ALIGNMENT_RIGHT
      | To_String \<Rightarrow> ALIGNMENT_LEFT
      | To_Brec \<Rightarrow> ALIGNMENT_LEFT)"

text \<open>
  \<open>print_field\<close> in the pretty format: the text, with its padding unless the column is the last.
  The width that remains is negative for a string that does not fit; the ellipsis needs
  a column of three characters, a narrower one makes the length of the copy wrap around.
\<close>

definition pretty_text :: "output_params \<Rightarrow> string \<Rightarrow> nat \<Rightarrow> alignment \<Rightarrow> bool \<Rightarrow> string res" where
  "pretty_text P str col_width align last_col =
     (let string_len = length str; col_width_remainder = int col_width - int string_len in
      if col_width_remainder < 0 \<and> ellipsize P
      then if col_width < length ELLIPSIS then Out_Of_Bounds
           else let padding_width = PROTECTIVE_PADDING in
                Ret (take (col_width - length ELLIPSIS) str @ ELLIPSIS
                     @ (if last_col then [] else replicate padding_width (CHR 0x20)))
      else let left_spaces = (if align = ALIGNMENT_RIGHT \<and> col_width_remainder > 0 then nat col_width_remainder else 0);
               padding_width =
                 (if col_width_remainder \<ge> 0
                  then (if align = ALIGNMENT_LEFT then nat col_width_remainder + PROTECTIVE_PADDING else PROTECTIVE_PADDING)
                  else if col_width_remainder \<le> int PROTECTIVE_PADDING then 1
                  else nat (int PROTECTIVE_PADDING + col_width_remainder))
           in Ret (replicate left_spaces (CHR 0x20) @ str
                   @ (if last_col then [] else replicate padding_width (CHR 0x20))))"

text \<open>The bytes the text and its terminating zero take beyond the array.\<close>

definition pretty_overrun :: "string \<Rightarrow> nat \<Rightarrow> nat" where
  "pretty_overrun txt col_width = (length txt + 1) - (col_width + PROTECTIVE_PADDING)"

definition print_field :: "output_params \<Rightarrow> string \<Rightarrow> nat \<Rightarrow> alignment \<Rightarrow> bool \<Rightarrow> (string \<times> nat) res" where
  "print_field P str col_width align last_col =
     assert_then (col_width > 0)
      (case op_format P of
         OUTPUT_FORMAT_PRETTY \<Rightarrow>
           map_res (\<lambda>txt. (txt, pretty_overrun txt col_width)) (pretty_text P str col_width align last_col)
       | OUTPUT_FORMAT_CSV \<Rightarrow> Ret (str @ (if last_col then [] else [CSV_SEP]), 0)
       | OUTPUT_FORMAT_UNSET \<Rightarrow> Abort E_INTERNAL)"

subsection \<open>The context\<close>

record out_ctx =
  oc_cb :: "to_str list"
  oc_offset :: "nat list"
  oc_width :: "nat list"
  oc_align :: "alignment list"
  oc_max_field_size :: nat
  oc_first_item :: bool
  oc_out :: string
  oc_overrun :: nat

text \<open>The static context at the start of the program.\<close>

definition zero_out_ctx :: out_ctx where
  "zero_out_ctx = \<lparr>oc_cb = [], oc_offset = [], oc_width = [], oc_align = [], oc_max_field_size = 0,
     oc_first_item = False, oc_out = [], oc_overrun = 0\<rparr>"

definition put :: "string \<Rightarrow> out_ctx \<Rightarrow> out_ctx" where
  "put s oc = oc\<lparr>oc_out := oc_out oc @ s\<rparr>"

definition newline :: string where "newline = [CHR 0x0A]"

text \<open>A blank line before every item but the first.\<close>

definition begin_item :: "out_ctx \<Rightarrow> out_ctx" where
  "begin_item oc = (if oc_first_item oc then oc else put newline oc)\<lparr>oc_first_item := False\<rparr>"

definition init_column ::
  "libnf \<Rightarrow> out_env \<Rightarrow> output_params \<Rightarrow> fields \<Rightarrow> nat \<Rightarrow> out_ctx \<times> nat \<Rightarrow> (out_ctx \<times> nat) res" where
  "init_column L E P fs i st =
     (case st of (oc, off) \<Rightarrow>
        let f = all_flds fs ! i in
        res_bind (get_field_to_str_callback L (fld_id f)) (\<lambda>cb.
        res_bind (get_column_width_estimate L E P cb) (\<lambda>w.
        Ret (oc\<lparr>oc_cb := oc_cb oc @ [cb], oc_offset := oc_offset oc @ [off],
                oc_max_field_size := max (oc_max_field_size oc) (fld_size f),
                oc_width := oc_width oc @ [w], oc_align := oc_align oc @ [get_column_alignment cb]\<rparr>,
             off + fld_size f))))"

definition output_init :: "libnf \<Rightarrow> out_env \<Rightarrow> output_params \<Rightarrow> fields \<Rightarrow> out_ctx \<Rightarrow> out_ctx res" where
  "output_init L E P fs oc =
     assert_then (op_format P \<noteq> OUTPUT_FORMAT_UNSET)
      (abort_if (\<not> oe_malloc E) E_MEM
        (res_bind (each_res (init_column L E P fs) [0..<all_cnt fs]
                     (oc\<lparr>oc_cb := [], oc_offset := [], oc_width := [], oc_align := []\<rparr>, 0)) (\<lambda>(oc1, off).
         Ret (oc1\<lparr>oc_first_item := True\<rparr>))))"

text \<open>One column, in its width; a header may widen it first.\<close>

definition print_column :: "output_params \<Rightarrow> fields \<Rightarrow> string \<Rightarrow> nat \<Rightarrow> out_ctx \<Rightarrow> out_ctx res" where
  "print_column P fs str i oc =
     (if i < length (oc_width oc) \<and> i < length (oc_align oc)
      then res_bind (print_field P str (oc_width oc ! i) (oc_align oc ! i) (i + 1 = all_cnt fs)) (\<lambda>(txt, n).
           Ret (put txt oc\<lparr>oc_overrun := oc_overrun oc + n\<rparr>))
      else Out_Of_Bounds)"

definition print_header_column :: "output_params \<Rightarrow> fields \<Rightarrow> string \<Rightarrow> nat \<Rightarrow> out_ctx \<Rightarrow> out_ctx res" where
  "print_header_column P fs str i oc =
     print_column P fs str i (oc\<lparr>oc_width := (oc_width oc)[i := max (oc_width oc ! i) (length str)]\<rparr>)"

subsection \<open>Headers\<close>

definition libnf_sort_dir_to_str :: "libnf \<Rightarrow> int \<Rightarrow> string res" where
  "libnf_sort_dir_to_str L sort_dir =
     (if sort_dir = lnf L LNF_SORT_ASC then Ret ''asc''
      else if sort_dir = lnf L LNF_SORT_DESC then Ret ''desc''
      else Abort E_INTERNAL)"

definition libnf_aggr_func_to_str :: "libnf \<Rightarrow> int \<Rightarrow> string res" where
  "libnf_aggr_func_to_str L aggr_func =
     (if aggr_func = lnf L LNF_AGGR_MIN then Ret ''min''
      else if aggr_func = lnf L LNF_AGGR_MAX then Ret ''max''
      else if aggr_func = lnf L LNF_AGGR_SUM then Ret ''sum''
      else if aggr_func = lnf L LNF_AGGR_OR then Ret ''or''
      else Abort E_INTERNAL)"

text \<open>\<open>snprintf\<close> into \<open>char buff[256]\<close>; a null pointer has no field.\<close>

definition buff256 :: "string \<Rightarrow> string" where
  "buff256 s = take 255 s"

definition pointed_name :: "libnf \<Rightarrow> fields \<Rightarrow> nat option \<Rightarrow> string res" where
  "pointed_name L fs p = (if p = None then Out_Of_Bounds else field_get_name L (deref_id fs p))"

definition sort_key_name :: "libnf \<Rightarrow> fields \<Rightarrow> string res" where
  "sort_key_name L fs =
     res_bind (pointed_name L fs (sk_field (sort_key fs))) (\<lambda>nm.
     res_bind (libnf_sort_dir_to_str L (sk_direction (sort_key fs))) (\<lambda>dir.
     Ret (buff256 (nm @ '' {'' @ dir @ ''}''))))"

definition aggr_key_name :: "libnf \<Rightarrow> fields \<Rightarrow> nat \<Rightarrow> string res" where
  "aggr_key_name L fs i =
     (let p = ak_field (aggr_keys fs ! i) in
      res_bind (pointed_name L fs p) (\<lambda>nm.
      if sk_field (sort_key fs) \<noteq> None \<and> sk_field (sort_key fs) = p
      then res_bind (libnf_sort_dir_to_str L (sk_direction (sort_key fs))) (\<lambda>dir.
           Ret (buff256 (nm @ '' (key){'' @ dir @ ''}'')))
      else Ret (buff256 (nm @ '' (key)''))))"

definition output_field_name :: "libnf \<Rightarrow> fields \<Rightarrow> nat \<Rightarrow> string res" where
  "output_field_name L fs i =
     (let f = output_fields fs ! i in
      if of_field f = None then Out_Of_Bounds
      else let fid = deref_id fs (of_field f) in
        res_bind (in_range_incl fid (lnf L LNF_FLD_CALC_DURATION) (lnf L LNF_FLD_CALC_BPP)) (\<lambda>calc.
        res_bind (if calc then Ret ''calc'' else libnf_aggr_func_to_str L (of_aggr_func f)) (\<lambda>func.
        res_bind (field_get_name L fid) (\<lambda>nm. Ret (buff256 (nm @ '' ['' @ func @ '']''))))))"

text \<open>A header column, its name and its number.\<close>

definition print_name :: "output_params \<Rightarrow> fields \<Rightarrow> string res \<Rightarrow> nat \<Rightarrow> out_ctx \<Rightarrow> out_ctx res" where
  "print_name P fs nm i oc = res_bind nm (\<lambda>str. print_header_column P fs str i oc)"

definition sort_key_is_aggr_key :: "fields \<Rightarrow> bool" where
  "sort_key_is_aggr_key fs \<longleftrightarrow>
     sk_field (sort_key fs) \<noteq> None
   \<and> (\<exists>i\<in>set [0..<aggr_keys_cnt fs]. sk_field (sort_key fs) = ak_field (aggr_keys fs ! i))"

definition print_names_enriched_aggr :: "libnf \<Rightarrow> output_params \<Rightarrow> fields \<Rightarrow> out_ctx \<Rightarrow> out_ctx res" where
  "print_names_enriched_aggr L P fs oc =
     assert_then (aggr_keys_cnt fs > 0)
      (res_bind (each_res (\<lambda>i. print_name P fs (aggr_key_name L fs i) i) [0..<aggr_keys_cnt fs] oc) (\<lambda>oc1.
       let with_sort_key = sk_field (sort_key fs) \<noteq> None \<and> \<not> sort_key_is_aggr_key fs;
           fields_cntr = aggr_keys_cnt fs + (if with_sort_key then 1 else 0) in
       res_bind (if with_sort_key then print_name P fs (sort_key_name L fs) (aggr_keys_cnt fs) oc1 else Ret oc1) (\<lambda>oc2.
       each_res (\<lambda>i. print_name P fs (output_field_name L fs i) (fields_cntr + i)) [0..<output_fields_cnt fs] oc2)))"

definition print_names_enriched_sort :: "libnf \<Rightarrow> output_params \<Rightarrow> fields \<Rightarrow> out_ctx \<Rightarrow> out_ctx res" where
  "print_names_enriched_sort L P fs oc =
     assert_then (aggr_keys_cnt fs = 0 \<and> sk_field (sort_key fs) \<noteq> None)
      (res_bind (print_name P fs (sort_key_name L fs) 0 oc) (\<lambda>oc1.
       each_res (\<lambda>i. print_name P fs (pointed_name L fs (of_field (output_fields fs ! i))) (1 + i))
         [0..<output_fields_cnt fs] oc1))"

definition print_names_only :: "libnf \<Rightarrow> output_params \<Rightarrow> fields \<Rightarrow> out_ctx \<Rightarrow> out_ctx res" where
  "print_names_only L P fs oc =
     each_res (\<lambda>i. print_name P fs (field_get_name L (fld_id (all_flds fs ! i))) i) [0..<all_cnt fs] oc"

subsection \<open>Records one by one\<close>

definition print_stream_names :: "libnf \<Rightarrow> output_params \<Rightarrow> fields \<Rightarrow> out_ctx \<Rightarrow> out_ctx res" where
  "print_stream_names L P fs oc =
     (if print_records P \<noteq> OUTPUT_ITEM_YES then Ret oc
      else map_res (put newline) (print_names_only L P fs (begin_item oc)))"

definition print_stream_field ::
  "libnf \<Rightarrow> out_env \<Rightarrow> output_params \<Rightarrow> fields \<Rightarrow> byte list \<Rightarrow> nat \<Rightarrow> out_ctx \<Rightarrow> out_ctx res" where
  "print_stream_field L E P fs data i oc =
     (if i < length (oc_cb oc) \<and> i < length (oc_offset oc)
      then res_bind (run_to_str L E P (oc_cb oc ! i) (drop (oc_offset oc ! i) data)) (\<lambda>str.
           print_column P fs str i oc)
      else Out_Of_Bounds)"

definition print_stream_next ::
  "libnf \<Rightarrow> out_env \<Rightarrow> output_params \<Rightarrow> fields \<Rightarrow> byte list \<Rightarrow> out_ctx \<Rightarrow> out_ctx res" where
  "print_stream_next L E P fs data oc =
     (if print_records P \<noteq> OUTPUT_ITEM_YES then Ret oc
      else map_res (put newline) (each_res (print_stream_field L E P fs data) [0..<all_cnt fs] oc))"

subsection \<open>Records in a batch\<close>

text \<open>\<open>lnf_rec_fget\<close>: the bytes of the field, no number, not set, or another error.\<close>

datatype fget_result = Fget_OK "byte list" | Fget_NaN | Fget_Not_Set | Fget_Error

definition get_field_str ::
  "libnf \<Rightarrow> out_env \<Rightarrow> output_params \<Rightarrow> ('r \<Rightarrow> int \<Rightarrow> fget_result) \<Rightarrow> fields \<Rightarrow> out_ctx \<Rightarrow> nat \<Rightarrow> 'r \<Rightarrow> string res" where
  "get_field_str L E P lnf_rec_fget fs oc idx lnf_rec =
     (case lnf_rec_fget lnf_rec (fld_id (all_flds fs ! idx)) of
        Fget_OK buff \<Rightarrow> if idx < length (oc_cb oc) then run_to_str L E P (oc_cb oc ! idx) buff else Out_Of_Bounds
      | Fget_NaN \<Rightarrow> Ret ''NaN''
      | Fget_Not_Set \<Rightarrow> Ret ''absent''
      | Fget_Error \<Rightarrow> Abort E_INTERNAL)"

definition widen_column ::
  "libnf \<Rightarrow> out_env \<Rightarrow> output_params \<Rightarrow> ('r \<Rightarrow> int \<Rightarrow> fget_result) \<Rightarrow> fields \<Rightarrow> 'r \<Rightarrow> nat \<Rightarrow> out_ctx \<Rightarrow> out_ctx res" where
  "widen_column L E P fget fs r i oc =
     res_bind (get_field_str L E P fget fs oc i r) (\<lambda>str.
     if i < length (oc_width oc)
     then Ret (oc\<lparr>oc_width := (oc_width oc)[i := max (oc_width oc ! i) (length str)]\<rparr>)
     else Out_Of_Bounds)"

text \<open>The records the loop reads: all of the memory, up to the limit.\<close>

definition batch_records :: "64 word \<Rightarrow> 'r list \<Rightarrow> 'r list" where
  "batch_records lim mem = take (unat lim) mem"

definition set_column_widths_exactly ::
  "libnf \<Rightarrow> out_env \<Rightarrow> output_params \<Rightarrow> ('r \<Rightarrow> int \<Rightarrow> fget_result) \<Rightarrow> bool \<Rightarrow> fields \<Rightarrow> 'r list \<Rightarrow> 64 word
    \<Rightarrow> out_ctx \<Rightarrow> out_ctx res" where
  "set_column_widths_exactly L E P fget rec_init fs mem lim oc =
     abort_if (\<not> rec_init) E_LNF
      (each_res (\<lambda>r. each_res (widen_column L E P fget fs r) [0..<all_cnt fs]) (batch_records lim mem) oc)"

definition print_batch_field ::
  "libnf \<Rightarrow> out_env \<Rightarrow> output_params \<Rightarrow> ('r \<Rightarrow> int \<Rightarrow> fget_result) \<Rightarrow> fields \<Rightarrow> 'r \<Rightarrow> nat \<Rightarrow> out_ctx \<Rightarrow> out_ctx res" where
  "print_batch_field L E P fget fs r i oc =
     res_bind (get_field_str L E P fget fs oc i r) (\<lambda>str. print_column P fs str i oc)"

definition print_batch_record ::
  "libnf \<Rightarrow> out_env \<Rightarrow> output_params \<Rightarrow> ('r \<Rightarrow> int \<Rightarrow> fget_result) \<Rightarrow> fields \<Rightarrow> 'r \<Rightarrow> out_ctx \<Rightarrow> out_ctx res" where
  "print_batch_record L E P fget fs r oc =
     map_res (put newline) (each_res (print_batch_field L E P fget fs r) [0..<all_cnt fs] oc)"

definition print_header :: "libnf \<Rightarrow> output_params \<Rightarrow> fields \<Rightarrow> out_ctx \<Rightarrow> out_ctx res" where
  "print_header L P fs oc =
     map_res (put newline)
      (if rich_header P \<and> aggr_keys_cnt fs > 0 then print_names_enriched_aggr L P fs oc
       else if rich_header P \<and> sk_field (sort_key fs) \<noteq> None then print_names_enriched_sort L P fs oc
       else print_names_only L P fs oc)"

definition print_batch ::
  "libnf \<Rightarrow> out_env \<Rightarrow> output_params \<Rightarrow> ('r \<Rightarrow> int \<Rightarrow> fget_result) \<Rightarrow> bool \<Rightarrow> fields \<Rightarrow> 'r list \<Rightarrow> 64 word
    \<Rightarrow> out_ctx \<Rightarrow> out_ctx res" where
  "print_batch L E P fget rec_init fs mem lim oc =
     (if print_records P \<noteq> OUTPUT_ITEM_YES then Ret oc
      else let lim = (if lim = 0 then - 1 else lim); oc1 = begin_item oc in
        res_bind (if \<not> ellipsize P then set_column_widths_exactly L E P fget rec_init fs mem lim oc1
                  else Ret oc1) (\<lambda>oc2.
        res_bind (print_header L P fs oc2) (\<lambda>oc3.
        abort_if (\<not> rec_init) E_LNF
         (each_res (print_batch_record L E P fget fs) (batch_records lim mem) oc3))))"

subsection \<open>Summaries\<close>

text \<open>A 64-bit number divided by a double; \<open>0.0 / 0.0\<close> is the negative quiet NaN of x86-64.\<close>

fun double_quotient :: "nat \<Rightarrow> cdouble \<Rightarrow> cdouble" where
  "double_quotient n (D_Fin s p k) =
     (if p = 0 then (if n = 0 then D_NaN True else D_Inf s)
      else case double_div (double_of n * 2 ^ k) p of (p', k') \<Rightarrow> D_Fin s p' k')"
| "double_quotient n (D_Inf s) = D_Fin s 0 0"
| "double_quotient n (D_NaN s) = D_NaN s"

text \<open>A conversion between two pieces of text.\<close>

definition put_volume :: "output_params \<Rightarrow> string \<Rightarrow> string \<Rightarrow> 64 word \<Rightarrow> out_ctx \<Rightarrow> out_ctx res" where
  "put_volume P before after v oc =
     res_bind (volume_to_str_num P (unat v)) (\<lambda>str. Ret (put (before @ str @ after) oc))"

definition tab_text :: string where "tab_text = [CHR 0x09]"
definition sep_text :: string where "sep_text = [CSV_SEP]"

definition print_processed ::
  "output_params \<Rightarrow> processed_summ \<Rightarrow> cdouble \<Rightarrow> out_ctx \<Rightarrow> out_ctx res" where
  "print_processed P s duration oc =
     (let flows_per_sec = double_quotient (unat (ps_flows s)) duration in
      if print_processed_summ P \<noteq> OUTPUT_ITEM_YES then Ret oc
      else case op_format P of
        OUTPUT_FORMAT_PRETTY \<Rightarrow>
          res_bind (put_volume P (''processed records summary:'' @ newline @ tab_text) '' flows, '' (ps_flows s) (begin_item oc)) (\<lambda>oc1.
          res_bind (put_volume P [] '' packets, '' (ps_pkts s) oc1) (\<lambda>oc2.
          res_bind (put_volume P [] ('' bytes'' @ newline) (ps_bytes s) oc2) (\<lambda>oc3.
          res_bind (double_volume_conv P flows_per_sec) (\<lambda>str.
          Ret (put (tab_text @ fmt_fixed 6 duration @ '' seconds, '' @ str @ '' flows/second'' @ newline) oc3)))))
      | OUTPUT_FORMAT_CSV \<Rightarrow>
          res_bind (put_volume P (join sep_text [''flows'', ''packets'', ''bytes'', ''seconds'', ''flows/second''] @ newline)
                     sep_text (ps_flows s) (begin_item oc)) (\<lambda>oc1.
          res_bind (put_volume P [] sep_text (ps_pkts s) oc1) (\<lambda>oc2.
          res_bind (put_volume P [] sep_text (ps_bytes s) oc2) (\<lambda>oc3.
          res_bind (double_volume_conv P flows_per_sec) (\<lambda>str.
          Ret (put (fmt_fixed 6 duration @ sep_text @ str @ newline) oc3)))))
      | OUTPUT_FORMAT_UNSET \<Rightarrow> Abort E_INTERNAL)"

text \<open>The lines of one kind of counter: total, TCP, UDP, ICMP, other.\<close>

definition metadata_group_pretty :: "output_params \<Rightarrow> string \<Rightarrow> 64 word list \<Rightarrow> out_ctx \<Rightarrow> out_ctx res" where
  "metadata_group_pretty P title vs oc =
     each_res (\<lambda>(label, v). put_volume P (tab_text @ tab_text @ label) newline v)
       (zip [''total: '', ''TCP:   '', ''UDP:   '', ''ICMP:  '', ''other: ''] vs)
       (put (tab_text @ title @ '':'' @ newline) oc)"

definition metadata_group_csv :: "output_params \<Rightarrow> string \<Rightarrow> 64 word list \<Rightarrow> out_ctx \<Rightarrow> out_ctx res" where
  "metadata_group_csv P title vs oc =
     each_res (\<lambda>(v, after). put_volume P [] after v) (zip vs [sep_text, sep_text, sep_text, sep_text, newline]) (put (title @ sep_text) oc)"

definition metadata_groups :: "metadata_summ \<Rightarrow> (string \<times> 64 word list) list" where
  "metadata_groups s =
     [(''flows'', [ms_flows s, ms_flows_tcp s, ms_flows_udp s, ms_flows_icmp s, ms_flows_other s]),
      (''packets'', [ms_pkts s, ms_pkts_tcp s, ms_pkts_udp s, ms_pkts_icmp s, ms_pkts_other s]),
      (''bytes'', [ms_bytes s, ms_bytes_tcp s, ms_bytes_udp s, ms_bytes_icmp s, ms_bytes_other s])]"

definition print_metadata :: "output_params \<Rightarrow> metadata_summ \<Rightarrow> out_ctx \<Rightarrow> out_ctx res" where
  "print_metadata P s oc =
     (if print_metadata_summ P \<noteq> OUTPUT_ITEM_YES then Ret oc
      else case op_format P of
        OUTPUT_FORMAT_PRETTY \<Rightarrow>
          each_res (\<lambda>(title, vs). metadata_group_pretty P title vs) (metadata_groups s)
            (put (''metadata summary:'' @ newline) (begin_item oc))
      | OUTPUT_FORMAT_CSV \<Rightarrow>
          each_res (\<lambda>(title, vs). metadata_group_csv P title vs) (metadata_groups s)
            (put (join sep_text [''field'', ''total'', ''TCP'', ''UDP'', ''ICMP'', ''other''] @ newline) (begin_item oc))
      | OUTPUT_FORMAT_UNSET \<Rightarrow> Abort E_INTERNAL)"

subsection \<open>One column\<close>

definition fits :: "output_params \<Rightarrow> string \<Rightarrow> nat \<Rightarrow> bool" where
  "fits P str col_width \<longleftrightarrow> 0 < col_width \<and> (length str \<le> col_width \<or> (ellipsize P \<and> length ELLIPSIS \<le> col_width))"

text \<open>What a column shows: the string, or its beginning and the ellipsis.\<close>

definition shown :: "string \<Rightarrow> nat \<Rightarrow> string" where
  "shown str col_width =
     (if length str \<le> col_width then str else take (col_width - length ELLIPSIS) str @ ELLIPSIS)"

definition cell :: "string \<Rightarrow> nat \<Rightarrow> alignment \<Rightarrow> bool \<Rightarrow> string" where
  "cell str col_width align last_col =
     (let s = shown str col_width; spaces = replicate (col_width - length s) (CHR 0x20) in
      (if align = ALIGNMENT_RIGHT then spaces @ s else if last_col then s else s @ spaces)
      @ (if last_col then [] else replicate PROTECTIVE_PADDING (CHR 0x20)))"

lemma shown_length: "fits P str w \<Longrightarrow> length (shown str w) \<le> w"
  by (auto simp: fits_def shown_def ELLIPSIS_def)

lemma pretty_cell:
  assumes "op_format P = OUTPUT_FORMAT_PRETTY" "fits P str w"
  shows "print_field P str w a l = Ret (cell str w a l, if l then 0 else 1)"
proof -
  have t: "pretty_text P str w a l = Ret (cell str w a l)"
  proof (cases "length str \<le> w")
    case True
    then have r: "int w - int (length str) = int (w - length str)" by simp
    show ?thesis
      unfolding pretty_text_def Let_def r
      using True by (cases a; cases "w = length str") (simp_all add: cell_def shown_def replicate_add[symmetric] add.commute del: of_nat_diff)
  next
    case False
    then show ?thesis
      using assms(2) by (auto simp: pretty_text_def fits_def cell_def shown_def ELLIPSIS_def Let_def)
  qed
  have "length (cell str w a l) = (if l then (if a = ALIGNMENT_RIGHT then w else length (shown str w)) else w + PROTECTIVE_PADDING)"
    using shown_length[OF assms(2)] by (auto simp: cell_def Let_def)
  then have "pretty_overrun (cell str w a l) w = (if l then 0 else 1)"
    using shown_length[OF assms(2)] by (auto simp: pretty_overrun_def PROTECTIVE_PADDING_def)
  then show ?thesis using t assms by (simp add: print_field_def fits_def)
qed

lemma cell_width:
  assumes "fits P str w"
  shows "length (cell str w a False) = w + PROTECTIVE_PADDING"
  using shown_length[OF assms] by (auto simp: cell_def Let_def)

text \<open>A column that writes its text and nothing else, in a loop over all columns.\<close>

definition written :: "string \<Rightarrow> nat \<Rightarrow> out_ctx \<Rightarrow> out_ctx" where
  "written txt n oc = put txt oc\<lparr>oc_overrun := oc_overrun oc + n\<rparr>"

lemma written_sel [simp]:
  "oc_cb (written t n oc) = oc_cb oc" "oc_offset (written t n oc) = oc_offset oc"
  "oc_width (written t n oc) = oc_width oc" "oc_align (written t n oc) = oc_align oc"
  "oc_first_item (written t n oc) = oc_first_item oc"
  "oc_max_field_size (written t n oc) = oc_max_field_size oc"
  "oc_out (written t n oc) = oc_out oc @ t" "oc_overrun (written t n oc) = oc_overrun oc + n"
  by (simp_all add: written_def put_def)

lemma written_written [simp]: "written t n (written s m oc) = written (s @ t) (m + n) oc"
  by (simp add: written_def put_def)

lemma written_Nil [simp]: "written [] 0 oc = oc"
  by (simp add: written_def put_def)

lemma put_written: "put t (written s n oc) = written (s @ t) n oc"
  by (simp add: written_def put_def)

lemma each_column:
  assumes "\<And>i t n. i < k \<Longrightarrow> F i (written t n oc) = Ret (written (txt i) (c i) (written t n oc))"
  shows "each_res F [0..<k] oc = Ret (written (concat (map txt [0..<k])) (sum_list (map c [0..<k])) oc)"
  using assms
proof (induction k)
  case (Suc k)
  have "each_res F [0..<k] oc = Ret (written (concat (map txt [0..<k])) (sum_list (map c [0..<k])) oc)"
    using Suc by simp
  then show ?case
    using Suc.prems[of k "concat (map txt [0..<k])" "sum_list (map c [0..<k])"]
    by (simp add: each_res_append)
qed simp

definition columns_ok :: "fields \<Rightarrow> out_ctx \<Rightarrow> bool" where
  "columns_ok fs oc \<longleftrightarrow>
     length (oc_cb oc) = all_cnt fs \<and> length (oc_offset oc) = all_cnt fs
   \<and> length (oc_width oc) = all_cnt fs \<and> length (oc_align oc) = all_cnt fs"

lemma print_column_pretty:
  assumes "op_format P = OUTPUT_FORMAT_PRETTY" "columns_ok fs oc" "i < all_cnt fs" "fits P str (oc_width oc ! i)"
  shows "print_column P fs str i oc
    = Ret (written (cell str (oc_width oc ! i) (oc_align oc ! i) (i + 1 = all_cnt fs)) (if i + 1 = all_cnt fs then 0 else 1) oc)"
  using assms pretty_cell[OF assms(1,4)] by (simp add: print_column_def columns_ok_def written_def)

lemma print_column_csv:
  assumes "op_format P = OUTPUT_FORMAT_CSV" "columns_ok fs oc" "i < all_cnt fs" "0 < oc_width oc ! i"
  shows "print_column P fs str i oc = Ret (written (str @ (if i + 1 = all_cnt fs then [] else [CSV_SEP])) 0 oc)"
  using assms by (simp add: print_column_def columns_ok_def written_def print_field_def put_def)

subsection \<open>A line of CSV\<close>

lemma concat_sep: "0 < n \<Longrightarrow> concat (map (\<lambda>i. f i @ (if i + 1 = n then [] else [c])) [0..<n]) = join [c] (map f [0..<n])"
proof -
  have "concat (map (\<lambda>i. f i @ (if i + 1 = k + Suc m then [] else [c])) [k..<k + Suc m]) = join [c] (map f [k..<k + Suc m])"
    for k m
  proof (induction m arbitrary: k)
    case (Suc m)
    have r: "[k..<k + Suc (Suc m)] = k # [Suc k..<Suc k + Suc m]" by (simp add: upt_rec)
    have ne: "map f [Suc k..<Suc k + Suc m] \<noteq> []" by simp
    have j: "join [c] (f k # ss) = f k @ [c] @ join [c] ss" if "ss \<noteq> []" for ss
      using that by (cases ss) simp_all
    show ?case unfolding r using Suc.IH[of "Suc k"] j[OF ne] by simp
  qed simp
  from this[of 0 "n - 1"] show "0 < n \<Longrightarrow> ?thesis" by simp
qed

definition column_data :: "out_ctx \<Rightarrow> byte list \<Rightarrow> nat \<Rightarrow> byte list" where
  "column_data oc data i = drop (oc_offset oc ! i) data"

lemma stream_csv:
  assumes "op_format P = OUTPUT_FORMAT_CSV" "print_records P = OUTPUT_ITEM_YES" "columns_ok fs oc"
    and "\<forall>i<all_cnt fs. 0 < oc_width oc ! i \<and> run_to_str L E P (oc_cb oc ! i) (column_data oc data i) = Ret (strs i)"
  shows "print_stream_next L E P fs data oc
    = Ret (written (concat (map (\<lambda>i. strs i @ (if i + 1 = all_cnt fs then [] else [CSV_SEP])) [0..<all_cnt fs]) @ newline) 0 oc)"
proof -
  have w: "columns_ok fs (written t n oc)" for t n using assms(3) by (simp add: columns_ok_def)
  have "each_res (print_stream_field L E P fs data) [0..<all_cnt fs] oc
      = Ret (written (concat (map (\<lambda>i. strs i @ (if i + 1 = all_cnt fs then [] else [CSV_SEP])) [0..<all_cnt fs]))
          (sum_list (map (\<lambda>i. 0) [0..<all_cnt fs])) oc)"
  proof (rule each_column)
    fix i t n assume i: "i < all_cnt fs"
    then have f: "print_stream_field L E P fs data i (written t n oc) = print_column P fs (strs i) i (written t n oc)"
      using assms(3,4) by (simp add: print_stream_field_def columns_ok_def column_data_def)
    show "print_stream_field L E P fs data i (written t n oc)
        = Ret (written (strs i @ (if i + 1 = all_cnt fs then [] else [CSV_SEP])) 0 (written t n oc))"
      unfolding f by (rule print_column_csv[OF assms(1) w i]) (use assms(4) i in simp)
  qed
  then show ?thesis using assms(2) by (simp add: print_stream_next_def put_written del: upt_Suc)
qed

subsection \<open>The context after initialisation\<close>

lemma init_loop:
  "each_res (init_column L E P fs) [0..<k] (oc0\<lparr>oc_cb := [], oc_offset := [], oc_width := [], oc_align := []\<rparr>, 0) = Ret (oc, off) \<Longrightarrow>
   length (oc_cb oc) = k \<and> length (oc_offset oc) = k \<and> length (oc_width oc) = k \<and> length (oc_align oc) = k
   \<and> off = sum_list (map (\<lambda>j. fld_size (all_flds fs ! j)) [0..<k])
   \<and> (\<forall>i<k. get_field_to_str_callback L (fld_id (all_flds fs ! i)) = Ret (oc_cb oc ! i)
        \<and> get_column_width_estimate L E P (oc_cb oc ! i) = Ret (oc_width oc ! i)
        \<and> oc_offset oc ! i = sum_list (map (\<lambda>j. fld_size (all_flds fs ! j)) [0..<i]))"
proof (induction k arbitrary: oc off)
  case (Suc k)
  obtain oc1 off1 where l: "each_res (init_column L E P fs) [0..<k]
      (oc0\<lparr>oc_cb := [], oc_offset := [], oc_width := [], oc_align := []\<rparr>, 0) = Ret (oc1, off1)"
    "init_column L E P fs k (oc1, off1) = Ret (oc, off)"
    using Suc.prems by (auto simp: each_res_append res_simps)
  note IH = Suc.IH[OF l(1)]
  show ?case
    using l(2) IH by (auto simp: init_column_def Let_def res_simps nth_append less_Suc_eq)
qed simp

lemma output_init_columns:
  assumes "output_init L E P fs oc0 = Ret oc"
  shows "columns_ok fs oc" "oc_first_item oc" "op_format P \<noteq> OUTPUT_FORMAT_UNSET"
    "i < all_cnt fs \<Longrightarrow> get_field_to_str_callback L (fld_id (all_flds fs ! i)) = Ret (oc_cb oc ! i)"
    "i < all_cnt fs \<Longrightarrow> get_column_width_estimate L E P (oc_cb oc ! i) = Ret (oc_width oc ! i)"
    "i < all_cnt fs \<Longrightarrow> oc_offset oc ! i = sum_list (map (\<lambda>j. fld_size (all_flds fs ! j)) [0..<i])"
proof -
  obtain oc1 off where o: "each_res (init_column L E P fs) [0..<all_cnt fs]
      (oc0\<lparr>oc_cb := [], oc_offset := [], oc_width := [], oc_align := []\<rparr>, 0) = Ret (oc1, off)"
    "oc = oc1\<lparr>oc_first_item := True\<rparr>" "op_format P \<noteq> OUTPUT_FORMAT_UNSET"
    using assms by (auto simp: output_init_def res_simps)
  note l = init_loop[OF o(1)]
  show "columns_ok fs oc" "oc_first_item oc" "op_format P \<noteq> OUTPUT_FORMAT_UNSET"
    using l o(2,3) by (simp_all add: columns_ok_def)
  show "i < all_cnt fs \<Longrightarrow> get_field_to_str_callback L (fld_id (all_flds fs ! i)) = Ret (oc_cb oc ! i)"
    "i < all_cnt fs \<Longrightarrow> get_column_width_estimate L E P (oc_cb oc ! i) = Ret (oc_width oc ! i)"
    "i < all_cnt fs \<Longrightarrow> oc_offset oc ! i = sum_list (map (\<lambda>j. fld_size (all_flds fs ! j)) [0..<i])"
    using l o(2) by simp_all
qed

text \<open>Every width is large enough for an ellipsis.\<close>

lemma brec_columns_grow:
  "each_res (brec_column L E P) cols (s, r) = Ret (t, r') \<Longrightarrow> length s \<le> length t"
proof (induction cols arbitrary: s r)
  case (Cons c cols)
  obtain s1 r1 where "brec_column L E P c (s, r) = Ret (s1, r1)" "each_res (brec_column L E P) cols (s1, r1) = Ret (t, r')"
    using Cons.prems by (auto simp: res_simps)
  then show ?case using Cons.IH[of s1 r1] by (fastforce simp: brec_column_def snprintf_append_def res_simps split: prod.splits if_splits)
qed simp

lemma brec_columns_long:
  assumes "\<forall>c\<in>set cols. \<forall>x. fst c x \<noteq> []"
  shows "each_res (brec_column L E P) cols (s, r) = Ret (t, r') \<Longrightarrow> length s + r = MAX_STR_LEN \<or> (r = 0 \<and> length s = MAX_STR_LEN - 1)
    \<Longrightarrow> min (length s + length cols) (MAX_STR_LEN - 1) \<le> length t"
  using assms
proof (induction cols arbitrary: s r)
  case (Cons c cols)
  obtain s1 r1 where a: "brec_column L E P c (s, r) = Ret (s1, r1)" "each_res (brec_column L E P) cols (s1, r1) = Ret (t, r')"
    using Cons.prems(1) by (auto simp: res_simps)
  obtain fmt fld data where c: "c = (fmt, fld, data)" by (cases c)
  obtain y where "snprintf_append (fmt y) (s, r) = (s1, r1)" using a(1) by (auto simp: brec_column_def c res_simps)
  moreover have "fmt y \<noteq> []" using Cons.prems(3) c by simp
  ultimately obtain x where x: "(s1, r1) = snprintf_append x (s, r)" "x \<noteq> []" by metis
  have "0 < length x" using x(2) by simp
  then have inv: "length s1 + r1 = MAX_STR_LEN \<or> (r1 = 0 \<and> length s1 = MAX_STR_LEN - 1)"
    "min (length s + 1) (MAX_STR_LEN - 1) \<le> length s1"
    using x(1) Cons.prems(2) by (cases "r \<le> length x"; simp add: snprintf_append_def; linarith)+
  have "\<forall>c\<in>set cols. \<forall>x. fst c x \<noteq> []" using Cons.prems(3) by simp
  from Cons.IH[OF a(2) inv(1) this] show ?case using inv(2) by simp
qed simp

lemma brec_to_str_long: "brec_to_str L E P b = Ret t \<Longrightarrow> 3 \<le> length t"
proof (cases "op_format P")
  case OUTPUT_FORMAT_PRETTY
  assume "brec_to_str L E P b = Ret t"
  then obtain r where e: "each_res (brec_column L E P) (brec_pretty b) ([], MAX_STR_LEN) = Ret (t, r)"
    using OUTPUT_FORMAT_PRETTY by (auto simp: brec_to_str_def map_res_Ret)
  have "\<forall>c\<in>set (brec_pretty b). \<forall>x. fst c x \<noteq> []"
    by (auto simp: brec_pretty_def pad_left_def pad_right_def)
  from brec_columns_long[OF this e] show ?thesis by (simp add: brec_pretty_def MAX_STR_LEN_def)
next
  case OUTPUT_FORMAT_CSV
  assume "brec_to_str L E P b = Ret t"
  then obtain r where "each_res (brec_column L E P) (brec_csv b) ([], MAX_STR_LEN) = Ret (t, r)"
    using OUTPUT_FORMAT_CSV by (auto simp: brec_to_str_def map_res_Ret)
  then obtain t1 r1 where e: "each_res (brec_column L E P) (butlast (brec_csv b)) ([], MAX_STR_LEN) = Ret (t1, r1)"
    "each_res (brec_column L E P) [last (brec_csv b)] (t1, r1) = Ret (t, r)"
    by (auto simp: brec_csv_def each_res_append butlast_append res_simps)
  have "\<forall>c\<in>set (butlast (brec_csv b)). \<forall>x. fst c x \<noteq> []"
    by (auto simp: brec_csv_def)
  from brec_columns_long[OF this e(1)] have "3 \<le> length t1" by (simp add: brec_csv_def MAX_STR_LEN_def)
  then show ?thesis using brec_columns_grow[OF e(2)] by simp
qed (simp add: brec_to_str_def)

lemma dec_long: "3 \<le> length (dec 255)" "3 \<le> length (dec 65535)" "3 \<le> length (dec 4294967295)"
  "3 \<le> length (dec 18446744073709551615)" "3 \<le> length (dec 9999999999)"
  by (simp_all add: dec.simps)

lemma replicate_4: "replicate 4 x = [x, x, x, x]"
  by (simp add: numeral_eq_Suc)

lemma estimate_long:
  assumes "get_column_width_estimate L E P f = Ret w"
  shows "3 \<le> w"
proof (cases f)
  case To_Brec
  then show ?thesis
    using assms brec_to_str_long by (auto simp: get_column_width_estimate_def libnf_brec_to_str_strlen_def map_res_Ret)
next
  case To_Timestamp
  then show ?thesis using assms dec_long
    by (auto simp: get_column_width_estimate_def timestamp_to_str_strlen_def split: output_ts_conv.splits)
next
  case To_Volume
  then show ?thesis using assms dec_long volume_widths
    by (auto simp: get_column_width_estimate_def volume_to_str_strlen_def split: output_volume_conv.splits)
next
  case To_Double_Volume
  then show ?thesis using assms dec_long volume_widths
    by (auto simp: get_column_width_estimate_def double_volume_to_str_strlen_def split: output_volume_conv.splits)
next
  case To_Addr
  then show ?thesis using assms dec_long
    by (auto simp: get_column_width_estimate_def libnf_addr_to_str_strlen_def replicate_4 split: output_ip_addr_conv.splits)
qed (use assms dec_long in \<open>auto simp: get_column_width_estimate_def tcp_flags_to_str_strlen_def tcp_flags_table_def
    ip_proto_to_str_strlen_def duration_to_str_strlen_def libnf_mac_to_str_strlen_def uint8_t_to_str_strlen_def
    uint16_t_to_str_strlen_def uint32_t_to_str_strlen_def uint64_t_to_str_strlen_def uint_to_str_strlen_def
    double_to_str_strlen_def string_to_str_strlen_def
    split: output_tcp_flags_conv.splits output_ip_proto_conv.splits output_duration_conv.splits\<close>)

subsection \<open>No text but a string contains a separator\<close>

definition plain :: "string \<Rightarrow> bool" where
  "plain s \<longleftrightarrow> CSV_SEP \<notin> set s \<and> CHR 0x0A \<notin> set s"

lemma plain_append [simp]: "plain (s @ t) \<longleftrightarrow> plain s \<and> plain t"
  by (auto simp: plain_def)

lemma plain_Nil [simp]: "plain []"
  by (simp add: plain_def)

lemma plain_Cons [simp]: "plain (c # s) \<longleftrightarrow> c \<noteq> CSV_SEP \<and> c \<noteq> CHR 0x0A \<and> plain s"
  by (auto simp: plain_def)

lemma plain_take [simp]: "plain s \<Longrightarrow> plain (take n s)"
  by (auto simp: plain_def dest: in_set_takeD)

lemma plain_digits: "(\<And>c. c \<in> set s \<Longrightarrow> is_digit c) \<Longrightarrow> plain s"
proof -
  assume d: "\<And>c. c \<in> set s \<Longrightarrow> is_digit c"
  have "\<not> is_digit CSV_SEP" "\<not> is_digit (CHR 0x0A)" by (simp_all add: is_digit_def CSV_SEP_def)
  then show ?thesis using d unfolding plain_def by blast
qed

lemma plain_dec [simp]: "plain (dec n)"
  by (rule plain_digits) (rule dec_set)

lemma plain_replicate [simp]: "plain (replicate n c) \<longleftrightarrow> n = 0 \<or> (c \<noteq> CSV_SEP \<and> c \<noteq> CHR 0x0A)"
  by (auto simp: plain_def)

lemma plain_zpad [simp]: "plain s \<Longrightarrow> plain (zpad n s)"
  by (simp add: zpad_def CSV_SEP_def)

lemma plain_dec_int [simp]: "plain (dec_int i)"
  by (simp add: dec_int_def CSV_SEP_def)

lemma plain_join [simp]: "plain t \<Longrightarrow> \<forall>s\<in>set ss. plain s \<Longrightarrow> plain (join t ss)"
  by (induction t ss rule: join.induct) simp_all

lemma plain_hex [simp]: "plain (hex n)"
proof (induction n rule: hex.induct)
  case (1 n)
  have "(of_char (hex_char d) :: nat) \<in> {48..57} \<union> {97..102}" if "d < 16" for d
    using that by (auto simp: hex_char_def digit_char_def)
  then have h: "hex_char d \<noteq> CSV_SEP \<and> hex_char d \<noteq> CHR 0x0A" if "d < 16" for d
    using that by (fastforce simp: CSV_SEP_def)
  show ?case using 1 h by (subst hex.simps) simp
qed

lemma plain_fmt [simp]: "plain (fmt_fixed d x)"
  by (cases x) (simp_all add: fixed_text_def CSV_SEP_def)

lemma plain_units: "\<forall>u\<in>set decimal_unit_table. plain u" "\<forall>u\<in>set binary_unit_table. plain u"
  by (simp_all add: decimal_unit_table_def binary_unit_table_def CSV_SEP_def)

lemma scale_volume_index: "idx < n \<Longrightarrow> snd (scale_volume T n v idx) < n"
proof (induction T n v idx rule: scale_volume.induct)
  case (1 T n v idx)
  then show ?case by (subst scale_volume.simps) simp
qed

lemma plain_prefixed: "units \<noteq> [] \<Longrightarrow> \<forall>u\<in>set units. plain u \<Longrightarrow> plain (prefixed_volume T units v)"
proof -
  assume u: "units \<noteq> []" "\<forall>u\<in>set units. plain u"
  obtain v' i where s: "scale_volume T (length units) v 0 = (v', i)" by (cases "scale_volume T (length units) v 0")
  then have "i < length units" using scale_volume_index[of 0 "length units" T v] u(1) by simp
  then show ?thesis using s u(2) by (simp add: prefixed_volume_def CSV_SEP_def)
qed

lemma plain_protos: "\<forall>s\<in>set ip_proto_str_table. plain s"
  unfolding ip_proto_str_table_def by (simp add: CSV_SEP_def)

lemma plain_proto: "ip_proto_entry n = Some s \<Longrightarrow> plain s"
  using plain_protos by (auto simp: ip_proto_entry_def CSV_SEP_def split: if_splits)

lemma plain_prefixed_volume [simp]:
  "plain (prefixed_volume T decimal_unit_table v)" "plain (prefixed_volume T binary_unit_table v)"
  using plain_units by (simp_all add: plain_prefixed decimal_unit_table_def binary_unit_table_def)

lemma plain_flags: "\<forall>c\<in>set cs. c \<noteq> CSV_SEP \<and> c \<noteq> CHR 0x0A \<Longrightarrow> plain (flags_loop f i cs)"
  by (induction f i cs rule: flags_loop.induct) (simp_all add: CSV_SEP_def TCP_FLAG_UNSET_CHAR_def)

lemma plain_address: "plain (dotted_quad bs)" "plain (inet_ntop6 bs)"
proof -
  have s: "plain ''.''" "plain '':''" by (simp_all add: CSV_SEP_def)
  show q: "plain (dotted_quad bs)" for bs unfolding dotted_quad_def by (rule plain_join[OF s(1)]) simp
  have h: "plain (join '':'' (map hex ws))" for ws by (rule plain_join[OF s(2)]) simp
  show "plain (inet_ntop6 bs)"
    using q h by (cases "best_zero_run 0 (ipv6_groups bs)") (simp add: inet_ntop6_def Let_def CSV_SEP_def)
qed

subsection \<open>Fields that can be printed\<close>

text \<open>The bytes a function reads.\<close>

definition to_str_size :: "to_str \<Rightarrow> nat" where
  "to_str_size f =
     (case f of
        To_Timestamp \<Rightarrow> 8 | To_Volume \<Rightarrow> 8 | To_Double_Volume \<Rightarrow> 8 | To_Tcp_Flags \<Rightarrow> 1 | To_Ip_Proto \<Rightarrow> 1
      | To_Duration \<Rightarrow> 8 | To_Addr \<Rightarrow> 16 | To_Mac \<Rightarrow> 6 | To_Uint8 \<Rightarrow> 1 | To_Uint16 \<Rightarrow> 2 | To_Uint32 \<Rightarrow> 4
      | To_Uint64 \<Rightarrow> 8 | To_Double \<Rightarrow> 8 | To_String \<Rightarrow> 0 | To_Brec \<Rightarrow> 0)"

text \<open>What \<open>arg_parse\<close> leaves in the output parameters, and a time zone that knows every time.\<close>

definition params_set :: "output_params \<Rightarrow> bool" where
  "params_set P \<longleftrightarrow>
     ts_conv P \<noteq> OUTPUT_TS_CONV_UNSET \<and> volume_conv P \<noteq> OUTPUT_VOLUME_CONV_UNSET
   \<and> tcp_flags_conv P \<noteq> OUTPUT_TCP_FLAGS_CONV_UNSET \<and> ip_addr_conv P \<noteq> OUTPUT_IP_ADDR_CONV_UNSET
   \<and> ip_proto_conv P \<noteq> OUTPUT_IP_PROTO_CONV_UNSET \<and> duration_conv P \<noteq> OUTPUT_DURATION_CONV_UNSET"

definition localtime_ok :: "out_env \<Rightarrow> bool" where
  "localtime_ok E \<longleftrightarrow> (\<forall>s. \<exists>t. oe_localtime E s = Some t \<and> length (date_time t) < MAX_STR_LEN)"

definition simple_column :: "to_str \<Rightarrow> bool" where
  "simple_column f \<longleftrightarrow> f \<noteq> To_String \<and> f \<noteq> To_Brec"

lemma read_uint_Ret: "n \<le> length data \<Longrightarrow> read_uint n data = Ret (le_nat (take n data))"
  by (simp add: read_uint_def)

lemma plain_date_time: "plain (date_time t)"
  by (simp add: date_time_def CSV_SEP_def)

lemma global_str_plain: "plain s \<Longrightarrow> \<exists>t. global_str s = Ret t \<and> plain t"
  by (simp add: global_str_def)

lemma plain_duration: "plain (duration_text d)"
  by (simp add: duration_text_def Let_def CSV_SEP_def)

lemma timestamp_Ret:
  assumes "params_set P" "localtime_ok E" "8 \<le> length data"
  shows "\<exists>s. timestamp_to_str (oe_localtime E) P data = Ret s \<and> plain s"
proof -
  let ?ts = "le_nat (take 8 data)"
  obtain t where t: "oe_localtime E (int (?ts div 1000)) = Some t" "length (date_time t) < MAX_STR_LEN"
    using assms(2) by (auto simp: localtime_ok_def)
  then show ?thesis
    using assms(1,3) plain_date_time[of t]
    by (cases "ts_conv P") (auto simp: timestamp_to_str_def read_uint_Ret params_set_def global_str_def Let_def CSV_SEP_def)
qed

lemma volume_Ret: "params_set P \<Longrightarrow> \<exists>s. volume_to_str_num P v = Ret s \<and> plain s"
  by (cases "volume_conv P") (simp_all add: volume_to_str_num_def params_set_def global_str_def)

lemma double_volume_Ret: "params_set P \<Longrightarrow> \<exists>s. double_volume_conv P v = Ret s \<and> plain s"
  by (cases "volume_conv P") (simp_all add: double_volume_conv_def params_set_def global_str_def)

lemma flags_Ret: "params_set P \<Longrightarrow> 1 \<le> length data \<Longrightarrow> \<exists>s. tcp_flags_to_str P data = Ret s \<and> plain s"
proof -
  have "plain (flags_loop f 128 tcp_flags_table)" for f
    by (rule plain_flags) (simp add: tcp_flags_table_def CSV_SEP_def)
  then show "params_set P \<Longrightarrow> 1 \<le> length data \<Longrightarrow> ?thesis"
    by (cases "tcp_flags_conv P"; cases data) (simp_all add: tcp_flags_to_str_def params_set_def global_str_def)
qed

lemma proto_Ret: "params_set P \<Longrightarrow> 1 \<le> length data \<Longrightarrow> \<exists>s. ip_proto_to_str P data = Ret s \<and> plain s"
  using plain_proto
  by (cases "ip_proto_conv P") (auto simp: ip_proto_to_str_def read_uint_Ret params_set_def global_str_def CSV_SEP_def split: option.split)

lemma duration_Ret: "params_set P \<Longrightarrow> 8 \<le> length data \<Longrightarrow> \<exists>s. duration_to_str P data = Ret s \<and> plain s"
  using plain_duration
  by (cases "duration_conv P") (simp_all add: duration_to_str_def read_uint_Ret params_set_def global_str_def)

lemma addr_Ret: "params_set P \<Longrightarrow> 16 \<le> length data \<Longrightarrow> \<exists>s. libnf_addr_to_str P data = Ret s \<and> plain s"
proof -
  have "plain (join '':'' (map (\<lambda>i. dec (addr_word a i)) is))" for a "is"
    by (rule plain_join) (simp_all add: CSV_SEP_def)
  then show "params_set P \<Longrightarrow> 16 \<le> length data \<Longrightarrow> ?thesis"
    using plain_address by (cases "ip_addr_conv P") (simp_all add: libnf_addr_to_str_def params_set_def global_str_def Let_def)
qed

lemma mac_Ret: "6 \<le> length data \<Longrightarrow> \<exists>s. libnf_mac_to_str data = Ret s \<and> plain s"
proof -
  have "plain (join '':'' (map (\<lambda>b. zpad 2 (hex (unat b))) bs))" for bs :: "byte list"
    by (rule plain_join) (simp_all add: CSV_SEP_def)
  then show "6 \<le> length data \<Longrightarrow> ?thesis" by (simp add: libnf_mac_to_str_def)
qed

lemma run_to_str_Ret:
  assumes "params_set P" "localtime_ok E" "simple_column f" "to_str_size f \<le> length data"
  shows "\<exists>s. run_to_str L E P f data = Ret s \<and> plain s"
  using assms timestamp_Ret[OF assms(1,2), of data] volume_Ret[OF assms(1)] double_volume_Ret[OF assms(1)]
    flags_Ret[OF assms(1), of data] proto_Ret[OF assms(1), of data] duration_Ret[OF assms(1), of data]
    addr_Ret[OF assms(1), of data] mac_Ret[of data]
  by (cases f) (auto simp: run_to_str_def plain_to_str_def simple_column_def to_str_size_def volume_to_str_def
      double_volume_to_str_def read_uint_Ret uint8_t_to_str_def uint16_t_to_str_def uint32_t_to_str_def
      uint64_t_to_str_def uint_to_str_def double_to_str_def global_str_def)

text \<open>A function reads nothing behind the bytes of its field.\<close>

lemma read_uint_take: "n \<le> k \<Longrightarrow> k \<le> length data \<Longrightarrow> read_uint n (take k data) = read_uint n data"
  by (simp add: read_uint_def min_absorb1)

lemma run_to_str_take:
  assumes "simple_column f" "to_str_size f \<le> k" "k \<le> length data"
  shows "run_to_str L E P f (take k data) = run_to_str L E P f data"
proof -
  show ?thesis
    using assms read_uint_take[OF _ assms(3)]
    by (cases f) (auto simp: run_to_str_def plain_to_str_def simple_column_def to_str_size_def timestamp_to_str_def
        volume_to_str_def double_volume_to_str_def tcp_flags_to_str_def ip_proto_to_str_def duration_to_str_def
        libnf_addr_to_str_def libnf_mac_to_str_def uint8_t_to_str_def uint16_t_to_str_def uint32_t_to_str_def
        uint64_t_to_str_def uint_to_str_def double_to_str_def min_absorb1 Suc_le_eq
        split: output_tcp_flags_conv.split)
qed

subsection \<open>The records of a list, one line each\<close>

text \<open>A context whose columns are those of the query.\<close>

definition stream_ready :: "libnf \<Rightarrow> fields \<Rightarrow> out_ctx \<Rightarrow> bool" where
  "stream_ready L fs oc \<longleftrightarrow>
     columns_ok fs oc
   \<and> (\<forall>i<all_cnt fs. 3 \<le> oc_width oc ! i
        \<and> get_field_to_str_callback L (fld_id (all_flds fs ! i)) = Ret (oc_cb oc ! i)
        \<and> oc_offset oc ! i = sum_list (map (\<lambda>j. fld_size (all_flds fs ! j)) [0..<i]))"

lemma output_init_ready: "output_init L E P fs oc0 = Ret oc \<Longrightarrow> stream_ready L fs oc"
proof -
  assume o: "output_init L E P fs oc0 = Ret oc"
  show ?thesis
    unfolding stream_ready_def
    using output_init_columns(1,4,6)[OF o] estimate_long[OF output_init_columns(5)[OF o]] by blast
qed

lemma stream_ready_put [simp]: "stream_ready L fs (put t oc) = stream_ready L fs oc"
  by (simp add: stream_ready_def columns_ok_def put_def)

definition rec_length :: "fields \<Rightarrow> nat" where
  "rec_length fs = sum_list (map (\<lambda>j. fld_size (all_flds fs ! j)) [0..<all_cnt fs])"

text \<open>The bytes of the \<open>i\<close>-th field of a raw record.\<close>

definition field_data :: "fields \<Rightarrow> byte list \<Rightarrow> nat \<Rightarrow> byte list" where
  "field_data fs data i =
     take (fld_size (all_flds fs ! i)) (drop (sum_list (map (\<lambda>j. fld_size (all_flds fs ! j)) [0..<i])) data)"

text \<open>The fields of the query have a text without separators, and libnf's sizes are those of the types.\<close>

definition simple_fields :: "libnf \<Rightarrow> fields \<Rightarrow> bool" where
  "simple_fields L fs \<longleftrightarrow>
     (\<forall>i<all_cnt fs. \<forall>f. get_field_to_str_callback L (fld_id (all_flds fs ! i)) = Ret f \<longrightarrow>
        simple_column f \<and> to_str_size f \<le> fld_size (all_flds fs ! i))"

lemma field_fits: "i < n \<Longrightarrow> sum_list (map f [0..<i]) + f i \<le> sum_list (map f [0..<n])" for f :: "nat \<Rightarrow> nat"
proof (induction n)
  case (Suc n)
  then show ?case by (cases "i = n") simp_all
qed simp

definition csv_fields :: "libnf \<Rightarrow> out_env \<Rightarrow> output_params \<Rightarrow> fields \<Rightarrow> byte list \<Rightarrow> string list \<Rightarrow> bool" where
  "csv_fields L E P fs data strs \<longleftrightarrow>
     length strs = all_cnt fs
   \<and> (\<forall>i<all_cnt fs. field_to_str L E P (fld_id (all_flds fs ! i)) (field_data fs data i) = Ret (strs ! i))"

lemma stream_next_csv:
  assumes "op_format P = OUTPUT_FORMAT_CSV" "print_records P = OUTPUT_ITEM_YES" "params_set P" "localtime_ok E"
    and "stream_ready L fs oc" "simple_fields L fs" "0 < all_cnt fs" "length data = rec_length fs"
  shows "\<exists>strs. print_stream_next L E P fs data oc = Ret (put (join [CSV_SEP] strs @ newline) oc)
    \<and> csv_fields L E P fs data strs \<and> (\<forall>s\<in>set strs. plain s)"
proof -
  have cols: "columns_ok fs oc" using assms(5) by (simp add: stream_ready_def)
  have each: "\<exists>s. run_to_str L E P (oc_cb oc ! i) (column_data oc data i) = Ret s \<and> plain s \<and> 0 < oc_width oc ! i
      \<and> field_to_str L E P (fld_id (all_flds fs ! i)) (field_data fs data i) = Ret s"
    if i: "i < all_cnt fs" for i
  proof -
    let ?f = "oc_cb oc ! i" let ?k = "fld_size (all_flds fs ! i)"
    have r: "3 \<le> oc_width oc ! i" "get_field_to_str_callback L (fld_id (all_flds fs ! i)) = Ret ?f"
      "oc_offset oc ! i = sum_list (map (\<lambda>j. fld_size (all_flds fs ! j)) [0..<i])"
      using assms(5) i by (simp_all add: stream_ready_def)
    have s: "simple_column ?f" "to_str_size ?f \<le> ?k" using assms(6) r(2) i by (simp_all add: simple_fields_def)
    have k: "?k \<le> length (column_data oc data i)"
      using field_fits[OF i, of "\<lambda>j. fld_size (all_flds fs ! j)"] assms(8) r(3)
      by (simp add: column_data_def rec_length_def)
    have d: "field_data fs data i = take ?k (column_data oc data i)"
      by (simp add: field_data_def column_data_def r(3))
    have "to_str_size ?f \<le> length (column_data oc data i)" using s(2) k by simp
    from run_to_str_Ret[OF assms(3,4) s(1) this, of L] obtain str where
      str: "run_to_str L E P ?f (column_data oc data i) = Ret str" "plain str" by blast
    have "field_to_str L E P (fld_id (all_flds fs ! i)) (field_data fs data i) = Ret str"
      using str(1) run_to_str_take[OF s k, of L E P] r(2) by (simp add: field_to_str_def d)
    with str r(1) show ?thesis by fastforce
  qed
  then obtain str where str: "\<And>i. i < all_cnt fs \<Longrightarrow> run_to_str L E P (oc_cb oc ! i) (column_data oc data i) = Ret (str i)
      \<and> plain (str i) \<and> 0 < oc_width oc ! i
      \<and> field_to_str L E P (fld_id (all_flds fs ! i)) (field_data fs data i) = Ret (str i)" by metis
  define strs where "strs = map str [0..<all_cnt fs]"
  have "concat (map (\<lambda>i. str i @ (if i + 1 = all_cnt fs then [] else [CSV_SEP])) [0..<all_cnt fs]) = join [CSV_SEP] strs"
    unfolding strs_def by (rule concat_sep[OF assms(7)])
  moreover have "print_stream_next L E P fs data oc = Ret (written
      (concat (map (\<lambda>i. str i @ (if i + 1 = all_cnt fs then [] else [CSV_SEP])) [0..<all_cnt fs]) @ newline) 0 oc)"
    by (rule stream_csv[OF assms(1,2) cols]) (use str in simp)
  ultimately have "print_stream_next L E P fs data oc = Ret (put (join [CSV_SEP] strs @ newline) oc)"
    by (simp add: written_def put_def)
  moreover have "csv_fields L E P fs data strs" "\<forall>s\<in>set strs. plain s"
    using str by (auto simp: csv_fields_def strs_def)
  ultimately show ?thesis by blast
qed

lemma csv_line:
  assumes "stream_ready L fs oc" and "op_format P = OUTPUT_FORMAT_CSV" and "print_records P = OUTPUT_ITEM_YES"
    and "params_set P" and "localtime_ok E" and "simple_fields L fs" and "0 < all_cnt fs" and "length data = rec_length fs"
  shows "\<exists>line. print_stream_next L E P fs data oc = Ret (put (line @ newline) oc)
    \<and> CHR 0x0A \<notin> set line \<and> csv_fields L E P fs data (split_on CSV_SEP line)"
proof -
  obtain strs where s: "print_stream_next L E P fs data oc = Ret (put (join [CSV_SEP] strs @ newline) oc)"
    "csv_fields L E P fs data strs" "\<forall>s\<in>set strs. plain s"
    using stream_next_csv[OF assms(2-5) assms(1) assms(6-8)] by blast
  have "strs \<noteq> []" using s(2) assms(7) by (auto simp: csv_fields_def)
  then have "split_on CSV_SEP (join [CSV_SEP] strs) = strs"
    using s(3) by (intro split_on_join) (simp_all add: plain_def)
  moreover have "CHR 0x0A \<notin> set (join [CSV_SEP] ss)" if "\<forall>s\<in>set ss. plain s" for ss
    using that by (induction "[CSV_SEP]" ss rule: join.induct) (auto simp: plain_def CSV_SEP_def)
  ultimately show ?thesis using s by metis
qed

text \<open>C12: a record printed as CSV can be read back.  For every query without string and basic-record
  fields and every raw record: one line is printed, which contains no other line break, and
  splitting it at the commas gives the texts of the record's fields, in order.\<close>

theorem csv_line_roundtrip:
  assumes "output_init L E P fs oc0 = Ret oc" and "op_format P = OUTPUT_FORMAT_CSV" and "print_records P = OUTPUT_ITEM_YES"
    and "params_set P" and "localtime_ok E" and "simple_fields L fs" and "0 < all_cnt fs" and "length data = rec_length fs"
  shows "\<exists>line. print_stream_next L E P fs data oc = Ret (put (line @ newline) oc)
    \<and> CHR 0x0A \<notin> set line \<and> csv_fields L E P fs data (split_on CSV_SEP line)"
  by (rule csv_line[OF output_init_ready[OF assms(1)] assms(2-8)])

text \<open>The initialisation succeeds for every field whose type the program knows.\<close>

definition printable_fields :: "libnf \<Rightarrow> fields \<Rightarrow> bool" where
  "printable_fields L fs \<longleftrightarrow>
     simple_fields L fs \<and> (\<forall>i<all_cnt fs. \<exists>f. get_field_to_str_callback L (fld_id (all_flds fs ! i)) = Ret f)"

lemma estimate_Ret: "params_set P \<Longrightarrow> simple_column f \<Longrightarrow> \<exists>w. get_column_width_estimate L E P f = Ret w"
  by (cases f) (auto simp: get_column_width_estimate_def simple_column_def params_set_def timestamp_to_str_strlen_def
      volume_to_str_strlen_def double_volume_to_str_strlen_def tcp_flags_to_str_strlen_def ip_proto_to_str_strlen_def
      duration_to_str_strlen_def libnf_addr_to_str_strlen_def
      split: output_ts_conv.split output_volume_conv.split output_tcp_flags_conv.split output_ip_proto_conv.split
        output_duration_conv.split output_ip_addr_conv.split)

lemma output_init_Ret:
  assumes "op_format P \<noteq> OUTPUT_FORMAT_UNSET" "oe_malloc E" "params_set P" "printable_fields L fs"
  shows "\<exists>oc. output_init L E P fs oc0 = Ret oc \<and> oc_out oc = oc_out oc0 \<and> oc_overrun oc = oc_overrun oc0"
proof -
  let ?I = "\<lambda>st :: out_ctx \<times> nat. oc_out (fst st) = oc_out oc0 \<and> oc_overrun (fst st) = oc_overrun oc0"
  have "\<exists>st. each_res (init_column L E P fs) [0..<all_cnt fs]
      (oc0\<lparr>oc_cb := [], oc_offset := [], oc_width := [], oc_align := []\<rparr>, 0) = Ret st \<and> ?I st"
  proof (rule each_res_invariant[where P = ?I])
    fix i st assume i: "i \<in> set [0..<all_cnt fs]" and I: "?I st"
    obtain f where f: "get_field_to_str_callback L (fld_id (all_flds fs ! i)) = Ret f" "simple_column f"
      using assms(4) i by (auto simp: printable_fields_def simple_fields_def)
    obtain w where "get_column_width_estimate L E P f = Ret w" using estimate_Ret[OF assms(3) f(2)] by blast
    with f I show "\<exists>st'. init_column L E P fs i st = Ret st' \<and> ?I st'"
      by (cases st) (simp add: init_column_def Let_def)
  qed simp
  then obtain oc1 off where "each_res (init_column L E P fs) [0..<all_cnt fs]
      (oc0\<lparr>oc_cb := [], oc_offset := [], oc_width := [], oc_align := []\<rparr>, 0) = Ret (oc1, off)"
      "oc_out oc1 = oc_out oc0" "oc_overrun oc1 = oc_overrun oc0" by force
  then show ?thesis using assms(1,2) by (simp add: output_init_def)
qed

text \<open>An instance: the fields of \<open>sample_fields\<close> with all conversions.\<close>

definition sample_out_env :: out_env where
  "sample_out_env = \<lparr>oe_localtime = (\<lambda>s. Some zero_tm), oe_brec = (\<lambda>data. zero_brec), oe_malloc = True\<rparr>"

lemma csv_params_set: "params_set csv_params"
  by (simp add: params_set_def csv_params_def)

lemma sample_localtime: "localtime_ok sample_out_env"
  by (simp add: localtime_ok_def sample_out_env_def date_time_def zero_tm_def dec_int_def dec.simps MAX_STR_LEN_def)

lemma sample_callbacks:
  "i < all_cnt sample_fields \<Longrightarrow> get_field_to_str_callback sample_libnf (fld_id (all_flds sample_fields ! i))
     = Ret ([To_Addr, To_Timestamp, To_Timestamp, To_Volume, To_Volume, To_Volume] ! i)"
  "i < all_cnt sample_fields \<Longrightarrow> to_str_size ([To_Addr, To_Timestamp, To_Timestamp, To_Volume, To_Volume, To_Volume] ! i)
     \<le> fld_size (all_flds sample_fields ! i)"
proof -
  have "\<forall>i\<in>set [0..<6]. get_field_to_str_callback sample_libnf (fld_id (all_flds sample_fields ! i))
      = Ret ([To_Addr, To_Timestamp, To_Timestamp, To_Volume, To_Volume, To_Volume] ! i)"
    by (simp add: upt_rec sample_fields_defs get_field_to_str_callback_def field_get_type_def assert_id_def lnf_info_ok_def
        valid_id_def field_to_str_func_table_def type_to_str_table_def)
  then show "i < all_cnt sample_fields \<Longrightarrow> get_field_to_str_callback sample_libnf (fld_id (all_flds sample_fields ! i))
     = Ret ([To_Addr, To_Timestamp, To_Timestamp, To_Volume, To_Volume, To_Volume] ! i)"
    by (simp add: sample_fields_def)
  have "\<forall>i\<in>set [0..<6]. to_str_size ([To_Addr, To_Timestamp, To_Timestamp, To_Volume, To_Volume, To_Volume] ! i)
      \<le> fld_size (all_flds sample_fields ! i)"
    by (simp add: upt_rec sample_fields_defs to_str_size_def)
  then show "i < all_cnt sample_fields \<Longrightarrow> to_str_size ([To_Addr, To_Timestamp, To_Timestamp, To_Volume, To_Volume, To_Volume] ! i)
     \<le> fld_size (all_flds sample_fields ! i)"
    by (simp add: sample_fields_def)
qed

lemma sample_printable: "printable_fields sample_libnf sample_fields"
proof -
  have "\<forall>i\<in>set [0..<6]. simple_column ([To_Addr, To_Timestamp, To_Timestamp, To_Volume, To_Volume, To_Volume] ! i)"
    by (simp add: upt_rec simple_column_def)
  then have s: "simple_column ([To_Addr, To_Timestamp, To_Timestamp, To_Volume, To_Volume, To_Volume] ! i)"
    if "i < all_cnt sample_fields" for i using that by (simp add: sample_fields_def)
  show ?thesis
    unfolding printable_fields_def simple_fields_def using sample_callbacks s by auto
qed

lemma sample_sort_printable: "printable_fields sample_libnf sample_sort_fields"
  using sample_printable by (simp add: printable_fields_def simple_fields_def sample_sort_fields_def sample_fields_def empty_fields_def)

lemma sample_rec_length: "rec_length sample_fields = 56" "all_cnt sample_fields = 6"
  by (simp_all add: rec_length_def sample_fields_defs upt_rec)

theorem csv_line_roundtrip_witness:
  "\<exists>oc line. output_init sample_libnf sample_out_env csv_params sample_fields zero_out_ctx = Ret oc
    \<and> print_stream_next sample_libnf sample_out_env csv_params sample_fields (replicate 56 7) oc = Ret (put (line @ newline) oc)
    \<and> CHR 0x0A \<notin> set line
    \<and> csv_fields sample_libnf sample_out_env csv_params sample_fields (replicate 56 7) (split_on CSV_SEP line)"
proof -
  have p: "op_format csv_params = OUTPUT_FORMAT_CSV" "print_records csv_params = OUTPUT_ITEM_YES"
    by (simp_all add: csv_params_def)
  obtain oc where oc: "output_init sample_libnf sample_out_env csv_params sample_fields zero_out_ctx = Ret oc"
    using output_init_Ret[OF _ _ csv_params_set sample_printable, of sample_out_env zero_out_ctx] p
    by (auto simp: sample_out_env_def)
  have "simple_fields sample_libnf sample_fields" using sample_printable by (simp add: printable_fields_def)
  from csv_line_roundtrip[OF oc p csv_params_set sample_localtime this, of "replicate 56 7"]
  show ?thesis using oc by (auto simp: sample_rec_length)
qed

subsection \<open>The types of the fields\<close>

text \<open>
  libnf's documentation: the size of a value of each type, and the types of the fields that the
  program treats by name.
\<close>

definition scalar_types :: "(lnf_const \<times> int) list" where
  "scalar_types =
     [(LNF_TYPE_UINT8, 1), (LNF_TYPE_UINT16, 2), (LNF_TYPE_UINT32, 4), (LNF_TYPE_UINT64, 8),
      (LNF_TYPE_DOUBLE, 8), (LNF_TYPE_ADDR, 16), (LNF_TYPE_MAC, 6)]"

definition documented_types :: "(lnf_const \<times> lnf_const) list" where
  "documented_types =
     [(LNF_FLD_FIRST, LNF_TYPE_UINT64), (LNF_FLD_LAST, LNF_TYPE_UINT64), (LNF_FLD_RECEIVED, LNF_TYPE_UINT64),
      (LNF_FLD_DOCTETS, LNF_TYPE_UINT64), (LNF_FLD_DPKTS, LNF_TYPE_UINT64), (LNF_FLD_OUT_BYTES, LNF_TYPE_UINT64),
      (LNF_FLD_OUT_PKTS, LNF_TYPE_UINT64), (LNF_FLD_AGGR_FLOWS, LNF_TYPE_UINT64), (LNF_FLD_TCP_FLAGS, LNF_TYPE_UINT8),
      (LNF_FLD_PROT, LNF_TYPE_UINT8), (LNF_FLD_CALC_DURATION, LNF_TYPE_UINT64), (LNF_FLD_CALC_BPS, LNF_TYPE_DOUBLE),
      (LNF_FLD_CALC_PPS, LNF_TYPE_DOUBLE), (LNF_FLD_CALC_BPP, LNF_TYPE_DOUBLE)]"

definition libnf_types :: "libnf \<Rightarrow> bool" where
  "libnf_types L \<longleftrightarrow>
     (\<forall>(fld, t)\<in>set documented_types. fld_info_type L (lnf L fld) = Some (lnf L t))
   \<and> (\<forall>(t, n)\<in>set scalar_types. \<forall>fid. fld_info_type L fid = Some (lnf L t) \<longrightarrow> fld_info_size L fid = Some n)"

definition scalar_field :: "libnf \<Rightarrow> int \<Rightarrow> bool" where
  "scalar_field L fid \<longleftrightarrow> (\<exists>(t, n)\<in>set scalar_types. fld_info_type L fid = Some (lnf L t))"

text \<open>The type each function casts its argument to.\<close>

definition to_str_type :: "to_str \<Rightarrow> lnf_const" where
  "to_str_type f =
     (case f of
        To_Timestamp \<Rightarrow> LNF_TYPE_UINT64 | To_Volume \<Rightarrow> LNF_TYPE_UINT64 | To_Double_Volume \<Rightarrow> LNF_TYPE_DOUBLE
      | To_Tcp_Flags \<Rightarrow> LNF_TYPE_UINT8 | To_Ip_Proto \<Rightarrow> LNF_TYPE_UINT8 | To_Duration \<Rightarrow> LNF_TYPE_UINT64
      | To_Addr \<Rightarrow> LNF_TYPE_ADDR | To_Mac \<Rightarrow> LNF_TYPE_MAC | To_Uint8 \<Rightarrow> LNF_TYPE_UINT8 | To_Uint16 \<Rightarrow> LNF_TYPE_UINT16
      | To_Uint32 \<Rightarrow> LNF_TYPE_UINT32 | To_Uint64 \<Rightarrow> LNF_TYPE_UINT64 | To_Double \<Rightarrow> LNF_TYPE_DOUBLE
      | To_String \<Rightarrow> LNF_TYPE_STRING | To_Brec \<Rightarrow> LNF_TYPE_BASIC_RECORD1)"

lemma named_field_type:
  assumes "libnf_types L" "(fid, f) \<in> set (field_to_str_func_table L)"
  shows "fld_info_type L fid = Some (lnf L (to_str_type f)) \<and> simple_column f"
  using assms
  by (simp add: libnf_types_def documented_types_def field_to_str_func_table_def)
    (elim disjE; simp add: to_str_type_def simple_column_def)

lemma typed_field_type:
  "(type, f) \<in> set (type_to_str_table L) \<Longrightarrow> type = lnf L (to_str_type f)"
  by (auto simp: type_to_str_table_def to_str_type_def)

lemma scalar_in_table:
  "(t, n) \<in> set scalar_types \<Longrightarrow>
   \<exists>f. map_of (type_to_str_table L) (lnf L t) = Some f \<and> simple_column f"
  by (auto simp: scalar_types_def type_to_str_table_def simple_column_def)

lemma simple_column_type: "simple_column f \<Longrightarrow> (to_str_type f, int (to_str_size f)) \<in> set scalar_types"
  by (cases f) (simp_all add: simple_column_def scalar_types_def to_str_type_def to_str_size_def)

lemma callback_typed:
  assumes "libnf_types L" "scalar_field L fid" "field_get_size L fid = Ret k"
  shows "\<exists>f. get_field_to_str_callback L fid = Ret f \<and> simple_column f \<and> to_str_size f = k
    \<and> fld_info_type L fid = Some (lnf L (to_str_type f))"
proof -
  obtain t n where t: "(t, n) \<in> set scalar_types" "fld_info_type L fid = Some (lnf L t)"
    using assms(2) by (auto simp: scalar_field_def)
  have type: "field_get_type L fid = Ret (lnf L t)"
    using assms(3) t(2) by (auto simp: field_get_type_def field_get_size_def assert_id_def assert_then_def lnf_info_ok_def split: if_splits)
  have "\<exists>f. get_field_to_str_callback L fid = Ret f \<and> simple_column f \<and> fld_info_type L fid = Some (lnf L (to_str_type f))"
  proof (cases "map_of (field_to_str_func_table L) fid")
    case (Some f)
    then show ?thesis
      using named_field_type[OF assms(1) map_of_SomeD[OF Some]] type by (simp add: get_field_to_str_callback_def)
  next
    case None
    obtain f where f: "map_of (type_to_str_table L) (lnf L t) = Some f" "simple_column f" using scalar_in_table[OF t(1)] by blast
    moreover have "lnf L t = lnf L (to_str_type f)" by (rule typed_field_type[OF map_of_SomeD[OF f(1)]])
    ultimately show ?thesis using None type t(2) by (auto simp: get_field_to_str_callback_def)
  qed
  then obtain f where f: "get_field_to_str_callback L fid = Ret f" "simple_column f"
      "fld_info_type L fid = Some (lnf L (to_str_type f))" by blast
  have "fld_info_size L fid = Some (int (to_str_size f))"
    using assms(1) simple_column_type[OF f(2)] f(3) unfolding libnf_types_def by blast
  then have "to_str_size f = k"
    using assms(3) by (auto simp: field_get_size_def assert_id_def assert_then_def lnf_info_ok_def split: if_splits)
  then show ?thesis using f by blast
qed

text \<open>The fields of the query have scalar types: neither strings nor basic records.\<close>

definition scalar_fields :: "libnf \<Rightarrow> fields \<Rightarrow> bool" where
  "scalar_fields L fs \<longleftrightarrow> (\<forall>i<all_cnt fs. scalar_field L (fld_id (all_flds fs ! i)))"

lemma scalar_printable:
  assumes "libnf_types L" "all_inv L fs" "scalar_fields L fs"
  shows "printable_fields L fs"
proof -
  have "\<exists>f. get_field_to_str_callback L (fld_id (all_flds fs ! i)) = Ret f \<and> simple_column f
      \<and> to_str_size f \<le> fld_size (all_flds fs ! i)" if i: "i < all_cnt fs" for i
  proof -
    have "scalar_field L (fld_id (all_flds fs ! i))"
      "field_get_size L (fld_id (all_flds fs ! i)) = Ret (fld_size (all_flds fs ! i))"
      using assms(2,3) i by (simp_all add: scalar_fields_def all_inv_def)
    from callback_typed[OF assms(1) this] show ?thesis by auto
  qed
  then show ?thesis unfolding printable_fields_def simple_fields_def by fastforce
qed

text \<open>C15: the conversions are used at their types.  With the types and sizes that libnf documents:
  for every field of a query of a scalar type (no string, no basic record) and every output format,
  the function chosen for the field casts its argument to the type of the field, reads the bytes of
  the field and nothing behind them, whatever they are, and gives a text without a separator or a newline.\<close>

theorem field_text_typed:
  assumes "params_set P" and "localtime_ok E" and "libnf_types L" and "all_inv L fs" and "i < all_cnt fs"
    and "scalar_field L (fld_id (all_flds fs ! i))" and "length data = fld_size (all_flds fs ! i)"
  shows "\<exists>f s. get_field_to_str_callback L (fld_id (all_flds fs ! i)) = Ret f
    \<and> fld_info_type L (fld_id (all_flds fs ! i)) = Some (lnf L (to_str_type f)) \<and> to_str_size f = length data
    \<and> plain s \<and> (\<forall>behind. field_to_str L E P (fld_id (all_flds fs ! i)) (data @ behind) = Ret s)"
proof -
  have "field_get_size L (fld_id (all_flds fs ! i)) = Ret (length data)" using assms(4,5,7) by (simp add: all_inv_def)
  from callback_typed[OF assms(3,6) this] obtain f where f: "get_field_to_str_callback L (fld_id (all_flds fs ! i)) = Ret f"
    "simple_column f" "to_str_size f = length data"
    "fld_info_type L (fld_id (all_flds fs ! i)) = Some (lnf L (to_str_type f))" by blast
  then have t: "to_str_size f \<le> length data" by simp
  obtain s where s: "run_to_str L E P f data = Ret s" "plain s" using run_to_str_Ret[OF assms(1,2) f(2) t] by blast
  have "run_to_str L E P f (data @ behind) = Ret s" for behind
    using run_to_str_take[OF f(2) t, of "data @ behind" L E P] s(1) by simp
  then show ?thesis using f s(2) by (auto simp: field_to_str_def)
qed

lemma sample_types: "libnf_types sample_libnf"
  by (auto simp: libnf_types_def documented_types_def scalar_types_def sample_libnf_def split: if_splits)

lemma sample_scalar: "scalar_field sample_libnf fid"
  by (simp add: scalar_field_def scalar_types_def sample_libnf_def)

theorem field_text_typed_witness:
  "\<exists>f s. get_field_to_str_callback sample_libnf 16 = Ret f
    \<and> fld_info_type sample_libnf 16 = Some (lnf sample_libnf (to_str_type f)) \<and> to_str_size f = length (replicate 16 (1 :: byte))
    \<and> plain s \<and> (\<forall>behind. field_to_str sample_libnf sample_out_env csv_params 16 (replicate 16 1 @ behind) = Ret s)"
proof -
  have c: "0 < all_cnt sample_fields" "fld_id (all_flds sample_fields ! 0) = 16" "fld_size (all_flds sample_fields ! 0) = 16"
    by (simp_all add: sample_fields_defs)
  have inv: "all_inv sample_libnf sample_fields" using sample_fields_inv by (simp add: fields_inv_def)
  have "length (replicate 16 (1 :: byte)) = fld_size (all_flds sample_fields ! 0)" by (simp add: c(3))
  from field_text_typed[OF csv_params_set sample_localtime sample_types inv c(1) sample_scalar this] show ?thesis unfolding c(2) .
qed

end
