(* ===== verification/Output_Table.thy ===== *)
theory Output_Table
  imports Output
begin

text \<open>
  Printing the collected records as a table (\<open>print_batch\<close> of output.c).  The definitions
  are those of \<open>Output\<close>; this theory holds the lemmas on the header line, on the widening of
  the columns over all records and on the loop over the records, the property that every
  line of a table has its columns at the same offsets with the whole texts in them, and the
  two defects of the column printing: the byte written behind the buffer and the ambiguity
  of an abbreviated volume.
\<close>

subsection \<open>A table\<close>

lemma each_res_map: "each_res f (map g xs) s = each_res (f \<circ> g) xs s"
  by (induction xs arbitrary: s) (auto intro: arg_cong[where f = "res_bind _"])

text \<open>The names over the columns, in the order in which they are printed.\<close>

definition header_names :: "libnf \<Rightarrow> output_params \<Rightarrow> fields \<Rightarrow> string res list" where
  "header_names L P fs =
     (if rich_header P \<and> aggr_keys_cnt fs > 0
      then map (aggr_key_name L fs) [0..<aggr_keys_cnt fs]
        @ (if sk_field (sort_key fs) \<noteq> None \<and> \<not> sort_key_is_aggr_key fs then [sort_key_name L fs] else [])
        @ map (output_field_name L fs) [0..<output_fields_cnt fs]
      else if rich_header P \<and> sk_field (sort_key fs) \<noteq> None
      then sort_key_name L fs # map (\<lambda>i. pointed_name L fs (of_field (output_fields fs ! i))) [0..<output_fields_cnt fs]
      else map (\<lambda>i. field_get_name L (fld_id (all_flds fs ! i))) [0..<all_cnt fs])"

lemma each_named:
  "each_res (\<lambda>i. print_name P fs (f i) (a + i)) [0..<k] oc
    = each_res (\<lambda>(nm, i). print_name P fs nm i) (zip (map f [0..<k]) [a..<a + k]) oc"
proof -
  have "zip (map f [0..<k]) [a..<a + k] = map (\<lambda>i. (f i, a + i)) [0..<k]"
    by (rule nth_equalityI) simp_all
  then have z: "zip (map f [0..<k]) [a..<a + k] = map (\<lambda>i. (f i, a + i)) [0..<k]" .
  show ?thesis unfolding z each_res_map comp_def by simp
qed

lemma zip_upt_append:
  "zip (xs @ ys) [a..<a + (length xs + length ys)] = zip xs [a..<a + length xs] @ zip ys [a + length xs..<a + length xs + length ys]"
proof -
  have u: "[a..<a + (length xs + length ys)] = [a..<a + length xs] @ [a + length xs..<a + length xs + length ys]"
    by (metis add.assoc le_add1 upt_add_eq_append)
  show ?thesis unfolding u by (rule zip_append) simp
qed

lemma each_res_Nil: "each_res f [] = Ret"
  by (rule ext) simp

lemma res_bind_Ret_right: "res_bind m Ret = m"
  by (cases m) simp_all

lemma print_header_names:
  "print_header L P fs oc
    = map_res (put newline) (each_res (\<lambda>(nm, i). print_name P fs nm i)
        (zip (header_names L P fs) [0..<length (header_names L P fs)]) oc)"
    (is "?lhs = ?rhs")
proof -
  let ?F = "\<lambda>(nm, i). print_name P fs nm i"
  have z: "[0..<length xs] = [0..<0 + length xs]" for xs :: "string res list" by simp
  consider (aggr) "rich_header P" "0 < aggr_keys_cnt fs" | (sort) "rich_header P" "aggr_keys_cnt fs = 0" "sk_field (sort_key fs) \<noteq> None"
    | (names) "\<not> rich_header P \<or> (aggr_keys_cnt fs = 0 \<and> sk_field (sort_key fs) = None)"
    by (metis gr_zeroI)
  then show ?thesis
  proof cases
    case aggr
    let ?k = "aggr_keys_cnt fs" let ?o = "output_fields_cnt fs"
    let ?A = "map (aggr_key_name L fs) [0..<?k]" let ?O = "map (output_field_name L fs) [0..<?o]"
    have a: "each_res (\<lambda>i. print_name P fs (aggr_key_name L fs i) i) [0..<?k] oc = each_res ?F (zip ?A [0..<?k]) oc"
      using each_named[of P fs "aggr_key_name L fs" 0 ?k oc] by simp
    let ?S = "sk_field (sort_key fs) \<noteq> None \<and> \<not> sort_key_is_aggr_key fs"
    let ?B = "if ?S then [sort_key_name L fs] else []"
    have h: "header_names L P fs = ?A @ ?B @ ?O" using aggr by (simp only: header_names_def if_True simp_thms)
    have zz: "zip (header_names L P fs) [0..<length (header_names L P fs)]
        = zip ?A [0..<?k] @ zip ?B [?k..<?k + length ?B] @ zip ?O [?k + length ?B..<?k + length ?B + ?o]"
      unfolding h using zip_upt_append[of ?A "?B @ ?O" 0] zip_upt_append[of ?B ?O ?k] by (simp del: upt_Suc)
    have b: "each_res ?F (zip ?B [?k..<?k + length ?B]) s
        = (if ?S then print_name P fs (sort_key_name L fs) ?k s else Ret s)" for s
    proof (cases ?S)
      case True
      show ?thesis unfolding if_P[OF True] by (simp add: res_bind_Ret_right each_res_Nil)
    next
      case False
      show ?thesis unfolding if_not_P[OF False] by simp
    qed
    have "?k + length ?B = ?k + (if ?S then 1 else 0)" by simp
    then have c: "each_res (\<lambda>i. print_name P fs (output_field_name L fs i) (?k + (if ?S then 1 else 0) + i)) [0..<?o] s
        = each_res ?F (zip ?O [?k + length ?B..<?k + length ?B + ?o]) s" for s
      using each_named[of P fs "output_field_name L fs" "?k + length ?B" ?o s] by simp
    then have c': "each_res (\<lambda>i. print_name P fs (output_field_name L fs i) (?k + (if ?S then 1 else 0) + i)) [0..<?o]
        = each_res ?F (zip ?O [?k + length ?B..<?k + length ?B + ?o])" by (intro ext)
    show ?thesis
      unfolding zz each_res_append
      using aggr
      by (simp only: print_header_def print_names_enriched_aggr_def a b c' Let_def assert_then_True if_True simp_thms)
  next
    case sort
    let ?o = "output_fields_cnt fs"
    let ?O = "map (\<lambda>i. pointed_name L fs (of_field (output_fields fs ! i))) [0..<?o]"
    have h: "header_names L P fs = [sort_key_name L fs] @ ?O" using sort by (simp add: header_names_def)
    have zz: "zip (header_names L P fs) [0..<length (header_names L P fs)] = [(sort_key_name L fs, 0)] @ zip ?O [1..<1 + ?o]"
      unfolding h using zip_upt_append[of "[sort_key_name L fs]" ?O 0] by simp
    have c: "each_res (\<lambda>i. print_name P fs (pointed_name L fs (of_field (output_fields fs ! i))) (1 + i)) [0..<?o]
        = each_res ?F (zip ?O [1..<1 + ?o])" by (rule ext) (rule each_named)
    have one: "each_res ?F [(sort_key_name L fs, 0)] oc = print_name P fs (sort_key_name L fs) 0 oc"
      by (simp add: each_res_Nil res_bind_Ret_right)
    show ?thesis
      unfolding zz each_res_append one c[symmetric]
      using sort by (simp add: print_header_def print_names_enriched_sort_def)
  next
    case names
    have h: "header_names L P fs = map (\<lambda>i. field_get_name L (fld_id (all_flds fs ! i))) [0..<all_cnt fs]"
      using names by (auto simp: header_names_def)
    show ?thesis
      unfolding h using names each_named[of P fs "\<lambda>i. field_get_name L (fld_id (all_flds fs ! i))" 0 "all_cnt fs" oc]
      by (auto simp: print_header_def print_names_only_def)
  qed
qed

definition table_line :: "alignment list \<Rightarrow> nat list \<Rightarrow> string list \<Rightarrow> string" where
  "table_line aligns ws strs =
     concat (map (\<lambda>i. cell (strs ! i) (ws ! i) (aligns ! i) (i + 1 = length ws)) [0..<length ws])"

text \<open>One byte too many for every column but the last.\<close>

definition line_overrun :: "nat \<Rightarrow> nat" where
  "line_overrun n = sum_list (map (\<lambda>i. if i + 1 = n then 0 else 1) [0..<n])"

lemma line_overrun_eq: "line_overrun n = n - 1"
proof (cases n)
  case (Suc m)
  have "map (\<lambda>i. if i = m then 0 else 1 :: nat) [0..<m] = map (\<lambda>i. 1) [0..<m]" by (rule map_cong) auto
  then have "sum_list (map (\<lambda>i. if i = m then 0 else 1 :: nat) [0..<m]) = sum_list (map (\<lambda>i. 1) [0..<m])" by (simp only:)
  then show ?thesis using Suc by (simp add: line_overrun_def sum_list_triv)
qed (simp add: line_overrun_def)

lemma oc_width_update [simp]:
  "(written t n oc)\<lparr>oc_width := ws\<rparr> = written t n (oc\<lparr>oc_width := ws\<rparr>)"
  by (simp add: written_def put_def)

lemma written_fields [simp]: "columns_ok fs (written t n oc) = columns_ok fs oc"
  by (simp add: columns_ok_def)

lemma columns_ok_width [simp]: "columns_ok fs oc \<Longrightarrow> length ws = all_cnt fs \<Longrightarrow> columns_ok fs (oc\<lparr>oc_width := ws\<rparr>)"
  by (simp add: columns_ok_def)

text \<open>The header widens every column to its name.\<close>

definition widened :: "nat list \<Rightarrow> string list \<Rightarrow> nat \<Rightarrow> nat list" where
  "widened ws strs k = map (\<lambda>i. if i < k then max (ws ! i) (length (strs ! i)) else ws ! i) [0..<length ws]"

lemma widened_0: "widened ws strs 0 = ws"
  by (rule nth_equalityI) (simp_all add: widened_def)

lemma widened_Suc: "k < length ws \<Longrightarrow> (widened ws strs k)[k := max (ws ! k) (length (strs ! k))] = widened ws strs (Suc k)"
  by (rule nth_equalityI) (auto simp: widened_def nth_list_update less_Suc_eq)

lemma widened_nth: "i < length ws \<Longrightarrow> widened ws strs k ! i = (if i < k then max (ws ! i) (length (strs ! i)) else ws ! i)"
  "length (widened ws strs k) = length ws"
  by (simp_all add: widened_def)

lemma header_columns:
  assumes "op_format P = OUTPUT_FORMAT_PRETTY" "columns_ok fs oc" "length strs = all_cnt fs" "\<forall>i<all_cnt fs. 0 < oc_width oc ! i"
  defines "W \<equiv> widened (oc_width oc) strs"
  shows "k \<le> all_cnt fs \<Longrightarrow> each_res (\<lambda>(nm, i). print_name P fs nm i) (zip (map Ret (take k strs)) [0..<k]) oc
    = Ret (written (concat (map (\<lambda>i. cell (strs ! i) (W k ! i) (oc_align oc ! i) (i + 1 = all_cnt fs)) [0..<k]))
        (sum_list (map (\<lambda>i. if i + 1 = all_cnt fs then 0 else 1) [0..<k])) (oc\<lparr>oc_width := W k\<rparr>))"
proof (induction k)
  case 0
  then show ?case by (simp add: W_def widened_0)
next
  case (Suc k)
  have n: "length (oc_width oc) = all_cnt fs" using assms(2) by (simp add: columns_ok_def)
  have k: "k < all_cnt fs" using Suc.prems by simp
  let ?t = "concat (map (\<lambda>i. cell (strs ! i) (W k ! i) (oc_align oc ! i) (i + 1 = all_cnt fs)) [0..<k])"
  let ?c = "sum_list (map (\<lambda>i. if i + 1 = all_cnt fs then 0 else 1 :: nat) [0..<k])"
  have z: "zip (map Ret (take (Suc k) strs)) [0..<Suc k] = zip (map Ret (take k strs)) [0..<k] @ [(Ret (strs ! k), k)]"
    using k assms(3) by (simp add: take_Suc_conv_app_nth)
  have w: "W k ! k = oc_width oc ! k" "(W k)[k := max (W k ! k) (length (strs ! k))] = W (Suc k)"
    "W (Suc k) ! k = max (oc_width oc ! k) (length (strs ! k))" "length (W (Suc k)) = all_cnt fs"
    using k n widened_Suc[of k "oc_width oc" strs] by (simp_all add: W_def widened_nth)
  have old: "W (Suc k) ! i = W k ! i" if "i < k" for i using that k n by (simp add: W_def widened_nth)
  have fit: "fits P (strs ! k) (W (Suc k) ! k)" using assms(4) k by (simp add: fits_def w(3) less_max_iff_disj)
  have "print_header_column P fs (strs ! k) k (written ?t ?c (oc\<lparr>oc_width := W k\<rparr>))
      = print_column P fs (strs ! k) k (written ?t ?c (oc\<lparr>oc_width := W (Suc k)\<rparr>))"
    by (simp add: print_header_column_def w(2))
  also have "\<dots> = Ret (written (?t @ cell (strs ! k) (W (Suc k) ! k) (oc_align oc ! k) (k + 1 = all_cnt fs))
      (?c + (if k + 1 = all_cnt fs then 0 else 1)) (oc\<lparr>oc_width := W (Suc k)\<rparr>))"
    using print_column_pretty[OF assms(1) _ k, of "written ?t ?c (oc\<lparr>oc_width := W (Suc k)\<rparr>)"] fit assms(2) w(4) by simp
  finally have step: "print_header_column P fs (strs ! k) k (written ?t ?c (oc\<lparr>oc_width := W k\<rparr>))
      = Ret (written (?t @ cell (strs ! k) (W (Suc k) ! k) (oc_align oc ! k) (k + 1 = all_cnt fs))
          (?c + (if k + 1 = all_cnt fs then 0 else 1)) (oc\<lparr>oc_width := W (Suc k)\<rparr>))" .
  let ?f = "\<lambda>i. cell (strs ! i) (W (Suc k) ! i) (oc_align oc ! i) (i + 1 = all_cnt fs)"
  have m: "map ?f [0..<k] = map (\<lambda>i. cell (strs ! i) (W k ! i) (oc_align oc ! i) (i + 1 = all_cnt fs)) [0..<k]"
    by (rule map_cong) (use old in simp_all)
  have t: "concat (map ?f [0..<Suc k]) = ?t @ ?f k"
    by (simp only: upt_Suc_append[OF le0] map_append m concat_append list.map concat.simps append_Nil2)
  have c: "sum_list (map (\<lambda>i. if i + 1 = all_cnt fs then 0 else 1 :: nat) [0..<Suc k])
      = ?c + (if k + 1 = all_cnt fs then 0 else 1)" by simp
  have IH: "each_res (\<lambda>(nm, i). print_name P fs nm i) (zip (map Ret (take k strs)) [0..<k]) oc
      = Ret (written ?t ?c (oc\<lparr>oc_width := W k\<rparr>))" using Suc.IH k by simp
  have one: "each_res (\<lambda>(nm, i). print_name P fs nm i) [(Ret (strs ! k), k)] st = print_header_column P fs (strs ! k) k st" for st
    by (simp add: print_name_def each_res_Nil res_bind_Ret_right)
  show ?case unfolding z each_res_append IH res_bind.simps one t c by (rule step)
qed

text \<open>The loop over the records widens the columns to their texts.\<close>

definition oc_text :: "libnf \<Rightarrow> out_env \<Rightarrow> output_params \<Rightarrow> ('r \<Rightarrow> int \<Rightarrow> fget_result) \<Rightarrow> fields \<Rightarrow> to_str list \<Rightarrow> 'r \<Rightarrow> nat \<Rightarrow> string res" where
  "oc_text L E P fget fs cbs r i =
     (case fget r (fld_id (all_flds fs ! i)) of
        Fget_OK buff \<Rightarrow> run_to_str L E P (cbs ! i) buff
      | Fget_NaN \<Rightarrow> Ret ''NaN''
      | Fget_Not_Set \<Rightarrow> Ret ''absent''
      | Fget_Error \<Rightarrow> Abort E_INTERNAL)"

lemma get_field_str_text:
  "columns_ok fs oc \<Longrightarrow> i < all_cnt fs \<Longrightarrow> get_field_str L E P fget fs oc i r = oc_text L E P fget fs (oc_cb oc) r i"
  by (simp add: get_field_str_def oc_text_def columns_ok_def split: fget_result.split)

lemma widen_record:
  assumes "columns_ok fs oc" "\<forall>i<all_cnt fs. oc_text L E P fget fs (oc_cb oc) r i = Ret (strs ! i)"
  shows "k \<le> all_cnt fs \<Longrightarrow> each_res (widen_column L E P fget fs r) [0..<k] oc
    = Ret (oc\<lparr>oc_width := widened (oc_width oc) strs k\<rparr>)"
proof (induction k)
  case (Suc k)
  have n: "length (oc_width oc) = all_cnt fs" using assms(1) by (simp add: columns_ok_def)
  have k: "k < all_cnt fs" using Suc.prems by simp
  let ?w = "widened (oc_width oc) strs"
  have c: "columns_ok fs (oc\<lparr>oc_width := ?w k\<rparr>)" using assms(1) n by (simp add: widened_nth)
  have "get_field_str L E P fget fs (oc\<lparr>oc_width := ?w k\<rparr>) k r = Ret (strs ! k)"
    using get_field_str_text[OF c k, of L E P fget r] assms(2) k by simp
  then show ?case
    using Suc k n widened_Suc[of k "oc_width oc" strs]
    by (simp add: each_res_append widen_column_def widened_nth)
qed (simp add: widened_0)

lemma widen_records:
  assumes "columns_ok fs oc" "\<forall>r\<in>set rs. \<forall>i<all_cnt fs. oc_text L E P fget fs (oc_cb oc) r i = Ret (strs r ! i)"
  shows "\<exists>ws. each_res (\<lambda>r. each_res (widen_column L E P fget fs r) [0..<all_cnt fs]) rs oc = Ret (oc\<lparr>oc_width := ws\<rparr>)
    \<and> length ws = all_cnt fs \<and> (\<forall>i<all_cnt fs. oc_width oc ! i \<le> ws ! i \<and> (\<forall>r\<in>set rs. length (strs r ! i) \<le> ws ! i))"
  using assms
proof (induction rs arbitrary: oc)
  case Nil
  then show ?case by (intro exI[of _ "oc_width oc"]) (simp add: columns_ok_def)
next
  case (Cons r rs)
  have n: "length (oc_width oc) = all_cnt fs" using Cons.prems(1) by (simp add: columns_ok_def)
  let ?w = "widened (oc_width oc) (strs r) (all_cnt fs)"
  have r: "each_res (widen_column L E P fget fs r) [0..<all_cnt fs] oc = Ret (oc\<lparr>oc_width := ?w\<rparr>)"
    by (rule widen_record[OF Cons.prems(1)]) (use Cons.prems(2) in simp_all)
  have c: "columns_ok fs (oc\<lparr>oc_width := ?w\<rparr>)" using Cons.prems(1) n by (simp add: widened_nth)
  obtain ws where ws: "each_res (\<lambda>r. each_res (widen_column L E P fget fs r) [0..<all_cnt fs]) rs (oc\<lparr>oc_width := ?w\<rparr>)
      = Ret (oc\<lparr>oc_width := ws\<rparr>)" "length ws = all_cnt fs"
      "\<forall>i<all_cnt fs. ?w ! i \<le> ws ! i \<and> (\<forall>r\<in>set rs. length (strs r ! i) \<le> ws ! i)"
    using Cons.IH[OF c] Cons.prems(2) by auto
  have "\<forall>i<all_cnt fs. oc_width oc ! i \<le> ws ! i \<and> length (strs r ! i) \<le> ws ! i"
    using ws(3) n by (fastforce simp: widened_nth)
  then show ?case using r ws by (intro exI[of _ ws]) auto
qed

lemma print_records_loop:
  assumes "op_format P = OUTPUT_FORMAT_PRETTY" "columns_ok fs oc"
    and "\<forall>r\<in>set rs. \<forall>i<all_cnt fs. oc_text L E P fget fs (oc_cb oc) r i = Ret (strs r ! i) \<and> fits P (strs r ! i) (oc_width oc ! i)"
  shows "each_res (print_batch_record L E P fget fs) rs oc
    = Ret (written (concat (map (\<lambda>r. table_line (oc_align oc) (oc_width oc) (strs r) @ newline) rs))
        (length rs * line_overrun (all_cnt fs)) oc)"
  using assms(2-3)
proof (induction rs arbitrary: oc)
  case Nil
  then show ?case by simp
next
  case (Cons r rs)
  have n: "length (oc_width oc) = all_cnt fs" using Cons.prems(1) by (simp add: columns_ok_def)
  have "each_res (print_batch_field L E P fget fs r) [0..<all_cnt fs] oc
      = Ret (written (concat (map (\<lambda>i. cell (strs r ! i) (oc_width oc ! i) (oc_align oc ! i) (i + 1 = all_cnt fs)) [0..<all_cnt fs]))
          (sum_list (map (\<lambda>i. if i + 1 = all_cnt fs then 0 else 1) [0..<all_cnt fs])) oc)"
  proof (rule each_column)
    fix i t m assume i: "i < all_cnt fs"
    have "get_field_str L E P fget fs (written t m oc) i r = Ret (strs r ! i)"
      using get_field_str_text[of fs "written t m oc" i L E P fget r] Cons.prems i by simp
    then show "print_batch_field L E P fget fs r i (written t m oc)
        = Ret (written (cell (strs r ! i) (oc_width oc ! i) (oc_align oc ! i) (i + 1 = all_cnt fs))
            (if i + 1 = all_cnt fs then 0 else 1) (written t m oc))"
      using print_column_pretty[OF assms(1) _ i, of "written t m oc" "strs r ! i"] Cons.prems i
      by (simp add: print_batch_field_def)
  qed
  then have "print_batch_record L E P fget fs r oc
      = Ret (written (table_line (oc_align oc) (oc_width oc) (strs r) @ newline) (line_overrun (all_cnt fs)) oc)"
    using n by (simp add: print_batch_record_def put_written table_line_def line_overrun_def del: upt_Suc)
  then show ?case
    using Cons.IH[of "written (table_line (oc_align oc) (oc_width oc) (strs r) @ newline) (line_overrun (all_cnt fs)) oc"] Cons.prems
    by simp
qed

lemma header_count:
  assumes "fields_inv L fs"
  shows "length (header_names L P fs) = all_cnt fs"
proof -
  have inv: "role_inv L fs" "ptr_inv fs" using assms by (simp_all add: fields_inv_def)
  let ?A = "set (aggr_ptrs fs)" let ?S = "sort_ptrs fs" let ?O = "set (out_ptrs fs)"
  let ?sk = "sk_field (sort_key fs)"
  have len: "length (aggr_ptrs fs) = aggr_keys_cnt fs" "length (out_ptrs fs) = output_fields_cnt fs"
    using inv(1) by (simp_all add: aggr_ptrs_def out_ptrs_def role_inv_def)
  have c: "card ?A = aggr_keys_cnt fs" "card ?O = output_fields_cnt fs"
    using inv(2) len by (metis ptr_inv_def distinct_card)+
  have "card (?A \<union> ?S \<union> ?O) = card (Some ` {..<all_cnt fs})" using inv(2) by (simp add: ptr_inv_def)
  also have "\<dots> = all_cnt fs" by (simp add: card_image)
  finally have n: "card (?A \<union> ?S) + output_fields_cnt fs = all_cnt fs"
    using inv(2) c(2) by (subst (asm) card_Un_disjoint) (simp_all add: ptr_inv_def sort_ptrs_def)
  have key: "sort_key_is_aggr_key fs \<longleftrightarrow> ?sk \<noteq> None \<and> ?sk \<in> ?A"
  proof -
    have "?A = (\<lambda>i. ak_field (aggr_keys fs ! i)) ` {..<aggr_keys_cnt fs}"
      using inv(1) by (simp add: aggr_ptrs_def role_inv_def set_take_nth image_image)
    then show ?thesis by (auto simp: sort_key_is_aggr_key_def)
  qed
  have "card (?A \<union> ?S) = aggr_keys_cnt fs + (if ?sk \<noteq> None \<and> \<not> sort_key_is_aggr_key fs then 1 else 0)"
  proof (cases "?sk \<noteq> None \<and> ?sk \<notin> ?A")
    case True
    then have "?A \<union> ?S = insert ?sk ?A" by (auto simp: sort_ptrs_def)
    then show ?thesis using True c(1) key by simp
  next
    case False
    then have "?A \<union> ?S = ?A" by (auto simp: sort_ptrs_def)
    then show ?thesis using False c(1) key by auto
  qed
  then have total: "all_cnt fs = aggr_keys_cnt fs + (if ?sk \<noteq> None \<and> \<not> sort_key_is_aggr_key fs then 1 else 0) + output_fields_cnt fs"
    using n by (simp only:)
  show ?thesis
  proof (cases "rich_header P \<and> 0 < aggr_keys_cnt fs")
    case True
    have "length (header_names L P fs)
        = aggr_keys_cnt fs + length (if ?sk \<noteq> None \<and> \<not> sort_key_is_aggr_key fs then [sort_key_name L fs] else []) + output_fields_cnt fs"
      using True by (simp only: header_names_def if_True length_append length_map length_upt) simp
    then show ?thesis unfolding total by simp
  next
    case False
    show ?thesis
    proof (cases "rich_header P \<and> ?sk \<noteq> None")
      case True
      then have "aggr_keys_cnt fs = 0" using False by simp
      moreover from this have "\<not> sort_key_is_aggr_key fs" by (simp add: sort_key_is_aggr_key_def)
      ultimately show ?thesis using total True by (simp add: header_names_def)
    next
      case no: False
      then have "header_names L P fs = map (\<lambda>i. field_get_name L (fld_id (all_flds fs ! i))) [0..<all_cnt fs]"
        unfolding header_names_def using False by (metis (no_types, lifting))
      then show ?thesis by simp
    qed
  qed
qed

text \<open>The names of the aggregation functions the header knows.\<close>

definition aggr_funcs_known :: "libnf \<Rightarrow> fields \<Rightarrow> bool" where
  "aggr_funcs_known L fs \<longleftrightarrow>
     lnf L LNF_FLD_CALC_DURATION < lnf L LNF_FLD_CALC_BPP
   \<and> (\<forall>i<output_fields_cnt fs. of_aggr_func (output_fields fs ! i)
        \<in> {lnf L LNF_AGGR_MIN, lnf L LNF_AGGR_MAX, lnf L LNF_AGGR_SUM, lnf L LNF_AGGR_OR})"

lemma field_name_Ret: "libnf_ok L \<Longrightarrow> valid_id L fid \<Longrightarrow> \<exists>s. field_get_name L fid = Ret s"
  using libnf_ok_name[of L fid] libnf_ok_consts[of L]
  by (auto simp: field_get_name_def assert_id_def lnf_info_ok_def)

lemma pointed_name_Ret:
  assumes "libnf_ok L" "fields_inv L fs" "p \<in> set (aggr_ptrs fs) \<union> sort_ptrs fs \<union> set (out_ptrs fs)"
  shows "\<exists>s. pointed_name L fs p = Ret s"
  using deref_valid[OF fields_inv_parts(1)[OF assms(2)] fields_inv_parts(3)[OF assms(2)] assms(3)]
    field_name_Ret[OF assms(1)] by (auto simp: pointed_name_def)

lemma sort_dir_Ret:
  assumes "libnf_ok L" "fields_inv L fs" "sk_field (sort_key fs) \<noteq> None"
  shows "\<exists>s. libnf_sort_dir_to_str L (sk_direction (sort_key fs)) = Ret s"
  using assms(3) fields_inv_parts(2)[OF assms(2)] by (auto simp: libnf_sort_dir_to_str_def role_inv_def)

lemma sort_key_name_Ret:
  assumes "libnf_ok L" "fields_inv L fs" "sk_field (sort_key fs) \<noteq> None"
  shows "\<exists>s. sort_key_name L fs = Ret s"
proof -
  have "sk_field (sort_key fs) \<in> set (aggr_ptrs fs) \<union> sort_ptrs fs \<union> set (out_ptrs fs)"
    using assms(3) by (simp add: sort_ptrs_def)
  from pointed_name_Ret[OF assms(1,2) this] sort_dir_Ret[OF assms] show ?thesis by (auto simp: sort_key_name_def)
qed

lemma header_names_Ret:
  assumes "libnf_ok L" "fields_inv L fs" "aggr_funcs_known L fs"
  shows "\<exists>strs. header_names L P fs = map Ret strs"
proof -
  have role: "role_inv L fs" by (rule fields_inv_parts(2)[OF assms(2)])
  have out: "\<exists>s. pointed_name L fs (of_field (output_fields fs ! i)) = Ret s" if "i < output_fields_cnt fs" for i
    using pointed_name_Ret[OF assms(1,2)] out_ptrs_nth[OF role that] by blast
  have aggr: "\<exists>s. aggr_key_name L fs i = Ret s" if i: "i < aggr_keys_cnt fs" for i
  proof -
    let ?p = "ak_field (aggr_keys fs ! i)"
    obtain nm where nm: "pointed_name L fs ?p = Ret nm"
      using pointed_name_Ret[OF assms(1,2), of ?p] aggr_ptrs_nth[OF role i] by auto
    show ?thesis
    proof (cases "sk_field (sort_key fs) \<noteq> None \<and> sk_field (sort_key fs) = ?p")
      case True
      then obtain d where "libnf_sort_dir_to_str L (sk_direction (sort_key fs)) = Ret d"
        using sort_dir_Ret[OF assms(1,2)] by blast
      then show ?thesis unfolding aggr_key_name_def Let_def nm res_bind.simps if_P[OF True] by simp
    next
      case False
      show ?thesis unfolding aggr_key_name_def Let_def nm res_bind.simps if_not_P[OF False] by simp
    qed
  qed
  have func: "\<exists>s. output_field_name L fs i = Ret s" if i: "i < output_fields_cnt fs" for i
  proof -
    let ?p = "of_field (output_fields fs ! i)"
    have p: "?p \<in> set (aggr_ptrs fs) \<union> sort_ptrs fs \<union> set (out_ptrs fs)" using out_ptrs_nth[OF role i] by simp
    note v = deref_valid[OF fields_inv_parts(1)[OF assms(2)] fields_inv_parts(3)[OF assms(2)] p]
    obtain nm where "field_get_name L (deref_id fs ?p) = Ret nm" using field_name_Ret[OF assms(1) v(2)] by blast
    moreover obtain fn where "libnf_aggr_func_to_str L (of_aggr_func (output_fields fs ! i)) = Ret fn"
    proof -
      have "of_aggr_func (output_fields fs ! i) \<in> {lnf L LNF_AGGR_MIN, lnf L LNF_AGGR_MAX, lnf L LNF_AGGR_SUM, lnf L LNF_AGGR_OR}"
        using assms(3) i unfolding aggr_funcs_known_def by blast
      then have "\<exists>fn. libnf_aggr_func_to_str L (of_aggr_func (output_fields fs ! i)) = Ret fn"
        unfolding libnf_aggr_func_to_str_def by auto
      then show ?thesis using that by blast
    qed
    ultimately show ?thesis
      using v(1) assms(3) by (auto simp: output_field_name_def Let_def in_range_incl_def aggr_funcs_known_def)
  qed
  have all: "\<exists>s. field_get_name L (fld_id (all_flds fs ! i)) = Ret s" if "i < all_cnt fs" for i
    using field_name_Ret[OF assms(1)] fields_inv_parts(1)[OF assms(2)] that by (simp add: all_inv_def)
  have "\<forall>r\<in>set (header_names L P fs). \<exists>s. r = Ret s"
    using out aggr func all sort_key_name_Ret[OF assms(1,2)] by (auto simp: header_names_def split: if_splits)
  then have "map (\<lambda>r. Ret (case r of Ret s \<Rightarrow> s)) (header_names L P fs) = header_names L P fs"
    by (intro map_idI) auto
  then have "header_names L P fs = map Ret (map (\<lambda>r. case r of Ret s \<Rightarrow> s) (header_names L P fs))"
    by (simp add: comp_def)
  then show ?thesis by blast
qed

text \<open>libnf reads every field of the records, with the size it announces.\<close>

definition fget_ok :: "('r \<Rightarrow> int \<Rightarrow> fget_result) \<Rightarrow> fields \<Rightarrow> 'r \<Rightarrow> bool" where
  "fget_ok fget fs r \<longleftrightarrow>
     (\<forall>i<all_cnt fs. fget r (fld_id (all_flds fs ! i)) \<noteq> Fget_Error
        \<and> (\<forall>buff. fget r (fld_id (all_flds fs ! i)) = Fget_OK buff \<longrightarrow> length buff = fld_size (all_flds fs ! i)))"

text \<open>The texts of a record, as \<open>field_to_str\<close> gives them.\<close>

definition record_texts ::
  "libnf \<Rightarrow> out_env \<Rightarrow> output_params \<Rightarrow> ('r \<Rightarrow> int \<Rightarrow> fget_result) \<Rightarrow> fields \<Rightarrow> 'r \<Rightarrow> string list \<Rightarrow> bool" where
  "record_texts L E P fget fs r strs \<longleftrightarrow>
     length strs = all_cnt fs
   \<and> (\<forall>i<all_cnt fs. case fget r (fld_id (all_flds fs ! i)) of
        Fget_OK buff \<Rightarrow> field_to_str L E P (fld_id (all_flds fs ! i)) buff = Ret (strs ! i)
      | Fget_NaN \<Rightarrow> strs ! i = ''NaN''
      | Fget_Not_Set \<Rightarrow> strs ! i = ''absent''
      | Fget_Error \<Rightarrow> False)"

lemma record_texts_exist:
  assumes "params_set P" "localtime_ok E" "printable_fields L fs" "stream_ready L fs oc" "fget_ok fget fs r"
  shows "\<exists>strs. record_texts L E P fget fs r strs \<and> (\<forall>i<all_cnt fs. oc_text L E P fget fs (oc_cb oc) r i = Ret (strs ! i))"
proof -
  have "\<exists>s. oc_text L E P fget fs (oc_cb oc) r i = Ret s
      \<and> (case fget r (fld_id (all_flds fs ! i)) of
        Fget_OK buff \<Rightarrow> field_to_str L E P (fld_id (all_flds fs ! i)) buff = Ret s
      | Fget_NaN \<Rightarrow> s = ''NaN'' | Fget_Not_Set \<Rightarrow> s = ''absent'' | Fget_Error \<Rightarrow> False)" if i: "i < all_cnt fs" for i
  proof (cases "fget r (fld_id (all_flds fs ! i))")
    case (Fget_OK buff)
    have cb: "get_field_to_str_callback L (fld_id (all_flds fs ! i)) = Ret (oc_cb oc ! i)"
      using assms(4) i by (simp add: stream_ready_def)
    have s: "simple_column (oc_cb oc ! i)" "to_str_size (oc_cb oc ! i) \<le> fld_size (all_flds fs ! i)"
      using assms(3) i cb by (simp_all add: printable_fields_def simple_fields_def)
    have "length buff = fld_size (all_flds fs ! i)" using assms(5) i Fget_OK by (simp add: fget_ok_def)
    then have "to_str_size (oc_cb oc ! i) \<le> length buff" using s(2) by simp
    from run_to_str_Ret[OF assms(1,2) s(1) this, of L] obtain str where "run_to_str L E P (oc_cb oc ! i) buff = Ret str" by blast
    then show ?thesis using Fget_OK cb by (simp add: oc_text_def field_to_str_def)
  qed (use assms(5) i in \<open>simp_all add: oc_text_def fget_ok_def\<close>)
  then have "\<forall>i<all_cnt fs. \<exists>s. oc_text L E P fget fs (oc_cb oc) r i = Ret s
      \<and> (case fget r (fld_id (all_flds fs ! i)) of
        Fget_OK buff \<Rightarrow> field_to_str L E P (fld_id (all_flds fs ! i)) buff = Ret s
      | Fget_NaN \<Rightarrow> s = ''NaN'' | Fget_Not_Set \<Rightarrow> s = ''absent'' | Fget_Error \<Rightarrow> False)" by blast
  then show ?thesis unfolding Skolem_list_nth record_texts_def by blast
qed

lemma all_record_texts:
  assumes "\<forall>r\<in>set rs. \<exists>strs. Q r strs"
  shows "\<exists>strs. \<forall>r\<in>set rs. Q r (strs r)"
  using assms by metis

text \<open>
  A table: every text fits its column or is cut by an ellipsis, which a query without
  ellipses never does, and every column but the last takes its width and the padding.
\<close>

definition table_ok_widths :: "output_params \<Rightarrow> alignment list \<Rightarrow> nat list \<Rightarrow> string list \<Rightarrow> bool" where
  "table_ok_widths P aligns ws strs \<longleftrightarrow>
     length strs = length ws
   \<and> (\<forall>i<length ws. fits P (strs ! i) (ws ! i) \<and> length (cell (strs ! i) (ws ! i) (aligns ! i) False) = ws ! i + PROTECTIVE_PADDING)
   \<and> (\<not> ellipsize P \<longrightarrow> (\<forall>i<length ws. shown (strs ! i) (ws ! i) = strs ! i))"

lemma table_ok_fits:
  "length strs = length ws \<Longrightarrow> \<forall>i<length ws. fits P (strs ! i) (ws ! i) \<Longrightarrow> table_ok_widths P aligns ws strs"
proof -
  assume l: "length strs = length ws" and f: "\<forall>i<length ws. fits P (strs ! i) (ws ! i)"
  then have "\<forall>i<length ws. length (cell (strs ! i) (ws ! i) (aligns ! i) False) = ws ! i + PROTECTIVE_PADDING"
    using cell_width by blast
  moreover have "\<not> ellipsize P \<longrightarrow> (\<forall>i<length ws. shown (strs ! i) (ws ! i) = strs ! i)"
    using f by (auto simp: fits_def shown_def)
  ultimately show ?thesis using l f by (simp add: table_ok_widths_def)
qed

lemma print_batch_Ret:
  assumes "libnf_ok L" "fields_inv L fs" "printable_fields L fs" "aggr_funcs_known L fs"
    and "params_set P" "localtime_ok E" "op_format P = OUTPUT_FORMAT_PRETTY" "print_records P = OUTPUT_ITEM_YES"
    and "output_init L E P fs oc0 = Ret oc"
    and rs: "rs = batch_records (if lim = 0 then - 1 else lim) mem" "\<forall>r\<in>set rs. fget_ok fget fs r"
  shows "\<exists>ws heads texts. header_names L P fs = map Ret heads \<and> length ws = all_cnt fs
    \<and> (\<forall>r\<in>set rs. record_texts L E P fget fs r (texts r))
    \<and> print_batch L E P fget True fs mem lim oc
        = Ret (written (concat (map (\<lambda>strs. table_line (oc_align oc) ws strs @ newline) (heads # map texts rs)))
            ((1 + length rs) * (all_cnt fs - 1)) (oc\<lparr>oc_width := ws, oc_first_item := False\<rparr>))
    \<and> (\<forall>strs\<in>set (heads # map texts rs). table_ok_widths P (oc_align oc) ws strs)"
proof -
  note init = output_init_columns[OF assms(9)]
  have ready: "stream_ready L fs oc" by (rule output_init_ready[OF assms(9)])
  define oc1 where "oc1 = oc\<lparr>oc_first_item := False\<rparr>"
  have oc1: "begin_item oc = oc1" "columns_ok fs oc1" "oc_cb oc1 = oc_cb oc" "oc_align oc1 = oc_align oc" "oc_width oc1 = oc_width oc"
    using init(1,2) by (simp_all add: begin_item_def oc1_def columns_ok_def)
  have old: "\<forall>i<all_cnt fs. 3 \<le> oc_width oc1 ! i" using ready oc1(5) by (simp add: stream_ready_def)
  have "\<forall>r\<in>set rs. \<exists>strs. record_texts L E P fget fs r strs
      \<and> (\<forall>i<all_cnt fs. oc_text L E P fget fs (oc_cb oc1) r i = Ret (strs ! i))"
    using record_texts_exist[OF assms(5,6,3) ready, of fget] rs(2) unfolding oc1(3) by blast
  then obtain texts where t: "\<forall>r\<in>set rs. record_texts L E P fget fs r (texts r)"
    "\<forall>r\<in>set rs. \<forall>i<all_cnt fs. oc_text L E P fget fs (oc_cb oc1) r i = Ret (texts r ! i)"
    using all_record_texts[of rs "\<lambda>r strs. record_texts L E P fget fs r strs
      \<and> (\<forall>i<all_cnt fs. oc_text L E P fget fs (oc_cb oc1) r i = Ret (strs ! i))"] by blast
  obtain ws0 where w0: "(if \<not> ellipsize P then set_column_widths_exactly L E P fget True fs mem (if lim = 0 then - 1 else lim) oc1
      else Ret oc1) = Ret (oc1\<lparr>oc_width := ws0\<rparr>)" "length ws0 = all_cnt fs"
    "\<forall>i<all_cnt fs. 3 \<le> ws0 ! i \<and> (\<not> ellipsize P \<longrightarrow> (\<forall>r\<in>set rs. length (texts r ! i) \<le> ws0 ! i))"
  proof (cases "ellipsize P")
    case True
    then show ?thesis using that[of "oc_width oc1"] old oc1(2) by (simp add: columns_ok_def)
  next
    case False
    obtain ws where "each_res (\<lambda>r. each_res (widen_column L E P fget fs r) [0..<all_cnt fs]) rs oc1 = Ret (oc1\<lparr>oc_width := ws\<rparr>)"
      "length ws = all_cnt fs" "\<forall>i<all_cnt fs. oc_width oc1 ! i \<le> ws ! i \<and> (\<forall>r\<in>set rs. length (texts r ! i) \<le> ws ! i)"
      using widen_records[OF oc1(2) t(2)] by blast
    then show ?thesis using that[of ws] False old rs(1) by (fastforce simp: set_column_widths_exactly_def)
  qed
  obtain heads where h: "header_names L P fs = map Ret heads" using header_names_Ret[OF assms(1,2,4)] by blast
  then have hl: "length heads = all_cnt fs" using header_count[OF assms(2), of P] by simp
  define ws where "ws = widened ws0 heads (all_cnt fs)"
  have wl: "length ws = all_cnt fs" using w0(2) by (simp add: ws_def widened_nth)
  have wn: "ws ! i = max (ws0 ! i) (length (heads ! i))" if "i < all_cnt fs" for i
    using that w0(2) by (simp add: ws_def widened_nth)
  let ?oc2 = "oc1\<lparr>oc_width := ws0\<rparr>" let ?oc3 = "oc1\<lparr>oc_width := ws\<rparr>"
  have c2: "columns_ok fs ?oc2" "columns_ok fs ?oc3" using oc1(2) w0(2) wl by simp_all
  have pos: "\<forall>i<all_cnt fs. 0 < oc_width ?oc2 ! i" using w0(3) by force
  have "print_header L P fs ?oc2 = Ret (written (table_line (oc_align oc) ws heads @ newline) (line_overrun (all_cnt fs)) ?oc3)"
    using header_columns[OF assms(7) c2(1) hl pos, of "all_cnt fs"] hl
    by (simp add: print_header_names h put_written table_line_def line_overrun_def wl oc1(4) ws_def[symmetric] del: upt_Suc)
  moreover have fit: "\<forall>r\<in>set rs. \<forall>i<all_cnt fs. fits P (texts r ! i) (ws ! i)"
    using w0(3) wn by (force simp: fits_def ELLIPSIS_def)
  let ?hd = "written (table_line (oc_align oc) ws heads @ newline) (line_overrun (all_cnt fs)) ?oc3"
  have "each_res (print_batch_record L E P fget fs) rs ?hd
      = Ret (written (concat (map (\<lambda>r. table_line (oc_align oc) ws (texts r) @ newline) rs)) (length rs * line_overrun (all_cnt fs)) ?hd)"
    using print_records_loop[OF assms(7), of fs ?hd rs L E fget texts] t(2) fit c2(2) oc1(4) by simp
  ultimately have "print_batch L E P fget True fs mem lim oc
      = Ret (written (concat (map (\<lambda>strs. table_line (oc_align oc) ws strs @ newline) (heads # map texts rs)))
            ((1 + length rs) * (all_cnt fs - 1)) (oc\<lparr>oc_width := ws, oc_first_item := False\<rparr>))"
    using assms(8) w0(1)
    by (simp add: print_batch_def Let_def oc1(1) rs(1)[symmetric] comp_def line_overrun_eq) (simp add: oc1_def)
  moreover have "\<forall>strs\<in>set (heads # map texts rs). table_ok_widths P (oc_align oc) ws strs"
  proof -
    have "\<forall>i<all_cnt fs. fits P (heads ! i) (ws ! i)" using wn w0(3) by (force simp: fits_def)
    moreover have "\<forall>r\<in>set rs. length (texts r) = all_cnt fs" using t(1) by (simp add: record_texts_def)
    ultimately show ?thesis using fit hl wl by (auto intro!: table_ok_fits)
  qed
  ultimately show ?thesis using h wl t(1) by blast
qed

text \<open>C13: Printing the collected records in the pretty format writes a table: the header line and
  one line per record of the limit, in the order of the memory, every line made of the same
  number of columns, each of the same width in all lines and the padding, with the text of the
  field in it (whole when ellipses are off).  Every column but the last of each line writes one
  byte behind the end of the array it is composed in.\<close>

theorem print_batch_table:
  assumes "libnf_ok L" and "fields_inv L fs" and "printable_fields L fs" and "aggr_funcs_known L fs"
    and "params_set P" and "localtime_ok E" and "op_format P = OUTPUT_FORMAT_PRETTY" and "print_records P = OUTPUT_ITEM_YES"
    and "output_init L E P fs oc0 = Ret oc"
    and "rs = batch_records (if lim = 0 then - 1 else lim) mem" and "\<forall>r\<in>set rs. fget_ok fget fs r"
  shows "\<exists>ws heads texts. header_names L P fs = map Ret heads \<and> length ws = all_cnt fs
    \<and> (\<forall>r\<in>set rs. record_texts L E P fget fs r (texts r))
    \<and> print_batch L E P fget True fs mem lim oc
        = Ret (written (concat (map (\<lambda>strs. table_line (oc_align oc) ws strs @ newline) (heads # map texts rs)))
            ((1 + length rs) * (all_cnt fs - 1)) (oc\<lparr>oc_width := ws, oc_first_item := False\<rparr>))
    \<and> (\<forall>strs\<in>set (heads # map texts rs). table_ok_widths P (oc_align oc) ws strs)"
  by (rule print_batch_Ret[OF assms])

text \<open>An instance: three records in memory, two of them printed with the names of the fields over them.\<close>

definition sample_fget :: "byte \<Rightarrow> int \<Rightarrow> fget_result" where
  "sample_fget r fid =
     (case map_of (map (\<lambda>f. (fld_id f, fld_size f)) (all_flds sample_fields)) fid of
        None \<Rightarrow> Fget_Error | Some n \<Rightarrow> Fget_OK (replicate n r))"

lemma sample_fget_ok: "fget_ok sample_fget sample_fields r"
proof -
  have "\<forall>i\<in>set [0..<6]. sample_fget r (fld_id (all_flds sample_fields ! i))
      = Fget_OK (replicate (fld_size (all_flds sample_fields ! i)) r)"
    by (simp add: upt_rec sample_fget_def sample_fields_defs)
  then show ?thesis by (simp add: fget_ok_def sample_rec_length)
qed

lemma sample_aggr_funcs: "aggr_funcs_known sample_libnf sample_fields"
  by (simp add: aggr_funcs_known_def sample_fields_defs all_less_upt upt_rec)

theorem print_batch_table_witness:
  "\<exists>oc ws heads texts.
    output_init sample_libnf sample_out_env pretty_params sample_fields zero_out_ctx = Ret oc
    \<and> header_names sample_libnf pretty_params sample_fields = map Ret heads
    \<and> print_batch sample_libnf sample_out_env pretty_params sample_fget True sample_fields [1, 2, 3] 2 oc
        = Ret (written (concat (map (\<lambda>strs. table_line (oc_align oc) ws strs @ newline) [heads, texts (1 :: byte), texts 2]))
            15 (oc\<lparr>oc_width := ws, oc_first_item := False\<rparr>))"
proof -
  have p: "op_format pretty_params = OUTPUT_FORMAT_PRETTY" "print_records pretty_params = OUTPUT_ITEM_YES"
    "params_set pretty_params"
    by (simp_all add: pretty_params_def csv_params_def params_set_def)
  obtain oc where oc: "output_init sample_libnf sample_out_env pretty_params sample_fields zero_out_ctx = Ret oc"
    using output_init_Ret[OF _ _ p(3) sample_printable, of sample_out_env zero_out_ctx] p(1)
    by (auto simp: sample_out_env_def)
  have rs: "[1, 2] = batch_records (if (2 :: 64 word) = 0 then - 1 else 2) [1, 2, 3 :: byte]"
    by (simp add: batch_records_def)
  have "\<forall>r\<in>set [1, 2]. fget_ok sample_fget sample_fields r" using sample_fget_ok by blast
  from print_batch_table[OF sample_libnf_ok sample_fields_inv(1) sample_printable sample_aggr_funcs p(3) sample_localtime
      p(1,2) oc rs this]
  obtain ws heads texts where "header_names sample_libnf pretty_params sample_fields = map Ret heads"
    "print_batch sample_libnf sample_out_env pretty_params sample_fget True sample_fields [1, 2, 3] 2 oc
        = Ret (written (concat (map (\<lambda>strs. table_line (oc_align oc) ws strs @ newline) (heads # map texts [1, 2 :: byte])))
            ((1 + length [1, 2 :: byte]) * (all_cnt sample_fields - 1)) (oc\<lparr>oc_width := ws, oc_first_item := False\<rparr>))"
    by blast
  then show ?thesis using oc by (intro exI[of _ oc] exI[of _ ws] exI[of _ heads] exI[of _ texts]) (simp add: sample_rec_length)
qed

lemma digit_chars: "digit_char 0 = CHR ''0''" "digit_char (Suc 0) = CHR ''1''"
  by code_simp+

lemma volume_thousands:
  "volume_to_str_num pretty_params 1000 = Ret ''1000.0  ''"
  "volume_to_str_num pretty_params 1000000 = Ret ''1000.0 k''"
  "volume_to_str_num pretty_params 1000000000 = Ret ''1000.0 M''"
  by (simp_all add: volume_to_str_num_def pretty_params_def csv_params_def prefixed_volume_def scale_volume.simps
      double_of_exact METRIC_PREFIX_THRESHOLD_def double_div_def up_exp.simps rne_def fixed_text_def dec.simps
      digit_chars zpad_def decimal_unit_table_def global_str_def MAX_STR_LEN_def)

text \<open>The column of a volume with metric prefixes is as wide as the text of 999.9, one byte
  less than the text of 1000.  With ellipses on, one thousand, one million and one billion are
  all printed as the same seven characters, without the unit.
\<close>

theorem volume_ellipsis_ambiguous:
  "volume_to_str_strlen pretty_params = Ret 7
   \<and> map (volume_to_str_num pretty_params) [1000, 1000000, 1000000000]
       = [Ret ''1000.0  '', Ret ''1000.0 k'', Ret ''1000.0 M'']
   \<and> map (\<lambda>s. print_field (pretty_params\<lparr>ellipsize := True\<rparr>) s 7 ALIGNMENT_RIGHT True) [''1000.0  '', ''1000.0 k'', ''1000.0 M'']
       = replicate 3 (Ret (''1000...'', 0))"
proof -
  have "volume_to_str_strlen pretty_params = Ret 7"
    by (simp add: volume_to_str_strlen_def pretty_params_def csv_params_def volume_widths)
  moreover have cut: "print_field (pretty_params\<lparr>ellipsize := True\<rparr>) (''1000'' @ s) 7 ALIGNMENT_RIGHT True = Ret (''1000...'', 0)"
    if "length s = 4" for s
    using that
    by (simp add: print_field_def pretty_params_def pretty_text_def pretty_overrun_def ELLIPSIS_def PROTECTIVE_PADDING_def csv_params_def)
  have "map (\<lambda>s. print_field (pretty_params\<lparr>ellipsize := True\<rparr>) s 7 ALIGNMENT_RIGHT True) [''1000.0  '', ''1000.0 k'', ''1000.0 M'']
       = replicate 3 (Ret (''1000...'', 0))"
    using cut[of "''.0  ''"] cut[of "''.0 k''"] cut[of "''.0 M''"] by (simp add: numeral_3_eq_3)
  ultimately show ?thesis using volume_thousands by simp
qed

text \<open>C39: A column of the pretty format that is not the last writes behind its array, which has the
  width of the column and four bytes: one byte for every text that fits; a text that is longer
  when ellipses are off, where the column widths of a list query are only estimates, is followed by
  one space and the zero, so that all but two of the characters that exceed the width are behind the array
  (none when the text is one or two characters too long).\<close>

theorem print_field_overrun:
  assumes "op_format P = OUTPUT_FORMAT_PRETTY" and "0 < w" and "length str \<le> w \<or> \<not> ellipsize P"
  shows "\<exists>txt. print_field P str w a False = Ret (txt, if length str \<le> w then 1 else length str - w - 2)"
proof (cases "length str \<le> w")
  case True
  then show ?thesis using pretty_cell[of P str w a False] assms by (simp add: fits_def)
next
  case False
  then have "pretty_text P str w a False = Ret (str @ [CHR 0x20])"
    using assms(3) by (simp add: pretty_text_def Let_def)
  then show ?thesis
    using False assms(1,2) by (simp add: print_field_def pretty_overrun_def PROTECTIVE_PADDING_def)
qed

text \<open>An IPv6 address in the column of an address, whose estimated width is that of an IPv4 address.\<close>

theorem print_field_overrun_witness:
  "libnf_addr_to_str_strlen pretty_params = Ret 15
   \<and> (\<exists>txt. print_field pretty_params ''2001:0db8:1111:2222:3333:4444:5555:6666'' 15 ALIGNMENT_LEFT False = Ret (txt, 22))"
proof -
  have p: "op_format pretty_params = OUTPUT_FORMAT_PRETTY" "\<not> ellipsize pretty_params"
    by (simp_all add: pretty_params_def csv_params_def)
  have "libnf_addr_to_str_strlen pretty_params = Ret 15"
    by (simp add: libnf_addr_to_str_strlen_def pretty_params_def csv_params_def)
  then show ?thesis
    using print_field_overrun[of pretty_params 15 "''2001:0db8:1111:2222:3333:4444:5555:6666''" ALIGNMENT_LEFT] p
    by (simp add: eval_nat_numeral)
qed

subsection \<open>The name over a column\<close>

text \<open>A header text names a field: the name of the field, or the name and what the field is used for.\<close>

definition labels :: "libnf \<Rightarrow> int \<Rightarrow> string \<Rightarrow> bool" where
  "labels L fid h \<longleftrightarrow> (\<exists>nm. field_get_name L fid = Ret nm \<and> (h = nm \<or> (\<exists>role. h = buff256 (nm @ '' '' @ role))))"

lemma pointed_labels:
  "pointed_name L fs p = Ret h \<Longrightarrow> \<exists>j. p = Some j \<and> labels L (fld_id (all_flds fs ! j)) h"
  by (cases p) (auto simp: pointed_name_def deref_id_def labels_def)

lemma sort_key_labels:
  "sort_key_name L fs = Ret h \<Longrightarrow> \<exists>j. sk_field (sort_key fs) = Some j \<and> labels L (fld_id (all_flds fs ! j)) h"
  by (cases "sk_field (sort_key fs)") (auto simp: sort_key_name_def res_simps pointed_name_def deref_id_def labels_def)

lemma aggr_key_labels:
  "aggr_key_name L fs i = Ret h \<Longrightarrow> \<exists>j. ak_field (aggr_keys fs ! i) = Some j \<and> labels L (fld_id (all_flds fs ! j)) h"
  by (cases "ak_field (aggr_keys fs ! i)")
    (auto simp: aggr_key_name_def Let_def res_simps pointed_name_def deref_id_def labels_def split: if_splits)

lemma output_field_labels:
  "output_field_name L fs i = Ret h \<Longrightarrow> \<exists>j. of_field (output_fields fs ! i) = Some j \<and> labels L (fld_id (all_flds fs ! j)) h"
  by (cases "of_field (output_fields fs ! i)")
    (auto simp: output_field_name_def Let_def res_simps deref_id_def labels_def split: if_splits)

lemma pointers_upt:
  assumes "fields_inv L fs"
  shows "aggr_ptrs fs = map (\<lambda>i. ak_field (aggr_keys fs ! i)) [0..<aggr_keys_cnt fs]"
    "out_ptrs fs = map (\<lambda>i. of_field (output_fields fs ! i)) [0..<output_fields_cnt fs]"
  using fields_inv_parts(2)[OF assms] by (auto simp: role_inv_def aggr_ptrs_def out_ptrs_def intro!: nth_equalityI)

lemma header_pointers:
  assumes "fields_inv L fs" "header_names L P fs = map Ret heads"
    and "rich_header P" "aggr_keys_cnt fs > 0 \<or> sk_field (sort_key fs) \<noteq> None"
  shows "list_all2 (\<lambda>p h. \<exists>j. p = Some j \<and> labels L (fld_id (all_flds fs ! j)) h) (column_ptrs fs) heads"
proof -
  let ?R = "\<lambda>p r. \<forall>h. r = Ret h \<longrightarrow> (\<exists>j. p = Some j \<and> labels L (fld_id (all_flds fs ! j)) h)"
  note ptrs = pointers_upt[OF assms(1)]
  have out: "list_all2 ?R (out_ptrs fs) (map (output_field_name L fs) [0..<output_fields_cnt fs])"
    "list_all2 ?R (out_ptrs fs) (map (\<lambda>i. pointed_name L fs (of_field (output_fields fs ! i))) [0..<output_fields_cnt fs])"
    using output_field_labels pointed_labels by (auto simp: ptrs list_all2_conv_all_nth)
  have srt: "list_all2 ?R [sk_field (sort_key fs)] [sort_key_name L fs]" using sort_key_labels by simp
  have "list_all2 ?R (column_ptrs fs) (header_names L P fs)"
  proof (cases "aggr_keys_cnt fs > 0")
    case True
    have aggr: "list_all2 ?R (aggr_ptrs fs) (map (aggr_key_name L fs) [0..<aggr_keys_cnt fs])"
      using aggr_key_labels by (auto simp: ptrs list_all2_conv_all_nth)
    have s: "sort_key_is_aggr_key fs \<longleftrightarrow> sk_field (sort_key fs) \<noteq> None \<and> sk_field (sort_key fs) \<in> set (aggr_ptrs fs)"
      by (auto simp: sort_key_is_aggr_key_def ptrs)
    have h: "header_names L P fs = map (aggr_key_name L fs) [0..<aggr_keys_cnt fs]
        @ (if sk_field (sort_key fs) = None \<or> sk_field (sort_key fs) \<in> set (aggr_ptrs fs) then [] else [sort_key_name L fs])
        @ map (output_field_name L fs) [0..<output_fields_cnt fs]"
      using True assms(3) s by (auto simp: header_names_def)
    show ?thesis
      unfolding h column_ptrs_def Let_def
      by (intro list_all2_appendI aggr out(1)) (use srt in \<open>auto split: if_splits\<close>)
  next
    case False
    then have h: "header_names L P fs = [sort_key_name L fs]
        @ map (\<lambda>i. pointed_name L fs (of_field (output_fields fs ! i))) [0..<output_fields_cnt fs]"
      using assms(3,4) by (simp add: header_names_def)
    have c: "column_ptrs fs = [sk_field (sort_key fs)] @ out_ptrs fs"
      using False assms(4) by (simp add: column_ptrs_def aggr_ptrs_def Let_def)
    show ?thesis unfolding h c by (intro list_all2_appendI srt out(2))
  qed
  then show ?thesis unfolding assms(2) by (simp add: list.rel_map)
qed

lemma header_labels:
  assumes "fields_inv L fs" "columns_ordered fs" "header_names L P fs = map Ret heads"
  shows "length heads = all_cnt fs \<and> (\<forall>i<all_cnt fs. labels L (fld_id (all_flds fs ! i)) (heads ! i))"
proof (cases "rich_header P \<and> (aggr_keys_cnt fs > 0 \<or> sk_field (sort_key fs) \<noteq> None)")
  case True
  then have "list_all2 (\<lambda>p h. \<exists>j. p = Some j \<and> labels L (fld_id (all_flds fs ! j)) h) (map Some [0..<all_cnt fs]) heads"
    using header_pointers[OF assms(1,3)] assms(2) by (simp add: columns_ordered_def)
  then show ?thesis by (simp add: list_all2_conv_all_nth)
next
  case False
  then have "map Ret heads = map (\<lambda>i. field_get_name L (fld_id (all_flds fs ! i))) [0..<all_cnt fs]"
    using assms(3) unfolding header_names_def by (metis (no_types, lifting))
  then have e: "length heads = all_cnt fs" "i < all_cnt fs \<Longrightarrow> field_get_name L (fld_id (all_flds fs ! i)) = Ret (heads ! i)" for i
    by (metis length_map length_upt diff_zero, metis (no_types, lifting) add.left_neutral diff_zero length_map length_upt nth_map nth_upt)
  then show ?thesis by (simp add: labels_def)
qed

text \<open>C14: the header names what is in the columns.  For every query the command line can leave, in
  the rich format and in the simple one: there is a name for each column, and the text over a column
  begins with libnf's name of the field whose values are printed in that column, although the
  names are put together from the keys, the sort key and the output fields and the values are
  printed in the order of the fields.\<close>

theorem header_names_columns:
  assumes "fields_inv L fs" and "columns_ordered fs" and "header_names L P fs = map Ret heads"
  shows "length heads = all_cnt fs \<and> (\<forall>i<all_cnt fs. labels L (fld_id (all_flds fs ! i)) (heads ! i))"
  by (rule header_labels[OF assms])

lemma sample_columns: "columns_ordered sample_fields"
  by (simp add: columns_ordered_def column_ptrs_def aggr_ptrs_def out_ptrs_def sample_fields_defs upt_rec Let_def)

theorem header_names_columns_witness:
  "\<exists>heads. header_names sample_libnf pretty_params sample_fields = map Ret heads
    \<and> length heads = 6 \<and> labels sample_libnf 16 (heads ! 0) \<and> labels sample_libnf 8 (heads ! 5)"
proof -
  obtain heads where h: "header_names sample_libnf pretty_params sample_fields = map Ret heads"
    using header_names_Ret[OF sample_libnf_ok sample_fields_inv(1) sample_aggr_funcs] by blast
  have c: "all_cnt sample_fields = 6" "fld_id (all_flds sample_fields ! 0) = 16" "fld_id (all_flds sample_fields ! 5) = 8"
    by (simp_all add: sample_fields_defs)
  from header_names_columns[OF sample_fields_inv(1) sample_columns h] have l: "length heads = 6"
    and a: "\<forall>i<6. labels sample_libnf (fld_id (all_flds sample_fields ! i)) (heads ! i)" unfolding c(1) by blast+
  have "labels sample_libnf 16 (heads ! 0)" using a[rule_format, of 0] unfolding c(2) by simp
  moreover have "labels sample_libnf 8 (heads ! 5)" using a[rule_format, of 5] unfolding c(3) by simp
  ultimately show ?thesis using h l by blast
qed

end
