(* ===== verification/Query.thy ===== *)
theory Query
  imports Mem_Query Output_Table
begin

text \<open>
  The master with its output: the functions of \<open>output.c\<close> (\<open>Output\<close>) as the printing of
  \<open>Master\<close>, and what a list query writes to the standard output.
\<close>

text \<open>
  Printing may end the program: the state of the output is a result, which every
  function continues from.  \<open>reader\<close> gives the records of a memory in cursor order,
  \<open>duration\<close> is the time \<open>MPI_Wtime\<close> measures.
\<close>

definition output_master ::
  "libnf \<Rightarrow> out_env \<Rightarrow> 'm mem_ops \<Rightarrow> ('m \<Rightarrow> 'r list) \<Rightarrow> ('r \<Rightarrow> int \<Rightarrow> fget_result) \<Rightarrow> bool \<Rightarrow> bool \<Rightarrow> cdouble
    \<Rightarrow> cmdline_args \<Rightarrow> ('m, out_ctx res) master_env" where
  "output_master L E mo reader fget rec_init malloc_ok duration args =
     (let P = output_params args; fs = ca_fields args in
      \<lparr>me_malloc = malloc_ok, me_lnf_mem = mo,
       me_output_init = (\<lambda>out. map_res Ret (res_bind out (output_init L E P fs))),
       me_print_names = (\<lambda>out. res_bind out (print_stream_names L P fs)),
       me_print_next = (\<lambda>data out. res_bind out (print_stream_next L E P fs data)),
       me_print_batch = (\<lambda>mem lim out. res_bind out (print_batch L E P fget rec_init fs (reader mem) lim)),
       me_print_processed = (\<lambda>ps out. res_bind out (print_processed P ps duration)),
       me_print_metadata = (\<lambda>ms out. res_bind out (print_metadata P ms))\<rparr>)"

subsection \<open>The lines of a stream\<close>

lemma stream_ready_written [simp]: "stream_ready L fs (written t n oc) = stream_ready L fs oc"
  by (simp add: stream_ready_def columns_ok_def)

lemma stream_ready_width:
  assumes "stream_ready L fs oc" "length ws = all_cnt fs" "\<forall>i<all_cnt fs. oc_width oc ! i \<le> ws ! i"
  shows "stream_ready L fs (oc\<lparr>oc_width := ws\<rparr>)"
  using assms order_trans by (fastforce simp: stream_ready_def columns_ok_def)

lemma written_width: "(written t n oc)\<lparr>oc_width := ws\<rparr> = written t n (oc\<lparr>oc_width := ws\<rparr>)"
  by (simp add: written_def put_def)

lemma names_csv:
  assumes "op_format P = OUTPUT_FORMAT_CSV" "stream_ready L fs oc" "\<forall>i<all_cnt fs. nm i = Ret (s i)"
  shows "k \<le> all_cnt fs \<Longrightarrow> \<exists>ws. each_res (\<lambda>i. print_name P fs (nm i) i) [0..<k] oc
      = Ret (written (concat (map (\<lambda>i. s i @ (if i + 1 = all_cnt fs then [] else [CSV_SEP])) [0..<k])) 0 (oc\<lparr>oc_width := ws\<rparr>))
    \<and> length ws = all_cnt fs \<and> (\<forall>i<all_cnt fs. oc_width oc ! i \<le> ws ! i)"
proof (induction k)
  case 0
  have "written [] 0 (oc\<lparr>oc_width := oc_width oc\<rparr>) = oc" by simp
  then show ?case using assms(2) by (intro exI[of _ "oc_width oc"]) (simp add: stream_ready_def columns_ok_def)
next
  case (Suc k)
  let ?t = "concat (map (\<lambda>i. s i @ (if i + 1 = all_cnt fs then [] else [CSV_SEP])) [0..<k])"
  obtain ws where ws: "each_res (\<lambda>i. print_name P fs (nm i) i) [0..<k] oc = Ret (written ?t 0 (oc\<lparr>oc_width := ws\<rparr>))"
    "length ws = all_cnt fs" "\<forall>i<all_cnt fs. oc_width oc ! i \<le> ws ! i" using Suc by auto
  have k: "k < all_cnt fs" using Suc.prems by simp
  define ws' where "ws' = ws[k := max (ws ! k) (length (s k))]"
  have w': "length ws' = all_cnt fs" "\<forall>i<all_cnt fs. oc_width oc ! i \<le> ws' ! i"
    using ws(2,3) k by (auto simp: ws'_def nth_list_update le_max_iff_disj)
  have r: "stream_ready L fs (written ?t 0 (oc\<lparr>oc_width := ws'\<rparr>))"
    using stream_ready_width[OF assms(2) w'] by simp
  have "print_name P fs (nm k) k (written ?t 0 (oc\<lparr>oc_width := ws\<rparr>))
      = print_column P fs (s k) k (written ?t 0 (oc\<lparr>oc_width := ws'\<rparr>))"
    using assms(3) k by (simp add: print_name_def print_header_column_def ws'_def written_width)
  also have "\<dots> = Ret (written (s k @ (if k + 1 = all_cnt fs then [] else [CSV_SEP])) 0 (written ?t 0 (oc\<lparr>oc_width := ws'\<rparr>)))"
  proof (rule print_column_csv[OF assms(1) _ k])
    show "columns_ok fs (written ?t 0 (oc\<lparr>oc_width := ws'\<rparr>))" using r by (simp only: stream_ready_def)
    have "3 \<le> oc_width (written ?t 0 (oc\<lparr>oc_width := ws'\<rparr>)) ! k" using r k by (simp only: stream_ready_def)
    then show "0 < oc_width (written ?t 0 (oc\<lparr>oc_width := ws'\<rparr>)) ! k" by simp
  qed
  finally show ?case using ws(1) w' by (intro exI[of _ ws']) (simp add: each_res_append)
qed

lemma print_stream_names_csv:
  assumes "op_format P = OUTPUT_FORMAT_CSV" "print_records P = OUTPUT_ITEM_YES" "output_init L E P fs oc0 = Ret oc"
    and "0 < all_cnt fs" "\<forall>i<all_cnt fs. field_get_name L (fld_id (all_flds fs ! i)) = Ret (s i)"
  shows "\<exists>oc1. print_stream_names L P fs oc = Ret oc1 \<and> stream_ready L fs oc1
    \<and> oc_out oc1 = oc_out oc @ join [CSV_SEP] (map s [0..<all_cnt fs]) @ newline"
proof -
  define oc1 where "oc1 = oc\<lparr>oc_first_item := False\<rparr>"
  have b: "begin_item oc = oc1" using output_init_columns(2)[OF assms(3)] by (simp add: begin_item_def oc1_def)
  have r: "stream_ready L fs oc1"
    using output_init_ready[OF assms(3)] by (simp add: stream_ready_def columns_ok_def oc1_def)
  obtain ws where ws: "each_res (\<lambda>i. print_name P fs (field_get_name L (fld_id (all_flds fs ! i))) i) [0..<all_cnt fs] oc1
      = Ret (written (join [CSV_SEP] (map s [0..<all_cnt fs])) 0 (oc1\<lparr>oc_width := ws\<rparr>))"
    "length ws = all_cnt fs" "\<forall>i<all_cnt fs. oc_width oc1 ! i \<le> ws ! i"
    using names_csv[OF assms(1) r assms(5), of "all_cnt fs"] concat_sep[OF assms(4), of s] by auto
  have "stream_ready L fs (oc1\<lparr>oc_width := ws\<rparr>)" by (rule stream_ready_width[OF r ws(2,3)])
  then show ?thesis
    using ws(1) assms(2) by (simp add: print_stream_names_def print_names_only_def b put_written) (simp add: oc1_def)
qed

lemma print_nexts_csv:
  assumes "op_format (output_params args) = OUTPUT_FORMAT_CSV" "print_records (output_params args) = OUTPUT_ITEM_YES"
    "params_set (output_params args)" "localtime_ok E" "simple_fields L (ca_fields args)" "0 < all_cnt (ca_fields args)"
  shows "stream_ready L (ca_fields args) oc \<Longrightarrow> \<forall>d\<in>set ds. length d = rec_length (ca_fields args) \<Longrightarrow>
    \<exists>lines. fold (me_print_next (output_master L E mo reader fget rec_init malloc_ok duration args)) ds (Ret oc)
        = Ret (put (concat (map (\<lambda>l. l @ newline) lines)) oc)
      \<and> list_all2 (\<lambda>d l. CHR 0x0A \<notin> set l
           \<and> csv_fields L E (output_params args) (ca_fields args) d (split_on CSV_SEP l)) ds lines"
proof (induction ds arbitrary: oc)
  case Nil
  have "put [] oc = oc" by (simp add: put_def)
  then show ?case by (intro exI[of _ "[]"]) simp
next
  case (Cons d ds)
  obtain l where l: "print_stream_next L E (output_params args) (ca_fields args) d oc = Ret (put (l @ newline) oc)"
    "CHR 0x0A \<notin> set l" "csv_fields L E (output_params args) (ca_fields args) d (split_on CSV_SEP l)"
    using csv_line[OF Cons.prems(1) assms, of d] Cons.prems(2) by auto
  obtain ls where ls: "fold (me_print_next (output_master L E mo reader fget rec_init malloc_ok duration args)) ds (Ret (put (l @ newline) oc))
      = Ret (put (concat (map (\<lambda>l. l @ newline) ls)) (put (l @ newline) oc))"
    "list_all2 (\<lambda>d l. CHR 0x0A \<notin> set l \<and> csv_fields L E (output_params args) (ca_fields args) d (split_on CSV_SEP l)) ds ls"
    using Cons.IH[of "put (l @ newline) oc"] Cons.prems by auto
  have "put t (put s oc) = put (s @ t) oc" for s t by (simp add: put_def)
  then have "fold (me_print_next (output_master L E mo reader fget rec_init malloc_ok duration args)) (d # ds) (Ret oc)
      = Ret (put (concat (map (\<lambda>l. l @ newline) (l # ls))) oc)"
    using ls(1) l(1) by (simp add: output_master_def Let_def)
  then show ?case using ls(2) l(2,3) by (intro exI[of _ "l # ls"]) simp
qed

lemma raw_of_length:
  assumes "get_sizes_ok E args"
  shows "length (raw_of E args r) = rec_length (ca_fields args)"
proof -
  have "map (\<lambda>i. length (se_rec_fget E r (fld_id (all_flds (ca_fields args) ! i)))) [0..<all_cnt (ca_fields args)]
      = map (\<lambda>i. fld_size (all_flds (ca_fields args) ! i)) [0..<all_cnt (ca_fields args)]"
    using assms by (simp add: get_sizes_ok_def)
  then show ?thesis unfolding raw_of_def rec_length_def length_concat map_map comp_def by (rule arg_cong)
qed

lemma query_records_length:
  assumes "\<forall>s\<in>set sites. get_sizes_ok (st_env s) args" "d \<in> set (query_records args sites)"
  shows "length d = rec_length (ca_fields args)"
proof -
  obtain s p r where "s \<in> set sites" "d = raw_of (st_env s) args r"
    using assms(2) by (auto simp: query_records_def wanted_def split: option.splits)
  then show ?thesis using assms(1) raw_of_length[of "st_env s" args r] by blast
qed

text \<open>C1: a list query in the CSV format, from the flow files to the standard output.  For every
  number of slave processes and threads within the condition on the index below, every schedule of the files,
  interleaving of the threads and order of the messages: the master returns, and it has written the line of the names and
  one line for each of the records it received.  Splitting a line at the commas gives the texts of
  the fields of its record.  The records are ones that match the filter, each at most as often as in
  the flow files, and as many as the limit allows.  The query must not lose
  files to the index (\<open>index_safe\<close>): this is so without a filter or with \<open>--no-bfindex\<close>; with the
  index, which is the default, the addresses of the filter times the threads of a process must be
  at most 20, every \<open>or\<close> of the filter must have two indexable sides or none, and an index file must
  hold all addresses of its flow file.  Beyond that the program drops matching records (C34).  The
  processes find their paths and do not fail (C11 says when).  The fields are of scalar
  types, neither strings nor basic records.\<close>

theorem csv_query_exact:
  assumes "working_mode args = MODE_LIST"
    and "list_all2 (\<lambda>s sr. (site_ok L args s \<and> index_safe (st_env s) addrs args (length (st_team s))) \<and> site_run L args s sr) sites srs"
    and "arrives (concat (map site_messages srs)) (msgs TAG_LIST)" and "0 < total_threads srs"
    and "length (query_records args sites) < 2 ^ 64"
    and "op_format (output_params args) = OUTPUT_FORMAT_CSV" and "print_records (output_params args) = OUTPUT_ITEM_YES"
    and "params_set (output_params args)" and "libnf_types L" and "scalar_fields L (ca_fields args)" and "0 < all_cnt (ca_fields args)"
    and "\<forall>i<all_cnt (ca_fields args). field_get_name L (fld_id (all_flds (ca_fields args) ! i)) = Ret (names i)"
    and "localtime_ok E" and "oe_malloc E" and "malloc_ok"
  shows "\<exists>oc printed lines.
      master_main_thread L (output_master L E mo reader fget rec_init malloc_ok duration args) args junk (total_threads srs) msgs
        (Ret zero_out_ctx) = Some (Ret (Ret oc))
    \<and> oc_out oc = join [CSV_SEP] (map names [0..<all_cnt (ca_fields args)]) @ newline @ concat (map (\<lambda>l. l @ newline) lines)
    \<and> list_all2 (\<lambda>d l. CHR 0x0A \<notin> set l \<and> csv_fields L E (output_params args) (ca_fields args) d (split_on CSV_SEP l)) printed lines
    \<and> mset printed \<subseteq># mset (query_records args sites)
    \<and> length printed = (if rec_limit args = 0 then length (query_records args sites)
                        else min (unat (rec_limit args)) (length (query_records args sites)))"
proof -
  let ?P = "output_params args" let ?fs = "ca_fields args"
  let ?M = "output_master L E mo reader fget rec_init malloc_ok duration args"
  have "sites \<noteq> []" using assms(2,4) by (auto simp: total_threads_def)
  then obtain s where "s \<in> set sites" by (cases sites) auto
  then have "fields_inv L ?fs"
    using assms(2) by (auto simp: list_all2_conv_all_nth in_set_conv_nth site_ok_def slave_ok_def slave_args_ok_def)
  then have pf: "printable_fields L ?fs" using scalar_printable[OF assms(9) _ assms(10)] by (simp add: fields_inv_def)
  have "op_format ?P \<noteq> OUTPUT_FORMAT_UNSET" using assms(6) by simp
  then obtain oc0 where oc0: "output_init L E ?P ?fs zero_out_ctx = Ret oc0" "oc_out oc0 = []"
    using output_init_Ret[OF _ assms(14,8) pf, of zero_out_ctx] by (auto simp: zero_out_ctx_def)
  obtain oc1 where oc1: "print_stream_names L ?P ?fs oc0 = Ret oc1" "stream_ready L ?fs oc1"
    "oc_out oc1 = join [CSV_SEP] (map names [0..<all_cnt ?fs]) @ newline"
    using print_stream_names_csv[OF assms(6,7) oc0(1) assms(11,12)] oc0(2) by auto
  have M: "me_malloc ?M" "me_output_init ?M (Ret zero_out_ctx) = Ret (Ret oc0)" "me_print_names ?M (Ret oc0) = Ret oc1"
    using assms(15) oc0(1) oc1(1) by (simp_all add: output_master_def Let_def)
  obtain printed where pr: "master_main_thread L ?M args junk (total_threads srs) msgs (Ret zero_out_ctx)
      = Some (Ret (fold (me_print_next ?M) printed (Ret oc1)))"
    "mset printed \<subseteq># mset (query_records args sites)"
    "length printed = (if rec_limit args = 0 then length (query_records args sites)
                        else min (unat (rec_limit args)) (length (query_records args sites)))"
    using list_query_Ret[where msgs = msgs, OF assms(1-5) M(1,2)] unfolding M(3) by blast
  have "\<forall>s\<in>set sites. get_sizes_ok (st_env s) args"
    using assms(2) by (auto simp: list_all2_conv_all_nth in_set_conv_nth site_ok_def slave_ok_def)
  then have "\<forall>d\<in>set printed. length d = rec_length ?fs"
    using query_records_length pr(2) by (metis mset_subset_eqD set_mset_mset)
  moreover have "simple_fields L ?fs" using pf by (simp add: printable_fields_def)
  ultimately obtain lines where ls: "fold (me_print_next ?M) printed (Ret oc1) = Ret (put (concat (map (\<lambda>l. l @ newline) lines)) oc1)"
    "list_all2 (\<lambda>d l. CHR 0x0A \<notin> set l \<and> csv_fields L E ?P ?fs d (split_on CSV_SEP l)) printed lines"
    using print_nexts_csv[OF assms(6-8,13) _ assms(11) oc1(2)] by blast
  have "oc_out (put (concat (map (\<lambda>l. l @ newline) lines)) oc1)
      = join [CSV_SEP] (map names [0..<all_cnt ?fs]) @ newline @ concat (map (\<lambda>l. l @ newline) lines)"
    by (simp add: put_def oc1(3))
  then show ?thesis using pr(1)[unfolded ls(1)] pr(2,3) ls(2) by blast
qed

text \<open>The query of \<open>one_site\<close>: a limit of two records, the three records of one file.\<close>

lemma sample_names:
  "\<exists>names. \<forall>i<all_cnt sample_sort_fields. field_get_name sample_libnf (fld_id (all_flds sample_sort_fields ! i)) = Ret (names i)"
proof -
  have "\<forall>i<all_cnt sample_sort_fields. \<exists>s. field_get_name sample_libnf (fld_id (all_flds sample_sort_fields ! i)) = Ret s"
    using field_name_Ret[OF sample_libnf_ok] sample_fields_inv(2) by (simp add: fields_inv_def all_inv_def)
  then show ?thesis by metis
qed

theorem csv_query_exact_witness:
  "\<exists>names sr msgs oc printed lines.
      site_run sample_libnf one_file_args one_site sr \<and> arrives (concat (map site_messages [sr])) (msgs TAG_LIST)
    \<and> master_main_thread sample_libnf
        (output_master sample_libnf sample_out_env one_mem_ops (\<lambda>m. [1 :: byte]) sample_fget True True (D_Fin False 1 0) one_file_args)
        one_file_args sample_bufs 1 msgs (Ret zero_out_ctx) = Some (Ret (Ret oc))
    \<and> oc_out oc = join [CSV_SEP] (map names [0..<6]) @ newline @ concat (map (\<lambda>l. l @ newline) lines)
    \<and> list_all2 (\<lambda>d l. CHR 0x0A \<notin> set l \<and> csv_fields sample_libnf sample_out_env csv_params sample_sort_fields d (split_on CSV_SEP l))
        printed lines
    \<and> length printed = 2"
proof -
  obtain names where nm: "\<forall>i<all_cnt sample_sort_fields. field_get_name sample_libnf (fld_id (all_flds sample_sort_fields ! i)) = Ret (names i)"
    using sample_names by blast
  obtain sr where sr: "site_run sample_libnf one_file_args one_site sr" "length (sr_results sr) = 1"
    using one_site_run by blast
  obtain ms where ms: "site_messages sr = [ms]"
    using sr(2) by (cases "sr_results sr") (auto simp: site_messages_def)
  have "arrives [ms] (ms @ [])" by (rule arrives_prefix[of 0 _ _ "[]"]) (auto intro: arrives_done)
  then have a: "arrives (concat (map site_messages [sr])) ((\<lambda>tag. ms) TAG_LIST)" by (simp add: ms)
  have th: "total_threads [sr] = 1"
    using site_threads[OF one_site_ok sr(1)] sr(2) by (simp add: total_threads_def)
  have q: "length (query_records one_file_args [one_site]) = 3" by (rule one_site_records)
  have all: "list_all2 (\<lambda>s sr. site_safe sample_libnf one_file_args (\<lambda>r. {}) s \<and> site_run sample_libnf one_file_args s sr)
      [one_site] [sr]" using sr(1) one_site_ok by simp
  have p: "output_params one_file_args = csv_params" "ca_fields one_file_args = sample_sort_fields" "rec_limit one_file_args = 2"
    "working_mode one_file_args = MODE_LIST" by (simp_all add: one_file_args_def)
  have c: "op_format csv_params = OUTPUT_FORMAT_CSV" "print_records csv_params = OUTPUT_ITEM_YES" by (simp_all add: csv_params_def)
  have n: "all_cnt sample_sort_fields = 6" by (simp add: sample_sort_fields_def sample_fields_def)
  have o: "oe_malloc sample_out_env" by (simp add: sample_out_env_def)
  have small: "length (query_records one_file_args [one_site]) < 2 ^ 64" "0 < total_threads [sr]" by (simp_all add: q th)
  have "0 < all_cnt (ca_fields one_file_args)" by (simp add: p n)
  from csv_query_exact[where msgs = "\<lambda>tag. ms", OF p(4) all a small(2,1) c[folded p(1)] csv_params_set[folded p(1)]
      sample_types _ this nm[folded p(2)] sample_localtime o, of True one_mem_ops "\<lambda>m. [1 :: byte]" sample_fget True
      "D_Fin False 1 0" sample_bufs]
  show ?thesis using a sr(1) unfolding th p n q by (fastforce simp: scalar_fields_def sample_scalar)
qed

subsection \<open>An order query as a table\<close>

text \<open>C2: an order query in the pretty format, from the flow files to the standard output.  For
  every number of slave processes and threads within the condition on the index below, every distribution of the files and
  order of the messages: the master returns and has written a table.  Its lines are the header, with the name of
  its field over every column, and the first records, up to the limit, of all records that match the
  filter sorted by the key of the query; every line has the same columns, with the text of the field
  in each.  The query must not lose
  files to the index (\<open>index_safe\<close>): this is so without a filter or with \<open>--no-bfindex\<close>; with the
  index, which is the default, the addresses of the filter times the threads of a process must be
  at most 20, every \<open>or\<close> of the filter must have two indexable sides or none, and an index file must
  hold all addresses of its flow file.  Beyond that the program drops matching records (C34).  The
  processes find their paths and do not fail (C11 says when).  The query has a sort key, the fields are of scalar types.\<close>

theorem sorted_table_exact:
  assumes "working_mode args = MODE_SORT" and "libnf_mem_init_list L (\<lambda>_. True) (ca_fields args) = Ret calls"
    and "list_all2 (\<lambda>s sr. (site_ok L args s \<and> index_safe (st_env s) addrs args (length (st_team s))) \<and> site_main L args s = Some (Ret sr)) sites srs"
    and "\<forall>s\<in>set sites. site_mem_ok holds enc calls s \<and> list_law (se_lnf_mem (st_env s)) holds key"
    and "mem_ops_ok mo" and "write_law mo holds calls" and "list_law mo holds key" and "\<forall>m. map form (reader m) = mo_raw mo m"
    and "arrives (concat (map site_messages srs)) (msgs TAG_SORT)" and "0 < total_threads srs"
    and "length (stored_records enc args sites) \<le> 2 ^ 63"
    and "libnf_ok L" and "fields_inv L (ca_fields args)" and "columns_ordered (ca_fields args)"
    and "libnf_types L" and "scalar_fields L (ca_fields args)" and "aggr_funcs_known L (ca_fields args)"
    and "op_format (output_params args) = OUTPUT_FORMAT_PRETTY" and "print_records (output_params args) = OUTPUT_ITEM_YES"
    and "params_set (output_params args)" and "localtime_ok E" and "oe_malloc E" and "malloc_ok"
    and "\<forall>r. fget_ok fget (ca_fields args) r"
  shows "\<exists>all recs oc aligns ws heads texts.
      master_main_thread L (output_master L E mo reader fget True malloc_ok duration args) args junk (total_threads srs) msgs
        (Ret zero_out_ctx) = Some (Ret (Ret oc))
    \<and> mset all = mset (stored_records enc args sites) \<and> sorted (map key all)
    \<and> map form recs = (if rec_limit args = 0 then all else take (unat (rec_limit args)) all)
    \<and> oc_out oc = concat (map (\<lambda>strs. table_line aligns ws strs @ newline) (heads # map texts recs))
    \<and> length heads = all_cnt (ca_fields args)
    \<and> (\<forall>i<all_cnt (ca_fields args). labels L (fld_id (all_flds (ca_fields args) ! i)) (heads ! i))
    \<and> (\<forall>r\<in>set recs. record_texts L E (output_params args) fget (ca_fields args) r (texts r))
    \<and> (\<forall>strs\<in>set (heads # map texts recs). table_ok_widths (output_params args) aligns ws strs)"
proof -
  let ?P = "output_params args" let ?fs = "ca_fields args"
  let ?M = "output_master L E mo reader fget True malloc_ok duration args"
  have pf: "printable_fields L ?fs"
    using scalar_printable[OF assms(15) _ assms(16)] assms(13) by (simp add: fields_inv_def)
  have "op_format ?P \<noteq> OUTPUT_FORMAT_UNSET" using assms(18) by simp
  then obtain oc0 where oc0: "output_init L E ?P ?fs zero_out_ctx = Ret oc0" "oc_out oc0 = []"
    using output_init_Ret[OF _ assms(22,20) pf, of zero_out_ctx] by (auto simp: zero_out_ctx_def)
  have M: "me_malloc ?M" "me_output_init ?M (Ret zero_out_ctx) = Ret (Ret oc0)" "me_lnf_mem ?M = mo"
    "me_print_batch ?M mem lim (Ret oc0) = print_batch L E ?P fget True ?fs (reader mem) lim oc0" for mem lim
    using assms(23) oc0(1) by (simp_all add: output_master_def Let_def)
  have mo: "mem_ops_ok (me_lnf_mem ?M)" "write_law (me_lnf_mem ?M) holds calls" "list_law (me_lnf_mem ?M) holds key"
    using assms(5-7) by (simp_all only: M(3))
  obtain mem all where run: "master_main_thread L ?M args junk (total_threads srs) msgs (Ret zero_out_ctx)
      = Some (Ret (me_print_batch ?M mem (rec_limit args) (Ret oc0)))"
    and all: "mset all = mset (stored_records enc args sites)" "sorted (map key all)"
      "if rec_limit args = 0 then mo_raw mo mem = all else take (unat (rec_limit args)) (mo_raw mo mem) = take (unat (rec_limit args)) all"
    using sort_query_Ret[where msgs = msgs and M = ?M and addrs = addrs, OF assms(1-4) M(1,2) mo assms(9-11)]
    unfolding M(3) by blast
  define recs where "recs = batch_records (if rec_limit args = 0 then - 1 else rec_limit args) (reader mem)"
  obtain ws heads texts where t: "header_names L ?P ?fs = map Ret heads"
    "\<forall>r\<in>set recs. record_texts L E ?P fget ?fs r (texts r)"
    "print_batch L E ?P fget True ?fs (reader mem) (rec_limit args) oc0
        = Ret (written (concat (map (\<lambda>strs. table_line (oc_align oc0) ws strs @ newline) (heads # map texts recs)))
            ((1 + length recs) * (all_cnt ?fs - 1)) (oc0\<lparr>oc_width := ws, oc_first_item := False\<rparr>))"
    "\<forall>strs\<in>set (heads # map texts recs). table_ok_widths ?P (oc_align oc0) ws strs"
    using print_batch_Ret[OF assms(12,13) pf assms(17,20,21,18,19) oc0(1) recs_def] assms(24) by blast
  have raw: "map form recs = take (unat (if rec_limit args = 0 then - 1 else rec_limit args)) (mo_raw mo mem)"
    using assms(8) by (simp add: recs_def batch_records_def take_map[symmetric])
  have "length all \<le> 2 ^ 63" using assms(11) mset_eq_length[OF all(1)] by simp
  also have "2 ^ 63 \<le> unat (- 1 :: 64 word)" by (simp add: unsigned_minus_1_eq_mask mask_eq_exp_minus_1)
  finally have "map form recs = (if rec_limit args = 0 then all else take (unat (rec_limit args)) all)"
    using all(3) raw by (simp split: if_splits)
  moreover have "oc_out (written s n (oc0\<lparr>oc_width := ws, oc_first_item := False\<rparr>)) = s" for s n
    by (simp add: written_def put_def oc0(2))
  ultimately show ?thesis
    using run[unfolded M(4) t(3)] all(1,2) header_labels[OF assms(13,14) t(1)] t(2,4) by blast
qed

text \<open>The order query of \<open>Mem_Query\<close>: the records are printed from their raw form.\<close>

lemma sample_key_printable: "printable_fields sample_libnf sample_key_fields" "aggr_funcs_known sample_libnf sample_key_fields"
  "fget_ok (\<lambda>r. sample_fget (hd r)) sample_key_fields r"
proof -
  have same: "all_flds sample_key_fields = all_flds sample_fields" "all_cnt sample_key_fields = all_cnt sample_fields"
    "output_fields sample_key_fields = output_fields sample_fields" "output_fields_cnt sample_key_fields = output_fields_cnt sample_fields"
    by (simp_all add: sample_key_fields_def)
  show "printable_fields sample_libnf sample_key_fields" "aggr_funcs_known sample_libnf sample_key_fields"
    "fget_ok (\<lambda>r. sample_fget (hd r)) sample_key_fields r"
    using sample_printable sample_aggr_funcs sample_fget_ok[of "hd r"]
    unfolding printable_fields_def simple_fields_def aggr_funcs_known_def fget_ok_def same by blast+
qed

theorem sorted_table_exact_witness:
  "\<exists>sr ms all recs oc aligns ws heads texts.
      site_main sample_libnf (mem_args MODE_SORT) (mem_site sample_list_ops) = Some (Ret sr)
    \<and> arrives (concat (map site_messages [sr])) ms
    \<and> master_main_thread sample_libnf (output_master sample_libnf sample_out_env sample_list_ops (mo_raw sample_list_ops)
          (\<lambda>r. sample_fget (hd r)) True True (D_Fin False 1 0) (mem_args MODE_SORT))
        (mem_args MODE_SORT) sample_bufs (total_threads [sr]) (\<lambda>tag. ms) (Ret zero_out_ctx) = Some (Ret (Ret oc))
    \<and> mset all = {#[1], [2], [3]#} \<and> sorted (map first_byte all) \<and> map id recs = take 2 all
    \<and> oc_out oc = concat (map (\<lambda>strs. table_line aligns ws strs @ newline) (heads # map texts recs)) \<and> length heads = 6"
proof -
  let ?a = "mem_args MODE_SORT" let ?s = "mem_site sample_list_ops"
  obtain calls where calls: "libnf_mem_init_list sample_libnf (\<lambda>_. True) (ca_fields ?a) = Ret calls"
    using sample_mem_calls(1) by blast
  obtain sr ms where run: "list_all2 (\<lambda>s sr. site_safe sample_libnf ?a (\<lambda>r. {}) s
        \<and> site_main sample_libnf ?a s = Some (Ret sr)) [?s] [sr]"
    "arrives (concat (map site_messages [sr])) ((\<lambda>tag. ms) TAG_SORT)" "0 < total_threads [sr]"
    using mem_site_run[OF sample_ops_ok(1), of MODE_SORT] by auto
  have sites: "\<forall>s\<in>set [?s]. site_mem_ok list_holds (\<lambda>r. [r]) calls s \<and> list_law (se_lnf_mem (st_env s)) list_holds first_byte"
    using sample_list_laws by (simp add: site_mem_ok_def mem_site_def mem_env_def)
  have recs: "stored_records (\<lambda>r. [r]) ?a [?s] = [[1], [2], [3]]" by (rule mem_site_records[OF sample_ops_ok(1)]) simp
  have small: "length (stored_records (\<lambda>r. [r]) ?a [?s]) \<le> 2 ^ 63" by (simp add: recs)
  have args: "working_mode ?a = MODE_SORT" "rec_limit ?a = 2" "ca_fields ?a = sample_key_fields" "output_params ?a = pretty_params"
    by (simp_all add: mem_args_def one_file_args_def)
  have p: "op_format (output_params ?a) = OUTPUT_FORMAT_PRETTY" "print_records (output_params ?a) = OUTPUT_ITEM_YES"
    "params_set (output_params ?a)" "oe_malloc sample_out_env" "True"
    using csv_params_set by (simp_all add: args pretty_params_def params_set_def sample_out_env_def) (simp add: csv_params_def)
  have form: "\<forall>m. map id (mo_raw sample_list_ops m) = mo_raw sample_list_ops m" by simp
  have n: "all_cnt sample_key_fields = 6" by (simp add: sample_key_fields_def sample_fields_def)
  have f: "fields_inv sample_libnf (ca_fields ?a)" "columns_ordered (ca_fields ?a)" "scalar_fields sample_libnf (ca_fields ?a)"
    "aggr_funcs_known sample_libnf (ca_fields ?a)" "\<forall>r. fget_ok (\<lambda>r. sample_fget (hd r)) (ca_fields ?a) r"
    using sample_key_fields_inv sample_key_columns sample_key_printable by (simp_all add: args scalar_fields_def sample_scalar)
  have two: "(if (2 :: 64 word) = 0 then xs else take (unat (2 :: 64 word)) xs) = take 2 xs" for xs :: "byte list list" by simp
  obtain all recs oc aligns ws heads texts where t:
    "master_main_thread sample_libnf (output_master sample_libnf sample_out_env sample_list_ops (mo_raw sample_list_ops)
          (\<lambda>r. sample_fget (hd r)) True True (D_Fin False 1 0) ?a) ?a sample_bufs (total_threads [sr]) (\<lambda>tag. ms) (Ret zero_out_ctx)
        = Some (Ret (Ret oc))"
    "mset all = mset [[1], [2], [3]]" "sorted (map first_byte all)" "map id recs = take 2 all"
    "oc_out oc = concat (map (\<lambda>strs. table_line aligns ws strs @ newline) (heads # map texts recs))" "length heads = 6"
    using sorted_table_exact[where addrs = "\<lambda>r. {}" and sites = "[?s]" and srs = "[sr]" and holds = list_holds and enc = "\<lambda>r. [r]"
      and key = first_byte and mo = sample_list_ops and form = id and reader = "mo_raw sample_list_ops" and msgs = "\<lambda>tag. ms"
      and fget = "\<lambda>r. sample_fget (hd r)" and duration = "D_Fin False 1 0" and junk = sample_bufs,
      OF args(1) calls run(1) sites sample_ops_ok(1) sample_list_laws(1,3) form run(2,3) small sample_libnf_ok f(1,2) sample_types f(3,4) p(1-3)
      sample_localtime p(4,5) f(5)] unfolding recs args(2,3) n two by blast
  have "site_main sample_libnf ?a ?s = Some (Ret sr)" using run(1) by simp
  moreover have "mset all = {#[1], [2], [3]#}" using t(2) by simp
  ultimately show ?thesis using t(1,3-6) run(2) by blast
qed

end
