(* ===== verification/Program.thy ===== *)
theory Program
  imports Arg_Parse Query
begin

text \<open>
  The program (\<open>main.c\<close>): every process checks the level of thread support and the number of
  processes, parses the command line and is the master or a slave.
\<close>

text \<open>Up to the split: no arguments when the help was asked for.\<close>

definition program_args ::
  "libnf \<Rightarrow> arg_os \<Rightarrow> arg_env \<Rightarrow> (opt \<times> string option) list \<Rightarrow> string list \<Rightarrow> bool \<Rightarrow> nat
    \<Rightarrow> (cmdline_args \<times> arg_env) option res" where
  "program_args L os e opts rest thread_multiple world_size =
     abort_if (\<not> thread_multiple) E_MPI
      (abort_if (world_size < 2) E_MPI
        (res_bind (arg_parse L os e zero_args opts rest) (\<lambda>((ecode, args), e').
         if ecode = E_HELP then Ret None
         else abort_if (ecode \<noteq> E_OK) ecode (Ret (Some (args, e'))))))"

text \<open>The threads OpenMP uses: its own choice unless an option sets the number.\<close>

definition max_threads :: "nat \<Rightarrow> arg_env \<Rightarrow> nat" where
  "max_threads omp_default e = (case ae_threads e of None \<Rightarrow> omp_default | Some n \<Rightarrow> nat n)"

text \<open>A process of rank above 0, and the one of rank 0.\<close>

definition main_slave ::
  "libnf \<Rightarrow> ('r, 'm) slave_env \<Rightarrow> filesys \<Rightarrow> arg_os \<Rightarrow> arg_env \<Rightarrow> (opt \<times> string option) list \<Rightarrow> string list
    \<Rightarrow> bool \<Rightarrow> nat \<Rightarrow> nat \<Rightarrow> nat \<Rightarrow> thread list \<Rightarrow> slave_result option res option" where
  "main_slave L E F os e opts rest thread_multiple world_size omp_default omp_zero team =
     run_after (program_args L os e opts rest thread_multiple world_size) (\<lambda>r. case r of
       None \<Rightarrow> Some (Ret None)
     | Some (args, e') \<Rightarrow>
         map_option (map_res Some) (slave_main L E F (ae_tz e') args omp_zero (max_threads omp_default e') team))"

definition main_master ::
  "libnf \<Rightarrow> (cmdline_args \<Rightarrow> ('m, 'o) master_env) \<Rightarrow> arg_os \<Rightarrow> arg_env \<Rightarrow> (opt \<times> string option) list \<Rightarrow> string list
    \<Rightarrow> bool \<Rightarrow> nat \<Rightarrow> (bool \<Rightarrow> byte list) \<Rightarrow> (string \<Rightarrow> bool)
    \<Rightarrow> nat \<Rightarrow> arrivals \<Rightarrow> 64 word list \<Rightarrow> int option list \<Rightarrow> processed_summ list \<Rightarrow> metadata_summ list \<Rightarrow> 'o
    \<Rightarrow> ('o \<times> progress_bar_ctx \<times> processed_summ \<times> metadata_summ) option res option" where
  "main_master L M os e opts rest thread_multiple world_size junk fopen_ok threads msgs goals reports pss mss out =
     run_after (program_args L os e opts rest thread_multiple world_size) (\<lambda>r. case r of
       None \<Rightarrow> Some (Ret None)
     | Some (args, e') \<Rightarrow>
         map_option (map_res Some) (master_main L (M args) args junk fopen_ok threads msgs goals reports pss mss out))"

subsection \<open>From the command line to the work of a slave\<close>

lemma program_args_ready:
  assumes "libnf_ok L" "parse_ok L" "\<And>s. os_strdup_ok os s"
    and "program_args L os e opts rest multiple world_size = Ret (Some (args, e'))"
  shows "args_ready L args"
proof -
  have "arg_parse L os e zero_args opts rest = Ret ((E_OK, args), e')"
    using assms(4) by (auto simp: program_args_def abort_if_def res_simps split: if_splits prod.splits)
  moreover have "ca_fields zero_args = empty_fields" by (simp add: zero_args_def)
  ultimately show ?thesis by (intro arg_parse_args_ready[OF assms(1-3)])
qed

text \<open>
  libnf: a field has at most 16 KiB, and \<open>lnf_rec_fget\<close> writes as many bytes as
  \<open>lnf_fld_info\<close> announces.
\<close>

definition field_sizes_small :: "libnf \<Rightarrow> bool" where
  "field_sizes_small L \<longleftrightarrow> (\<forall>fid n. field_get_size L fid = Ret n \<longrightarrow> n \<le> 2 ^ 14)"

definition fget_sizes_ok :: "libnf \<Rightarrow> ('r, 'm) slave_env \<Rightarrow> bool" where
  "fget_sizes_ok L E \<longleftrightarrow> (\<forall>fid n. field_get_size L fid = Ret n \<longrightarrow> (\<forall>r. length (se_rec_fget E r fid) = n))"

lemma sum_list_bounded: "(\<And>x. x \<in> set xs \<Longrightarrow> x \<le> c) \<Longrightarrow> sum_list xs \<le> length xs * (c :: nat)"
  by (induction xs) (auto intro: add_mono)

lemma all_sizes_small:
  assumes "all_inv L fs" "field_sizes_small L"
  shows "all_sizes_sum fs + 4 \<le> XCHG_BUFF_SIZE"
proof -
  define xs where "xs = map fld_size (take (all_cnt fs) (all_flds fs))"
  have "\<forall>i<all_cnt fs. field_get_size L (fld_id (all_flds fs ! i)) = Ret (fld_size (all_flds fs ! i))"
    and len: "length (all_flds fs) = ALL_FIELDS_MAX" "all_cnt fs \<le> ALL_FIELDS_MAX"
    and sum: "all_sizes_sum fs = sum_list xs"
    using assms(1) by (simp_all add: all_inv_def xs_def)
  then have "\<forall>i<all_cnt fs. fld_size (all_flds fs ! i) \<le> 2 ^ 14"
    using assms(2) unfolding field_sizes_small_def by blast
  then have "sum_list xs \<le> length xs * 2 ^ 14"
    using len by (intro sum_list_bounded) (auto simp: xs_def in_set_conv_nth)
  moreover have "length xs \<le> 41" using len by (simp add: xs_def max_defs)
  ultimately show ?thesis unfolding sum by (simp add: XCHG_BUFF_SIZE_def)
qed

lemma ready_slave_args:
  assumes "libnf_ok L" "fast_params_ok L" "args_ready L args"
    and "working_mode args = MODE_SORT \<longrightarrow> sk_field (sort_key (ca_fields args)) \<noteq> None"
    and "field_sizes_small L"
  shows "slave_args_ok L args"
proof -
  have inv: "fields_inv L (ca_fields args)" and tput: "use_tput args \<longrightarrow> tput_allowed L args"
    using assms(3) by (simp_all add: args_ready_def)
  have "sort_direction_known L args" if "sk_field (sort_key (ca_fields args)) \<noteq> None"
    using fields_inv_parts(2)[OF inv] that by (auto simp: role_inv_def sort_direction_known_def)
  then show ?thesis
    using assms inv tput all_sizes_small[OF fields_inv_parts(1)[OF inv] assms(5)] by (auto simp: slave_args_ok_def args_ready_def tput_allowed_def Let_def)
qed

text \<open>The filter of an accepted command line is one that libnf has compiled in \<open>set_filter\<close>.\<close>

lemma select_mode_filter:
  "select_mode L os a srt args = Ret (E_OK, args') \<Longrightarrow> filter_str args' = filter_str args"
  by (auto simp: select_mode_def and_then_OK with_fields_OK split: option.splits)

lemma opt_step_filter: "opt_step opt a st = Ret (c, st') \<Longrightarrow> filter_str (os_args st') = filter_str (os_args st)"
  by (cases opt)
    (auto dest!: set_output_param_Ret simp: with_optarg_def res_simps split: option.splits prod.splits)

lemma opt_loop_filter: "opt_loop opts st = Ret (c, st') \<Longrightarrow> filter_str (os_args st') = filter_str (os_args st)"
proof (induction opts st rule: opt_loop.induct)
  case (2 opt optarg opts st)
  then obtain c1 st1 where s: "opt_step opt optarg st = Ret (c1, st1)"
    "(if c1 \<noteq> E_OK then Ret (c1, st1) else opt_loop opts st1) = Ret (c, st')"
    by (auto simp: res_simps split: prod.splits)
  show ?case using "2.IH"[of c1 st1] s(2) opt_step_filter[OF s(1)] by (cases "c1 = E_OK") auto
qed simp

lemma finish_args_filter:
  assumes ok: "libnf_ok L" "parse_ok L" "\<And>s. os_strdup_ok os s" and e: "ca_fields (os_args st) = empty_fields"
    and none: "filter_str (os_args st) = None"
    and run: "finish_args L os tz rest st = Ret (E_OK, args')" and flt: "filter_str args' = Some flt"
  shows "os_filter_ok os flt"
proof -
  obtain a1 a2 a3 a4 a5 a6 where
      s1: "select_mode L os (aggr_optarg st) (sort_optarg st) (os_args st) = Ret (E_OK, a1)"
    and s2: "set_limit (limit_optarg st) a1 = Ret (E_OK, a2)"
    and s3: "check_filter os (filter_optarg st) a2 = Ret (E_OK, a3)"
    and s4: "set_times os tz (time_point_optarg st) (time_range_optarg st) a3 = Ret (E_OK, a4)"
    and s5: "set_paths rest a4 = Ret (E_OK, a5)"
    and s6: "set_output_fields L os (output_fields_optarg st) (default_progress_bar (metadata_only a5)) = Ret (E_OK, a6)"
    and s7: "res_bind (default_output_params a6) (\<lambda>args. res_bind (decide_tput L args) (\<lambda>args.
      res_bind (fields_check L (ca_fields args)) (\<lambda>ret. assert_then ret (Ret (E_OK, args))))) = Ret (E_OK, args')"
    using run unfolding finish_args_def and_then_OK by blast
  have k1: "keys_only L a1" "mode_set a1" using select_mode_OK[OF ok e s1] by simp_all
  have k4: "keys_only L a4" "mode_set a4"
    using k1 set_limit_OK[OF s2] check_filter_OK[OF s3] set_times_OK[OF s4] by auto
  have a5: "a5 = a4\<lparr>ca_paths := rest\<rparr>" using s5 by (auto simp: set_paths_def split: if_splits)
  have k5: "keys_only L (default_progress_bar (metadata_only a5))" "mode_set (default_progress_bar (metadata_only a5))"
    using k4 by (simp_all add: before_fields_keep a5)
  obtain fs where a6: "a6 = (default_progress_bar (metadata_only a5))\<lparr>ca_fields := fs\<rparr>"
    using set_output_fields_OK[OF ok k5 s6] by blast
  obtain op where op: "default_output_params a6 = Ret (a6\<lparr>output_params := op\<rparr>)" using default_output_params_Ret by blast
  obtain u where eq: "args' = a6\<lparr>output_params := op, use_tput := u\<rparr>"
    using s7 op by (auto simp: decide_tput_Ret[OF ok(1)] res_simps)
  have "filter_str (default_progress_bar (metadata_only a5)) = filter_str a4"
    by (simp add: a5 default_progress_bar_def metadata_only_def)
  then have "filter_str a3 = Some flt" using flt set_times_OK[OF s4] by (auto simp: eq a6)
  moreover have "filter_str a2 = None" using none select_mode_filter[OF s1] set_limit_OK[OF s2] by auto
  ultimately show ?thesis using s3 by (auto simp: check_filter_def set_filter_def split: option.splits if_splits)
qed

lemma program_args_filter:
  assumes "libnf_ok L" "parse_ok L" "\<And>s. os_strdup_ok os s"
    and "program_args L os e opts rest multiple world_size = Ret (Some (args, e'))" and "filter_str args = Some flt"
  shows "os_filter_ok os flt"
proof -
  have run: "arg_parse L os e zero_args opts rest = Ret ((E_OK, args), e')"
    using assms(4) by (auto simp: program_args_def abort_if_def res_simps split: if_splits prod.splits)
  then obtain ecode st where loop: "opt_loop opts (init_opt_state zero_args e) = Ret (ecode, st)"
    by (auto simp: arg_parse_def res_simps)
  have st: "ca_fields (os_args st) = empty_fields" "filter_str (os_args st) = None"
    using opt_loop_fields[OF loop] opt_loop_filter[OF loop] by (simp_all add: init_opt_state_def zero_args_def)
  have "finish_args L os (ae_tz e') rest st = Ret (E_OK, args)"
    using run loop by (auto simp: arg_parse_def res_simps split: if_splits)
  then show ?thesis using finish_args_filter[OF assms(1-3) st _ assms(5)] by blast
qed

text \<open>libnf compiles a filter of a slave when it has compiled the same filter for the command line.\<close>

definition filters_agree :: "arg_os \<Rightarrow> ('r, 'm) slave_env \<Rightarrow> bool" where
  "filters_agree os E \<longleftrightarrow> (\<forall>flt. os_filter_ok os flt \<longrightarrow> (\<exists>root. se_filter_init E flt = Some root \<and> wf_ff root))"

text \<open>C10: a slave process, from the command line to the end.  The command line is one the program
  accepts; where it sorts it names a known order (C33 shows that an unknown one is accepted as well),
  its filter is not the empty string (a slave asserts that), its paths and the names of the slots of
  its time range fit \<open>PATH_MAX\<close> (C36 and C38 show the program fails otherwise), the range is
  normalised and below 68 years, its time zone has fewer than 256 characters (\<open>env_ok\<close>), it leaves at
  least one thread.  Of libnf and the operating system: libnf compiles a filter again that it has compiled, a field has
  at most 16 KiB and as many bytes as announced, an open file has its metadata, no allocation fails, a path that ends
  with a slash is no file, and no directory entry has the length of C37.  Then the paths are
  generated, and for all flow files and every distribution of them to the threads the process is the
  slave it should be and returns: no assertion of any component fails, no buffer is overrun, nothing
  aborts, and every file is processed and reported.\<close>

theorem program_slave_returns:
  assumes "libnf_ok L" and "parse_ok L" and "fast_params_ok L" and "\<And>s. os_strdup_ok os s"
    and "program_args L os e opts rest multiple world_size = Ret (Some (args, e'))"
    and "working_mode args = MODE_SORT \<longrightarrow> sk_field (sort_key (ca_fields args)) \<noteq> None"
    and "filter_str args \<noteq> Some []" and "filters_agree os E"
    and "field_sizes_small L" and "fget_sizes_ok L E" and "slave_env_ok E"
    and "filesys_ok F" and "env_ok (ae_tz e')" and "paths_fit F (ca_paths args) (time_begin args) (time_end args)"
    and "0 < max_threads omp_default e'"
  shows "\<exists>pa. path_array_gen F (ae_tz e') (ca_paths args) (time_begin args) (time_end args) = Some (Ret (Some pa))
    \<and> (\<forall>team. team_ok omp_zero (max_threads omp_default e') (pa_used pa) team \<longrightarrow>
        (\<exists>sr. main_slave L E F os e opts rest multiple world_size omp_default omp_zero team = Some (Ret (Some sr))
          \<and> length (sr_results sr) = sr_threads sr
          \<and> sr_goal sr = length (pa_used pa) \<and> sum_list (map tr_reports (sr_results sr)) = sr_goal sr))"
proof -
  have ready: "args_ready L args" by (rule program_args_ready[OF assms(1,2,4,5)])
  then have sizes: "get_sizes_ok E args"
    using assms(10) by (auto simp: get_sizes_ok_def fget_sizes_ok_def args_ready_def fields_inv_def all_inv_def)
  have "filter_ok E args"
    using assms(7,8) program_args_filter[OF assms(1,2,4,5)] by (auto simp: filter_ok_def filters_agree_def)
  then have ok: "slave_ok L E args"
    using ready_slave_args[OF assms(1,3) ready assms(6,9)] assms(11) sizes by (simp add: slave_ok_def)
  obtain pa where pa: "path_array_gen F (ae_tz e') (ca_paths args) (time_begin args) (time_end args) = Some (Ret (Some pa))"
      "files_named pa"
    using path_array_gen_Ret[OF assms(12-14)] by blast
  have "\<exists>sr. main_slave L E F os e opts rest multiple world_size omp_default omp_zero team = Some (Ret (Some sr))
      \<and> length (sr_results sr) = sr_threads sr
      \<and> sr_goal sr = length (pa_used pa) \<and> sum_list (map tr_reports (sr_results sr)) = sr_goal sr"
    if "team_ok omp_zero (max_threads omp_default e') (pa_used pa) team" for team
    using slave_main_Ret[OF ok pa(1) files_named_ok[OF pa(2)] assms(15) that] assms(5) by (auto simp: main_slave_def)
  then show ?thesis using pa(1) by blast
qed

text \<open>An instance: no option, one flow file.\<close>

lemma finish_args_plain:
  assumes ok: "libnf_ok L" "parse_ok L" "\<And>s. os_strdup_ok os s" and e: "ca_fields (os_args st) = empty_fields"
    and none: "aggr_optarg st = None" "sort_optarg st = None" "filter_optarg st = None" "time_point_optarg st = None"
      "time_range_optarg st = None"
    and run: "finish_args L os tz rest st = Ret (E_OK, args')"
  shows "ca_paths args' = rest" "working_mode args' \<in> {MODE_LIST, MODE_META}" "filter_str args' = filter_str (os_args st)"
    "time_begin args' = time_begin (os_args st)" "time_end args' = time_end (os_args st)"
proof -
  obtain a1 a2 a3 a4 a5 a6 where
      s1: "select_mode L os (aggr_optarg st) (sort_optarg st) (os_args st) = Ret (E_OK, a1)"
    and s2: "set_limit (limit_optarg st) a1 = Ret (E_OK, a2)"
    and s3: "check_filter os (filter_optarg st) a2 = Ret (E_OK, a3)"
    and s4: "set_times os tz (time_point_optarg st) (time_range_optarg st) a3 = Ret (E_OK, a4)"
    and s5: "set_paths rest a4 = Ret (E_OK, a5)"
    and s6: "set_output_fields L os (output_fields_optarg st) (default_progress_bar (metadata_only a5)) = Ret (E_OK, a6)"
    and s7: "res_bind (default_output_params a6) (\<lambda>args. res_bind (decide_tput L args) (\<lambda>args.
      res_bind (fields_check L (ca_fields args)) (\<lambda>ret. assert_then ret (Ret (E_OK, args))))) = Ret (E_OK, args')"
    using run unfolding finish_args_def and_then_OK by blast
  have a1: "a1 = (os_args st)\<lparr>working_mode := MODE_LIST\<rparr>" using s1 none by (simp add: select_mode_def)
  have k1: "keys_only L a1" "mode_set a1" using select_mode_OK[OF ok e s1] by simp_all
  obtain n where a2: "a2 = a1\<lparr>rec_limit := n\<rparr>" using set_limit_OK[OF s2] by blast
  have a4: "a3 = a2" "a4 = a3" using s3 s4 none by (simp_all add: check_filter_def set_times_def)
  have a5: "a5 = a4\<lparr>ca_paths := rest\<rparr>" using s5 by (auto simp: set_paths_def split: if_splits)
  have k5: "keys_only L (default_progress_bar (metadata_only a5))" "mode_set (default_progress_bar (metadata_only a5))"
    using k1 by (simp_all add: before_fields_keep a5 a4 a2)
  obtain fs where a6: "a6 = (default_progress_bar (metadata_only a5))\<lparr>ca_fields := fs\<rparr>"
    using set_output_fields_OK[OF ok k5 s6] by blast
  obtain op where op: "default_output_params a6 = Ret (a6\<lparr>output_params := op\<rparr>)" using default_output_params_Ret by blast
  obtain u where eq: "args' = a6\<lparr>output_params := op, use_tput := u\<rparr>"
    using s7 op by (auto simp: decide_tput_Ret[OF ok(1)] res_simps)
  show "ca_paths args' = rest" "working_mode args' \<in> {MODE_LIST, MODE_META}" "filter_str args' = filter_str (os_args st)"
    "time_begin args' = time_begin (os_args st)" "time_end args' = time_end (os_args st)"
    unfolding eq a6 by (simp_all add: default_progress_bar_def metadata_only_def a5 a4 a2 a1)
qed

lemma plain_accepted:
  "\<exists>args e'. program_args sample_libnf sample_arg_os sample_arg_env [] [''f''] True 2 = Ret (Some (args, e'))
     \<and> ca_paths args = [''f''] \<and> working_mode args \<in> {MODE_LIST, MODE_META} \<and> filter_str args = None
     \<and> max_threads 4 e' = 4 \<and> time_begin args = zero_tm \<and> time_end args = zero_tm \<and> env_ok (ae_tz e')"
proof -
  define st where "st = init_opt_state zero_args sample_arg_env"
  have loop: "opt_loop [] st = Ret (E_OK, st)" by simp
  have os: "os_strdup_ok sample_arg_os s" "os_filter_ok sample_arg_os s" for s by (simp_all add: sample_arg_os_def)
  have st: "ca_fields (os_args st) = empty_fields" "aggr_optarg st = None" "sort_optarg st = None"
    "filter_optarg st = None" "time_point_optarg st = None" "time_range_optarg st = None"
    "output_fields_optarg st = None" "limit_optarg st = None" "filter_str (os_args st) = None"
    "time_begin (os_args st) = zero_tm" "time_end (os_args st) = zero_tm"
    by (simp_all add: st_def init_opt_state_def zero_args_def)
  obtain a1 a2 where a: "select_mode sample_libnf sample_arg_os (aggr_optarg st) (sort_optarg st) (os_args st) = Ret (E_OK, a1)"
      "set_limit (limit_optarg st) a1 = Ret (E_OK, a2)"
    using st by (simp add: select_mode_def set_limit_def)
  define e1 where "e1 = (os_env st)\<lparr>ae_tz := (ae_tz (os_env st))\<lparr>env_tz := Some []\<rparr>\<rparr>"
  have tz: "set_time_zone (os_env st) (time_zone_optarg st) = Ret e1"
    by (simp add: set_time_zone_def st_def init_opt_state_def sample_arg_env_def e1_def)
  obtain args where fin: "finish_args sample_libnf sample_arg_os (ae_tz e1) [''f''] st = Ret (E_OK, args)"
    using finish_args_accepts[OF sample_libnf_ok sample_parse_ok os(1) sample_defaults_ok os(2) st(1,5-7) _ a]
    by blast
  have "program_args sample_libnf sample_arg_os sample_arg_env [] [''f''] True 2 = Ret (Some (args, e1))"
    using loop tz fin by (simp add: program_args_def abort_if_def arg_parse_def st_def[symmetric])
  moreover have "max_threads 4 e1 = 4"
    by (simp add: max_threads_def e1_def st_def init_opt_state_def sample_arg_env_def)
  moreover have "env_ok (ae_tz e1)"
    by (simp add: env_ok_def e1_def st_def init_opt_state_def sample_arg_env_def)
  ultimately show ?thesis
    using finish_args_plain[OF sample_libnf_ok sample_parse_ok os(1) st(1-6) fin] st(9-11) by metis
qed

lemma sample_sizes: "field_sizes_small sample_libnf" "fget_sizes_ok sample_libnf one_file_env"
  by (auto simp: field_sizes_small_def fget_sizes_ok_def field_get_size_def assert_id_def assert_then_def
      lnf_info_ok_def sample_libnf_def one_file_env_def res_simps split: if_splits)

definition filter_env :: "(byte, byte list list) slave_env" where
  "filter_env = one_file_env\<lparr>se_filter_init := (\<lambda>s. Some port_node)\<rparr>"

lemma filter_env_ok: "slave_env_ok filter_env" "filters_agree os filter_env" "fget_sizes_ok sample_libnf filter_env"
proof -
  have "slave_env_ok one_file_env" using one_file_slave_ok by (simp add: slave_ok_def)
  then show "slave_env_ok filter_env" by (simp add: slave_env_ok_def filter_env_def)
  show "filters_agree os filter_env" by (simp add: filters_agree_def filter_env_def port_node_def)
  show "fget_sizes_ok sample_libnf filter_env"
    using sample_sizes(2) by (simp add: fget_sizes_ok_def filter_env_def)
qed

theorem program_slave_returns_witness:
  "\<exists>sr. main_slave sample_libnf filter_env one_file_fs sample_arg_os sample_arg_env [] [''f''] True 2 4 1 one_file_team
       = Some (Ret (Some sr))
     \<and> length (sr_results sr) = sr_threads sr \<and> sr_goal sr = 1 \<and> sum_list (map tr_reports (sr_results sr)) = 1"
proof -
  obtain args e' where a: "program_args sample_libnf sample_arg_os sample_arg_env [] [''f''] True 2 = Ret (Some (args, e'))"
      "ca_paths args = [''f'']" "working_mode args \<in> {MODE_LIST, MODE_META}" "filter_str args = None" "max_threads 4 e' = 4"
      "time_begin args = zero_tm" "time_end args = zero_tm" "env_ok (ae_tz e')"
    using plain_accepted by blast
  have os: "os_strdup_ok sample_arg_os s" for s by (simp add: sample_arg_os_def)
  have "\<not> tm_diff (time_end args) (time_begin args) > 0" by (simp add: a(6,7) tm_diff_def c_int_def)
  note fit = one_file_fs_ok(2)[OF this, folded a(2)]
  have key: "working_mode args = MODE_SORT \<longrightarrow> sk_field (sort_key (ca_fields args)) \<noteq> None" using a(3) by auto
  have "filter_str args \<noteq> Some []" "0 < max_threads 4 e'" using a(4,5) by simp_all
  from program_slave_returns[OF sample_libnf_ok sample_parse_ok sample_fast os a(1) key this(1) filter_env_ok(2) sample_sizes(1)
      filter_env_ok(3,1) one_file_fs_ok(1) a(8) fit this(2), of 1]
  obtain pa where pa: "path_array_gen one_file_fs (ae_tz e') (ca_paths args) (time_begin args) (time_end args) = Some (Ret (Some pa))"
    and run: "team_ok 1 (max_threads 4 e') (pa_used pa) one_file_team \<longrightarrow>
        (\<exists>sr. main_slave sample_libnf filter_env one_file_fs sample_arg_os sample_arg_env [] [''f''] True 2 4 1 one_file_team
            = Some (Ret (Some sr))
          \<and> length (sr_results sr) = sr_threads sr
          \<and> sr_goal sr = length (pa_used pa) \<and> sum_list (map tr_reports (sr_results sr)) = sr_goal sr)" by blast
  have "pa_used pa = [''f'']"
    using one_file_paths[of "ae_tz e'" "time_begin args" "time_end args"] pa by (auto simp: a(2))
  then show ?thesis using run by (auto simp: a(5) one_file_team_ok)
qed

end
