(* ===== verification/Errwarn.thy ===== *)
theory Errwarn
  imports Output_Str Arg_Options
begin

text \<open>
  Error, warning, info and debug messages (\<open>errwarn.c\<close>, \<open>errwarn.h\<close>): the text
  \<open>ewid_print\<close> writes and the macros that print it or end the program.  The caller's
  format and its arguments, which \<open>vsnprintf\<close> expands, are given as the expanded text.
\<close>

definition VERBOSITY_ERROR :: int where "VERBOSITY_ERROR = 1"
definition VERBOSITY_WARNING :: int where "VERBOSITY_WARNING = 2"
definition VERBOSITY_INFO :: int where "VERBOSITY_INFO = 3"

text \<open>Who prints: rank and size of the communicator, the processor, thread and team.\<close>

record ewid_env =
  ee_rank :: int
  ee_size :: int
  ee_processor :: string
  ee_thread :: int
  ee_threads :: int

text \<open>Where: file, function, line.\<close>

record src_pos =
  sp_file :: string
  sp_func :: string
  sp_line :: int

fun error_code_to_str :: "error_code \<Rightarrow> string res" where
  "error_code_to_str E_OK = Ret ''no error''"
| "error_code_to_str E_EOF = Ret ''end of file''"
| "error_code_to_str E_MEM = Ret ''out of memory''"
| "error_code_to_str E_MPI = Ret ''MPI''"
| "error_code_to_str E_LNF = Ret ''libnf''"
| "error_code_to_str E_INTERNAL = Ret ''internal''"
| "error_code_to_str E_ARG = Ret ''command line arguments''"
| "error_code_to_str E_PATH = Ret ''path''"
| "error_code_to_str E_BFINDEX = Ret ''bfindex''"
| "error_code_to_str E_HELP = Abort E_INTERNAL"

text \<open>The pieces of a message, each appended with \<open>SNPRINTF_APPEND\<close>.\<close>

definition src_text :: "src_pos \<Rightarrow> string" where
  "src_text pos = [CHR 0x09] @ ''[src: '' @ sp_file pos @ '':'' @ sp_func pos @ ''():'' @ dec_int (sp_line pos) @ '']''"

definition mpi_text :: "ewid_env \<Rightarrow> string" where
  "mpi_text env = '' [MPI: '' @ dec_int (ee_rank env + 1) @ ''/'' @ dec_int (ee_size env) @ '' '' @ ee_processor env @ '']''"

definition omp_text :: "ewid_env \<Rightarrow> string" where
  "omp_text env = '' [OpenMP: '' @ dec_int (ee_thread env + 1) @ ''/'' @ dec_int (ee_threads env) @ '']''"

definition ewid_pieces :: "ewid_env \<Rightarrow> error_code \<Rightarrow> string \<Rightarrow> src_pos \<Rightarrow> string \<Rightarrow> string list res" where
  "ewid_pieces env ecode prefix pos user =
     res_bind (if ecode \<noteq> E_OK then map_res (\<lambda>s. [s @ '': '']) (error_code_to_str ecode) else Ret []) (\<lambda>code.
     Ret ([prefix @ '': ''] @ code @ [user, src_text pos, mpi_text env, omp_text env, [CHR 0x0A]]))"

definition ewid_print :: "ewid_env \<Rightarrow> error_code \<Rightarrow> string \<Rightarrow> src_pos \<Rightarrow> string \<Rightarrow> string \<Rightarrow> string res" where
  "ewid_print env ecode prefix pos user stderr =
     map_res (\<lambda>pieces. stderr @ fst (fold snprintf_append pieces ([], MAX_STR_LEN)))
       (ewid_pieces env ecode prefix pos user)"

subsection \<open>The macros\<close>

definition msg_error :: "ewid_env \<Rightarrow> int \<Rightarrow> error_code \<Rightarrow> src_pos \<Rightarrow> string \<Rightarrow> string \<Rightarrow> string res" where
  "msg_error env verbosity ecode pos user stderr =
     (if verbosity \<ge> VERBOSITY_ERROR then ewid_print env ecode ''Error'' pos user stderr else Ret stderr)"

definition msg_warning :: "ewid_env \<Rightarrow> int \<Rightarrow> error_code \<Rightarrow> src_pos \<Rightarrow> string \<Rightarrow> string \<Rightarrow> string res" where
  "msg_warning env verbosity ecode pos user stderr =
     (if verbosity \<ge> VERBOSITY_WARNING then ewid_print env ecode ''Warning'' pos user stderr else Ret stderr)"

definition msg_info :: "ewid_env \<Rightarrow> int \<Rightarrow> src_pos \<Rightarrow> string \<Rightarrow> string \<Rightarrow> string res" where
  "msg_info env verbosity pos user stderr =
     (if verbosity \<ge> VERBOSITY_INFO then ewid_print env E_OK ''Info'' pos user stderr else Ret stderr)"

definition msg_debug :: "ewid_env \<Rightarrow> int \<Rightarrow> src_pos \<Rightarrow> string \<Rightarrow> string \<Rightarrow> string res" where
  "msg_debug env verbosity pos user stderr =
     (if verbosity \<ge> VERBOSITY_DEBUG then ewid_print env E_OK ''Debug'' pos user stderr else Ret stderr)"

text \<open>\<open>ABORT\<close>: the program ends with the code, or with the one of the failure to print it.\<close>

definition msg_abort :: "ewid_env \<Rightarrow> error_code \<Rightarrow> src_pos \<Rightarrow> string \<Rightarrow> string \<Rightarrow> 'a res" where
  "msg_abort env ecode pos user stderr =
     res_bind (ewid_print env ecode ''Error'' pos user stderr) (\<lambda>stderr'. Abort ecode)"

subsection \<open>The text of a message\<close>

lemma snprintf_append_take:
  assumes "0 < n"
  shows "snprintf_append s (take (n - 1) t, n - length t) = (take (n - 1) (t @ s), n - length (t @ s))"
proof (cases "length t < n")
  case True
  then have t: "take (n - 1) t = t" by simp
  show ?thesis using True unfolding t by (simp add: snprintf_append_def)
next
  case False
  then show ?thesis by (simp add: snprintf_append_def)
qed

lemma fold_snprintf_append:
  "0 < n \<Longrightarrow> fold snprintf_append ss (take (n - 1) t, n - length t) = (take (n - 1) (t @ concat ss), n - length (t @ concat ss))"
proof (induction ss arbitrary: t)
  case (Cons s ss)
  show ?case using Cons.IH[of "t @ s"] snprintf_append_take[OF Cons.prems, of s t] Cons.prems by simp
qed simp

lemma error_code_to_str_Ret: "ecode \<noteq> E_HELP \<Longrightarrow> \<exists>s. error_code_to_str ecode = Ret s"
  by (cases ecode) simp_all

text \<open>C40: A message is its pieces, cut to the first 1023 characters, whatever the texts of the user,
  the file name and the processor name are: nothing is written past the buffer.  The newline is the
  last piece, so a message that is cut has none and the next message continues its line.\<close>

theorem ewid_print_truncates:
  assumes "ecode \<noteq> E_HELP"
  shows "\<exists>pieces. ewid_pieces env ecode prefix pos user = Ret (pieces @ [[CHR 0x0A]])
    \<and> ewid_print env ecode prefix pos user stderr
        = Ret (stderr @ (if length (concat pieces) < MAX_STR_LEN - 1 then concat pieces @ [CHR 0x0A]
                         else take (MAX_STR_LEN - 1) (concat pieces)))"
proof -
  obtain code where "(if ecode \<noteq> E_OK then map_res (\<lambda>s. [s @ '': '']) (error_code_to_str ecode) else Ret []) = Ret code"
    using error_code_to_str_Ret[OF assms] by (cases "ecode = E_OK") auto
  then obtain pieces where p: "ewid_pieces env ecode prefix pos user = Ret (pieces @ [[CHR 0x0A]])"
    by (simp add: ewid_pieces_def)
  have "fst (fold snprintf_append (pieces @ [[CHR 0x0A]]) ([], MAX_STR_LEN)) = take (MAX_STR_LEN - 1) (concat pieces @ [CHR 0x0A])"
    using fold_snprintf_append[of MAX_STR_LEN "pieces @ [[CHR 0x0A]]" "[]"] by (simp add: MAX_STR_LEN_def del: fold_append)
  then show ?thesis using p by (auto simp: ewid_print_def MAX_STR_LEN_def)
qed

text \<open>A message about a missing file by the second of three processes.\<close>

definition sample_ewid_env :: ewid_env where
  "sample_ewid_env = \<lparr>ee_rank = 1, ee_size = 3, ee_processor = ''node'', ee_thread = 0, ee_threads = 4\<rparr>"

theorem ewid_print_truncates_witness:
  "\<exists>pieces. ewid_pieces sample_ewid_env E_PATH ''Warning'' \<lparr>sp_file = ''slave.c'', sp_func = ''f'', sp_line = 7\<rparr> (replicate 2000 (CHR ''x''))
      = Ret (pieces @ [[CHR 0x0A]])
    \<and> ewid_print sample_ewid_env E_PATH ''Warning'' \<lparr>sp_file = ''slave.c'', sp_func = ''f'', sp_line = 7\<rparr> (replicate 2000 (CHR ''x'')) []
      = Ret (if length (concat pieces) < MAX_STR_LEN - 1 then concat pieces @ [CHR 0x0A] else take (MAX_STR_LEN - 1) (concat pieces))"
  using ewid_print_truncates[of E_PATH sample_ewid_env "''Warning''" "\<lparr>sp_file = ''slave.c'', sp_func = ''f'', sp_line = 7\<rparr>"
      "replicate 2000 (CHR ''x'')" "[]"] by simp

end
