(* ===== verification/Tput_Query.thy ===== *)
theory Tput_Query
  imports Mem_Query
begin

text \<open>
  An aggregation query with TPUT, from the flow files to the memory the master prints: the phases
  of \<open>Tput_Raw\<close> on both sides carry out the algorithm of \<open>Tput\<close>.

  \<open>item\<close> reads the aggregation key and the value of the sort key from a raw record; all raw records
  of a query have \<open>len\<close> bytes.
\<close>

subsection \<open>What libnf's memories do\<close>

definition sized :: "nat \<Rightarrow> byte list multiset \<Rightarrow> bool" where
  "sized len W \<longleftrightarrow> (\<forall>r\<in>#W. length r = len)"

text \<open>The hash table: one record per key with the sum of its values, in descending order; a record is
  looked up by its key.\<close>

definition table_law ::
  "'m mem_ops \<Rightarrow> ('m \<Rightarrow> byte list multiset \<Rightarrow> bool) \<Rightarrow> (byte list \<Rightarrow> 'k item) \<Rightarrow> nat \<Rightarrow> bool" where
  "table_law mo holds item len \<longleftrightarrow>
     (\<forall>m W. holds m W \<longrightarrow> sized len W \<longrightarrow>
        (\<forall>xs. mset xs = W \<longrightarrow> table_of Desc (map item xs) (map item (mo_raw mo m)))
      \<and> mo_keys mo m = map (\<lambda>r. snd (item r)) (mo_raw mo m) \<and> sized len (mset (mo_raw mo m))
      \<and> (\<forall>r. case mo_lookup mo m r of
               None \<Rightarrow> fst (item r) \<notin> set (map (\<lambda>r. fst (item r)) (mo_raw mo m))
             | Some c \<Rightarrow> c < length (mo_raw mo m) \<and> fst (item (mo_raw mo m ! c)) = fst (item r)))"

text \<open>The list memory of the found records.\<close>

definition found_law :: "'m mem_ops \<Rightarrow> ('m \<Rightarrow> byte list multiset \<Rightarrow> bool) \<Rightarrow> bool" where
  "found_law mo found_holds \<longleftrightarrow> (\<forall>m W. found_holds m W \<longrightarrow> mset (mo_raw mo m) = W)"

subsection \<open>The slave\<close>

text \<open>The records of a broadcast.\<close>

definition bc_recs :: "nat \<Rightarrow> tput_bcast \<Rightarrow> byte list list" where
  "bc_recs len bc = map (\<lambda>i. take len (drop (i * len) (tb_rec_buff bc))) [0..<unat (tb_rec_cnt bc)]"

definition bc_sized :: "nat \<Rightarrow> tput_bcast \<Rightarrow> bool" where
  "bc_sized len bc \<longleftrightarrow> unat (tb_rec_cnt bc) < 2 ^ 63 \<and> (tb_rec_cnt bc \<noteq> 0 \<longrightarrow> unat (tb_rec_len bc) = len)"

lemma table_of_perm: "mset xs = mset ys \<Longrightarrow> table_of dir xs t = table_of dir ys t"
proof -
  assume m: "mset xs = mset ys"
  have "val_sum xs k = val_sum ys k" for k
  proof -
    have "mset (map snd (filter (\<lambda>p. fst p = k) xs)) = mset (map snd (filter (\<lambda>p. fst p = k) ys))" using m by simp
    then show ?thesis unfolding val_sum_def by (metis sum_mset_sum_list)
  qed
  moreover have "set (map fst xs) = set (map fst ys)" using mset_eq_setD[OF m] by simp
  ultimately show ?thesis by (simp add: table_of_def)
qed

lemma sent_items_map: "map f (sent_items lim xs) = sent_items lim (map f xs)"
  by (simp add: sent_items_def take_map)

lemma threshold_loop_values: "threshold_loop dir thr (map (Pair ()) (map snd t)) n = threshold_loop dir thr t n"
  by (induction t arbitrary: n; cases dir) simp_all

lemma threshold_cnt_values:
  "tput_phase_2_find_threshold_cnt dir thr (map (Pair ()) (map snd t)) = tput_phase_2_find_threshold_cnt dir thr t"
  by (simp add: tput_phase_2_find_threshold_cnt_def threshold_loop_values del: map_map)

text \<open>The records found for the received ones.\<close>

fun found_recs :: "'m mem_ops \<Rightarrow> 'm \<Rightarrow> byte list list \<Rightarrow> byte list list" where
  "found_recs mo mem [] = []"
| "found_recs mo mem (r # rs) =
     (case mo_lookup mo mem r of None \<Rightarrow> found_recs mo mem rs | Some c \<Rightarrow> (mo_raw mo mem ! c) # found_recs mo mem rs)"

lemma length_found_recs: "length (found_recs mo mem rs) \<le> length rs"
  by (induction rs) (auto split: option.split)

lemma found_recs_items:
  assumes "distinct (map (\<lambda>r. fst (item r)) (mo_raw mo mem))"
    and "\<And>r. case mo_lookup mo mem r of
           None \<Rightarrow> fst (item r) \<notin> set (map (\<lambda>r. fst (item r)) (mo_raw mo mem))
         | Some c \<Rightarrow> c < length (mo_raw mo mem) \<and> fst (item (mo_raw mo mem ! c)) = fst (item r)"
  shows "map item (found_recs mo mem rs) = slave_tput_phase_3 (map (\<lambda>r. fst (item r)) rs) (map item (mo_raw mo mem))"
proof (induction rs)
  case (Cons r rs)
  let ?t = "map item (mo_raw mo mem)"
  show ?case
  proof (cases "mo_lookup mo mem r")
    case None
    then have "map_of ?t (fst (item r)) = None" using assms(2)[of r] by (auto simp: map_of_eq_None_iff)
    then show ?thesis using Cons None by simp
  next
    case (Some c)
    then have c: "c < length (mo_raw mo mem)" "fst (item (mo_raw mo mem ! c)) = fst (item r)" using assms(2)[of r] by simp_all
    have "distinct (map fst ?t)" using assms(1) by (simp add: comp_def)
    moreover have "(fst (item r), snd (item (mo_raw mo mem ! c))) \<in> set ?t" using c by (metis nth_mem image_eqI list.set_map prod.collapse)
    ultimately have "map_of ?t (fst (item r)) = Some (snd (item (mo_raw mo mem ! c)))" by (rule map_of_is_SomeI)
    then show ?thesis using Cons Some c(2) by (simp add: prod_eq_iff)
  qed
qed simp

lemma found_fold_holds:
  assumes "mem_ops_ok mo" "write_law mo found_holds calls" "\<forall>r\<in>set (mo_raw mo mem). length r + 4 \<le> XCHG_BUFF_SIZE"
    and "bc_sized len bc" "\<And>r c. mo_lookup mo mem r = Some c \<Longrightarrow> c < length (mo_raw mo mem)"
  shows "\<forall>i\<in>set idx. i < unat (tb_rec_cnt bc) \<Longrightarrow> found_holds found V \<Longrightarrow> size V + length idx \<le> 2 ^ 63 \<Longrightarrow>
    found_holds (fold (found_one mo bc mem) idx found)
      (V + mset (found_recs mo mem (map (\<lambda>i. take len (drop (i * len) (tb_rec_buff bc))) idx)))"
proof (induction idx arbitrary: found V)
  case (Cons i idx)
  have "tb_rec_cnt bc \<noteq> 0" using Cons.prems(1) by auto
  then have len: "unat (tb_rec_len bc) = len" using assms(4) by (simp add: bc_sized_def)
  show ?case
  proof (cases "mo_lookup mo mem (take len (drop (i * len) (tb_rec_buff bc)))")
    case None
    then have "found_one mo bc mem i found = found" by (simp add: found_one_def len)
    then show ?thesis using Cons None by simp
  next
    case (Some c)
    let ?r = "mo_raw mo mem ! c"
    obtain found' where f: "mo_write_raw mo found ?r = Some found'" using assms(1) unfolding mem_ops_ok_def by blast
    then have one: "found_one mo bc mem i found = found'" using Some by (simp add: found_one_def len)
    have "length ?r + 4 \<le> XCHG_BUFF_SIZE" using assms(3) assms(5)[OF Some] by simp
    then have "found_holds found' (add_mset ?r V)"
      using assms(2) Cons.prems(2,3) f by (simp add: write_law_def)
    from Cons.IH[OF _ this] show ?thesis using Cons.prems Some one by simp
  qed
qed simp

text \<open>A thread: its records, their table, and the groups of records it sends in each phase.\<close>

record 'k tput_row =
  rw_recs :: "byte list list"
  rw_table :: "'k item list"
  rw_1 :: "byte list list list"
  rw_2 :: "byte list list list"
  rw_3 :: "byte list list list"

definition row_msgs :: "'k tput_row \<Rightarrow> message list" where
  "row_msgs row = sender_msgs TAG_TPUT1 (rw_1 row) @ sender_msgs TAG_TPUT2 (rw_2 row) @ sender_msgs TAG_TPUT3 (rw_3 row)"

definition row_ok :: "64 word \<Rightarrow> tput_bcast \<Rightarrow> (byte list \<Rightarrow> 'k item) \<Rightarrow> nat \<Rightarrow> 'k tput_row \<Rightarrow> bool" where
  "row_ok lim bc item len row \<longleftrightarrow>
     table_of Desc (map item (rw_recs row)) (rw_table row)
   \<and> flight_ok (Some (rw_1 row)) \<and> flight_ok (Some (rw_2 row)) \<and> flight_ok (Some (rw_3 row))
   \<and> map item (concat (rw_1 row)) = slave_tput_phase_1 lim (rw_table row)
   \<and> map item (concat (rw_2 row)) = slave_tput_phase_2 Desc (tb_threshold bc) (rw_table row)
   \<and> sized len (mset (concat (rw_1 row @ rw_2 row)))
   \<and> (bc_sized len bc \<longrightarrow> sized len (mset (concat (rw_3 row)))
        \<and> mset (map item (concat (rw_3 row)))
            = mset (slave_tput_phase_3 (map (\<lambda>r. fst (item r)) (bc_recs len bc)) (rw_table row)))"

lemma sized_sub: "sized len W \<Longrightarrow> set_mset V \<subseteq> set_mset W \<Longrightarrow> sized len V"
  by (auto simp: sized_def)

lemma set_found_recs:
  "(\<And>r c. mo_lookup mo mem r = Some c \<Longrightarrow> c < length (mo_raw mo mem)) \<Longrightarrow> set (found_recs mo mem rs) \<subseteq> set (mo_raw mo mem)"
  by (induction rs) (auto split: option.splits)

lemma raw_tput_row:
  assumes mo: "mem_ops_ok mo" and bc: "bcast_ok bc" and bufs: "\<forall>i. length (bufs i) = XCHG_BUFF_SIZE"
    and L: "libnf_ok L" "fields_inv L (ca_fields args)" "sk_field (fields.sort_key (ca_fields args)) \<noteq> None"
      "sk_direction (fields.sort_key (ca_fields args)) = lnf L LNF_SORT_DESC"
    and lcalls: "libnf_mem_init_list L (\<lambda>_. True) (ca_fields args) = Ret lcalls"
    and law: "table_law mo holds item len" "write_law mo found_holds lcalls" "found_law mo found_holds"
    and mem: "holds mem (mset xs)" "sized len (mset xs)" and len: "len + 4 \<le> XCHG_BUFF_SIZE"
  shows "\<exists>row. slave_raw_tput L mo args bc bufs mem = Some (Ret (row_msgs row)) \<and> row_ok (rec_limit args) bc item len row
    \<and> rw_recs row = xs"
proof -
  define t where "t = map item (mo_raw mo mem)"
  have tab: "table_of Desc (map item xs) t" and keys: "mo_keys mo mem = map snd t"
    and sz: "sized len (mset (mo_raw mo mem))"
    and look: "\<And>r. case mo_lookup mo mem r of
        None \<Rightarrow> fst (item r) \<notin> set (map (\<lambda>r. fst (item r)) (mo_raw mo mem))
      | Some c \<Rightarrow> c < length (mo_raw mo mem) \<and> fst (item (mo_raw mo mem ! c)) = fst (item r)"
    using law(1) mem unfolding table_law_def t_def by (auto simp: comp_def)
  have c: "c < length (mo_raw mo mem)" if "mo_lookup mo mem r = Some c" for r c using look[of r] that by simp
  have dir: "sort_direction L args = Desc" "sort_direction_known L args"
    using L(4) by (simp_all add: sort_direction_def sort_direction_known_def)
  obtain gs1 gs2 gs3 where g: "slave_raw_tput L mo args bc bufs mem
      = Some (Ret (sender_msgs TAG_TPUT1 gs1 @ sender_msgs TAG_TPUT2 gs2 @ sender_msgs TAG_TPUT3 gs3))"
    "concat gs1 = sent_items (rec_limit args) (mo_raw mo mem)"
    "concat gs2 = sent_items (tput_phase_2_find_threshold_cnt Desc (tb_threshold bc) (map (Pair ()) (mo_keys mo mem))) (mo_raw mo mem)"
    "concat gs3 = mo_raw mo (fold (found_one mo bc mem) [0..<unat (tb_rec_cnt bc)] (mo_init mo lcalls))"
    "\<forall>g\<in>set (gs1 @ gs2 @ gs3). g \<noteq> [] \<and> length (pack g) \<le> XCHG_BUFF_SIZE"
    using slave_raw_tput_Ret[OF mo bc bufs L(1-3) dir(2), of mem] lcalls unfolding dir(1) by auto
  have fits: "\<forall>r\<in>set (mo_raw mo mem). length r + 4 \<le> XCHG_BUFF_SIZE" using sz len by (simp add: sized_def)
  have init: "found_holds (mo_init mo lcalls) {#}" using law(2) by (simp add: write_law_def)
  have g3: "mset (concat gs3) = mset (found_recs mo mem (bc_recs len bc))" if sz: "bc_sized len bc"
    using found_fold_holds[where V = "{#}" and found = "mo_init mo lcalls" and idx = "[0..<unat (tb_rec_cnt bc)]",
        OF mo law(2) fits sz c] sz init law(3)
    by (simp add: bc_recs_def bc_sized_def g(4) found_law_def)
  have "distinct (map (\<lambda>r. fst (item r)) (mo_raw mo mem))" using tab by (simp add: t_def table_of_def comp_def)
  from found_recs_items[OF this look] have "bc_sized len bc \<longrightarrow> mset (map item (concat gs3))
      = mset (slave_tput_phase_3 (map (\<lambda>r. fst (item r)) (bc_recs len bc)) t)"
    using arg_cong[OF g3, of "image_mset item"] by (simp add: t_def mset_map[symmetric] del: mset_map)
  moreover have "map item (concat gs1) = slave_tput_phase_1 (rec_limit args) t"
    by (simp add: g(2) sent_items_map t_def slave_tput_phase_1_def)
  moreover have "map item (concat gs2) = slave_tput_phase_2 Desc (tb_threshold bc) t"
    unfolding g(3) keys threshold_cnt_values sent_items_map by (simp add: t_def slave_tput_phase_2_def)
  moreover have "flight_ok (Some gs1)" "flight_ok (Some gs2)" "flight_ok (Some gs3)"
    using g(5) by (auto intro!: groups_flight)
  moreover have "sized len (mset (concat (gs1 @ gs2)))"
  proof -
    have "set (concat gs1) \<subseteq> set (mo_raw mo mem)" "set (concat gs2) \<subseteq> set (mo_raw mo mem)"
      unfolding g(2,3) by (rule sent_items_subset)+
    then have "set (concat (gs1 @ gs2)) \<subseteq> set (mo_raw mo mem)" unfolding concat_append set_append by (rule Un_least)
    then show ?thesis using sz by (simp only: sized_def set_mset_mset) blast
  qed
  moreover have "bc_sized len bc \<longrightarrow> sized len (mset (concat gs3))"
  proof
    assume sz': "bc_sized len bc"
    have "set (concat gs3) \<subseteq> set (mo_raw mo mem)" unfolding mset_eq_setD[OF g3[OF sz']] by (rule set_found_recs[OF c])
    then show "sized len (mset (concat gs3))" using sz by (simp only: sized_def set_mset_mset) blast
  qed
  ultimately have "row_ok (rec_limit args) bc item len \<lparr>rw_recs = xs, rw_table = t, rw_1 = gs1, rw_2 = gs2, rw_3 = gs3\<rparr>"
    using tab unfolding row_ok_def tput_row.simps by blast
  then show ?thesis
    using g(1) by (intro exI[of _ "\<lparr>rw_recs = xs, rw_table = t, rw_1 = gs1, rw_2 = gs2, rw_3 = gs3\<rparr>"]) (simp add: row_msgs_def)
qed

text \<open>What the threads of some processes send.\<close>

definition tput_sent ::
  "64 word \<Rightarrow> tput_bcast \<Rightarrow> (byte list \<Rightarrow> 'k item) \<Rightarrow> nat \<Rightarrow> byte list multiset \<Rightarrow> message list list \<Rightarrow> bool" where
  "tput_sent lim bc item len W outs \<longleftrightarrow>
     (\<exists>rows. outs = map row_msgs rows \<and> (\<forall>row\<in>set rows. row_ok lim bc item len row) \<and> mset (concat (map rw_recs rows)) = W)"

lemma tput_sent_joins: "joins (tput_sent lim bc item len)"
  unfolding joins_def
proof (intro conjI allI impI)
  show "tput_sent lim bc item len {#} []" by (simp add: tput_sent_def)
  fix V W o1 o2 assume a: "tput_sent lim bc item len V o1" "tput_sent lim bc item len W o2"
  then obtain r1 r2 where r: "o1 = map row_msgs r1" "\<forall>row\<in>set r1. row_ok lim bc item len row" "mset (concat (map rw_recs r1)) = V"
    "o2 = map row_msgs r2" "\<forall>row\<in>set r2. row_ok lim bc item len row" "mset (concat (map rw_recs r2)) = W"
    unfolding tput_sent_def by blast
  then show "tput_sent lim bc item len (V + W) (o1 @ o2)"
    unfolding tput_sent_def by (intro exI[of _ "r1 @ r2"]) auto
qed

text \<open>The query, and the laws of the memories of a process.\<close>

definition tput_query_ok :: "libnf \<Rightarrow> cmdline_args \<Rightarrow> mem_call list \<Rightarrow> mem_call list \<Rightarrow> bool" where
  "tput_query_ok L args calls list_calls \<longleftrightarrow>
     working_mode args = MODE_AGGR \<and> use_tput args
   \<and> sk_direction (fields.sort_key (ca_fields args)) = lnf L LNF_SORT_DESC
   \<and> libnf_mem_init_ht L (\<lambda>_. True) (ca_fields args) = Ret calls
   \<and> libnf_mem_init_list L (\<lambda>_. True) (ca_fields args) = Ret list_calls"

definition tput_env_ok ::
  "('m \<Rightarrow> byte list multiset \<Rightarrow> bool) \<Rightarrow> ('m \<Rightarrow> byte list multiset \<Rightarrow> bool) \<Rightarrow> ('r \<Rightarrow> byte list) \<Rightarrow> (byte list \<Rightarrow> 'k item) \<Rightarrow> nat
    \<Rightarrow> mem_call list \<Rightarrow> mem_call list \<Rightarrow> ('r, 'm) slave_env \<Rightarrow> bool" where
  "tput_env_ok holds found_holds enc item len calls list_calls E \<longleftrightarrow>
     write_law (se_lnf_mem E) holds calls \<and> store_law E holds enc \<and> table_law (se_lnf_mem E) holds item len
   \<and> write_law (se_lnf_mem E) found_holds list_calls \<and> found_law (se_lnf_mem E) found_holds"

lemma thread_sends_tput:
  assumes ok: "slave_ok L E args" and q: "tput_query_ok L args calls lcalls" and env: "tput_env_ok holds found_holds enc item len calls lcalls E"
    and len: "\<And>r. length (enc r) = len" "len + 4 \<le> XCHG_BUFF_SIZE"
  shows "thread_sends L args (tput_sent (rec_limit args) (se_bcast E) item len) enc E"
  unfolding thread_sends_def
proof (intro allI impI)
  fix others bufs files bf t bf' tr
  assume run: "\<forall>i. length (bufs i :: byte list) = XCHG_BUFF_SIZE" "thread_ctx_init L E args bufs bf = Ret (t, bf')"
    "index_sound E (thread_cfg E args others (tc_filter t)) (tc_bfindex_root t)" "\<forall>p\<in>set files. flow_path_ok p"
    "thread_run L E args others files t = Some (Ret tr)" "length (concat (map (stored enc E args) files)) \<le> 2 ^ 63"
  let ?xs = "concat (map (stored enc E args) files)"
  have md: "working_mode args \<in> {MODE_SORT, MODE_AGGR}" "query_mem_init L args = Ret calls" "working_mode args = MODE_AGGR" "use_tput args"
    using q by (simp_all add: tput_query_ok_def query_mem_init_def)
  have law: "write_law (se_lnf_mem E) holds calls" "store_law E holds enc" "table_law (se_lnf_mem E) holds item len"
    "write_law (se_lnf_mem E) found_holds lcalls" "found_law (se_lnf_mem E) found_holds"
    using env by (simp_all add: tput_env_ok_def)
  have L: "libnf_ok L" "fields_inv L (ca_fields args)" "sk_field (fields.sort_key (ca_fields args)) \<noteq> None" "rec_limit args \<noteq> 0"
    "sk_direction (fields.sort_key (ca_fields args)) = lnf L LNF_SORT_DESC"
    "libnf_mem_init_list L (\<lambda>_. True) (ca_fields args) = Ret lcalls"
    using ok q by (simp_all add: slave_ok_def slave_args_ok_def tput_query_ok_def)
  have e: "mem_ops_ok (se_lnf_mem E)" "bcast_ok (se_bcast E)" using ok by (simp_all add: slave_ok_def slave_env_ok_def)
  obtain t1 m where m: "tc_mem t1 = Some m" "holds m (mset ?xs)" "postprocess_mt L E args t1 = Some (Ret (tr_messages tr))"
    "bufs_ok (tc_ff t1)" using thread_run_memory[OF ok md(1,2) law(1,2) run] by blast
  have b: "\<forall>i. length (s_bufs (ff_send (tc_ff t1)) i) = XCHG_BUFF_SIZE" using m(4) by (simp add: bufs_ok_def)
  have "sized len (mset ?xs)" using len(1) by (auto simp: sized_def stored_def)
  from raw_tput_row[OF e b L(1-3,5,6) law(3-5) m(2) this len(2)] obtain row where
    row: "slave_raw_tput L (se_lnf_mem E) args (se_bcast E) (s_bufs (ff_send (tc_ff t1))) m = Some (Ret (row_msgs row))"
    "row_ok (rec_limit args) (se_bcast E) item len row" "rw_recs row = ?xs" by blast
  have "tr_messages tr = row_msgs row" using m(1,3) row(1) md(3,4) L(4) by (simp add: postprocess_mt_def)
  then show "tput_sent (rec_limit args) (se_bcast E) item len (mset ?xs) [tr_messages tr]"
    unfolding tput_sent_def using row(2,3) by (intro exI[of _ "[row]"]) simp
qed


subsection \<open>The master\<close>

text \<open>What the master broadcasts after the first two phases.\<close>

definition tput_broadcast ::
  "libnf \<Rightarrow> 'm mem_ops \<Rightarrow> cmdline_args \<Rightarrow> master_ctx \<Rightarrow> 'm \<Rightarrow> arrivals \<Rightarrow> tput_bcast res option" where
  "tput_broadcast L mo args m_ctx mem msgs =
     run_then (master_raw_phase_1 mo args m_ctx mem msgs) (\<lambda>bottom.
     run_then (master_raw_phase_2 L mo args m_ctx bottom msgs) (\<lambda>(threshold, mem2).
     Some (tput_records mo threshold mem2)))"

lemma store_records_Ret:
  assumes "raw_read_ok rd" "0 < n" "n < 2 ^ 64"
  shows "\<forall>r\<in>set rs. length r = n \<Longrightarrow> room = length buff + length rs * n \<Longrightarrow>
    store_records (of_nat n) rd room rs buff = Ret (buff @ concat rs)"
proof (induction rs arbitrary: buff)
  case (Cons r rs)
  have "rd r (int (room - length buff)) = Raw_OK r" using assms(1) Cons.prems by (simp add: raw_read_ok_def)
  moreover have "r \<noteq> []" using Cons.prems(1) assms(2) by auto
  moreover have "store_records (of_nat n) rd room rs (buff @ r) = Ret ((buff @ r) @ concat rs)"
    using Cons.prems by (intro Cons.IH) simp_all
  ultimately show ?case using Cons.prems(1) by simp
qed simp

lemma chunk_concat:
  "\<forall>r\<in>set rs. length r = len \<Longrightarrow> i < length rs \<Longrightarrow> take len (drop (i * len) (concat rs)) = rs ! i"
proof (induction rs arbitrary: i)
  case (Cons r rs)
  then show ?case by (cases i) simp_all
qed simp

text \<open>The broadcast of a list of records of one length.\<close>

definition bcast_of :: "64 word \<Rightarrow> nat \<Rightarrow> byte list list \<Rightarrow> tput_bcast" where
  "bcast_of thr len rs =
     \<lparr>tb_threshold = thr, tb_rec_cnt = of_nat (length rs), tb_rec_len = (if rs = [] then 0 else of_nat len), tb_rec_buff = concat rs\<rparr>"

lemma bcast_of_recs:
  assumes "sized len (mset rs)" "len \<le> XCHG_BUFF_SIZE" "length rs \<le> 2 ^ 40"
  shows "tb_threshold (bcast_of thr len rs) = thr" "bc_sized len (bcast_of thr len rs)" "bc_recs len (bcast_of thr len rs) = rs"
proof -
  have l: "\<forall>r\<in>set rs. length r = len" using assms(1) by (simp add: sized_def)
  have "length rs < 2 ^ 64" "len < 2 ^ 64" using assms(2,3) by (simp_all add: XCHG_BUFF_SIZE_def)
  then have n: "unat (of_nat (length rs) :: 64 word) = length rs" "unat (of_nat len :: 64 word) = len"
    by (simp_all add: unat_of_nat take_bit_nat_eq_self)
  have "map (\<lambda>i. take len (drop (i * len) (concat rs))) [0..<length rs] = rs"
    by (rule nth_equalityI) (simp_all add: chunk_concat[OF l])
  then show "tb_threshold (bcast_of thr len rs) = thr" "bc_sized len (bcast_of thr len rs)" "bc_recs len (bcast_of thr len rs) = rs"
    using n assms(3) by (simp_all add: bcast_of_def bc_sized_def bc_recs_def)
qed

lemma tput_records_Ret:
  assumes "mem_ops_ok mo" "sized len (mset (mo_raw mo mem))" "0 < len" "len \<le> XCHG_BUFF_SIZE" "length (mo_raw mo mem) \<le> 2 ^ 40"
  shows "tput_records mo thr mem = Ret (bcast_of thr len (mo_raw mo mem))"
proof -
  define rs where "rs = mo_raw mo mem"
  have ok: "mo_malloc mo = (\<lambda>_. True)" "raw_read_ok (mo_read mo)" using assms(1) by (simp_all add: mem_ops_ok_def)
  have l: "\<forall>r\<in>set rs. length r = len" using assms(2) by (simp add: sized_def rs_def)
  have cnt: "libnf_mem_rec_cnt rs = of_nat (length rs)" by (rule libnf_mem_rec_cnt_eq)
  have small: "length rs < 2 ^ 64" "len < 2 ^ 64" using assms(4,5) by (simp_all add: rs_def XCHG_BUFF_SIZE_def)
  have n: "unat (of_nat (length rs) :: 64 word) = length rs" "unat (of_nat len :: 64 word) = len"
    using small by (simp_all add: unat_of_nat take_bit_nat_eq_self)
  show ?thesis
  proof (cases rs)
    case Nil
    then show ?thesis using cnt ok(1)
      by (simp add: tput_records_def rs_def[symmetric] libnf_mem_rec_len_def mem_first_def bcast_of_def Let_def)
  next
    case (Cons r rs')
    have len: "libnf_mem_rec_len rs = Ret (of_nat len)"
      using Cons l assms(3) by (simp add: libnf_mem_rec_len_def mem_first_def)
    have "length rs * len \<le> 2 ^ 40 * XCHG_BUFF_SIZE" using assms(4,5) by (intro mult_le_mono) (simp_all add: rs_def)
    then have "length rs * len < 2 ^ 64" by (simp add: XCHG_BUFF_SIZE_def)
    then have room: "unat (of_nat (length rs) * of_nat len :: 64 word) = length rs * len"
      by (simp add: unat_of_nat take_bit_nat_eq_self flip: of_nat_mult)
    have st: "store_records (of_nat len) (mo_read mo) (length rs * len) rs [] = Ret ([] @ concat rs)"
      by (rule store_records_Ret[OF ok(2) assms(3) small(2) l]) simp
    have rs: "rs \<noteq> []" using Cons by simp
    have take: "take (unat (of_nat (length rs) :: 64 word)) rs = rs" unfolding n by simp
    show ?thesis
      unfolding tput_records_def rs_def[symmetric] Let_def cnt len res_bind_Ret room take st ok(1)
      using rs by (simp add: bcast_of_def room st)
  qed
qed

text \<open>The last phase.\<close>

lemma master_raw_tput_bcast:
  assumes "tput_broadcast L mo args m_ctx mem msgs = Some (Ret bc)"
  shows "master_raw_tput L mo args m_ctx mem msgs =
    run_after (libnf_mem_init_ht L (mo_ok mo) (ca_fields args)) (\<lambda>calls.
    run_then (recv_memory mo m_ctx TAG_TPUT3 (mo_init mo calls) msgs) (\<lambda>mem2. Some (Ret (bc, mem2))))"
proof -
  obtain bottom where p1: "master_raw_phase_1 mo args m_ctx mem msgs = Some (Ret bottom)"
    using assms by (auto simp: tput_broadcast_def run_then_def run_after_def split: option.splits res.splits)
  obtain thr mem2 where p2: "master_raw_phase_2 L mo args m_ctx bottom msgs = Some (Ret (thr, mem2))"
    using assms p1 by (auto simp: tput_broadcast_def run_then_def run_after_def split: option.splits res.splits)
  have "tput_records mo thr mem2 = Ret bc" using assms p1 p2 by (simp add: tput_broadcast_def)
  then show ?thesis using p1 p2 by (simp add: master_raw_tput_def master_raw_phase_3_def)
qed

text \<open>The messages of a phase.\<close>

definition with_tag :: "mpi_tag \<Rightarrow> message list \<Rightarrow> message list" where
  "with_tag tag ms = filter (\<lambda>m. fst m = tag) ms"

lemma with_tag_sender: "with_tag tag (sender_msgs tag' gs) = (if tag = tag' then sender_msgs tag gs else [])"
  by (auto simp: with_tag_def sender_msgs_def send_terminator_def filter_empty_conv)

lemma with_tag_row:
  "with_tag TAG_TPUT1 (row_msgs row) = sender_msgs TAG_TPUT1 (rw_1 row)"
  "with_tag TAG_TPUT2 (row_msgs row) = sender_msgs TAG_TPUT2 (rw_2 row)"
  "with_tag TAG_TPUT3 (row_msgs row) = sender_msgs TAG_TPUT3 (rw_3 row)"
  using with_tag_sender unfolding row_msgs_def with_tag_def by simp_all

lemma rows_received:
  assumes "mem_ops_ok mo" "write_law mo holds calls" "rows \<noteq> []"
    and "arrives (map (\<lambda>row. sender_msgs tag (f row)) rows) (msgs tag)" "\<forall>row\<in>set rows. flight_ok (Some (f row))"
    and "length (concat (map (\<lambda>row. concat (f row)) rows)) \<le> 2 ^ 63"
  shows "\<exists>mem. recv_memory mo \<lparr>rec_buff = junk, slave_threads_cnt = length rows\<rparr> tag (mo_init mo calls) msgs = Some (Ret mem)
    \<and> holds mem (mset (concat (map (\<lambda>row. concat (f row)) rows)))"
proof -
  let ?W = "mset (concat (map (\<lambda>row. concat (f row)) rows))"
  have sent: "mem_sent tag (\<lambda>W S. S = W) ?W (map (\<lambda>row. sender_msgs tag (f row)) rows)"
    unfolding mem_sent_def using assms(5) by (intro exI[of _ "map f rows"]) (simp add: comp_def)
  have ne: "map (\<lambda>row. sender_msgs tag (f row)) rows \<noteq> []" using assms(3) by simp
  have sz: "size ?W \<le> 2 ^ 63" using assms(6) by simp
  show ?thesis
    using mem_received[where R = "\<lambda>W S. S = W" and msgs = msgs, OF assms(1,2) sent assms(4) ne _ sz] by auto
qed

lemma rows_length:
  "(\<forall>row\<in>set rows. length (concat (f row)) \<le> length (rw_recs row)) \<Longrightarrow>
    length (concat (map (\<lambda>row. concat (f row)) rows)) \<le> length (concat (map rw_recs rows))"
  by (induction rows) auto


subsection \<open>The values\<close>

lemma bottom_walk_values: "snd (bottom_walk lim (map (Pair ()) (map snd t)) n ((), snd p)) = snd (bottom_walk lim t n p)"
  by (induction t arbitrary: n p) (simp_all del: map_map)

lemma find_bottom_values: "tput_phase_1_find_bottom lim (map (Pair ()) (map snd t)) = tput_phase_1_find_bottom lim t"
proof (cases t)
  case (Cons p ps)
  show ?thesis
    using bottom_walk_values[of lim t 0 p] unfolding Cons tput_phase_1_find_bottom_def by (simp del: bottom_walk.simps)
qed (simp add: tput_phase_1_find_bottom_def)

lemma slave_tput_phase_3_keys: "map fst (slave_tput_phase_3 ks t) = filter (\<lambda>k. k \<in> set (map fst t)) ks"
proof (induction ks)
  case (Cons k ks)
  show ?case
  proof (cases "map_of t k")
    case None
    then have "k \<notin> set (map fst t)" unfolding map_of_eq_None_iff set_map .
    then show ?thesis using Cons None by simp
  next
    case (Some v)
    then have "k \<in> set (map fst t)" using map_of_eq_None_iff[of t k] by (simp del: map_of_eq_None_iff)
    then show ?thesis using Cons Some by simp
  qed
qed simp

lemma length_phase_3:
  assumes "distinct ks"
  shows "length (slave_tput_phase_3 ks t) \<le> length t"
proof -
  have "distinct (map fst (slave_tput_phase_3 ks t))" unfolding slave_tput_phase_3_keys using assms by (rule distinct_filter)
  from distinct_card[OF this] have "length (slave_tput_phase_3 ks t) = card (set (map fst (slave_tput_phase_3 ks t)))"
    unfolding length_map by (rule sym)
  also have "\<dots> \<le> card (set (map fst t))" unfolding slave_tput_phase_3_keys by (rule card_mono) auto
  also have "\<dots> \<le> length t" using card_length[of "map fst t"] by simp
  finally show ?thesis .
qed

lemma length_table:
  assumes "table_of dir xs t"
  shows "length t \<le> length xs"
proof -
  have t: "distinct (map fst t)" "set (map fst t) = set (map fst xs)" using assms by (simp_all add: table_of_def)
  from distinct_card[OF t(1)] have "length t = card (set (map fst xs))" unfolding t(2) length_map by (rule sym)
  also have "\<dots> \<le> length xs" using card_length[of "map fst xs"] by simp
  finally show ?thesis .
qed

text \<open>A table has the totals of its records.\<close>

lemma nat_sum_table:
  assumes "table_of dir xs t" "nat_sum xs k < 2 ^ 64"
  shows "nat_sum t k = nat_sum xs k"
proof (cases "map_of t k")
  case None
  then have "k \<notin> set (map fst t)" by (simp add: map_of_eq_None_iff)
  then show ?thesis using assms(1) nat_sum_absent[of k t] nat_sum_absent[of k xs] by (simp add: table_of_def)
next
  case (Some v)
  have d: "distinct (map fst t)" using assms(1) by (simp add: table_of_def)
  have "unat v = nat_sum xs k" using table_value[OF assms(1) map_of_SomeD[OF Some]] assms(2) by simp
  then show ?thesis using nat_sum_distinct[OF d, of k] Some by simp
qed

lemma nat_sum_perm: "mset xs = mset ys \<Longrightarrow> nat_sum xs k = nat_sum ys k"
  unfolding nat_sum_def sum_mset_sum_list[symmetric] by simp

lemma tables_total:
  assumes "\<forall>(xs, t)\<in>set ps. table_of dir xs t" "nat_sum (concat (map fst ps)) k < 2 ^ 64"
  shows "total (map snd ps) k = nat_sum (concat (map fst ps)) k"
  using assms
proof (induction ps)
  case (Cons p ps)
  obtain xs t where p: "p = (xs, t)" by (cases p)
  have "nat_sum t k = nat_sum xs k" using Cons.prems p by (intro nat_sum_table) auto
  moreover have "total (map snd ps) k = nat_sum (concat (map fst ps)) k" using Cons p by (intro Cons.IH) auto
  ultimately show ?case using p by (simp add: total_concat)
qed (simp add: total_def)

lemma tables_keys:
  "\<forall>(xs, t)\<in>set ps. table_of dir xs t \<Longrightarrow> all_keys (map snd ps) = set (map fst (concat (map fst ps)))"
proof (induction ps)
  case (Cons p ps)
  obtain xs t where p: "p = (xs, t)" by (cases p)
  have "set (map fst t) = set (map fst xs)" using Cons.prems p by (simp add: table_of_def)
  then show ?case using Cons p by (simp add: all_keys_def image_Un)
qed (simp add: all_keys_def)

lemma top_n_cong: "total a = total b \<Longrightarrow> all_keys a = all_keys b \<Longrightarrow> top_n lim a res = top_n lim b res"
  by (simp add: top_n_def)


lemma concat_rows_items:
  assumes "\<forall>row\<in>set rows. map item (concat (f row)) = g (rw_table row)"
  shows "map item (concat (map (\<lambda>row. concat (f row)) rows)) = concat (map g (map rw_table rows))"
  using assms by (induction rows) auto

lemma concat_rows_perm:
  assumes "\<forall>row\<in>set rows. mset (map item (concat (f row))) = mset (g (rw_table row))"
  shows "mset (map item (concat (map (\<lambda>row. concat (f row)) rows))) = mset (concat (map g (map rw_table rows)))"
  using assms by (induction rows) auto

lemma rows_input_ok:
  assumes "rows \<noteq> []" "length rows < 2 ^ 31" "\<forall>row\<in>set rows. row_ok lim bc item len row"
    and "length (concat (map rw_recs rows)) \<le> 2 ^ 40" "\<forall>k. nat_sum (map item (concat (map rw_recs rows))) k < 2 ^ 53"
  shows "tput_input_ok Desc (map rw_table rows)"
    "top_n lim (map rw_table rows) res = top_n lim [map item (concat (map rw_recs rows))] res"
proof -
  let ?ps = "map (\<lambda>row. (map item (rw_recs row), rw_table row)) rows"
  have t: "\<forall>(xs, t)\<in>set ?ps. table_of Desc xs t" using assms(3) by (auto simp: row_ok_def)
  have fsts: "concat (map fst ?ps) = map item (concat (map rw_recs rows))" by (simp add: comp_def map_concat)
  have snds: "map snd ?ps = map rw_table rows" by simp
  have total: "total (map rw_table rows) k = nat_sum (map item (concat (map rw_recs rows))) k" for k
  proof -
    have "nat_sum (concat (map fst ?ps)) k < 2 ^ 64" using assms(5) unfolding fsts by (rule allE[of _ k]) simp
    from tables_total[OF t this] show ?thesis unfolding fsts snds .
  qed
  have "length (concat (map rw_table rows)) \<le> length (concat (map rw_recs rows))"
    using assms(3) by (induction rows) (auto simp: row_ok_def dest!: length_table)
  then have "length (concat (map rw_table rows)) < 2 ^ 64" using assms(4) by simp
  moreover have "\<forall>t\<in>set (map rw_table rows). distinct (map fst t) \<and> sorted_wrt (\<lambda>p q. ordered Desc (snd p) (snd q)) t"
    using assms(3) by (auto simp: row_ok_def table_of_def)
  ultimately show "tput_input_ok Desc (map rw_table rows)"
    using assms(1,2,5) unfolding tput_input_ok_def by (simp add: total)
  have "total (map rw_table rows) = total [map item (concat (map rw_recs rows))]"
    by (rule ext) (simp add: total[unfolded total_def] total_def)
  moreover have "all_keys (map rw_table rows) = all_keys [map item (concat (map rw_recs rows))]"
    using tables_keys[OF t] unfolding fsts snds by (simp add: all_keys_def)
  ultimately show "top_n lim (map rw_table rows) res = top_n lim [map item (concat (map rw_recs rows))] res"
    by (rule top_n_cong)
qed

lemma tput_rows:
  assumes rows: "rows \<noteq> []" "length rows < 2 ^ 31" "\<forall>row\<in>set rows. row_ok lim bc item len row"
    "length (concat (map rw_recs rows)) \<le> 2 ^ 40" "\<forall>k. nat_sum (map item (concat (map rw_recs rows))) k < 2 ^ 53"
    and bc: "bc_sized len bc" "lim \<noteq> 0"
    and m1: "table_of Desc (map item (concat (map (\<lambda>row. concat (rw_1 row)) rows))) m1"
    and thr: "tb_threshold bc = tput_threshold (tput_phase_1_find_bottom lim m1) (length rows)"
    and m2: "table_of Desc (map item (concat (map (\<lambda>row. concat (rw_2 row)) rows))) m2"
    and keys: "map (\<lambda>r. fst (item r)) (bc_recs len bc) = map fst m2"
    and m3: "table_of Desc (map item (concat (map (\<lambda>row. concat (rw_3 row)) rows))) m3"
  shows "top_n lim [map item (concat (map rw_recs rows))] (take (unat lim) m3)"
proof -
  let ?ths = "map rw_table rows"
  have f1: "map item (concat (map (\<lambda>row. concat (rw_1 row)) rows)) = concat (map (slave_tput_phase_1 lim) ?ths)"
    by (rule concat_rows_items) (use rows(3) in \<open>simp add: row_ok_def\<close>)
  have f2: "map item (concat (map (\<lambda>row. concat (rw_2 row)) rows)) = concat (map (slave_tput_phase_2 Desc (tb_threshold bc)) ?ths)"
    by (rule concat_rows_items) (use rows(3) in \<open>simp add: row_ok_def\<close>)
  have "mset (map item (concat (map (\<lambda>row. concat (rw_3 row)) rows))) = mset (concat (map (slave_tput_phase_3 (map fst m2)) ?ths))"
    by (rule concat_rows_perm) (use rows(3) bc(1) keys in \<open>simp add: row_ok_def\<close>)
  then have t3: "table_of Desc (concat (map (slave_tput_phase_3 (map fst m2)) ?ths)) m3"
    using m3 table_of_perm by blast
  have len: "length ?ths = length rows" by simp
  show ?thesis
    using tput_tables[OF sample_table_ok rows_input_ok(1)[OF rows] bc(2) m1[unfolded f1] _ t3, unfolded len] m2[unfolded f2 thr]
    unfolding rows_input_ok(2)[OF rows] by blast
qed


subsection \<open>The master's run\<close>

lemma bcast_run:
  assumes mo: "mem_ops_ok mo" "write_law mo holds calls" "table_law mo holds item len"
    and init: "libnf_mem_init_ht L (\<lambda>_. True) (ca_fields args) = Ret calls" and lim: "rec_limit args \<noteq> 0"
    and len: "0 < len" "len \<le> XCHG_BUFF_SIZE"
    and rows: "rows \<noteq> []" "\<forall>row\<in>set rows. row_ok (rec_limit args) bc item len row" "length (concat (map rw_recs rows)) \<le> 2 ^ 40"
    and net: "arrives (map (\<lambda>row. sender_msgs TAG_TPUT1 (rw_1 row)) rows) (msgs TAG_TPUT1)"
      "arrives (map (\<lambda>row. sender_msgs TAG_TPUT2 (rw_2 row)) rows) (msgs TAG_TPUT2)"
  shows "\<exists>m1 mem2. tput_broadcast L mo args \<lparr>rec_buff = junk, slave_threads_cnt = length rows\<rparr> (mo_init mo calls) msgs
      = Some (Ret (bcast_of (tput_threshold (tput_phase_1_find_bottom (rec_limit args) m1) (length rows)) len (mo_raw mo mem2)))
    \<and> table_of Desc (map item (concat (map (\<lambda>row. concat (rw_1 row)) rows))) m1
    \<and> holds mem2 (mset (concat (map (\<lambda>row. concat (rw_2 row)) rows)))
    \<and> table_of Desc (map item (concat (map (\<lambda>row. concat (rw_2 row)) rows))) (map item (mo_raw mo mem2))
    \<and> sized len (mset (mo_raw mo mem2)) \<and> length (mo_raw mo mem2) \<le> 2 ^ 40"
proof -
  let ?m_ctx = "\<lparr>rec_buff = junk, slave_threads_cnt = length rows\<rparr>"
  let ?W1 = "concat (map (\<lambda>row. concat (rw_1 row)) rows)" let ?W2 = "concat (map (\<lambda>row. concat (rw_2 row)) rows)"
  have fl: "\<forall>row\<in>set rows. flight_ok (Some (rw_1 row))" "\<forall>row\<in>set rows. flight_ok (Some (rw_2 row))"
    using rows(2) by (simp_all add: row_ok_def)
  have each: "length (concat (rw_1 row)) \<le> length (rw_recs row)" "length (concat (rw_2 row)) \<le> length (rw_recs row)"
    if row: "row \<in> set rows" for row
  proof -
    have ok: "row_ok (rec_limit args) bc item len row" using rows(2) row by blast
    have "length (rw_table row) \<le> length (rw_recs row)" using ok length_table by (fastforce simp: row_ok_def)
    moreover have "length (sent_items n (rw_table row)) \<le> length (rw_table row)" for n by (simp add: sent_items_def)
    moreover have "length (concat (rw_1 row)) = length (slave_tput_phase_1 (rec_limit args) (rw_table row))"
      "length (concat (rw_2 row)) = length (slave_tput_phase_2 Desc (tb_threshold bc) (rw_table row))"
      using ok unfolding row_ok_def by (metis length_map)+
    ultimately show "length (concat (rw_1 row)) \<le> length (rw_recs row)" "length (concat (rw_2 row)) \<le> length (rw_recs row)"
      unfolding slave_tput_phase_1_def slave_tput_phase_2_def by (metis order_trans)+
  qed
  have W: "length ?W1 \<le> 2 ^ 40" "length ?W2 \<le> 2 ^ 40"
    using rows_length[of rows rw_1] rows_length[of rows rw_2] each rows(3) by (auto intro: order_trans)
  have sz: "sized len (mset ?W1)" "sized len (mset ?W2)" using rows(2) by (fastforce simp: row_ok_def sized_def)+
  have W63: "length ?W1 \<le> 2 ^ 63" "length ?W2 \<le> 2 ^ 63" by (rule order_trans[OF W(1)], simp) (rule order_trans[OF W(2)], simp)
  obtain mem1 where mem1: "recv_memory mo ?m_ctx TAG_TPUT1 (mo_init mo calls) msgs = Some (Ret mem1)" "holds mem1 (mset ?W1)"
    using rows_received[where msgs = msgs and junk = junk, OF mo(1,2) rows(1) net(1) fl(1) W63(1)] by blast
  obtain mem2 where mem2: "recv_memory mo ?m_ctx TAG_TPUT2 (mo_init mo calls) msgs = Some (Ret mem2)" "holds mem2 (mset ?W2)"
    using rows_received[where msgs = msgs and junk = junk, OF mo(1,2) rows(1) net(2) fl(2) W63(2)] by blast
  define m1 where "m1 = map item (mo_raw mo mem1)"
  have t1: "table_of Desc (map item ?W1) m1" "mo_keys mo mem1 = map snd m1"
    using mo(3) mem1(2) sz(1) unfolding table_law_def m1_def by (auto simp: comp_def)
  have t2: "table_of Desc (map item ?W2) (map item (mo_raw mo mem2))" "sized len (mset (mo_raw mo mem2))"
    using mo(3) mem2(2) sz(2) unfolding table_law_def by auto
  have "length (map item (mo_raw mo mem2)) \<le> length (map item ?W2)" by (rule length_table[OF t2(1)])
  then have n: "length (mo_raw mo mem2) \<le> 2 ^ 40" using W(2) by simp
  have ok: "mo_ok mo = (\<lambda>_. True)" using mo(1) by (simp add: mem_ops_ok_def)
  have p1: "master_raw_phase_1 mo args ?m_ctx (mo_init mo calls) msgs = Some (Ret (tput_phase_1_find_bottom (rec_limit args) m1))"
    unfolding master_raw_phase_1_def mem1(1) run_then_Ret t1(2) find_bottom_values using lim by simp
  have p2: "master_raw_phase_2 L mo args ?m_ctx (tput_phase_1_find_bottom (rec_limit args) m1) msgs
      = Some (Ret (tput_threshold (tput_phase_1_find_bottom (rec_limit args) m1) (length rows), mem2))"
    by (simp add: master_raw_phase_2_def ok init mem2(1))
  have "tput_broadcast L mo args ?m_ctx (mo_init mo calls) msgs
      = Some (Ret (bcast_of (tput_threshold (tput_phase_1_find_bottom (rec_limit args) m1) (length rows)) len (mo_raw mo mem2)))"
    unfolding tput_broadcast_def p1 run_then_Ret p2 prod.case tput_records_Ret[OF mo(1) t2(2) len n] ..
  then show ?thesis using t1(1) mem2(2) t2 n by blast
qed

lemma tput_run:
  assumes mo: "mem_ops_ok mo" "write_law mo holds calls" "table_law mo holds item len"
    and init: "libnf_mem_init_ht L (\<lambda>_. True) (ca_fields args) = Ret calls" and lim: "rec_limit args \<noteq> 0"
    and len: "0 < len" "len \<le> XCHG_BUFF_SIZE"
    and rows: "rows \<noteq> []" "length rows < 2 ^ 31" "\<forall>row\<in>set rows. row_ok (rec_limit args) bc item len row"
      "length (concat (map rw_recs rows)) \<le> 2 ^ 40" "\<forall>k. nat_sum (map item (concat (map rw_recs rows))) k < 2 ^ 53"
    and net: "arrives (map (\<lambda>row. sender_msgs TAG_TPUT1 (rw_1 row)) rows) (msgs TAG_TPUT1)"
      "arrives (map (\<lambda>row. sender_msgs TAG_TPUT2 (rw_2 row)) rows) (msgs TAG_TPUT2)"
      "arrives (map (\<lambda>row. sender_msgs TAG_TPUT3 (rw_3 row)) rows) (msgs TAG_TPUT3)"
    and bcast: "\<And>bc'. tput_broadcast L mo args \<lparr>rec_buff = junk, slave_threads_cnt = length rows\<rparr> (mo_init mo calls) msgs
      = Some (Ret bc') \<Longrightarrow> bc' = bc"
  shows "\<exists>mem. master_raw_tput L mo args \<lparr>rec_buff = junk, slave_threads_cnt = length rows\<rparr> (mo_init mo calls) msgs
      = Some (Ret (bc, mem))
    \<and> top_n (rec_limit args) [map item (concat (map rw_recs rows))] (take (unat (rec_limit args)) (map item (mo_raw mo mem)))"
proof -
  let ?m_ctx = "\<lparr>rec_buff = junk, slave_threads_cnt = length rows\<rparr>"
  let ?W3 = "concat (map (\<lambda>row. concat (rw_3 row)) rows)"
  obtain bc' m1 m2 where b: "tput_broadcast L mo args ?m_ctx (mo_init mo calls) msgs = Some (Ret bc')"
    "table_of Desc (map item (concat (map (\<lambda>row. concat (rw_1 row)) rows))) m1"
    "table_of Desc (map item (concat (map (\<lambda>row. concat (rw_2 row)) rows))) m2"
    "tb_threshold bc' = tput_threshold (tput_phase_1_find_bottom (rec_limit args) m1) (length rows)"
    "bc_sized len bc'" "map (\<lambda>r. fst (item r)) (bc_recs len bc') = map fst m2"
  proof -
    obtain m1 rs where r: "tput_broadcast L mo args ?m_ctx (mo_init mo calls) msgs
        = Some (Ret (bcast_of (tput_threshold (tput_phase_1_find_bottom (rec_limit args) m1) (length rows)) len rs))"
      "table_of Desc (map item (concat (map (\<lambda>row. concat (rw_1 row)) rows))) m1"
      "table_of Desc (map item (concat (map (\<lambda>row. concat (rw_2 row)) rows))) (map item rs)"
      "sized len (mset rs)" "length rs \<le> 2 ^ 40"
      using bcast_run[where msgs = msgs and junk = junk and L = L and args = args, OF mo init lim len rows(1,3,4) net(1,2)] by blast
    note bc' = bcast_of_recs[OF r(4) len(2) r(5)]
    have keys: "map (\<lambda>r. fst (item r)) rs = map fst (map item rs)" by simp
    from that[OF r(1-3) bc'(1,2)] show thesis unfolding bc'(3) using keys by blast
  qed
  have eq: "bc' = bc" by (rule bcast[OF b(1)])
  note b = b[unfolded eq]
  have "distinct (map fst m2)" using b(3) by (simp add: table_of_def)
  then have d: "distinct (map (\<lambda>r. fst (item r)) (bc_recs len bc))" by (simp only: b(6))
  have "length (concat (rw_3 row)) \<le> length (rw_recs row)" if row: "row \<in> set rows" for row
  proof -
    have ok: "row_ok (rec_limit args) bc item len row" using rows(3) row by blast
    have "length (rw_table row) \<le> length (rw_recs row)" using ok length_table by (fastforce simp: row_ok_def)
    moreover have "mset (map item (concat (rw_3 row)))
        = mset (slave_tput_phase_3 (map (\<lambda>r. fst (item r)) (bc_recs len bc)) (rw_table row))"
      using ok b(5) unfolding row_ok_def by blast
    from mset_eq_length[OF this] have "length (concat (rw_3 row)) \<le> length (rw_table row)"
      using length_phase_3[OF d] by simp
    ultimately show ?thesis by simp
  qed
  then have "length ?W3 \<le> 2 ^ 40" using rows_length[of rows rw_3] rows(4) by (auto intro: order_trans)
  then have W: "length ?W3 \<le> 2 ^ 63" by (rule order_trans) simp
  have fl: "\<forall>row\<in>set rows. flight_ok (Some (rw_3 row))" using rows(3) by (simp add: row_ok_def)
  obtain mem where mem: "recv_memory mo ?m_ctx TAG_TPUT3 (mo_init mo calls) msgs = Some (Ret mem)" "holds mem (mset ?W3)"
    using rows_received[where msgs = msgs and junk = junk, OF mo(1,2) rows(1) net(3) fl W] by blast
  have sz: "sized len (mset ?W3)" using rows(3) b(5) by (fastforce simp: row_ok_def sized_def)
  have t3: "table_of Desc (map item ?W3) (map item (mo_raw mo mem))" using mo(3) mem(2) sz unfolding table_law_def by auto
  have ok: "mo_ok mo = (\<lambda>_. True)" using mo(1) by (simp add: mem_ops_ok_def)
  have "master_raw_tput L mo args ?m_ctx (mo_init mo calls) msgs = Some (Ret (bc, mem))"
    unfolding master_raw_tput_bcast[OF b(1)] by (simp add: ok init mem(1))
  then show ?thesis using tput_rows[OF rows b(5) lim b(2,4,3,6) t3] by blast
qed

subsection \<open>All processes\<close>

definition by_tag :: "message list list \<Rightarrow> arrivals \<Rightarrow> bool" where
  "by_tag outs msgs \<longleftrightarrow> (\<forall>tag. arrives (map (with_tag tag) outs) (msgs tag))"

lemma tput_sites_rows:
  assumes q: "tput_query_ok L args calls list_calls"
    and sites: "list_all2 (\<lambda>s sr. site_safe L args addrs s \<and> site_main L args s = Some (Ret sr)) sites srs"
    and env: "\<forall>s\<in>set sites. tput_env_ok holds found_holds enc item len calls list_calls (st_env s)"
    and bcast: "\<forall>s\<in>set sites. se_bcast (st_env s) = bc"
    and recs: "\<forall>r. length (enc r) = len" "len + 4 \<le> XCHG_BUFF_SIZE" "length (stored_records enc args sites) \<le> 2 ^ 40"
  shows "\<exists>rows. concat (map site_messages srs) = map row_msgs rows \<and> length rows = total_threads srs
    \<and> (\<forall>row\<in>set rows. row_ok (rec_limit args) bc item len row)
    \<and> mset (concat (map rw_recs rows)) = mset (stored_records enc args sites)"
proof -
  let ?S = "tput_sent (rec_limit args) bc item len"
  have each: "\<forall>s\<in>set sites. thread_sends L args ?S enc (st_env s)"
  proof
    fix s assume s: "s \<in> set sites"
    have "slave_ok L (st_env s) args" using sites s by (auto simp: list_all2_conv_all_nth in_set_conv_nth site_ok_def)
    moreover have "tput_env_ok holds found_holds enc item len calls list_calls (st_env s)" "se_bcast (st_env s) = bc"
      using env bcast s by blast+
    ultimately show "thread_sends L args ?S enc (st_env s)"
      using thread_sends_tput[of L "st_env s" args calls list_calls holds found_holds enc item len] q recs(1,2) by blast
  qed
  have "length (stored_records enc args sites) \<le> 2 ^ 63" by (rule order_trans[OF recs(3)]) simp
  from sites_send[OF tput_sent_joins sites each this]
  have sent: "?S (mset (stored_records enc args sites)) (concat (map site_messages srs))"
    "length (concat (map site_messages srs)) = total_threads srs" by simp_all
  obtain rows where rows: "concat (map site_messages srs) = map row_msgs rows"
    "\<forall>row\<in>set rows. row_ok (rec_limit args) bc item len row" "mset (concat (map rw_recs rows)) = mset (stored_records enc args sites)"
    using sent(1) unfolding tput_sent_def by blast
  then show ?thesis using sent(2) by (intro exI[of _ rows]) simp
qed

lemma rows_by_tag:
  assumes "by_tag (map row_msgs rows) msgs"
  shows "arrives (map (\<lambda>row. sender_msgs TAG_TPUT1 (rw_1 row)) rows) (msgs TAG_TPUT1)"
    "arrives (map (\<lambda>row. sender_msgs TAG_TPUT2 (rw_2 row)) rows) (msgs TAG_TPUT2)"
    "arrives (map (\<lambda>row. sender_msgs TAG_TPUT3 (rw_3 row)) rows) (msgs TAG_TPUT3)"
proof -
  have a: "arrives (map (with_tag tag) (map row_msgs rows)) (msgs tag)" for tag
    using assms unfolding by_tag_def by blast
  show "arrives (map (\<lambda>row. sender_msgs TAG_TPUT1 (rw_1 row)) rows) (msgs TAG_TPUT1)"
    "arrives (map (\<lambda>row. sender_msgs TAG_TPUT2 (rw_2 row)) rows) (msgs TAG_TPUT2)"
    "arrives (map (\<lambda>row. sender_msgs TAG_TPUT3 (rw_3 row)) rows) (msgs TAG_TPUT3)"
    using a[of TAG_TPUT1] a[of TAG_TPUT2] a[of TAG_TPUT3] unfolding map_map comp_def with_tag_row by blast+
qed

lemma tput_query_Ret:
  assumes q: "tput_query_ok L args calls list_calls" and lim: "rec_limit args \<noteq> 0"
    and sites: "list_all2 (\<lambda>s sr. site_safe L args addrs s \<and> site_main L args s = Some (Ret sr)) sites srs"
    and env: "\<forall>s\<in>set sites. tput_env_ok holds found_holds enc item len calls list_calls (st_env s)"
    and bcast: "\<forall>s\<in>set sites. se_bcast (st_env s) = bc"
      "\<And>bc'. tput_broadcast L (me_lnf_mem M) args \<lparr>rec_buff = junk, slave_threads_cnt = total_threads srs\<rparr>
          (mo_init (me_lnf_mem M) calls) msgs = Some (Ret bc') \<Longrightarrow> bc' = bc"
    and M: "me_malloc M" "me_output_init M out = Ret out1" "mem_ops_ok (me_lnf_mem M)"
      "write_law (me_lnf_mem M) holds calls" "table_law (me_lnf_mem M) holds item len"
    and net: "by_tag (concat (map site_messages srs)) msgs" and thr: "0 < total_threads srs" "total_threads srs < 2 ^ 31"
    and recs: "\<forall>r. length (enc r) = len" "0 < len" "len + 4 \<le> XCHG_BUFF_SIZE" "length (stored_records enc args sites) \<le> 2 ^ 40"
    and tot: "\<forall>k. nat_sum (map item (stored_records enc args sites)) k < 2 ^ 53"
  shows "\<exists>mem. master_main_thread L M args junk (total_threads srs) msgs out
      = Some (Ret (me_print_batch M mem (rec_limit args) out1))
    \<and> top_n (rec_limit args) [map item (stored_records enc args sites)]
        (take (unat (rec_limit args)) (map item (mo_raw (me_lnf_mem M) mem)))"
proof -
  let ?all = "stored_records enc args sites"
  obtain rows where rows: "concat (map site_messages srs) = map row_msgs rows" "length rows = total_threads srs"
    "\<forall>row\<in>set rows. row_ok (rec_limit args) bc item len row" "mset (concat (map rw_recs rows)) = mset ?all"
    using tput_sites_rows[OF q sites env bcast(1) recs(1,3,4)] by blast
  note n = rows(2)
  have ne: "rows \<noteq> []" using n thr(1) by auto
  have small: "length (concat (map rw_recs rows)) \<le> 2 ^ 40" using mset_eq_length[OF rows(4)] recs(4) by simp
  have perm: "mset (map item (concat (map rw_recs rows))) = mset (map item ?all)" using rows(4) by (metis mset_map)
  have sum: "\<forall>k. nat_sum (map item (concat (map rw_recs rows))) k < 2 ^ 53" using tot nat_sum_perm[OF perm] by metis
  note net' = rows_by_tag[OF net[unfolded rows(1)]]
  have md: "working_mode args = MODE_AGGR" "use_tput args" "libnf_mem_init_ht L (\<lambda>_. True) (ca_fields args) = Ret calls"
    using q by (simp_all add: tput_query_ok_def)
  have len: "len \<le> XCHG_BUFF_SIZE" using recs(3) by simp
  have n31: "length rows < 2 ^ 31" using n thr(2) by simp
  obtain mem where mem: "master_raw_tput L (me_lnf_mem M) args \<lparr>rec_buff = junk, slave_threads_cnt = total_threads srs\<rparr>
      (mo_init (me_lnf_mem M) calls) msgs = Some (Ret (bc, mem))"
    "top_n (rec_limit args) [map item (concat (map rw_recs rows))] (take (unat (rec_limit args)) (map item (mo_raw (me_lnf_mem M) mem)))"
    using tput_run[where msgs = msgs and junk = junk and L = L and args = args,
        OF M(3-5) md(3) lim recs(2) len ne n31 rows(3) small sum net'] bcast(2) unfolding n by blast
  have "total [map item (concat (map rw_recs rows))] = total [map item ?all]"
    by (rule ext) (simp add: total_def nat_sum_perm[OF perm])
  moreover have "all_keys [map item (concat (map rw_recs rows))] = all_keys [map item ?all]"
    using mset_eq_setD[OF perm] unfolding all_keys_def concat.simps append_Nil2 set_map[of fst] by (rule arg_cong)
  ultimately have top: "top_n (rec_limit args) [map item ?all] (take (unat (rec_limit args)) (map item (mo_raw (me_lnf_mem M) mem)))"
    using mem(2) top_n_cong by blast
  have ok: "mo_ok (me_lnf_mem M) = (\<lambda>_. True)" using M(3) by (simp add: mem_ops_ok_def)
  have "master_main_thread L M args junk (total_threads srs) msgs out = Some (Ret (me_print_batch M mem (rec_limit args) out1))"
    using mem(1) md M(1,2) thr(1)
    by (simp add: master_main_thread_def master_ctx_init_def aggr_main_raw_def ok Let_def)
  then show ?thesis using top by blast
qed

text \<open>C6: an aggregation query with TPUT in descending order (C35 shows that it is wrong in ascending order) is
  answered exactly, from the flow files to the memory the
  master prints: when every process has received what the master broadcast, the first records of
  that memory are the true Top-N of all the records of the query, N different keys (all, when there
  are fewer) with their exact totals, in descending order, and no key left out has a larger total;
  for every number of slave processes and threads within the condition on the index below, every distribution of the files and
  order in which the messages of a phase arrive.  The totals have to be below \<open>2 ^ 53\<close>, the records
  at most \<open>2 ^ 40\<close>, the threads fewer than \<open>2 ^ 31\<close>.  The query must not lose
  files to the index (\<open>index_safe\<close>): this is so without a filter or with \<open>--no-bfindex\<close>; with the
  index, which is the default, the addresses of the filter times the threads of a process must be
  at most 20, every \<open>or\<close> of the filter must have two indexable sides or none, and an index file must
  hold all addresses of its flow file.  Beyond that the program drops matching records (C34).  The
  processes find their paths and do not fail (C11 says when).\<close>

theorem tput_query_exact:
  assumes q: "tput_query_ok L args calls list_calls" and lim: "rec_limit args \<noteq> 0"
    and sites: "list_all2 (\<lambda>s sr. (site_ok L args s \<and> index_safe (st_env s) addrs args (length (st_team s))) \<and> site_main L args s = Some (Ret sr)) sites srs"
    and env: "\<forall>s\<in>set sites. tput_env_ok holds found_holds enc item len calls list_calls (st_env s)"
    and bcast: "\<forall>s\<in>set sites. se_bcast (st_env s) = bc"
      "\<And>bc'. tput_broadcast L (me_lnf_mem M) args \<lparr>rec_buff = junk, slave_threads_cnt = total_threads srs\<rparr>
          (mo_init (me_lnf_mem M) calls) msgs = Some (Ret bc') \<Longrightarrow> bc' = bc"
    and M: "me_malloc M" "me_output_init M out = Ret out1" "mem_ops_ok (me_lnf_mem M)"
      "write_law (me_lnf_mem M) holds calls" "table_law (me_lnf_mem M) holds item len"
    and net: "by_tag (concat (map site_messages srs)) msgs" and thr: "0 < total_threads srs" "total_threads srs < 2 ^ 31"
    and recs: "\<forall>r. length (enc r) = len" "0 < len" "len + 4 \<le> XCHG_BUFF_SIZE" "length (stored_records enc args sites) \<le> 2 ^ 40"
    and tot: "\<forall>k. nat_sum (map item (stored_records enc args sites)) k < 2 ^ 53"
  shows "\<exists>mem. master_main_thread L M args junk (total_threads srs) msgs out
      = Some (Ret (me_print_batch M mem (rec_limit args) out1))
    \<and> top_n (rec_limit args) [map item (stored_records enc args sites)]
        (take (unat (rec_limit args)) (map item (mo_raw (me_lnf_mem M) mem)))"
  by (rule tput_query_Ret[where msgs = msgs and M = M and addrs = addrs and sites = sites,
      OF q lim sites env bcast M net thr recs tot])

subsection \<open>Instance\<close>

text \<open>
  A record is a key and the 64 bits of a value, one byte each.  A memory is its kind (in the first
  place) and the records written; the hash table shows the table of their items.
\<close>

definition pair_item :: "byte list \<Rightarrow> byte item" where
  "pair_item r = (hd r, horner_sum of_bool 2 (map (\<lambda>b. b \<noteq> 0) (tl r)))"

definition pair_rec :: "byte item \<Rightarrow> byte list" where
  "pair_rec p = fst p # map (\<lambda>i. if bit (snd p) i then 1 else 0) [0..<64]"

definition pair_raw :: "byte list list \<Rightarrow> byte list list" where
  "pair_raw m =
     (if \<not> mem_fits (tl m) then []
      else if hd m = [] then map pair_rec (sample_table Desc (map pair_item (tl m)))
      else tl m)"

definition key_position :: "'k \<Rightarrow> 'k list \<Rightarrow> nat option" where
  "key_position k ks = (let n = length (takeWhile (\<lambda>x. x \<noteq> k) ks) in if n < length ks then Some n else None)"

definition pair_ops :: "byte list list mem_ops" where
  "pair_ops = one_mem_ops\<lparr>mo_init := (\<lambda>cs. [if Mem_Setopt_List \<in> set cs then [0] else []]),
     mo_write_raw := (\<lambda>m r. Some (hd m # r # tl m)), mo_raw := pair_raw,
     mo_keys := (\<lambda>m. map (\<lambda>r. snd (pair_item r)) (pair_raw m)),
     mo_lookup := (\<lambda>m r. key_position (fst (pair_item r)) (map (\<lambda>r. fst (pair_item r)) (pair_raw m))),
     mo_max_raw_len := XCHG_BUFF_SIZE - 4\<rparr>"

definition table_holds :: "byte list list \<Rightarrow> byte list multiset \<Rightarrow> bool" where
  "table_holds m W \<longleftrightarrow> hd m = [] \<and> mset (tl m) = W \<and> mem_fits (tl m)"

definition found_holds :: "byte list list \<Rightarrow> byte list multiset \<Rightarrow> bool" where
  "found_holds m W \<longleftrightarrow> hd m \<noteq> [] \<and> mset (tl m) = W \<and> mem_fits (tl m)"

text \<open>All records of the file have the key 7.\<close>

definition pair_enc :: "byte \<Rightarrow> byte list" where
  "pair_enc r = pair_rec (7, ucast r)"

definition pair_bcast :: tput_bcast where
  "pair_bcast = bcast_of 6 65 [pair_rec (7, 6)]"

definition pair_env :: "(byte, byte list list) slave_env" where
  "pair_env = one_file_env\<lparr>se_lnf_mem := pair_ops, se_mem_write := (\<lambda>r m. mo_write_raw pair_ops m (pair_enc r)),
     se_bcast := pair_bcast\<rparr>"

definition pair_args :: cmdline_args where
  "pair_args = (mem_args MODE_AGGR)\<lparr>use_tput := True\<rparr>"

lemma pair_item_rec [simp]: "pair_item (pair_rec p) = p"
proof -
  have "map (\<lambda>b. b \<noteq> (0 :: byte)) (map (\<lambda>i. if bit (snd p) i then 1 else 0) [0..<64]) = map (bit (snd p)) [0..<64]" by simp
  moreover have "horner_sum of_bool 2 (map (bit (snd p)) [0..<64]) = snd p"
    unfolding horner_sum_bit_eq_take_bit by (rule take_bit_word_eq_self) simp
  ultimately have "horner_sum of_bool 2 (map (\<lambda>b. b \<noteq> (0 :: byte)) (map (\<lambda>i. if bit (snd p) i then 1 else 0) [0..<64])) = snd p"
    by (simp only:)
  then show ?thesis unfolding pair_item_def pair_rec_def list.sel by simp
qed

lemma length_pair_rec [simp]: "length (pair_rec p) = 65"
  by (simp add: pair_rec_def)

lemma key_position_eq:
  "case key_position k ks of None \<Rightarrow> k \<notin> set ks | Some c \<Rightarrow> c < length ks \<and> ks ! c = k"
proof (cases "length (takeWhile (\<lambda>x. x \<noteq> k) ks) < length ks")
  case True
  then show ?thesis using nth_length_takeWhile[of "\<lambda>x. x \<noteq> k" ks] by (simp add: key_position_def Let_def)
next
  case False
  then have "takeWhile (\<lambda>x. x \<noteq> k) ks = ks" by (metis length_takeWhile_le le_neq_implies_less takeWhile_dropWhile_id append_eq_conv_conj takeWhile_eq_take take_all not_less)
  then have "\<forall>x\<in>set ks. x \<noteq> k" by (simp add: takeWhile_eq_all_conv)
  then show ?thesis using False by (auto simp: key_position_def Let_def)
qed

lemma sample_table_length: "length (sample_table Desc xs) \<le> length xs"
  using sample_table_ok length_table unfolding table_ok_def by blast

lemma pair_raw_len: "length (pair_raw m) \<le> 2 ^ 63" "r \<in> set (pair_raw m) \<Longrightarrow> length r + 4 \<le> XCHG_BUFF_SIZE"
proof -
  show "length (pair_raw m) \<le> 2 ^ 63"
    using sample_table_length[of "map pair_item (tl m)"] by (auto simp: pair_raw_def mem_fits_def)
  show "r \<in> set (pair_raw m) \<Longrightarrow> length r + 4 \<le> XCHG_BUFF_SIZE"
    by (auto simp: pair_raw_def mem_fits_def XCHG_BUFF_SIZE_def split: if_splits)
qed

lemma pair_lookup:
  "case mo_lookup pair_ops m r of
     None \<Rightarrow> fst (pair_item r) \<notin> set (map (\<lambda>r. fst (pair_item r)) (pair_raw m))
   | Some c \<Rightarrow> c < length (pair_raw m) \<and> fst (pair_item (pair_raw m ! c)) = fst (pair_item r)"
  using key_position_eq[of "fst (pair_item r)" "map (\<lambda>r. fst (pair_item r)) (pair_raw m)"]
  by (auto simp: pair_ops_def split: option.splits)

lemma pair_raw_ops: "mo_raw pair_ops = pair_raw"
  by (simp add: pair_ops_def)

lemma pair_ops_ok: "mem_ops_ok pair_ops"
proof -
  have "c < length (pair_raw m)" if "mo_lookup pair_ops m r = Some c" for m r c
    using pair_lookup[where m = m and r = r] that by simp
  moreover have "send_params_ok (XCHG_BUFF_SIZE - 4) XCHG_BUFF_SIZE (pair_raw m)" for m
  proof -
    have "length (pair_raw m) < 2 ^ 64 - 1" using pair_raw_len(1)[of m] by (rule le_less_trans) simp
    moreover have "length r \<le> XCHG_BUFF_SIZE - 4" if "r \<in> set (pair_raw m)" for r using pair_raw_len(2)[OF that] by simp
    ultimately show ?thesis by (simp add: send_params_ok_def XCHG_BUFF_SIZE_def)
  qed
  ultimately show ?thesis
    unfolding mem_ops_ok_def by (simp add: pair_ops_def one_mem_ops_def sample_read_ok)
qed

lemma pair_laws:
  assumes "Mem_Setopt_List \<notin> set calls" "Mem_Setopt_List \<in> set list_calls"
  shows "write_law pair_ops table_holds calls" "write_law pair_ops found_holds list_calls"
    "table_law pair_ops table_holds pair_item 65" "found_law pair_ops found_holds" "store_law pair_env table_holds pair_enc"
proof -
  have fits: "mem_fits (r # tl m)" if "mem_fits (tl m)" "mset (tl m) = W" "size W < 2 ^ 63" "length r + 4 \<le> XCHG_BUFF_SIZE" for r m W
    using that by (intro mem_fits_Cons) auto
  show "write_law pair_ops table_holds calls" "write_law pair_ops found_holds list_calls"
    using assms fits by (auto simp: write_law_def pair_ops_def table_holds_def found_holds_def mem_fits_def)
  show "found_law pair_ops found_holds" by (simp add: found_law_def found_holds_def pair_ops_def pair_raw_def)
  show "store_law pair_env table_holds pair_enc"
    using fits by (auto simp: store_law_def pair_env_def pair_ops_def table_holds_def pair_enc_def XCHG_BUFF_SIZE_def)
  show "table_law pair_ops table_holds pair_item 65"
    unfolding table_law_def
  proof (intro allI impI conjI)
    fix m W assume m: "table_holds m W" "sized 65 W"
    have raw: "mo_raw pair_ops m = map pair_rec (sample_table Desc (map pair_item (tl m)))"
      using m(1) by (simp add: pair_ops_def pair_raw_def table_holds_def)
    then have items: "map pair_item (mo_raw pair_ops m) = sample_table Desc (map pair_item (tl m))" by (simp add: comp_def)
    show "table_of Desc (map pair_item xs) (map pair_item (mo_raw pair_ops m))" if xs: "mset xs = W" for xs
    proof -
      have "mset (map pair_item xs) = mset (map pair_item (tl m))" using xs m(1) by (simp add: table_holds_def)
      from table_of_perm[OF this] show ?thesis using sample_table_ok[of Desc] unfolding items table_ok_def by blast
    qed
    show "mo_keys pair_ops m = map (\<lambda>r. snd (pair_item r)) (mo_raw pair_ops m)" by (simp add: pair_ops_def)
    show "sized 65 (mset (mo_raw pair_ops m))" unfolding raw by (auto simp: sized_def)
    show "case mo_lookup pair_ops m r of
        None \<Rightarrow> fst (pair_item r) \<notin> set (map (\<lambda>r. fst (pair_item r)) (mo_raw pair_ops m))
      | Some c \<Rightarrow> c < length (mo_raw pair_ops m) \<and> fst (pair_item (mo_raw pair_ops m ! c)) = fst (pair_item r)" for r
      unfolding pair_raw_ops by (rule pair_lookup)
  qed
qed


text \<open>Three records of one key: the table is their sum.\<close>

lemma single_table:
  assumes "table_of dir xs t" "set (map fst xs) = {k}"
  shows "t = [(k, val_sum xs k)]"
proof -
  have t: "distinct (map fst t)" "set (map fst t) = {k}" "\<forall>p\<in>set t. snd p = val_sum xs (fst p)"
    using assms by (simp_all add: table_of_def)
  have "length t = 1" using distinct_card[OF t(1)] unfolding t(2) by simp
  then obtain p where p: "t = [p]" by (auto simp: length_Suc_conv)
  then show ?thesis using t(2,3) by (simp add: prod_eq_iff)
qed

lemma pair_threshold: "tput_threshold 6 1 = 6"
  by (simp add: tput_threshold_def ceil_quotient_def double_of_exact double_div_def up_exp.simps rne_def frac_ceil_def Let_def)

lemma pair_site:
  "slave_env_ok pair_env" "se_rec_fget pair_env = se_rec_fget one_file_env"
  "stored_records pair_enc pair_args [one_site\<lparr>st_env := pair_env\<rparr>] = map pair_enc [1, 2, 3]"
proof -
  have one: "slave_env_ok one_file_env" using one_file_slave_ok by (simp add: slave_ok_def)
  have b: "bcast_ok pair_bcast" by (simp add: bcast_ok_def pair_bcast_def bcast_of_def)
  show e: "slave_env_ok pair_env" using one pair_ops_ok b by (simp add: slave_env_ok_def pair_env_def) (simp add: pair_ops_def)
  show f: "se_rec_fget pair_env = se_rec_fget one_file_env" by (simp add: pair_env_def)
  have "site_paths pair_args (one_site\<lparr>st_env := pair_env\<rparr>) = [''f'']" by (rule env_args_ok(2)[OF e f _ pair_args_def]) simp
  then show "stored_records pair_enc pair_args [one_site\<lparr>st_env := pair_env\<rparr>] = map pair_enc [1, 2, 3]"
    by (simp add: stored_records_def)
      (simp add: stored_def matching_def thread_cfg_def pair_env_def one_file_env_def query_filter_def
        pair_args_def mem_args_def one_file_args_def zero_args_def)
qed

lemma pair_row:
  assumes "row_ok 2 pair_bcast pair_item 65 row" "mset (rw_recs row) = mset (map pair_enc [1, 2, 3])"
  shows "map pair_item (concat (rw_1 row)) = [(7, 6)]" "map pair_item (concat (rw_2 row)) = [(7, 6)]"
proof -
  have "mset (map pair_item (rw_recs row)) = mset (map pair_item (map pair_enc [1, 2, 3]))"
    using assms(2) by (simp only: mset_map)
  then have "table_of Desc (map pair_item (map pair_enc [1, 2, 3])) (rw_table row)"
    using assms(1) table_of_perm unfolding row_ok_def by blast
  then have "table_of Desc [(7, 1), (7, 2), (7, 3)] (rw_table row)" by (simp add: pair_enc_def)
  from single_table[OF this] have t: "rw_table row = [(7, 6)]" by (simp add: val_sum_def)
  show "map pair_item (concat (rw_1 row)) = [(7, 6)]" "map pair_item (concat (rw_2 row)) = [(7, 6)]"
    using assms(1) t
    by (simp_all add: row_ok_def slave_tput_phase_1_def slave_tput_phase_2_def sent_items_def pair_bcast_def bcast_of_def
        tput_phase_2_find_threshold_cnt_def)
qed

lemma pair_sum: "nat_sum (map pair_item (map pair_enc [1, 2, 3])) k < 2 ^ 53"
  by (simp add: nat_sum_def pair_enc_def)

lemma top_n_single:
  assumes "top_n lim [xs] res" "set (map fst xs) = {k}" "lim \<noteq> 0" "nat_sum xs k < 2 ^ 64"
  shows "res = [(k, of_nat (nat_sum xs k))]"
proof -
  have k: "all_keys [xs] = {k}" using assms(2) by (simp add: all_keys_def)
  have "0 < unat lim" using assms(3) by (simp add: unat_gt_0)
  then have "length res = 1" using assms(1) by (simp add: top_n_def k)
  then obtain p where p: "res = [p]" by (auto simp: length_Suc_conv)
  have f: "fst p = k" "unat (snd p) = nat_sum xs k" using assms(1) by (auto simp: top_n_def k p total_def)
  have "snd p = of_nat (nat_sum xs k)" unfolding f(2)[symmetric] by simp
  then show ?thesis using f(1) by (simp add: p prod_eq_iff)
qed

lemma pair_run:
  assumes calls: "libnf_mem_init_ht sample_libnf (\<lambda>_. True) (ca_fields pair_args) = Ret calls" "Mem_Setopt_List \<notin> set calls"
    and row: "row_ok 2 pair_bcast pair_item 65 row" "mset (rw_recs row) = mset (map pair_enc [1, 2, 3])"
    and msgs: "by_tag [row_msgs row] msgs"
  shows "tput_broadcast sample_libnf pair_ops pair_args \<lparr>rec_buff = sample_bufs, slave_threads_cnt = 1\<rparr> (mo_init pair_ops calls) msgs
    = Some (Ret pair_bcast)"
proof -
  have lim: "rec_limit pair_args = 2" by (simp add: pair_args_def mem_args_def one_file_args_def)
  have laws: "write_law pair_ops table_holds calls" "table_law pair_ops table_holds pair_item 65"
    using pair_laws[of calls "[Mem_Setopt_List]"] calls(2) by simp_all
  have r: "\<forall>r\<in>set [row]. row_ok (rec_limit pair_args) pair_bcast pair_item 65 r" "length (concat (map rw_recs [row])) \<le> 2 ^ 40"
    "rec_limit pair_args \<noteq> 0"
    using row(1) mset_eq_length[OF row(2)] by (simp_all add: lim)
  have "by_tag (map row_msgs [row]) msgs" using msgs by simp
  note net = rows_by_tag[OF this]
  have len: "0 < (65 :: nat)" "65 \<le> XCHG_BUFF_SIZE" by (simp_all add: XCHG_BUFF_SIZE_def)
  obtain m1 mem2 where b: "tput_broadcast sample_libnf pair_ops pair_args \<lparr>rec_buff = sample_bufs, slave_threads_cnt = length [row]\<rparr>
      (mo_init pair_ops calls) msgs
      = Some (Ret (bcast_of (tput_threshold (tput_phase_1_find_bottom 2 m1) (length [row])) 65 (mo_raw pair_ops mem2)))"
    "table_of Desc (map pair_item (concat (map (\<lambda>row. concat (rw_1 row)) [row]))) m1"
    "table_holds mem2 (mset (concat (map (\<lambda>row. concat (rw_2 row)) [row])))"
    "table_of Desc (map pair_item (concat (map (\<lambda>row. concat (rw_2 row)) [row]))) (map pair_item (mo_raw pair_ops mem2))"
    using bcast_run[where msgs = msgs and junk = sample_bufs and rows = "[row]" and bc = pair_bcast,
        OF pair_ops_ok laws calls(1) r(3) len _ r(1,2) net(1,2)] unfolding lim by blast
  have "table_of Desc [(7, 6)] m1" using b(2) pair_row(1)[OF row] by simp
  from single_table[OF this] have m1: "m1 = [(7, 6)]" by (simp add: val_sum_def)
  have "table_of Desc [(7, 6)] (map pair_item (mo_raw pair_ops mem2))" using b(4) pair_row(2)[OF row] by simp
  from single_table[OF this] have m2: "map pair_item (mo_raw pair_ops mem2) = [(7, 6)]" by (simp add: val_sum_def)
  have "mo_raw pair_ops mem2 = map pair_rec (sample_table Desc (map pair_item (tl mem2)))"
    using b(3) by (simp add: pair_raw_ops pair_raw_def table_holds_def)
  then have "mo_raw pair_ops mem2 = map pair_rec (map pair_item (mo_raw pair_ops mem2))" by (simp add: comp_def)
  then have "mo_raw pair_ops mem2 = [pair_rec (7, 6)]" unfolding m2 by simp
  moreover have "tput_phase_1_find_bottom 2 [(7 :: byte, 6)] = 6" by (simp add: tput_phase_1_find_bottom_def)
  ultimately show ?thesis using b(1) by (simp add: m1 pair_threshold[unfolded One_nat_def] pair_bcast_def)
qed


lemma pair_args_parts:
  "ca_fields pair_args = sample_key_fields" "working_mode pair_args = MODE_AGGR" "use_tput pair_args" "rec_limit pair_args = 2"
  by (simp_all add: pair_args_def mem_args_def one_file_args_def)

lemma pair_calls:
  "\<exists>calls list_calls. tput_query_ok sample_libnf pair_args calls list_calls
    \<and> Mem_Setopt_List \<notin> set calls \<and> Mem_Setopt_List \<in> set list_calls"
proof -
  have "libnf_mem_init_ht sample_libnf (\<lambda>_. True) sample_key_fields = Ret [Mem_Init, Mem_Fadd 16 40 24 64, Mem_Fastaggr]"
    by code_simp
  moreover have "libnf_mem_init_list sample_libnf (\<lambda>_. True) sample_key_fields = Ret [Mem_Init, Mem_Setopt_List,
      Mem_Fadd 16 32 32 128, Mem_Fadd 1 0 0 0, Mem_Fadd 2 0 0 0, Mem_Fadd 4 0 0 0, Mem_Fadd 5 0 0 0, Mem_Fadd 8 0 0 0]"
    by code_simp
  moreover have "sk_direction (fields.sort_key sample_key_fields) = lnf sample_libnf LNF_SORT_DESC"
    by (simp add: sample_key_fields_def sample_libnf_def)
  ultimately show ?thesis by (auto simp: tput_query_ok_def pair_args_parts)
qed

lemma pair_process:
  assumes "tput_query_ok sample_libnf pair_args calls list_calls"
    and "Mem_Setopt_List \<notin> set calls" "Mem_Setopt_List \<in> set list_calls"
  shows "\<exists>sr row. list_all2 (\<lambda>s sr. site_safe sample_libnf pair_args (\<lambda>r. {}) s \<and> site_main sample_libnf pair_args s = Some (Ret sr))
      [one_site\<lparr>st_env := pair_env\<rparr>] [sr]
    \<and> concat (map site_messages [sr]) = [row_msgs row] \<and> total_threads [sr] = 1
    \<and> row_ok 2 pair_bcast pair_item 65 row \<and> mset (rw_recs row) = mset (map pair_enc [1, 2, 3])"
proof -
  let ?s = "one_site\<lparr>st_env := pair_env\<rparr>"
  obtain sr out where run: "list_all2 (\<lambda>s sr. site_safe sample_libnf pair_args (\<lambda>r. {}) s
      \<and> site_main sample_libnf pair_args s = Some (Ret sr)) [?s] [sr]"
    "concat (map site_messages [sr]) = [out]" "total_threads [sr] = 1"
    using env_site_run[OF pair_site(1,2) _ pair_args_def] by blast
  have env: "\<forall>s\<in>set [?s]. tput_env_ok table_holds found_holds pair_enc pair_item 65 calls list_calls (st_env s)"
    "\<forall>s\<in>set [?s]. se_bcast (st_env s) = pair_bcast"
    using pair_laws[OF assms(2,3)] by (simp_all add: tput_env_ok_def) (simp_all add: pair_env_def)
  have recs: "\<forall>r. length (pair_enc r) = 65" "65 + 4 \<le> XCHG_BUFF_SIZE" "length (stored_records pair_enc pair_args [?s]) \<le> 2 ^ 40"
    by (simp_all add: pair_enc_def XCHG_BUFF_SIZE_def pair_site(3))
  obtain rows where rows: "[out] = map row_msgs rows" "\<forall>row\<in>set rows. row_ok 2 pair_bcast pair_item 65 row"
    "mset (concat (map rw_recs rows)) = mset (map pair_enc [1, 2, 3])"
    using tput_sites_rows[OF assms(1) run(1) env recs] unfolding run(2) pair_site(3) pair_args_parts(4)
    by (elim exE conjE) (rule that)
  obtain row where r: "rows = [row]" using rows(1) by (cases rows) auto
  have "concat (map site_messages [sr]) = [row_msgs row]" using run(2) rows(1) by (simp add: r)
  moreover have "row_ok 2 pair_bcast pair_item 65 row" "mset (rw_recs row) = mset (map pair_enc [1, 2, 3])"
    using rows(2,3) by (simp_all add: r)
  ultimately show ?thesis using run(1,3) by blast
qed

theorem tput_query_exact_witness:
  "\<exists>sr msgs mem. site_main sample_libnf pair_args (one_site\<lparr>st_env := pair_env\<rparr>) = Some (Ret sr)
    \<and> by_tag (concat (map site_messages [sr])) msgs
    \<and> master_main_thread sample_libnf (mem_master pair_ops) pair_args sample_bufs (total_threads [sr]) msgs []
        = Some (Ret (me_print_batch (mem_master pair_ops) mem 2 []))
    \<and> take 2 (map pair_item (mo_raw pair_ops mem)) = [(7, 6)]"
proof -
  let ?s = "one_site\<lparr>st_env := pair_env\<rparr>" let ?mo = "me_lnf_mem (mem_master pair_ops)"
  obtain calls list_calls where c: "tput_query_ok sample_libnf pair_args calls list_calls"
    "Mem_Setopt_List \<notin> set calls" "Mem_Setopt_List \<in> set list_calls" using pair_calls by blast
  obtain sr row where run: "list_all2 (\<lambda>s sr. site_safe sample_libnf pair_args (\<lambda>r. {}) s
      \<and> site_main sample_libnf pair_args s = Some (Ret sr)) [?s] [sr]"
    "concat (map site_messages [sr]) = [row_msgs row]" "total_threads [sr] = 1"
    "row_ok 2 pair_bcast pair_item 65 row" "mset (rw_recs row) = mset (map pair_enc [1, 2, 3])"
    using pair_process[OF c] by blast
  note m = mem_master_parts[of pair_ops] and laws = pair_laws[OF c(2,3)]
  have env: "\<forall>s\<in>set [?s]. tput_env_ok table_holds found_holds pair_enc pair_item 65 calls list_calls (st_env s)"
    "\<forall>s\<in>set [?s]. se_bcast (st_env s) = pair_bcast"
    using laws by (simp_all add: tput_env_ok_def) (simp_all add: pair_env_def)
  define msgs where "msgs = (\<lambda>tag. with_tag tag (row_msgs row))"
  have net: "by_tag (concat (map site_messages [sr])) msgs" unfolding run(2) by (simp add: by_tag_def msgs_def arrives_one)
  have ht: "libnf_mem_init_ht sample_libnf (\<lambda>_. True) (ca_fields pair_args) = Ret calls" using c(1) by (simp add: tput_query_ok_def)
  have agree: "bc' = pair_bcast" if "tput_broadcast sample_libnf ?mo pair_args
      \<lparr>rec_buff = sample_bufs, slave_threads_cnt = total_threads [sr]\<rparr> (mo_init ?mo calls) msgs = Some (Ret bc')" for bc'
    using that pair_run[OF ht c(2) run(4,5) net[unfolded run(2)]] unfolding m(3) run(3) by simp
  have thr: "0 < total_threads [sr]" "total_threads [sr] < 2 ^ 31" by (simp_all add: run(3))
  have master: "mem_ops_ok ?mo" "write_law ?mo table_holds calls" "table_law ?mo table_holds pair_item 65"
    unfolding m(3) by (rule pair_ops_ok laws)+
  have lim: "rec_limit pair_args \<noteq> 0" by (simp add: pair_args_parts)
  have recs: "\<forall>r. length (pair_enc r) = 65" "0 < (65 :: nat)" "65 + 4 \<le> XCHG_BUFF_SIZE"
    "length (stored_records pair_enc pair_args [?s]) \<le> 2 ^ 40"
    by (simp_all add: pair_enc_def XCHG_BUFF_SIZE_def pair_site(3))
  have tot: "\<forall>k. nat_sum (map pair_item (stored_records pair_enc pair_args [?s])) k < 2 ^ 53"
    unfolding pair_site(3) using pair_sum by blast
  obtain mem where mem: "master_main_thread sample_libnf (mem_master pair_ops) pair_args sample_bufs (total_threads [sr]) msgs []
      = Some (Ret (me_print_batch (mem_master pair_ops) mem 2 []))"
    "top_n 2 [map pair_item (map pair_enc [1, 2, 3])] (take (unat (2 :: 64 word)) (map pair_item (mo_raw pair_ops mem)))"
    using tput_query_exact[where msgs = msgs and junk = sample_bufs and out = "[]", OF c(1) lim run(1) env agree m(1,2) master net thr recs tot]
    unfolding pair_args_parts(4) m(3) pair_site(3) by blast
  have "take (unat (2 :: 64 word)) (map pair_item (mo_raw pair_ops mem))
      = [(7, of_nat (nat_sum (map pair_item (map pair_enc [1, 2, 3])) 7))]"
    by (rule top_n_single[OF mem(2)]) (simp_all add: pair_enc_def nat_sum_def)
  then have "take 2 (map pair_item (mo_raw pair_ops mem)) = [(7, 6)]" by (simp add: pair_enc_def nat_sum_def)
  then show ?thesis using run(1) net mem(1) by auto
qed

end
