(* ===== verification/Spec2Isabelle.thy ===== *)
theory Spec2Isabelle
  imports Program Errwarn Tput_Query
begin

text \<open>
  fdistdump queries flow files on a cluster.  Every process parses the same command
  line; the process of rank 0 is the master, the others are slaves.  A slave finds
  the flow files of the queried time range, reads them in several threads, filters
  their records and sends records, or partial aggregations, to the master, which
  merges and prints them.  The libnf library reads, filters, sorts and aggregates
  records; MPI and OpenMP carry messages and threads.

  \<^bold>\<open>Common vocabulary.\<close>  A C call has an outcome of type \<open>res\<close> of
  \<open>Prelude\<close>: it returns, ends the program with an error code (\<open>ABORT\<close>), fails
  an assertion, leaves an array or touches a buffer MPI owns.  Integers whose width
  matters are words; loops that may not end are partial functions with values
  \<open>None\<close>.  \<open>Libnf\<close> holds the parameters that stand for libnf.

  \<^bold>\<open>Command line.\<close>  \<open>Cmdline_Args\<close> has the structures of \<open>arg_parse.h\<close> and
  \<open>output.h\<close>; \<open>Numbers\<close> the integer conversions, \<open>Time_Utc\<close> and
  \<open>Time_Range\<close> dates and their alignment to rotation intervals
  (\<open>arg_parse.c\<close>, \<open>common.c\<close>); \<open>Query_Fields\<close> the field lists
  (\<open>fields.c\<close>); \<open>Arg_Options\<close> and \<open>Arg_Parse\<close> the options and
  \<open>arg_parse\<close> itself.  The difference of two times is
  an \<open>int\<close>, which a range of more than 68 years overflows (\<open>tm_diff_overflows\<close>); the theorems
  that rest on it say so.  The theorems show that an accepted command line leaves a
  consistent configuration and that the parser returns for every command line whose numbers and
  times are not empty, whose dates \<open>mktime\<close> does not answer with -1 and whose time zone is short.

  \<^bold>\<open>Files.\<close>  \<open>Path_Array\<close> (\<open>path_array.c\<close>) generates the paths, from a
  directory tree or a time range; the file system is a parameter.  The recursion
  over directories takes fuel: every level makes the path longer by at least two
  characters and longer paths are skipped, so \<open>PATH_MAX + 2\<close> levels are enough.  The walk through
  a time range does not end when a name does not fit; \<open>path_array_gen_Ret\<close> has the conditions under which
  the generation ends with an array of files.
  \<open>Bfindex\<close> (\<open>bfindex.c\<close>) decides from an index whether a file may
  hold an address of the filter.  The index can hide matching records, from an \<open>or\<close> with one side that is not
  indexed and beyond 20 addresses for all threads of a process: the queries are proved exact
  under \<open>index_safe\<close> (\<open>Slave_List\<close>), a hypothesis that always holds without an index.

  \<^bold>\<open>Records.\<close>  \<open>Wire\<close> frames records, \<open>Send_Raw\<close> sends a memory and
  \<open>List_Mode\<close> a file (\<open>slave.c\<close>), \<open>Recv\<close> receives (\<open>master.c\<close>) in any
  interleaving of the senders; \<open>Summary\<close> has the counters, \<open>Libnf_Mem\<close> the
  configuration of libnf's memories (\<open>common.c\<close>), \<open>Tput\<close> both sides of the
  Top-N algorithm with the double arithmetic of \<open>Double\<close> (totals below
  \<open>2 ^ 53\<close>), and \<open>Progress_Bar\<close> the progress thread (up to \<open>2 ^ 40\<close>
  files, so that the rounding errors of the quotient stay below one percent).

  \<^bold>\<open>Processes.\<close>  \<open>Tput_Raw\<close> puts the phases of the Top-N algorithm on raw records,
  messages and broadcasts.  \<open>Slave\<close> is a whole slave process (\<open>slave_main\<close> of
  \<open>slave.c\<close>): the context of a thread, a file, the work after the files; its theorem is
  that the process returns, when the names fit, there is a sort key in sort mode and the filter is not empty.  \<open>Slave_List\<close> proves what the threads of one process send in
  list mode, for every interleaving of their atomic accesses to the shared counter and flag.
  \<open>Master\<close> (\<open>master.c\<close>) has the working modes and \<open>master_main\<close>; its theorem
  composes the master with any number of slaves and states what a list query prints.
  \<open>Mem_Query\<close> does so for the modes that keep records in libnf's memories, order and
  aggregation, with the documented behaviour of the memories as hypotheses.  \<open>Tput_Query\<close>
  carries the exactness of the Top-N algorithm over to whole processes: what every thread sends in
  the three phases, what the master broadcasts in between, and what it prints in the end.

  \<^bold>\<open>Output.\<close>  \<open>Decimal\<close> and \<open>Output_Str\<close> turn values into text (\<open>output.c\<close>),
  \<open>Output\<close> has the columns, the headers, the streams and the summaries, with a count of
  the bytes \<open>print_field\<close> writes past its array, \<open>Output_Table\<close> the lemmas on a printed
  batch.  The theorems show that the conversions are
  used at the types libnf documents for the fields, what can be read back from the text, that the lines of a table have
  the same columns, and how the widths of the columns fail.

  \<^bold>\<open>The whole.\<close>  \<open>Query\<close> puts \<open>Output\<close> in the place of the master's printing: a list
  query and an order query from the flow files to the bytes on the standard output.  \<open>Program\<close> is \<open>main.c\<close>:
  its theorem takes an accepted command line to the end of a slave process, under the conditions of \<open>Slave\<close>.  \<open>Errwarn\<close>
  (\<open>errwarn.c\<close>, \<open>errwarn.h\<close>) has the messages.

  \<^bold>\<open>Not modelled.\<close>  The texts of the help and the debug prints
  (\<open>fields_print_debug\<close>, the dump of the Bloom filter tree), the release of memory, the
  creation of the communicators and the start and end of MPI: they print or call a library and
  decide nothing.  \<open>getopt_long\<close>, \<open>strptime\<close>, \<open>localtime_r\<close>, the file system,
  libnf, the schedule of the threads and the order of the messages are parameters.
\<close>

end
